(* ===== verification/Eventuals_Prelude.thy ===== *)
theory Eventuals_Prelude
  imports Main "HOL-Library.Word"
begin

text \<open>
  Shared vocabulary of the development.

  \<^item> \<open>fault\<close> and \<open>'a res\<close>: a handler of the library either completes or runs into a failed
    \<^verbatim>\<open>CHECK\<close> (which aborts the process) or into undefined behaviour of C++ (a null dereference,
    \<^verbatim>\<open>front()\<close> of an empty \<^verbatim>\<open>std::deque\<close>, signed overflow). All are values of the model, as is an uncaught exception. \<open>NoSuchMethod\<close> marks
    a call of a member function the continuation does not have, which C++ rejects when compiling.
  \<^item> \<open>val\<close>: the values that flow through a pipeline. The templates of the library are instantiated
    at many C++ types; the model uses one tagged universe, so that pipelines whose stages have
    different value types are terms of one HOL type. \<open>VExpected v\<close> and \<open>VUnexpected e\<close> are the two
    cases of a \<^verbatim>\<open>tl::expected\<close>; \<open>VError e\<close> is an error object passed as an argument.
  \<^item> \<open>err\<close>: an error object, named by its class and its \<^verbatim>\<open>what()\<close> string.
  \<^item> \<open>signal\<close>, \<open>call\<close>, \<open>req\<close>: the protocol of a continuation. A value continuation receives exactly
    one of \<^verbatim>\<open>Start\<close>, \<^verbatim>\<open>Fail\<close>, \<^verbatim>\<open>Stop\<close>; a stream continuation also receives \<^verbatim>\<open>Begin\<close>, \<^verbatim>\<open>Body\<close>,
    \<^verbatim>\<open>Ended\<close>; and a \<^verbatim>\<open>TypeErasedStream\<close> receives \<^verbatim>\<open>Next\<close> and \<^verbatim>\<open>Done\<close>.
  \<^item> \<open>star\<close>: finite runs of a step relation, with the lemmas the machine proofs share.
\<close>

section \<open>Faults and results\<close>

datatype fault =
    CheckFailed string
  | NullDeref string
  | UndefinedBehaviour string
  | Exception string
  | NoSuchMethod

type_synonym 'a res = "fault + 'a"

definition rbind :: "'a res \<Rightarrow> ('a \<Rightarrow> 'b res) \<Rightarrow> 'b res" where
  "rbind r f = (case r of Inl x \<Rightarrow> Inl x | Inr a \<Rightarrow> f a)"

definition check :: "bool \<Rightarrow> string \<Rightarrow> 'a res \<Rightarrow> 'a res" where
  "check b msg r = (if b then r else Inl (CheckFailed msg))"

definition deref :: "'a option \<Rightarrow> string \<Rightarrow> ('a \<Rightarrow> 'b res) \<Rightarrow> 'b res" where
  "deref p msg f = (case p of None \<Rightarrow> Inl (NullDeref msg) | Some a \<Rightarrow> f a)"

lemma rbind_simps [simp]:
  "rbind (Inl x) f = Inl x"
  "rbind (Inr a) f = f a"
  by (simp_all add: rbind_def)

lemma rbind_Inr_iff [simp]: "rbind r f = Inr b \<longleftrightarrow> (\<exists>a. r = Inr a \<and> f a = Inr b)"
  by (cases r) auto

lemma rbind_assoc: "rbind (rbind r f) g = rbind r (\<lambda>a. rbind (f a) g)"
  by (cases r) auto

lemma check_simps [simp]:
  "check True msg r = r"
  "check False msg r = Inl (CheckFailed msg)"
  by (simp_all add: check_def)

lemma check_Inr_iff [simp]: "check b msg r = Inr a \<longleftrightarrow> b \<and> r = Inr a"
  by (simp add: check_def)

lemma deref_simps [simp]:
  "deref None msg f = Inl (NullDeref msg)"
  "deref (Some a) msg f = f a"
  by (simp_all add: deref_def)

lemma deref_Inr_iff [simp]: "deref p msg f = Inr b \<longleftrightarrow> (\<exists>a. p = Some a \<and> f a = Inr b)"
  by (cases p) auto

section \<open>Values, errors and the continuation protocol\<close>

type_synonym int32 = "32 word"
type_synonym size_t = "64 word"

datatype err = Error (err_type: string) (err_what: string)

datatype val =
    VVoid
  | VBool bool
  | VInt int32
  | VSize size_t
  | VStr string
  | VOpt "val option"
  | VVec "val list"
  | VObj nat
  | VExpected val
  | VUnexpected err
  | VError err

definition RuntimeError :: "string \<Rightarrow> err" where
  "RuntimeError s = Error ''RuntimeError'' s"

datatype signal =
    Started val
  | Failed err
  | Stopped

type_synonym sptr = nat
type_synonym ctx = nat

datatype call =
    Start val
  | Fail err
  | Stop
  | Begin sptr
  | Body val
  | Ended

datatype req = Next | Done

fun call_of_signal :: "signal \<Rightarrow> call" where
  "call_of_signal (Started v) = Start v"
| "call_of_signal (Failed e) = Fail e"
| "call_of_signal Stopped = Stop"

section \<open>Finite runs\<close>

inductive star :: "('a \<Rightarrow> 'a \<Rightarrow> bool) \<Rightarrow> 'a \<Rightarrow> 'a \<Rightarrow> bool" for r where
  star_refl [simp, intro]: "star r x x"
| star_step: "r x y \<Longrightarrow> star r y z \<Longrightarrow> star r x z"

lemma star_one [intro]: "r x y \<Longrightarrow> star r x y"
  by (blast intro: star_step)

lemma star_trans: "star r x y \<Longrightarrow> star r y z \<Longrightarrow> star r x z"
  by (induction rule: star.induct) (auto intro: star_step)

lemma star_invariant:
  assumes "star r x y" and "P x" and "\<And>a b. r a b \<Longrightarrow> P a \<Longrightarrow> P b"
  shows "P y"
  using assms by (induction rule: star.induct) blast+

lemma star_map:
  assumes "star r x y" and "\<And>a b. r a b \<Longrightarrow> r' (h a) (h b)"
  shows "star r' (h x) (h y)"
  using assms(1) by (induction rule: star.induct) (auto intro: star_step assms(2))

end
