(* ===== verification/Stream_Stages.thy ===== *)
theory Stream_Stages
  imports Eventuals_Prelude
begin

text \<open>
  The stream combinators of the library, one record and one handler per continuation class:
  \<^verbatim>\<open>stream.h\<close>, \<^verbatim>\<open>loop.h\<close>, \<^verbatim>\<open>map.h\<close>, \<^verbatim>\<open>filter.h\<close>, \<^verbatim>\<open>take.h\<close>, \<^verbatim>\<open>until.h\<close>, \<^verbatim>\<open>range.h\<close>, \<^verbatim>\<open>repeat.h\<close>,
  \<^verbatim>\<open>iterate.h\<close>, \<^verbatim>\<open>head.h\<close>, \<^verbatim>\<open>reduce.h\<close>, \<^verbatim>\<open>flat-map.h\<close>, \<^verbatim>\<open>collect.h\<close>, \<^verbatim>\<open>on-begin.h\<close>, \<^verbatim>\<open>on-ended.h\<close>.

  A handler receives the address of its own continuation (\<^verbatim>\<open>this\<close>), the scheduler context it runs
  in, its state and one member function call. Every member function of these classes ends with
  exactly one call, either on its own \<^verbatim>\<open>k_\<close> or on a \<^verbatim>\<open>TypeErasedStream\<close> it was given, either
  directly (\<open>Now\<close>) or inside \<^verbatim>\<open>previous_->Continue(...)\<close> (\<open>Via\<close> that context). The handler returns
  the new state and that call, or a fault.
\<close>

section \<open>What a handler emits\<close>

datatype dest = ToK call | ToStream sptr req

datatype out = Now dest | Via ctx dest

datatype input = Call call | Req req

section \<open>stream.h: the stream builder's continuation\<close>

text \<open>The calls a callback of \<^verbatim>\<open>Stream<T>()\<close> can make on the adaptor it is handed.\<close>

datatype adaptor_call = A_Begin | A_Emit val | A_Ended | A_Fail err | A_Stop

record 'c stream_k =
  s_context :: 'c
  s_begin :: "('c \<Rightarrow> val \<Rightarrow> ('c \<times> adaptor_call) res) option"
  s_next :: "'c \<Rightarrow> ('c \<times> adaptor_call) res"
  s_done :: "('c \<Rightarrow> ('c \<times> adaptor_call) res) option"
  s_fail :: "('c \<Rightarrow> err \<Rightarrow> ('c \<times> adaptor_call) res) option"
  s_stop :: "('c \<Rightarrow> ('c \<times> adaptor_call) res) option"
  s_previous :: "ctx option"

fun stream_adaptor :: "sptr \<Rightarrow> adaptor_call \<Rightarrow> call" where
  "stream_adaptor this A_Begin = Begin this"
| "stream_adaptor this (A_Emit v) = Body v"
| "stream_adaptor this A_Ended = Ended"
| "stream_adaptor this (A_Fail e) = Fail e"
| "stream_adaptor this A_Stop = Stop"

definition stream_bind_adaptor :: "ctx \<Rightarrow> 'c stream_k \<Rightarrow> 'c stream_k" where
  "stream_bind_adaptor cur s =
     (case s_previous s of None \<Rightarrow> s\<lparr>s_previous := Some cur\<rparr> | Some _ \<Rightarrow> s)"

definition stream_emit ::
    "sptr \<Rightarrow> 'c stream_k \<Rightarrow> ('c \<times> adaptor_call) res \<Rightarrow> ('c stream_k \<times> out) res" where
  "stream_emit this s r =
     deref (s_previous s) ''previous_'' (\<lambda>p. rbind r (\<lambda>(c, a).
       Inr (s\<lparr>s_context := c\<rparr>, Via p (ToK (stream_adaptor this a)))))"

fun stream_handle ::
    "sptr \<Rightarrow> ctx \<Rightarrow> 'c stream_k \<Rightarrow> input \<Rightarrow> ('c stream_k \<times> out) res" where
  "stream_handle this cur s (Call (Start v)) =
     (let s = stream_bind_adaptor cur s in
      case s_begin s of
        None \<Rightarrow> stream_emit this s (Inr (s_context s, A_Begin))
      | Some f \<Rightarrow> stream_emit this s (f (s_context s) v))"
| "stream_handle this cur s (Call (Fail e)) =
     (let s = stream_bind_adaptor cur s in
      case s_fail s of
        None \<Rightarrow> Inr (s, Now (ToK (Fail e)))
      | Some f \<Rightarrow> stream_emit this s (f (s_context s) e))"
| "stream_handle this cur s (Call Stop) =
     (let s = stream_bind_adaptor cur s in
      case s_stop s of
        None \<Rightarrow> stream_emit this s (Inr (s_context s, A_Stop))
      | Some f \<Rightarrow> stream_emit this s (f (s_context s)))"
| "stream_handle this cur s (Req Next) = stream_emit this s (s_next s (s_context s))"
| "stream_handle this cur s (Req Done) =
     (case s_done s of
        None \<Rightarrow> stream_emit this s (Inr (s_context s, A_Ended))
      | Some f \<Rightarrow> stream_emit this s (f (s_context s)))"
| "stream_handle this cur s _ = Inl NoSuchMethod"

section \<open>iterate.h: streams over containers\<close>

text \<open>
  \<open>iterate_data\<close> is the \<^verbatim>\<open>struct Data\<close> of \<^verbatim>\<open>Iterate(Container&&)\<close>: the container, and the iterator
  which is only set when the stream begins; \<^verbatim>\<open>begin.value()\<close> of an unset optional throws.
  \<open>Iterate\<close> builds the stream continuation from the three callbacks; \<open>Iterate_ptr\<close> is the pointer
  (and iterator pair) overload, whose iterator is set by the lambda capture.
\<close>

record iterate_data =
  container :: "val list"
  iter :: "nat option"

definition iterate_begin :: "iterate_data \<Rightarrow> val \<Rightarrow> (iterate_data \<times> adaptor_call) res" where
  "iterate_begin d v = Inr (d\<lparr>iter := Some 0\<rparr>, A_Begin)"

definition iterate_next :: "iterate_data \<Rightarrow> (iterate_data \<times> adaptor_call) res" where
  "iterate_next d =
     (case iter d of
        None \<Rightarrow> Inl (Exception ''std::bad_optional_access'')
      | Some i \<Rightarrow>
          if i \<noteq> length (container d)
          then Inr (d\<lparr>iter := Some (Suc i)\<rparr>, A_Emit (container d ! i))
          else Inr (d, A_Ended))"

definition iterate_done :: "iterate_data \<Rightarrow> (iterate_data \<times> adaptor_call) res" where
  "iterate_done d = Inr (d, A_Ended)"

definition Iterate :: "val list \<Rightarrow> iterate_data stream_k" where
  "Iterate xs =
     \<lparr>s_context = \<lparr>container = xs, iter = None\<rparr>, s_begin = Some iterate_begin,
      s_next = iterate_next, s_done = Some iterate_done, s_fail = None, s_stop = None,
      s_previous = None\<rparr>"

definition Iterate_ptr :: "val list \<Rightarrow> iterate_data stream_k" where
  "Iterate_ptr xs =
     \<lparr>s_context = \<lparr>container = xs, iter = Some 0\<rparr>, s_begin = None,
      s_next = iterate_next, s_done = Some iterate_done, s_fail = None, s_stop = None,
      s_previous = None\<rparr>"

section \<open>range.h\<close>

record range_k =
  r_from :: int32
  r_to :: int32
  r_step :: int32
  r_previous :: "ctx option"

definition Range :: "int32 \<Rightarrow> int32 \<Rightarrow> int32 \<Rightarrow> range_k" where
  "Range from to step = \<lparr>r_from = from, r_to = to, r_step = step, r_previous = None\<rparr>"

definition range_ended :: "range_k \<Rightarrow> bool" where
  "range_ended s \<longleftrightarrow>
     r_from s = r_to s
     \<or> r_step s = 0
     \<or> (sint (r_from s) > sint (r_to s) \<and> sint (r_step s) > 0)
     \<or> (sint (r_from s) < sint (r_to s) \<and> sint (r_step s) < 0)"

definition int32_add_overflows :: "int32 \<Rightarrow> int32 \<Rightarrow> bool" where
  "int32_add_overflows a b \<longleftrightarrow> \<not> (- (2 ^ 31) \<le> sint a + sint b \<and> sint a + sint b < 2 ^ 31)"

fun range_handle :: "sptr \<Rightarrow> ctx \<Rightarrow> range_k \<Rightarrow> input \<Rightarrow> (range_k \<times> out) res" where
  "range_handle this cur s (Call (Start v)) =
     Inr (s\<lparr>r_previous := Some cur\<rparr>, Now (ToK (Begin this)))"
| "range_handle this cur s (Call (Fail e)) = Inr (s, Now (ToK (Fail e)))"
| "range_handle this cur s (Call Stop) = Inr (s, Now (ToK Stop))"
| "range_handle this cur s (Call Ended) = Inr (s, Now (ToK Ended))"
| "range_handle this cur s (Req Next) =
     (if range_ended s then Inr (s, Now (ToK Ended))
      else deref (r_previous s) ''previous_'' (\<lambda>p.
        if int32_add_overflows (r_from s) (r_step s)
        then Inl (UndefinedBehaviour ''signed overflow'')
        else Inr (s\<lparr>r_from := r_from s + r_step s\<rparr>, Via p (ToK (Body (VInt (r_from s)))))))"
| "range_handle this cur s (Req Done) =
     deref (r_previous s) ''previous_'' (\<lambda>p. Inr (s, Via p (ToK Ended)))"
| "range_handle this cur s _ = Inl NoSuchMethod"

section \<open>repeat.h\<close>

record repeat_k =
  rp_previous :: "ctx option"

definition Repeat :: repeat_k where
  "Repeat = \<lparr>rp_previous = None\<rparr>"

fun repeat_handle :: "sptr \<Rightarrow> ctx \<Rightarrow> repeat_k \<Rightarrow> input \<Rightarrow> (repeat_k \<times> out) res" where
  "repeat_handle this cur s (Call (Start v)) =
     Inr (s\<lparr>rp_previous := Some cur\<rparr>, Now (ToK (Begin this)))"
| "repeat_handle this cur s (Call (Fail e)) = Inr (s, Now (ToK (Fail e)))"
| "repeat_handle this cur s (Call Stop) = Inr (s, Now (ToK Stop))"
| "repeat_handle this cur s (Req Next) =
     deref (rp_previous s) ''previous_'' (\<lambda>p. Inr (s, Via p (ToK (Body VVoid))))"
| "repeat_handle this cur s (Req Done) =
     deref (rp_previous s) ''previous_'' (\<lambda>p. Inr (s, Via p (ToK Ended)))"
| "repeat_handle this cur s _ = Inl NoSuchMethod"

section \<open>map.h\<close>

text \<open>
  \<open>m_e\<close> is the eventual \<^verbatim>\<open>e_\<close> of the map, given by the signal it delivers to its adaptor for an
  argument. \<^verbatim>\<open>adapted_\<close> is built by the first \<^verbatim>\<open>Body\<close> and reused by the following ones.
\<close>

record map_k =
  m_e :: "val \<Rightarrow> signal"
  m_adapted :: bool

definition Map_e :: "(val \<Rightarrow> signal) \<Rightarrow> map_k" where
  "Map_e e = \<lparr>m_e = e, m_adapted = False\<rparr>"

definition Map :: "(val \<Rightarrow> val) \<Rightarrow> map_k" where
  "Map f = Map_e (\<lambda>v. Started (f v))"

fun map_adaptor :: "signal \<Rightarrow> call" where
  "map_adaptor (Started v) = Body v"
| "map_adaptor (Failed e) = Fail e"
| "map_adaptor Stopped = Stop"

fun map_handle :: "map_k \<Rightarrow> input \<Rightarrow> (map_k \<times> out) res" where
  "map_handle s (Call (Begin p)) = Inr (s, Now (ToK (Begin p)))"
| "map_handle s (Call (Fail e)) = Inr (s, Now (ToK (Fail e)))"
| "map_handle s (Call Stop) = Inr (s, Now (ToK Stop))"
| "map_handle s (Call (Body v)) =
     Inr (s\<lparr>m_adapted := True\<rparr>, Now (ToK (map_adaptor (m_e s v))))"
| "map_handle s (Call Ended) = Inr (s, Now (ToK Ended))"
| "map_handle s _ = Inl NoSuchMethod"

text \<open>\<^verbatim>\<open>Map >> Map\<close> is fused into one continuation over the composed eventual.\<close>

definition signal_bind :: "signal \<Rightarrow> (val \<Rightarrow> signal) \<Rightarrow> signal" where
  "signal_bind r f = (case r of Started v \<Rightarrow> f v | Failed e \<Rightarrow> Failed e | Stopped \<Rightarrow> Stopped)"

definition map_fuse :: "map_k \<Rightarrow> map_k \<Rightarrow> map_k" where
  "map_fuse a b = Map_e (\<lambda>v. signal_bind (m_e a v) (m_e b))"

section \<open>filter.h\<close>

record filter_k =
  f_f :: "val \<Rightarrow> bool"
  f_stream :: "sptr option"

definition Filter :: "(val \<Rightarrow> bool) \<Rightarrow> filter_k" where
  "Filter f = \<lparr>f_f = f, f_stream = None\<rparr>"

fun filter_handle :: "filter_k \<Rightarrow> input \<Rightarrow> (filter_k \<times> out) res" where
  "filter_handle s (Call (Begin p)) = Inr (s\<lparr>f_stream := Some p\<rparr>, Now (ToK (Begin p)))"
| "filter_handle s (Call (Fail e)) = Inr (s, Now (ToK (Fail e)))"
| "filter_handle s (Call Stop) = Inr (s, Now (ToK Stop))"
| "filter_handle s (Call (Body v)) =
     (if f_f s v then Inr (s, Now (ToK (Body v)))
      else deref (f_stream s) ''stream_'' (\<lambda>p. Inr (s, Now (ToStream p Next))))"
| "filter_handle s (Call Ended) = Inr (s, Now (ToK Ended))"
| "filter_handle s _ = Inl NoSuchMethod"

section \<open>take.h: TakeLast\<close>

record take_last_k =
  tl_n :: size_t
  tl_data :: "val list"
  tl_ended :: bool
  tl_stream :: "sptr option"
  tl_previous :: "ctx option"

definition TakeLast :: "size_t \<Rightarrow> take_last_k" where
  "TakeLast n = \<lparr>tl_n = n, tl_data = [], tl_ended = False, tl_stream = None, tl_previous = None\<rparr>"

text \<open>\<^verbatim>\<open>front()\<close> and \<^verbatim>\<open>pop_front()\<close> of an empty \<^verbatim>\<open>std::deque\<close> are undefined behaviour.\<close>

definition pop_front :: "'a list \<Rightarrow> ('a \<times> 'a list) res" where
  "pop_front d = (case d of [] \<Rightarrow> Inl (UndefinedBehaviour ''pop_front of an empty deque'')
                          | x # xs \<Rightarrow> Inr (x, xs))"

fun take_last_handle :: "sptr \<Rightarrow> ctx \<Rightarrow> take_last_k \<Rightarrow> input \<Rightarrow> (take_last_k \<times> out) res" where
  "take_last_handle this cur s (Call (Begin p)) =
     Inr (s\<lparr>tl_stream := Some p, tl_previous := Some cur\<rparr>, Now (ToK (Begin this)))"
| "take_last_handle this cur s (Call (Fail e)) = Inr (s, Now (ToK (Fail e)))"
| "take_last_handle this cur s (Call Stop) = Inr (s, Now (ToK Stop))"
| "take_last_handle this cur s (Call (Body v)) =
     rbind (if length (tl_data s) = unat (tl_n s)
            then rbind (pop_front (tl_data s)) (\<lambda>(_, d). Inr d)
            else Inr (tl_data s)) (\<lambda>d.
     deref (tl_stream s) ''stream_'' (\<lambda>p.
       Inr (s\<lparr>tl_data := d @ [v]\<rparr>, Now (ToStream p Next))))"
| "take_last_handle this cur s (Call Ended) =
     rbind (pop_front (tl_data s)) (\<lambda>(v, d).
       Inr (s\<lparr>tl_n := min (tl_n s) (of_nat (length (tl_data s))), tl_ended := True, tl_data := d\<rparr>,
            Now (ToK (Body v))))"
| "take_last_handle this cur s (Req Next) =
     deref (tl_previous s) ''previous_'' (\<lambda>c.
       if \<not> tl_ended s
       then deref (tl_stream s) ''stream_'' (\<lambda>p. Inr (s, Via c (ToStream p Next)))
       else (case tl_data s of
               [] \<Rightarrow> Inr (s, Via c (ToK Ended))
             | v # d \<Rightarrow> Inr (s\<lparr>tl_data := d\<rparr>, Via c (ToK (Body v)))))"
| "take_last_handle this cur s (Req Done) =
     deref (tl_previous s) ''previous_'' (\<lambda>c. Inr (s, Via c (ToK Ended)))"
| "take_last_handle this cur s _ = Inl NoSuchMethod"

section \<open>take.h: TakeRange and TakeFirst\<close>

record take_range_k =
  tr_begin :: size_t
  tr_amount :: size_t
  tr_i :: size_t
  tr_stream :: "sptr option"
  tr_previous :: "ctx option"

definition TakeRange :: "size_t \<Rightarrow> size_t \<Rightarrow> take_range_k" where
  "TakeRange b n = \<lparr>tr_begin = b, tr_amount = n, tr_i = 0, tr_stream = None, tr_previous = None\<rparr>"

definition TakeFirst :: "size_t \<Rightarrow> take_range_k" where
  "TakeFirst n = TakeRange 0 n"

fun take_range_handle :: "sptr \<Rightarrow> ctx \<Rightarrow> take_range_k \<Rightarrow> input \<Rightarrow> (take_range_k \<times> out) res" where
  "take_range_handle this cur s (Call (Begin p)) =
     Inr (s\<lparr>tr_stream := Some p, tr_previous := Some cur\<rparr>, Now (ToK (Begin this)))"
| "take_range_handle this cur s (Call (Fail e)) = Inr (s, Now (ToK (Fail e)))"
| "take_range_handle this cur s (Call Stop) = Inr (s, Now (ToK Stop))"
| "take_range_handle this cur s (Call (Body v)) =
     (if tr_begin s \<le> tr_i s \<and> tr_i s < tr_begin s + tr_amount s
      then Inr (s\<lparr>tr_i := tr_i s + 1\<rparr>, Now (ToK (Body v)))
      else if tr_i s < tr_begin s
      then deref (tr_stream s) ''stream_'' (\<lambda>p.
             Inr (s\<lparr>tr_i := tr_i s + 1\<rparr>, Now (ToStream p Next)))
      else check (tr_i s = tr_begin s + tr_amount s) ''i_ == begin_ + amount_''
             (deref (tr_stream s) ''stream_'' (\<lambda>p. Inr (s, Now (ToStream p Done)))))"
| "take_range_handle this cur s (Call Ended) = Inr (s, Now (ToK Ended))"
| "take_range_handle this cur s (Req Next) =
     deref (tr_previous s) ''previous_'' (\<lambda>c.
       if tr_i s < tr_begin s + tr_amount s
       then deref (tr_stream s) ''stream_'' (\<lambda>p. Inr (s, Via c (ToStream p Next)))
       else check (tr_i s = tr_begin s + tr_amount s) ''i_ == begin_ + amount_''
              (deref (tr_stream s) ''stream_'' (\<lambda>p. Inr (s, Via c (ToStream p Done)))))"
| "take_range_handle this cur s (Req Done) =
     deref (tr_previous s) ''previous_'' (\<lambda>c.
       deref (tr_stream s) ''stream_'' (\<lambda>p. Inr (s, Via c (ToStream p Done))))"
| "take_range_handle this cur s _ = Inl NoSuchMethod"

section \<open>until.h\<close>

text \<open>
  \<open>until_k\<close> is the specialisation for a callable returning \<^verbatim>\<open>bool\<close>, \<open>until_e_k\<close> the one for a
  callable returning an eventual, given by the signal that eventual delivers to the adaptor.
\<close>

record until_k =
  u_f :: "val \<Rightarrow> bool"
  u_stream :: "sptr option"

definition Until :: "(val \<Rightarrow> bool) \<Rightarrow> until_k" where
  "Until f = \<lparr>u_f = f, u_stream = None\<rparr>"

fun until_handle :: "until_k \<Rightarrow> input \<Rightarrow> (until_k \<times> out) res" where
  "until_handle s (Call (Begin p)) = Inr (s\<lparr>u_stream := Some p\<rparr>, Now (ToK (Begin p)))"
| "until_handle s (Call (Fail e)) = Inr (s, Now (ToK (Fail e)))"
| "until_handle s (Call Stop) = Inr (s, Now (ToK Stop))"
| "until_handle s (Call (Body v)) =
     (if u_f s v then deref (u_stream s) ''stream_'' (\<lambda>p. Inr (s, Now (ToStream p Done)))
      else Inr (s, Now (ToK (Body v))))"
| "until_handle s (Call Ended) = Inr (s, Now (ToK Ended))"
| "until_handle s _ = Inl NoSuchMethod"

record until_e_k =
  ue_f :: "val \<Rightarrow> signal"
  ue_stream :: "sptr option"
  ue_arg :: "val option"

definition Until_e :: "(val \<Rightarrow> signal) \<Rightarrow> until_e_k" where
  "Until_e f = \<lparr>ue_f = f, ue_stream = None, ue_arg = None\<rparr>"

fun until_adaptor :: "val \<Rightarrow> sptr \<Rightarrow> signal \<Rightarrow> dest res" where
  "until_adaptor arg p (Started (VBool done)) =
     Inr (if done then ToStream p Done else ToK (Body arg))"
| "until_adaptor arg p (Started _) = Inl NoSuchMethod"
| "until_adaptor arg p (Failed e) = Inr (ToK (Fail e))"
| "until_adaptor arg p Stopped = Inr (ToK Stop)"

fun until_e_handle :: "until_e_k \<Rightarrow> input \<Rightarrow> (until_e_k \<times> out) res" where
  "until_e_handle s (Call (Begin p)) = Inr (s\<lparr>ue_stream := Some p\<rparr>, Now (ToK (Begin p)))"
| "until_e_handle s (Call (Fail e)) = Inr (s, Now (ToK (Fail e)))"
| "until_e_handle s (Call Stop) = Inr (s, Now (ToK Stop))"
| "until_e_handle s (Call (Body v)) =
     deref (ue_stream s) ''stream_'' (\<lambda>p.
       rbind (until_adaptor v p (ue_f s v)) (\<lambda>d. Inr (s\<lparr>ue_arg := Some v\<rparr>, Now d)))"
| "until_e_handle s (Call Ended) = Inr (s, Now (ToK Ended))"
| "until_e_handle s _ = Inl NoSuchMethod"

section \<open>on-begin.h and on-ended.h\<close>

text \<open>
  The eventual \<^verbatim>\<open>e_\<close> is \<^verbatim>\<open>Then(f)\<close>, and \<^verbatim>\<open>f\<close> returns nothing and raises nothing: it is given by what it does to the state that it captures. Starting it moves \<^verbatim>\<open>e_\<close> into \<^verbatim>\<open>adapted_\<close>, so that it can be started
  once.
\<close>

record on_begin_k =
  ob_f :: "val \<Rightarrow> val"
  ob_state :: val
  ob_adapted :: bool

definition OnBegin :: "(val \<Rightarrow> val) \<Rightarrow> val \<Rightarrow> on_begin_k" where
  "OnBegin f u = \<lparr>ob_f = f, ob_state = u, ob_adapted = False\<rparr>"

fun on_begin_handle :: "on_begin_k \<Rightarrow> input \<Rightarrow> (on_begin_k \<times> out) res" where
  "on_begin_handle s (Call (Begin p)) =
     (if ob_adapted s then Inl (UndefinedBehaviour ''use of a moved eventual'')
      else Inr (s\<lparr>ob_adapted := True, ob_state := ob_f s (ob_state s)\<rparr>, Now (ToK (Begin p))))"
| "on_begin_handle s (Call (Fail e)) = Inr (s, Now (ToK (Fail e)))"
| "on_begin_handle s (Call Stop) = Inr (s, Now (ToK Stop))"
| "on_begin_handle s (Call (Body v)) = Inr (s, Now (ToK (Body v)))"
| "on_begin_handle s (Call Ended) = Inr (s, Now (ToK Ended))"
| "on_begin_handle s _ = Inl NoSuchMethod"

record on_ended_k =
  oe_f :: "val \<Rightarrow> val"
  oe_state :: val
  oe_adapted :: bool
  oe_previous :: "ctx option"

definition OnEnded :: "(val \<Rightarrow> val) \<Rightarrow> val \<Rightarrow> on_ended_k" where
  "OnEnded f u = \<lparr>oe_f = f, oe_state = u, oe_adapted = False, oe_previous = None\<rparr>"

fun on_ended_handle :: "ctx \<Rightarrow> on_ended_k \<Rightarrow> input \<Rightarrow> (on_ended_k \<times> out) res" where
  "on_ended_handle cur s (Call (Begin p)) = Inr (s\<lparr>oe_previous := Some cur\<rparr>, Now (ToK (Begin p)))"
| "on_ended_handle cur s (Call (Fail e)) = Inr (s, Now (ToK (Fail e)))"
| "on_ended_handle cur s (Call Stop) = Inr (s, Now (ToK Stop))"
| "on_ended_handle cur s (Call (Body v)) = Inr (s, Now (ToK (Body v)))"
| "on_ended_handle cur s (Call Ended) =
     deref (oe_previous s) ''previous_'' (\<lambda>c.
       if oe_adapted s then Inl (UndefinedBehaviour ''use of a moved eventual'')
       else Inr (s\<lparr>oe_adapted := True, oe_state := oe_f s (oe_state s)\<rparr>, Via c (ToK Ended)))"
| "on_ended_handle cur s _ = Inl NoSuchMethod"

section \<open>head.h\<close>

record head_k =
  h_arg :: "val option"
  h_stream :: "sptr option"

definition Head :: head_k where
  "Head = \<lparr>h_arg = None, h_stream = None\<rparr>"

fun head_handle :: "head_k \<Rightarrow> input \<Rightarrow> (head_k \<times> out) res" where
  "head_handle s (Call (Begin p)) = Inr (s\<lparr>h_stream := Some p\<rparr>, Now (ToStream p Next))"
| "head_handle s (Call (Fail e)) = Inr (s, Now (ToK (Fail e)))"
| "head_handle s (Call Stop) = Inr (s, Now (ToK Stop))"
| "head_handle s (Call (Body v)) =
     (case h_stream s of
        None \<Rightarrow> Inl (CheckFailed ''stream_ != nullptr'')
      | Some p \<Rightarrow> Inr (s\<lparr>h_arg := Some v\<rparr>, Now (ToStream p Done)))"
| "head_handle s (Call Ended) =
     Inr (s, Now (ToK (case h_arg s of
                         Some v \<Rightarrow> Start v
                       | None \<Rightarrow> Fail (RuntimeError ''empty stream''))))"
| "head_handle s _ = Inl NoSuchMethod"

section \<open>reduce.h\<close>

text \<open>
  \<open>rd_e\<close> is the eventual \<^verbatim>\<open>f_(t_)\<close> built by the first \<^verbatim>\<open>Body\<close> and reused by the others: it holds a
  reference to the accumulator, so starting it with an argument gives a new accumulator and the
  signal delivered to the adaptor.
\<close>

record reduce_k =
  rd_t :: val
  rd_e :: "val \<Rightarrow> val \<Rightarrow> val \<times> signal"
  rd_stream :: "sptr option"
  rd_adapted :: bool

definition Reduce :: "val \<Rightarrow> (val \<Rightarrow> val \<Rightarrow> val \<times> signal) \<Rightarrow> reduce_k" where
  "Reduce t f = \<lparr>rd_t = t, rd_e = f, rd_stream = None, rd_adapted = False\<rparr>"

fun reduce_adaptor :: "sptr option \<Rightarrow> signal \<Rightarrow> dest res" where
  "reduce_adaptor st (Started (VBool nxt)) =
     deref st ''stream_'' (\<lambda>p. Inr (ToStream p (if nxt then Next else Done)))"
| "reduce_adaptor st (Started _) = Inl NoSuchMethod"
| "reduce_adaptor st (Failed e) = Inr (ToK (Fail e))"
| "reduce_adaptor st Stopped = Inr (ToK Stop)"

fun reduce_handle :: "reduce_k \<Rightarrow> input \<Rightarrow> (reduce_k \<times> out) res" where
  "reduce_handle s (Call (Begin p)) = Inr (s\<lparr>rd_stream := Some p\<rparr>, Now (ToStream p Next))"
| "reduce_handle s (Call (Fail e)) = Inr (s, Now (ToK (Fail e)))"
| "reduce_handle s (Call Stop) = Inr (s, Now (ToK Stop))"
| "reduce_handle s (Call (Body v)) =
     (case rd_e s (rd_t s) v of (t, r) \<Rightarrow>
        rbind (reduce_adaptor (rd_stream s) r) (\<lambda>d.
          Inr (s\<lparr>rd_t := t, rd_adapted := True\<rparr>, Now d)))"
| "reduce_handle s (Call Ended) = Inr (s, Now (ToK (Start (rd_t s))))"
| "reduce_handle s _ = Inl NoSuchMethod"

section \<open>flat-map.h\<close>

text \<open>
  The inner eventual returned by \<^verbatim>\<open>f_\<close> is any stream; it is given by its state type \<open>'i\<close> and by the
  call it makes on the adaptor when it is started, asked for the next value, or told it is done.
\<close>

record 'i flat_map_k =
  fm_f :: "val \<Rightarrow> 'i"
  fm_start :: "'i \<Rightarrow> ('i \<times> call) res"
  fm_next :: "'i \<Rightarrow> ('i \<times> call) res"
  fm_done :: "'i \<Rightarrow> ('i \<times> call) res"
  fm_outer :: "sptr option"
  fm_inner :: "sptr option"
  fm_adapted :: "'i option"
  fm_is_done :: bool
  fm_previous :: "ctx option"

definition FlatMap ::
    "(val \<Rightarrow> 'i) \<Rightarrow> ('i \<Rightarrow> ('i \<times> call) res) \<Rightarrow> ('i \<Rightarrow> ('i \<times> call) res) \<Rightarrow>
     ('i \<Rightarrow> ('i \<times> call) res) \<Rightarrow> 'i flat_map_k" where
  "FlatMap f st nx dn =
     \<lparr>fm_f = f, fm_start = st, fm_next = nx, fm_done = dn, fm_outer = None, fm_inner = None,
      fm_adapted = None, fm_is_done = False, fm_previous = None\<rparr>"

text \<open>The adaptor's \<^verbatim>\<open>Body\<close>, \<^verbatim>\<open>Ended\<close>, \<^verbatim>\<open>Stop\<close>, \<^verbatim>\<open>Fail\<close>, and the checks a second \<^verbatim>\<open>Begin\<close> fails.\<close>

fun flat_map_deliver :: "'i flat_map_k \<Rightarrow> call \<Rightarrow> ('i flat_map_k \<times> dest) res" where
  "flat_map_deliver s (Body v) = Inr (s, ToK (Body v))"
| "flat_map_deliver s Ended =
     check (fm_adapted s \<noteq> None) ''adapted_.has_value()''
       (check (fm_inner s \<noteq> None) ''inner_ != nullptr''
         (deref (fm_outer s) ''outer_'' (\<lambda>p.
           Inr (s\<lparr>fm_adapted := None, fm_inner := None\<rparr>,
                ToStream p (if fm_is_done s then Done else Next)))))"
| "flat_map_deliver s Stop = Inr (s\<lparr>fm_is_done := True\<rparr>, ToK Stop)"
| "flat_map_deliver s (Fail e) = Inr (s, ToK (Fail e))"
| "flat_map_deliver s (Begin p) = Inl (CheckFailed ''inner_ == nullptr'')"
| "flat_map_deliver s (Start v) = Inl NoSuchMethod"

definition flat_map_inner ::
    "('i \<Rightarrow> ('i \<times> call) res) \<Rightarrow> 'i flat_map_k \<Rightarrow> ('i flat_map_k \<times> dest) res" where
  "flat_map_inner f s =
     (case fm_adapted s of
        None \<Rightarrow> Inl (CheckFailed ''adapted_.has_value()'')
      | Some i \<Rightarrow> rbind (f i) (\<lambda>(i', c). flat_map_deliver (s\<lparr>fm_adapted := Some i'\<rparr>) c))"

text \<open>The adaptor's \<^verbatim>\<open>Begin\<close> stores the inner stream and asks it for its first value.\<close>

fun flat_map_adaptor :: "'i flat_map_k \<Rightarrow> call \<Rightarrow> ('i flat_map_k \<times> dest) res" where
  "flat_map_adaptor s (Begin p) =
     check (fm_adapted s \<noteq> None) ''adapted_.has_value()''
       (check (fm_inner s = None) ''inner_ == nullptr''
         (flat_map_inner (fm_next s) (s\<lparr>fm_inner := Some p\<rparr>)))"
| "flat_map_adaptor s c = flat_map_deliver s c"

definition via :: "ctx option \<Rightarrow> ('s \<times> dest) res \<Rightarrow> ('s \<times> out) res" where
  "via p r = deref p ''previous_'' (\<lambda>c. rbind r (\<lambda>(s, d). Inr (s, Via c d)))"

fun flat_map_handle ::
    "sptr \<Rightarrow> ctx \<Rightarrow> 'i flat_map_k \<Rightarrow> input \<Rightarrow> ('i flat_map_k \<times> out) res" where
  "flat_map_handle this cur s (Call (Begin p)) =
     Inr (s\<lparr>fm_outer := Some p, fm_previous := Some cur\<rparr>, Now (ToK (Begin this)))"
| "flat_map_handle this cur s (Call (Fail e)) = Inr (s, Now (ToK (Fail e)))"
| "flat_map_handle this cur s (Call Stop) = Inr (s\<lparr>fm_is_done := True\<rparr>, Now (ToK Stop))"
| "flat_map_handle this cur s (Call (Body v)) =
     check (fm_adapted s = None) ''!adapted_.has_value()''
       (rbind (fm_start s (fm_f s v)) (\<lambda>(i, c).
         rbind (flat_map_adaptor (s\<lparr>fm_adapted := Some i\<rparr>) c) (\<lambda>(s', d). Inr (s', Now d))))"
| "flat_map_handle this cur s (Call Ended) =
     check (fm_adapted s = None) ''!adapted_.has_value()'' (Inr (s, Now (ToK Ended)))"
| "flat_map_handle this cur s (Req Next) =
     via (fm_previous s)
       (if fm_adapted s \<noteq> None
        then check (fm_inner s \<noteq> None) ''inner_'' (flat_map_inner (fm_next s) s)
        else deref (fm_outer s) ''outer_'' (\<lambda>p. Inr (s, ToStream p Next)))"
| "flat_map_handle this cur s (Req Done) =
     via (fm_previous s)
       (let s = s\<lparr>fm_is_done := True\<rparr> in
        if fm_adapted s \<noteq> None
        then check (fm_inner s \<noteq> None) ''inner_'' (flat_map_inner (fm_done s) s)
        else deref (fm_outer s) ''outer_'' (\<lambda>p. Inr (s, ToStream p Done)))"
| "flat_map_handle this cur s _ = Inl NoSuchMethod"

section \<open>loop.h: the loop builder's continuation\<close>

text \<open>
  The continuation \<^verbatim>\<open>k_\<close> of a loop is a \<^verbatim>\<open>Reschedulable\<close>: its first use captures the current
  scheduler context, and every use continues on the captured context. A \<^verbatim>\<open>body\<close> callback ends by
  calling \<^verbatim>\<open>Next\<close> or \<^verbatim>\<open>Done\<close> on the stream, an \<^verbatim>\<open>ended\<close>, \<^verbatim>\<open>fail\<close> or \<^verbatim>\<open>stop\<close> callback by calling its adaptor.
\<close>

record 'd loop_k =
  l_context :: 'd
  l_begin :: "('d \<Rightarrow> ('d \<times> req) res) option"
  l_body :: "('d \<Rightarrow> val \<Rightarrow> ('d \<times> req) res) option"
  l_ended :: "('d \<Rightarrow> ('d \<times> signal) res) option"
  l_fail :: "('d \<Rightarrow> err \<Rightarrow> ('d \<times> signal) res) option"
  l_stop :: "('d \<Rightarrow> ('d \<times> signal) res) option"
  l_stream :: "sptr option"
  l_reschedule :: "ctx option"

definition loop_capture :: "ctx \<Rightarrow> 'd loop_k \<Rightarrow> 'd loop_k \<times> ctx" where
  "loop_capture cur s =
     (case l_reschedule s of
        None \<Rightarrow> (s\<lparr>l_reschedule := Some cur\<rparr>, cur)
      | Some c \<Rightarrow> (s, c))"

definition loop_finish ::
    "ctx \<Rightarrow> 'd loop_k \<Rightarrow> ('d \<times> signal) res \<Rightarrow> ('d loop_k \<times> out) res" where
  "loop_finish cur s r =
     (case loop_capture cur s of (s', c) \<Rightarrow>
        rbind r (\<lambda>(d, g). Inr (s'\<lparr>l_context := d\<rparr>, Via c (ToK (call_of_signal g)))))"

definition loop_request :: "'d loop_k \<Rightarrow> ('d \<times> req) res \<Rightarrow> ('d loop_k \<times> out) res" where
  "loop_request s r =
     deref (l_stream s) ''stream_'' (\<lambda>p. rbind r (\<lambda>(d, q).
       Inr (s\<lparr>l_context := d\<rparr>, Now (ToStream p q))))"

fun loop_handle :: "ctx \<Rightarrow> 'd loop_k \<Rightarrow> input \<Rightarrow> ('d loop_k \<times> out) res" where
  "loop_handle cur s (Call (Begin p)) =
     (let s = s\<lparr>l_stream := Some p\<rparr> in
      loop_request s (case l_begin s of None \<Rightarrow> Inr (l_context s, Next)
                                      | Some f \<Rightarrow> f (l_context s)))"
| "loop_handle cur s (Call (Body v)) =
     loop_request s (case l_body s of None \<Rightarrow> Inr (l_context s, Next)
                                    | Some f \<Rightarrow> f (l_context s) v)"
| "loop_handle cur s (Call Ended) =
     loop_finish cur s (case l_ended s of None \<Rightarrow> Inr (l_context s, Started VVoid)
                                        | Some f \<Rightarrow> f (l_context s))"
| "loop_handle cur s (Call (Fail e)) =
     loop_finish cur s (case l_fail s of None \<Rightarrow> Inr (l_context s, Failed e)
                                       | Some f \<Rightarrow> f (l_context s) e)"
| "loop_handle cur s (Call Stop) =
     loop_finish cur s (case l_stop s of None \<Rightarrow> Inr (l_context s, Stopped)
                                       | Some f \<Rightarrow> f (l_context s))"
| "loop_handle cur s _ = Inl NoSuchMethod"

definition Loop :: "'d \<Rightarrow> 'd loop_k" where
  "Loop d = \<lparr>l_context = d, l_begin = None, l_body = None, l_ended = None, l_fail = None,
             l_stop = None, l_stream = None, l_reschedule = None\<rparr>"

section \<open>collect.h\<close>

text \<open>
  The collector of a container with \<^verbatim>\<open>emplace_back\<close> appends; the one of a container with \<^verbatim>\<open>insert\<close>
  (a set) ignores an element that is present.
\<close>

definition collector_emplace_back :: "val list \<Rightarrow> val \<Rightarrow> val list" where
  "collector_emplace_back xs v = xs @ [v]"

definition collector_insert :: "val list \<Rightarrow> val \<Rightarrow> val list" where
  "collector_insert xs v = (if v \<in> set xs then xs else xs @ [v])"

definition Collect :: "(val list \<Rightarrow> val \<Rightarrow> val list) \<Rightarrow> val list loop_k" where
  "Collect collector =
     (Loop [])\<lparr>l_body := Some (\<lambda>c v. Inr (collector c v, Next)),
               l_ended := Some (\<lambda>c. Inr (c, Started (VVec c)))\<rparr>"

end
