(* ===== verification/Stream_Machine.thy ===== *)
theory Stream_Machine
  imports Stream_Stages
begin

text \<open>
  The machine that runs a pipeline of stream stages. A pipeline \<^verbatim>\<open>s0 >> s1 >> ...\<close> is a list of
  stages; the continuation \<^verbatim>\<open>k_\<close> of stage \<open>i\<close> is stage \<open>Suc i\<close>, and a \<^verbatim>\<open>TypeErasedStream*\<close> is the index of
  the stage it points to. Since every handler ends with exactly one call, a run of a synchronous
  pipeline has one active call at a time: the token. A call inside \<^verbatim>\<open>previous_->Continue(...)\<close>
  makes the token run in that scheduler context, whichever way \<^verbatim>\<open>Continue\<close> takes (at once when the
  scheduler says the context is continuable, through \<^verbatim>\<open>Submit\<close> otherwise).

  The run ends when the token leaves the pipeline at its downstream end (the terminal continuation).

  \<open>streams\<close> and \<open>produces\<close> say what a prefix of a pipeline promises to the stage after it; the
  locales \<open>stream_source\<close>, \<open>stream_transformer\<close> and \<open>stream_consumer\<close> are the interfaces of the
  three kinds of stages, and the theory \<open>Stream_Pipelines\<close> interprets them.
\<close>

section \<open>Stages and the machine\<close>

datatype ('c, 'd, 'i) stage =
    StreamS "'c stream_k"
  | RangeS range_k
  | RepeatS repeat_k
  | MapS map_k
  | FilterS filter_k
  | TakeLastS take_last_k
  | TakeRangeS take_range_k
  | UntilS until_k
  | UntilES until_e_k
  | OnBeginS on_begin_k
  | OnEndedS on_ended_k
  | HeadS head_k
  | ReduceS reduce_k
  | FlatMapS "'i flat_map_k"
  | LoopS "'d loop_k"

definition lift_stage ::
    "('s \<Rightarrow> ('c, 'd, 'i) stage) \<Rightarrow> ('s \<times> out) res \<Rightarrow> (('c, 'd, 'i) stage \<times> out) res" where
  "lift_stage C r = rbind r (\<lambda>(s, w). Inr (C s, w))"

lemma lift_stage_simps [simp]:
  "lift_stage C (Inl x) = Inl x"
  "lift_stage C (Inr (s, w)) = Inr (C s, w)"
  by (simp_all add: lift_stage_def)

fun stage_handle ::
    "sptr \<Rightarrow> ctx \<Rightarrow> ('c, 'd, 'i) stage \<Rightarrow> input \<Rightarrow> (('c, 'd, 'i) stage \<times> out) res" where
  "stage_handle this cur (StreamS s) x = lift_stage StreamS (stream_handle this cur s x)"
| "stage_handle this cur (RangeS s) x = lift_stage RangeS (range_handle this cur s x)"
| "stage_handle this cur (RepeatS s) x = lift_stage RepeatS (repeat_handle this cur s x)"
| "stage_handle this cur (MapS s) x = lift_stage MapS (map_handle s x)"
| "stage_handle this cur (FilterS s) x = lift_stage FilterS (filter_handle s x)"
| "stage_handle this cur (TakeLastS s) x = lift_stage TakeLastS (take_last_handle this cur s x)"
| "stage_handle this cur (TakeRangeS s) x = lift_stage TakeRangeS (take_range_handle this cur s x)"
| "stage_handle this cur (UntilS s) x = lift_stage UntilS (until_handle s x)"
| "stage_handle this cur (UntilES s) x = lift_stage UntilES (until_e_handle s x)"
| "stage_handle this cur (OnBeginS s) x = lift_stage OnBeginS (on_begin_handle s x)"
| "stage_handle this cur (OnEndedS s) x = lift_stage OnEndedS (on_ended_handle cur s x)"
| "stage_handle this cur (HeadS s) x = lift_stage HeadS (head_handle s x)"
| "stage_handle this cur (ReduceS s) x = lift_stage ReduceS (reduce_handle s x)"
| "stage_handle this cur (FlatMapS s) x = lift_stage FlatMapS (flat_map_handle this cur s x)"
| "stage_handle this cur (LoopS s) x = lift_stage LoopS (loop_handle cur s x)"

datatype token = Down nat call | Up sptr req

type_synonym ('c, 'd, 'i) config = "('c, 'd, 'i) stage list \<times> ctx \<times> token"

fun route :: "nat \<Rightarrow> dest \<Rightarrow> token" where
  "route i (ToK c) = Down (Suc i) c"
| "route i (ToStream p r) = Up p r"

fun enter :: "ctx \<Rightarrow> nat \<Rightarrow> out \<Rightarrow> ctx \<times> token" where
  "enter cur i (Now d) = (cur, route i d)"
| "enter cur i (Via c d) = (c, route i d)"

definition fire ::
    "('c, 'd, 'i) stage list \<Rightarrow> ctx \<Rightarrow> nat \<Rightarrow> input \<Rightarrow> ('c, 'd, 'i) config res" where
  "fire ss cur i x =
     rbind (stage_handle i cur (ss ! i) x) (\<lambda>(s, w). Inr (ss[i := s], enter cur i w))"

fun pipe_step :: "('c, 'd, 'i) config \<Rightarrow> ('c, 'd, 'i) config res option" where
  "pipe_step (ss, cur, Down i c) = (if i < length ss then Some (fire ss cur i (Call c)) else None)"
| "pipe_step (ss, cur, Up p r) = (if p < length ss then Some (fire ss cur p (Req r)) else None)"

datatype ('c, 'd, 'i) outcome =
    OutOfFuel
  | Faulted fault
  | Delivered "('c, 'd, 'i) config"

fun pipe_run :: "nat \<Rightarrow> ('c, 'd, 'i) config \<Rightarrow> ('c, 'd, 'i) outcome" where
  "pipe_run 0 x = OutOfFuel"
| "pipe_run (Suc n) x =
     (case pipe_step x of
        None \<Rightarrow> Delivered x
      | Some (Inl f) \<Rightarrow> Faulted f
      | Some (Inr y) \<Rightarrow> pipe_run n y)"

definition pipe_steps1 :: "('c, 'd, 'i) config \<Rightarrow> ('c, 'd, 'i) config \<Rightarrow> bool" where
  "pipe_steps1 x y \<longleftrightarrow> pipe_step x = Some (Inr y)"

abbreviation pipe_steps :: "('c, 'd, 'i) config \<Rightarrow> ('c, 'd, 'i) config \<Rightarrow> bool" where
  "pipe_steps \<equiv> star pipe_steps1"

section \<open>Runs\<close>

lemma pipe_steps_run:
  assumes "pipe_steps x y" and "pipe_step y = None"
  shows "\<exists>n. pipe_run n x = Delivered y"
  using assms
proof (induction rule: star.induct)
  case (star_refl x)
  then have "pipe_run (Suc 0) x = Delivered x" by simp
  then show ?case by blast
next
  case (star_step x y z)
  then obtain n where "pipe_run n y = Delivered z" by blast
  with star_step.hyps(1) have "pipe_run (Suc n) x = Delivered z"
    by (simp add: pipe_steps1_def)
  then show ?case by blast
qed

lemma pipe_run_mono: "pipe_run n x = r \<Longrightarrow> r \<noteq> OutOfFuel \<Longrightarrow> pipe_run (n + m) x = r"
proof (induction n arbitrary: x)
  case (Suc n)
  then show ?case by (auto split: option.splits sum.splits)
qed simp

lemma pipe_run_deterministic:
  assumes "pipe_run n x = a" "a \<noteq> OutOfFuel" "pipe_run m x = b" "b \<noteq> OutOfFuel"
  shows "a = b"
  using pipe_run_mono [OF assms(1,2), of m] pipe_run_mono [OF assms(3,4), of n]
  by (simp add: add.commute)

lemma fire_length:
  "fire ss cur i x = Inr (ss', cur', t) \<Longrightarrow> length ss' = length ss"
  by (auto simp: fire_def)

lemma pipe_step_length:
  "pipe_step (ss, cur, t) = Some (Inr (ss', cur', t')) \<Longrightarrow> length ss' = length ss"
  by (cases t) (auto simp: fire_length split: if_splits)

lemma pipe_steps_length: "pipe_steps (ss, cur, t) (ss', cur', t') \<Longrightarrow> length ss' = length ss"
proof -
  assume a: "pipe_steps (ss, cur, t) (ss', cur', t')"
  have "length (fst (ss', cur', t')) = length ss"
    by (rule star_invariant [OF a, where P = "\<lambda>z. length (fst z) = length ss"])
      (auto simp: pipe_steps1_def dest: pipe_step_length)
  then show ?thesis by simp
qed

text \<open>A prefix of a pipeline runs the same whatever stages follow it.\<close>

lemma fire_append:
  assumes "fire ss cur i x = Inr (ss', cur', t)" "i < length ss"
  shows "fire (ss @ ts) cur i x = Inr (ss' @ ts, cur', t)"
  using assms by (auto simp: fire_def nth_append list_update_append)

lemma pipe_step_append:
  assumes "pipe_step (ss, cur, t) = Some (Inr (ss', cur', t'))"
  shows "pipe_step (ss @ ts, cur, t) = Some (Inr (ss' @ ts, cur', t'))"
  using assms by (cases t) (auto simp: fire_append split: if_splits)

lemma pipe_steps_append:
  assumes "pipe_steps (ss, cur, t) (ss', cur', t')"
  shows "pipe_steps (ss @ ts, cur, t) (ss' @ ts, cur', t')"
proof -
  have "pipe_steps ((\<lambda>(a, b). (a @ ts, b)) (ss, cur, t)) ((\<lambda>(a, b). (a @ ts, b)) (ss', cur', t'))"
    by (rule star_map [OF assms]) (auto simp: pipe_steps1_def pipe_step_append)
  then show ?thesis by simp
qed

text \<open>One step of the stage right after a prefix.\<close>

lemma pipe_step_last:
  assumes "stage_handle (length ss) cur t (Call c) = Inr (t', w)"
  shows "pipe_steps1 (ss @ [t], cur, Down (length ss) c) (ss @ [t'], enter cur (length ss) w)"
  using assms by (simp add: pipe_steps1_def fire_def)

lemma pipe_step_last_req:
  assumes "stage_handle (length ss) cur t (Req r) = Inr (t', w)"
  shows "pipe_steps1 (ss @ [t], cur, Up (length ss) r) (ss @ [t'], enter cur (length ss) w)"
  using assms by (simp add: pipe_steps1_def fire_def)

lemma steps_then_last:
  assumes "pipe_steps (ss, cur, q) (ss', cur', Down (length ss) c)"
    and "stage_handle (length ss) cur' t (Call c) = Inr (t', w)"
  shows "pipe_steps (ss @ [t], cur, q) (ss' @ [t'], enter cur' (length ss) w)"
proof -
  have l: "length ss' = length ss" by (rule pipe_steps_length [OF assms(1)])
  have "pipe_steps (ss @ [t], cur, q) (ss' @ [t], cur', Down (length ss) c)"
    by (rule pipe_steps_append [OF assms(1)])
  moreover have "pipe_steps1 (ss' @ [t], cur', Down (length ss) c) (ss' @ [t'], enter cur' (length ss) w)"
    using pipe_step_last [of ss' cur' t c t' w] assms(2) l by simp
  ultimately show ?thesis by (blast intro: star_trans)
qed

section \<open>What a prefix promises\<close>

datatype final = FEnded | FFail err | FStop

fun call_of_final :: "final \<Rightarrow> call" where
  "call_of_final FEnded = Ended"
| "call_of_final (FFail e) = Fail e"
| "call_of_final FStop = Stop"

text \<open>
  \<open>done_ok ss p\<close>: telling the stream \<open>p\<close> of the prefix \<open>ss\<close> that downstream is done makes the prefix
  report \<^verbatim>\<open>Ended\<close>. \<open>streams ss p xs fin\<close>: asked for the next value again and again, the prefix
  delivers exactly \<open>xs\<close> and then the final call \<open>fin\<close> (nothing is said about what follows \<open>xs\<close> when
  \<open>fin\<close> is \<open>None\<close>); at every point it can be told that downstream is done.
\<close>

definition answers ::
    "('c, 'd, 'i) stage list \<Rightarrow> sptr \<Rightarrow> req \<Rightarrow> call \<Rightarrow> (('c, 'd, 'i) stage list \<Rightarrow> bool) \<Rightarrow> bool" where
  "answers ss p r c P \<longleftrightarrow>
     (\<forall>cur. \<exists>cur' ss'. pipe_steps (ss, cur, Up p r) (ss', cur', Down (length ss) c) \<and> P ss')"

definition done_ok :: "('c, 'd, 'i) stage list \<Rightarrow> sptr \<Rightarrow> bool" where
  "done_ok ss p \<longleftrightarrow> answers ss p Done Ended (\<lambda>_. True)"

fun streams ::
    "('c, 'd, 'i) stage list \<Rightarrow> sptr \<Rightarrow> val list \<Rightarrow> final option \<Rightarrow> bool" where
  "streams ss p [] fin \<longleftrightarrow>
     done_ok ss p \<and>
     (case fin of None \<Rightarrow> True | Some e \<Rightarrow> answers ss p Next (call_of_final e) (\<lambda>_. True))"
| "streams ss p (x # xs) fin \<longleftrightarrow>
     done_ok ss p \<and> answers ss p Next (Body x) (\<lambda>ss'. streams ss' p xs fin)"

definition produces ::
    "('c, 'd, 'i) stage list \<Rightarrow> val \<Rightarrow> val list \<Rightarrow> final option \<Rightarrow> bool" where
  "produces ss v xs fin \<longleftrightarrow>
     (\<forall>cur. \<exists>cur' ss' p.
        pipe_steps (ss, cur, Down 0 (Start v)) (ss', cur', Down (length ss) (Begin p)) \<and>
        streams ss' p xs fin)"

lemma streams_done_ok: "streams ss p xs fin \<Longrightarrow> done_ok ss p"
  by (cases xs) auto

lemma streams_take: "streams ss p xs fin \<Longrightarrow> streams ss p (take n xs) None"
proof (induction xs arbitrary: ss n)
  case (Cons x xs)
  then show ?case by (cases n) (fastforce simp: answers_def)+
qed (auto split: option.splits)

section \<open>How one stage answers on top of a prefix\<close>

fun out_dest :: "out \<Rightarrow> dest" where
  "out_dest (Now d) = d"
| "out_dest (Via c d) = d"

lemma snd_enter [simp]: "snd (enter cur i w) = route i (out_dest w)"
  by (cases w) auto

text \<open>\<open>handles ss t x t' d\<close>: the stage \<open>t\<close> after the prefix \<open>ss\<close> handles \<open>x\<close> in any context.\<close>

definition handles ::
    "('c, 'd, 'i) stage list \<Rightarrow> ('c, 'd, 'i) stage \<Rightarrow> input \<Rightarrow> ('c, 'd, 'i) stage \<Rightarrow> dest \<Rightarrow> bool" where
  "handles ss t x t' d \<longleftrightarrow>
     (\<forall>cur. \<exists>w. stage_handle (length ss) cur t x = Inr (t', w) \<and> out_dest w = d)"

lemma answers_mono:
  assumes "answers ss p r c P" and "\<And>ss'. length ss' = length ss \<Longrightarrow> P ss' \<Longrightarrow> Q ss'"
  shows "answers ss p r c Q"
  unfolding answers_def
proof
  fix cur
  from assms(1) obtain cur' ss' where
    st: "pipe_steps (ss, cur, Up p r) (ss', cur', Down (length ss) c)" and "P ss'"
    unfolding answers_def by blast
  with assms(2) pipe_steps_length [OF st] have "Q ss'" by blast
  with st show "\<exists>cur' ss'. pipe_steps (ss, cur, Up p r) (ss', cur', Down (length ss) c) \<and> Q ss'"
    by blast
qed

lemma answers_last_steps:
  assumes "answers ss p r c P" and "handles ss t (Call c) t' d"
  shows "\<exists>cur' ss'. pipe_steps (ss @ [t], cur, Up p r) (ss' @ [t'], cur', route (length ss) d) \<and>
           P ss' \<and> length ss' = length ss"
proof -
  from assms(1) obtain cur' ss' where
    st: "pipe_steps (ss, cur, Up p r) (ss', cur', Down (length ss) c)" and P: "P ss'"
    unfolding answers_def by blast
  from assms(2) obtain w where
    w: "stage_handle (length ss) cur' t (Call c) = Inr (t', w)" "out_dest w = d"
    unfolding handles_def by blast
  have "pipe_steps (ss @ [t], cur, Up p r) (ss' @ [t'], enter cur' (length ss) w)"
    by (rule steps_then_last [OF st w(1)])
  moreover have "enter cur' (length ss) w = (fst (enter cur' (length ss) w), route (length ss) d)"
    using w(2) by (metis prod.collapse snd_enter)
  ultimately show ?thesis using P pipe_steps_length [OF st] by metis
qed

text \<open>The stage passes the call of the prefix on, as \<open>c'\<close>.\<close>

lemma answers_deliver:
  assumes "answers ss p r c P" and "handles ss t (Call c) t' (ToK c')"
    and "\<And>ss'. length ss' = length ss \<Longrightarrow> P ss' \<Longrightarrow> Q (ss' @ [t'])"
  shows "answers (ss @ [t]) p r c' Q"
  unfolding answers_def using answers_last_steps [OF assms(1,2)] assms(3) by fastforce

text \<open>The stage turns the call of the prefix into a request to the stream \<open>q\<close>.\<close>

lemma answers_again:
  assumes "answers ss p r c P" and "handles ss t (Call c) t' (ToStream q r')"
    and "\<And>ss'. length ss' = length ss \<Longrightarrow> P ss' \<Longrightarrow> answers (ss' @ [t']) q r' c' Q"
  shows "answers (ss @ [t]) p r c' Q"
  unfolding answers_def
proof
  fix cur
  from answers_last_steps [OF assms(1,2), of cur] obtain cur' ss' where
    st: "pipe_steps (ss @ [t], cur, Up p r) (ss' @ [t'], cur', Up q r')"
    and P: "P ss'" and l: "length ss' = length ss" by auto
  from assms(3) [OF l P] l obtain cur'' z where
    "pipe_steps (ss' @ [t'], cur', Up q r') (z, cur'', Down (length (ss @ [t])) c')" "Q z"
    unfolding answers_def by (metis length_append_singleton)
  with st show "\<exists>cur' z. pipe_steps (ss @ [t], cur, Up p r) (z, cur', Down (length (ss @ [t])) c') \<and> Q z"
    by (blast intro: star_trans)
qed

text \<open>The stage is itself the stream that is asked.\<close>

lemma own_step:
  assumes "handles ss t (Req r) t' d"
  shows "\<exists>cur'. pipe_steps (ss @ [t], cur, Up (length ss) r) (ss @ [t'], cur', route (length ss) d)"
proof -
  from assms obtain w where w: "stage_handle (length ss) cur t (Req r) = Inr (t', w)" "out_dest w = d"
    unfolding handles_def by blast
  have "pipe_steps (ss @ [t], cur, Up (length ss) r) (ss @ [t'], enter cur (length ss) w)"
    by (rule star_one) (rule pipe_step_last_req [OF w(1)])
  moreover have "enter cur (length ss) w = (fst (enter cur (length ss) w), route (length ss) d)"
    using w(2) by (metis prod.collapse snd_enter)
  ultimately show ?thesis by metis
qed

lemma answers_own:
  assumes "handles ss t (Req r) t' (ToStream q r')" and "answers (ss @ [t']) q r' c P"
  shows "answers (ss @ [t]) (length ss) r c P"
  unfolding answers_def
proof
  fix cur
  from own_step [OF assms(1), of cur] obtain cur' where
    st: "pipe_steps (ss @ [t], cur, Up (length ss) r) (ss @ [t'], cur', Up q r')" by auto
  from assms(2) obtain cur'' z where
    "pipe_steps (ss @ [t'], cur', Up q r') (z, cur'', Down (length (ss @ [t])) c)" "P z"
    unfolding answers_def by (metis length_append_singleton)
  with st show "\<exists>cur' z. pipe_steps (ss @ [t], cur, Up (length ss) r) (z, cur', Down (length (ss @ [t])) c) \<and> P z"
    by (blast intro: star_trans)
qed

lemma answers_own_now:
  assumes "handles ss t (Req r) t' (ToK c)" and "P (ss @ [t'])"
  shows "answers (ss @ [t]) (length ss) r c P"
  unfolding answers_def using own_step [OF assms(1)] assms(2) by fastforce

text \<open>
  \<open>asks ss r p xs fin\<close>: the first value is asked for at the stream \<open>r\<close>, the others at \<open>p\<close>. A stage that
  drops a value asks its upstream stream, whereas the stages after it ask the stage itself.
\<close>

definition asks ::
    "('c, 'd, 'i) stage list \<Rightarrow> sptr \<Rightarrow> sptr \<Rightarrow> val list \<Rightarrow> final option \<Rightarrow> bool" where
  "asks ss r p xs fin \<longleftrightarrow>
     (case xs of
        [] \<Rightarrow> (case fin of None \<Rightarrow> True | Some e \<Rightarrow> answers ss r Next (call_of_final e) (\<lambda>_. True))
      | x # xs' \<Rightarrow> answers ss r Next (Body x) (\<lambda>ss'. streams ss' p xs' fin))"

lemma asks_simps [simp]:
  "asks ss r p [] None"
  "asks ss r p [] (Some e) = answers ss r Next (call_of_final e) (\<lambda>_. True)"
  "asks ss r p (x # xs) fin = answers ss r Next (Body x) (\<lambda>ss'. streams ss' p xs fin)"
  by (simp_all add: asks_def)

lemma streams_iff: "streams ss p xs fin \<longleftrightarrow> done_ok ss p \<and> asks ss p p xs fin"
  by (cases xs) (auto simp: asks_def)

lemma asks_again:
  assumes "answers ss p Next c P" and "handles ss t (Call c) t' (ToStream q Next)"
    and "\<And>ss'. length ss' = length ss \<Longrightarrow> P ss' \<Longrightarrow> asks (ss' @ [t']) q r ys fin"
  shows "asks (ss @ [t]) p r ys fin"
proof (cases ys)
  case Nil
  with assms(3) show ?thesis
    by (cases fin) (auto intro!: answers_again [OF assms(1,2)])
next
  case (Cons y ys')
  with assms(3) show ?thesis
    by (auto intro!: answers_again [OF assms(1,2)])
qed

lemma asks_own:
  assumes "handles ss t (Req Next) t' (ToStream q Next)" and "asks (ss @ [t']) q p xs fin"
  shows "asks (ss @ [t]) (length ss) p xs fin"
  using assms by (cases xs; cases fin) (auto intro: answers_own)

lemma done_ok_deliver:
  assumes "done_ok ss p" and "handles ss t (Call Ended) t' (ToK Ended)"
  shows "done_ok (ss @ [t]) p"
  using assms unfolding done_ok_def by (blast intro: answers_deliver)

lemma done_ok_own:
  assumes "handles ss t (Req Done) t' (ToStream q Done)" and "done_ok (ss @ [t']) q"
  shows "done_ok (ss @ [t]) (length ss)"
  using assms unfolding done_ok_def by (blast intro: answers_own)

section \<open>Interfaces of the three kinds of stages\<close>

text \<open>
  A source delivers a list of values; a transformer turns whatever the prefix before it delivers
  into \<open>tr\<close> of it, provided \<open>ok\<close>; a consumer completes the pipeline with the signal \<open>result\<close>.
\<close>

locale stream_source =
  fixes src :: "('c, 'd, 'i) stage list" and arg :: val and xs :: "val list" and fin :: "final option"
  assumes source: "produces src arg xs fin"

locale stream_transformer =
  fixes stages :: "('c, 'd, 'i) stage list"
    and ok :: "val list \<Rightarrow> final option \<Rightarrow> bool"
    and tr :: "val list \<Rightarrow> final option \<Rightarrow> val list \<times> final option"
  assumes transforms: "produces ss v ys e \<Longrightarrow> ok ys e \<Longrightarrow>
     produces (ss @ stages) v (fst (tr ys e)) (snd (tr ys e))"

locale stream_consumer =
  fixes stage :: "('c, 'd, 'i) stage"
    and acceptable :: "val list \<Rightarrow> final option \<Rightarrow> bool"
    and result :: "val list \<Rightarrow> final option \<Rightarrow> signal"
  assumes consumes: "produces ss v ys e \<Longrightarrow> acceptable ys e \<Longrightarrow>
     \<exists>ss' cur'. pipe_steps (ss @ [stage], cur, Down 0 (Start v))
                  (ss', cur', Down (Suc (length ss)) (call_of_signal (result ys e)))"
begin

lemma runs:
  assumes "produces ss v ys e" and "acceptable ys e"
  shows "\<exists>k ss' cur'. pipe_run k (ss @ [stage], cur, Down 0 (Start v)) =
    Delivered (ss', cur', Down (Suc (length ss)) (call_of_signal (result ys e)))"
proof -
  from consumes [OF assms, of cur] obtain ss' cur' where
    st: "pipe_steps (ss @ [stage], cur, Down 0 (Start v))
      (ss', cur', Down (Suc (length ss)) (call_of_signal (result ys e)))" by blast
  from pipe_steps_length [OF st] have "length ss' = Suc (length ss)" by simp
  with pipe_steps_run [OF st] show ?thesis by auto
qed

end

text \<open>A transformer after a transformer is a transformer.\<close>

locale transformer_chain =
  first: stream_transformer stages1 ok1 tr1 + second: stream_transformer stages2 ok2 tr2
  for stages1 :: "('c, 'd, 'i) stage list" and ok1 tr1 and stages2 :: "('c, 'd, 'i) stage list" and ok2 tr2

sublocale transformer_chain \<subseteq>
  stream_transformer "stages1 @ stages2"
    "\<lambda>ys e. ok1 ys e \<and> ok2 (fst (tr1 ys e)) (snd (tr1 ys e))"
    "\<lambda>ys e. tr2 (fst (tr1 ys e)) (snd (tr1 ys e))"
  by unfold_locales (metis append.assoc first.transforms second.transforms)

text \<open>A closed pipeline runs to completion and delivers the consumer's signal.\<close>

locale closed_pipeline =
  stream_source src arg xs fin + stream_transformer stages ok tr + stream_consumer stage acceptable result
  for src :: "('c, 'd, 'i) stage list" and arg xs fin
    and stages :: "('c, 'd, 'i) stage list" and ok tr
    and stage :: "('c, 'd, 'i) stage" and acceptable result +
  assumes acceptable_input: "ok xs fin" "acceptable (fst (tr xs fin)) (snd (tr xs fin))"
begin

lemma completes:
  "\<exists>n ss' cur'. pipe_run n (src @ stages @ [stage], cur, Down 0 (Start arg)) =
     Delivered (ss', cur', Down (length src + length stages + 1)
       (call_of_signal (result (fst (tr xs fin)) (snd (tr xs fin)))))"
proof -
  have "produces (src @ stages) arg (fst (tr xs fin)) (snd (tr xs fin))"
    by (rule transforms [OF source acceptable_input(1)])
  from runs [OF this acceptable_input(2), of cur] show ?thesis by simp
qed

end

end
