(* ===== verification/Stream_Pipelines.thy ===== *)
theory Stream_Pipelines
  imports Stream_Machine
begin

text \<open>
  Every stage of \<open>Stream_Stages\<close> keeps the contract of its kind: \<^verbatim>\<open>Iterate\<close>, \<^verbatim>\<open>Range\<close> and \<^verbatim>\<open>Repeat\<close> are
  sources; \<^verbatim>\<open>Map\<close>, \<^verbatim>\<open>Filter\<close>, \<^verbatim>\<open>Until\<close>, \<^verbatim>\<open>TakeRange\<close>, \<^verbatim>\<open>TakeLast\<close> and \<^verbatim>\<open>FlatMap\<close> are transformers with a
  list function as their specification; \<^verbatim>\<open>Collect\<close>, \<^verbatim>\<open>Head\<close>, \<^verbatim>\<open>Reduce\<close> and \<^verbatim>\<open>Loop\<close> are consumers.
\<close>

section \<open>Sources\<close>

text \<open>The start of a one stage prefix.\<close>

lemma produces_source:
  assumes "\<And>cur. \<exists>w. stage_handle 0 cur t (Call (Start v)) = Inr (t' cur, w) \<and> out_dest w = ToK (Begin 0)"
    and "\<And>cur. streams [t' cur] 0 xs fin"
  shows "produces [t] v xs fin"
  unfolding produces_def
proof
  fix cur
  from assms(1) [of cur] obtain w where
    w: "stage_handle 0 cur t (Call (Start v)) = Inr (t' cur, w)" "out_dest w = ToK (Begin 0)" by blast
  have "pipe_steps1 ([t], cur, Down 0 (Start v)) ([t' cur], enter cur 0 w)"
    using pipe_step_last [of "[]" cur t "Start v" "t' cur" w] w(1) by simp
  moreover have "enter cur 0 w = (fst (enter cur 0 w), Down (length [t]) (Begin 0))"
    using w(2) by (metis One_nat_def length_Cons list.size(3) prod.collapse route.simps(1) snd_enter)
  ultimately show "\<exists>cur' ss' p. pipe_steps ([t], cur, Down 0 (Start v))
      (ss', cur', Down (length [t]) (Begin p)) \<and> streams ss' p xs fin"
    using assms(2) [of cur] by (metis star_one)
qed

lemma answers_source:
  assumes "handles [] t (Req r) t' (ToK c)" and "P [t']"
  shows "answers [t] 0 r c P"
  using answers_own_now [of "[]" t r t' c P] assms by simp

text \<open>\<open>iter_at xs i c\<close> is the state of \<open>Iterate xs\<close> after \<open>i\<close> values.\<close>

definition iter_at :: "val list \<Rightarrow> nat \<Rightarrow> ctx \<Rightarrow> iterate_data stream_k \<Rightarrow> bool" where
  "iter_at xs i c s \<longleftrightarrow>
     s_context s = \<lparr>container = xs, iter = Some i\<rparr> \<and> s_next s = iterate_next \<and>
     s_done s = Some iterate_done \<and> s_previous s = Some c"

lemma iterate_done_handles:
  "iter_at xs i c s \<Longrightarrow> handles [] (StreamS s) (Req Done) (StreamS s) (ToK Ended)"
  by (auto simp: handles_def iter_at_def iterate_done_def stream_emit_def)

lemma iterate_next_handles:
  "iter_at xs i c s \<Longrightarrow> i < length xs \<Longrightarrow>
   handles [] (StreamS s) (Req Next)
     (StreamS (s\<lparr>s_context := \<lparr>container = xs, iter = Some (Suc i)\<rparr>\<rparr>)) (ToK (Body (xs ! i)))"
  by (auto simp: handles_def iter_at_def iterate_next_def stream_emit_def)

lemma iterate_end_handles:
  "iter_at xs (length xs) c s \<Longrightarrow> handles [] (StreamS s) (Req Next) (StreamS s) (ToK Ended)"
  by (auto simp: handles_def iter_at_def iterate_next_def stream_emit_def)

lemma iterate_streams:
  assumes "iter_at xs i c s" and "i \<le> length xs"
  shows "streams ([StreamS s] :: (iterate_data, 'd, 'i) stage list) 0 (drop i xs) (Some FEnded)"
  using assms
proof (induction "length xs - i" arbitrary: i s)
  case 0
  then have "drop i xs = []" and "i = length xs" by auto
  with 0 show ?case
    by (auto simp: done_ok_def intro!: answers_source iterate_done_handles iterate_end_handles)
next
  case (Suc n)
  then have i: "i < length xs" by simp
  have "iter_at xs (Suc i) c (s\<lparr>s_context := \<lparr>container = xs, iter = Some (Suc i)\<rparr>\<rparr>)"
    using Suc.prems(1) by (simp add: iter_at_def)
  moreover have "n = length xs - Suc i" using Suc.hyps(2) by simp
  ultimately have "streams ([StreamS (s\<lparr>s_context := \<lparr>container = xs, iter = Some (Suc i)\<rparr>\<rparr>)]
      :: (iterate_data, 'd, 'i) stage list) 0
      (drop (Suc i) xs) (Some FEnded)"
    using Suc.hyps(1) [of "Suc i"] i by simp
  with Suc.prems i show ?case
    by (auto simp: done_ok_def Cons_nth_drop_Suc [symmetric]
        intro!: answers_source iterate_done_handles iterate_next_handles)
qed

lemma iterate_produces: "produces [StreamS (Iterate xs)] v xs (Some FEnded)"
proof (rule produces_source [where t' = "\<lambda>cur. StreamS ((Iterate xs)
    \<lparr>s_previous := Some cur, s_context := \<lparr>container = xs, iter = Some 0\<rparr>\<rparr>)"])
  fix cur
  show "\<exists>w. stage_handle 0 cur (StreamS (Iterate xs)) (Call (Start v)) = Inr (StreamS ((Iterate xs)
      \<lparr>s_previous := Some cur, s_context := \<lparr>container = xs, iter = Some 0\<rparr>\<rparr>), w) \<and>
      out_dest w = ToK (Begin 0)"
    by (simp add: Iterate_def stream_bind_adaptor_def stream_emit_def iterate_begin_def)
  have "iter_at xs 0 cur ((Iterate xs)
      \<lparr>s_previous := Some cur, s_context := \<lparr>container = xs, iter = Some 0\<rparr>\<rparr>)"
    by (simp add: iter_at_def Iterate_def)
  from iterate_streams [OF this]
  show "streams [StreamS ((Iterate xs)
      \<lparr>s_previous := Some cur, s_context := \<lparr>container = xs, iter = Some 0\<rparr>\<rparr>)] 0 xs (Some FEnded)"
    by simp
qed

lemma iterate_ptr_produces: "produces [StreamS (Iterate_ptr xs)] v xs (Some FEnded)"
proof (rule produces_source [where t' = "\<lambda>cur. StreamS ((Iterate_ptr xs)\<lparr>s_previous := Some cur\<rparr>)"])
  fix cur
  show "\<exists>w. stage_handle 0 cur (StreamS (Iterate_ptr xs)) (Call (Start v)) =
      Inr (StreamS ((Iterate_ptr xs)\<lparr>s_previous := Some cur\<rparr>), w) \<and> out_dest w = ToK (Begin 0)"
    by (simp add: Iterate_ptr_def stream_bind_adaptor_def stream_emit_def)
  have "iter_at xs 0 cur ((Iterate_ptr xs)\<lparr>s_previous := Some cur\<rparr>)"
    by (simp add: iter_at_def Iterate_ptr_def)
  from iterate_streams [OF this]
  show "streams [StreamS ((Iterate_ptr xs)\<lparr>s_previous := Some cur\<rparr>)] 0 xs (Some FEnded)"
    by simp
qed

lemma repeat_streams: "streams [RepeatS \<lparr>rp_previous = Some c\<rparr>] 0 (replicate n VVoid) None"
proof (induction n)
  case (Suc n)
  then show ?case
    by (auto simp: done_ok_def handles_def intro!: answers_source)
qed (auto simp: done_ok_def handles_def intro!: answers_source)

lemma repeat_produces: "produces [RepeatS Repeat] v (replicate n VVoid) None"
  by (rule produces_source [where t' = "\<lambda>cur. RepeatS \<lparr>rp_previous = Some cur\<rparr>"])
    (simp_all add: Repeat_def repeat_streams)

text \<open>
  \<open>range_list from to step\<close> is the list \<open>Range\<close> should stream: \<open>from, from + step, ...\<close> up to but
  excluding \<open>to\<close>, over the mathematical integers.
\<close>

function range_list :: "int \<Rightarrow> int \<Rightarrow> int \<Rightarrow> int list" where
  "range_list from to step =
     (if step > 0 \<and> from < to \<or> step < 0 \<and> to < from
      then from # range_list (from + step) to step else [])"
  by pat_completeness auto
termination
  by (relation "measure (\<lambda>(from, to, step). nat (if step > 0 then to - from else from - to))") auto

declare range_list.simps [simp del]

definition range_fits :: "int \<Rightarrow> int \<Rightarrow> bool" where
  "range_fits to step \<longleftrightarrow> - (2 ^ 31) \<le> to + step - sgn step \<and> to + step - sgn step < 2 ^ 31"

lemma range_ended_iff:
  "range_ended s \<longleftrightarrow>
     \<not> (sint (r_step s) > 0 \<and> sint (r_from s) < sint (r_to s) \<or>
        sint (r_step s) < 0 \<and> sint (r_to s) < sint (r_from s))"
proof -
  have "r_from s = r_to s \<longleftrightarrow> sint (r_from s) = sint (r_to s)"
    by (auto intro: signed_word_eqI)
  moreover have "r_step s = 0 \<longleftrightarrow> sint (r_step s) = 0"
    by (auto intro: signed_word_eqI)
  ultimately show ?thesis unfolding range_ended_def by linarith
qed

lemma sint_add_no_overflow:
  "\<not> int32_add_overflows a b \<Longrightarrow> sint (a + b) = sint a + sint b"
  unfolding int32_add_overflows_def
  by (simp add: sint_word_ariths signed_take_bit_int_eq_self)

lemma range_no_overflow:
  assumes "\<not> range_ended s" and "range_fits (sint (r_to s)) (sint (r_step s))"
  shows "\<not> int32_add_overflows (r_from s) (r_step s)"
proof -
  have b: "- (2 ^ 31) \<le> sint (r_from s)" "sint (r_from s) < 2 ^ 31"
    using sint_range_size [of "r_from s"] by (simp_all add: word_size)
  with assms show ?thesis
    by (auto simp: range_ended_iff range_fits_def int32_add_overflows_def sgn_if)
qed

lemma range_streams:
  assumes "range_fits (sint to) (sint step)"
  shows "streams ([RangeS \<lparr>r_from = a, r_to = to, r_step = step, r_previous = Some c\<rparr>]
      :: ('c, 'd, 'i) stage list) 0
    (map (\<lambda>i. VInt (word_of_int i)) (range_list (sint a) (sint to) (sint step))) (Some FEnded)"
proof (induction "range_list (sint a) (sint to) (sint step)" arbitrary: a)
  case Nil
  let ?s = "\<lparr>r_from = a, r_to = to, r_step = step, r_previous = Some c\<rparr>"
  from Nil have "range_ended ?s"
    by (subst (asm) range_list.simps) (auto simp: range_ended_iff split: if_splits)
  with Nil [symmetric] show ?case
    by (auto simp: done_ok_def handles_def intro!: answers_source)
next
  case (Cons i js)
  let ?s = "\<lparr>r_from = a, r_to = to, r_step = step, r_previous = Some c\<rparr>"
  from Cons.hyps(2) have ne: "\<not> range_ended ?s" and i: "i = sint a"
    and js: "js = range_list (sint a + sint step) (sint to) (sint step)"
    by (subst (asm) range_list.simps, auto simp: range_ended_iff split: if_splits)+
  from range_no_overflow [OF ne] assms have no: "\<not> int32_add_overflows a step" by simp
  from sint_add_no_overflow [OF no] have "js = range_list (sint (a + step)) (sint to) (sint step)"
    using js by simp
  from Cons.hyps(1) [OF this]
  have "streams ([RangeS (?s\<lparr>r_from := a + step\<rparr>)] :: ('c, 'd, 'i) stage list) 0
      (map (\<lambda>i. VInt (word_of_int i)) js) (Some FEnded)"
    using \<open>js = range_list (sint (a + step)) (sint to) (sint step)\<close> by simp
  with Cons.hyps(2) [symmetric] ne no i show ?case
    by (auto simp: done_ok_def handles_def intro!: answers_source)
qed

lemma range_produces:
  assumes "range_fits (sint to) (sint step)"
  shows "produces [RangeS (Range a to step)] v
    (map (\<lambda>i. VInt (word_of_int i)) (range_list (sint a) (sint to) (sint step))) (Some FEnded)"
  by (rule produces_source [where
      t' = "\<lambda>cur. RangeS \<lparr>r_from = a, r_to = to, r_step = step, r_previous = Some cur\<rparr>"])
    (simp_all add: Range_def range_streams [OF assms])

section \<open>Transformers\<close>

lemma produces_through:
  assumes "produces ss v xs fin"
    and "\<And>cur p. \<exists>w. stage_handle (length ss) cur t (Call (Begin p)) = Inr (t' cur p, w) \<and>
           out_dest w = ToK (Begin (q p))"
    and "\<And>ss' p cur. length ss' = length ss \<Longrightarrow> streams ss' p xs fin \<Longrightarrow>
           streams (ss' @ [t' cur p]) (q p) ys fin'"
  shows "produces (ss @ [t]) v ys fin'"
  unfolding produces_def
proof
  fix cur
  from assms(1) obtain cur' ss' p where
    st: "pipe_steps (ss, cur, Down 0 (Start v)) (ss', cur', Down (length ss) (Begin p))"
    and str: "streams ss' p xs fin"
    unfolding produces_def by blast
  from assms(2) obtain w where
    w: "stage_handle (length ss) cur' t (Call (Begin p)) = Inr (t' cur' p, w)"
      "out_dest w = ToK (Begin (q p))" by blast
  have "pipe_steps (ss @ [t], cur, Down 0 (Start v)) (ss' @ [t' cur' p], enter cur' (length ss) w)"
    by (rule steps_then_last [OF st w(1)])
  moreover have "enter cur' (length ss) w =
      (fst (enter cur' (length ss) w), Down (length (ss @ [t])) (Begin (q p)))"
    using w(2) by (metis length_append_singleton prod.collapse route.simps(1) snd_enter)
  moreover have "streams (ss' @ [t' cur' p]) (q p) ys fin'"
    by (rule assms(3) [OF pipe_steps_length [OF st] str])
  ultimately show "\<exists>cur' ss' p. pipe_steps (ss @ [t], cur, Down 0 (Start v))
      (ss', cur', Down (length (ss @ [t])) (Begin p)) \<and> streams ss' p ys fin'"
    by metis
qed

text \<open>A pass-through stage hands the final call on unchanged.\<close>

definition passes_final :: "('c, 'd, 'i) stage \<Rightarrow> bool" where
  "passes_final t \<longleftrightarrow> (\<forall>ss e. handles ss t (Call (call_of_final e)) t (ToK (call_of_final e)))"

lemma passes_finalD: "passes_final t \<Longrightarrow> handles ss t (Call (call_of_final e)) t (ToK (call_of_final e))"
  by (simp add: passes_final_def)

lemma passes_final_Ended: "passes_final t \<Longrightarrow> handles ss t (Call Ended) t (ToK Ended)"
  using passes_finalD [of t ss FEnded] by simp

lemma passes_finalI:
  assumes "\<And>ss. handles ss t (Call Ended) t (ToK Ended)" "\<And>ss e. handles ss t (Call (Fail e)) t (ToK (Fail e))"
    "\<And>ss. handles ss t (Call Stop) t (ToK Stop)"
  shows "passes_final t"
  unfolding passes_final_def
proof (intro allI)
  fix ss and e :: final
  show "handles ss t (Call (call_of_final e)) t (ToK (call_of_final e))"
    by (cases e) (simp_all add: assms)
qed

lemma done_ok_through: "done_ok ss p \<Longrightarrow> passes_final t \<Longrightarrow> done_ok (ss @ [t]) p"
  by (rule done_ok_deliver) (auto intro: passes_final_Ended)

lemma streams_Nil_through:
  assumes "streams ss p [] fin" and "passes_final t"
  shows "streams (ss @ [t]) p [] fin"
  using assms
  by (cases fin)
    (auto intro: done_ok_through answers_deliver passes_finalD)

subsection \<open>Map\<close>

fun map_spec :: "(val \<Rightarrow> signal) \<Rightarrow> val list \<Rightarrow> final option \<Rightarrow> val list \<times> final option" where
  "map_spec e [] fin = ([], fin)"
| "map_spec e (x # xs) fin =
     (case e x of
        Started y \<Rightarrow> (case map_spec e xs fin of (ys, f) \<Rightarrow> (y # ys, f))
      | Failed err \<Rightarrow> ([], Some (FFail err))
      | Stopped \<Rightarrow> ([], Some FStop))"

lemma map_spec_pure: "map_spec (\<lambda>v. Started (f v)) xs fin = (map f xs, fin)"
  by (induction xs) auto

lemma map_passes_final: "passes_final (MapS t)"
  by (rule passes_finalI) (auto simp: handles_def)

lemma map_body_handles:
  "handles ss (MapS t) (Call (Body x)) (MapS (t\<lparr>m_adapted := True\<rparr>)) (ToK (map_adaptor (m_e t x)))"
  by (auto simp: handles_def)

lemma map_streams:
  assumes "streams ss p xs fin" "map_spec (m_e t) xs fin = (ys, fin')"
  shows "streams (ss @ [MapS t]) p ys fin'"
  using assms
proof (induction xs arbitrary: ss t ys)
  case Nil
  then show ?case by (metis map_passes_final map_spec.simps(1) prod.inject streams_Nil_through)
next
  case (Cons x xs)
  then have d: "done_ok (ss @ [MapS t]) p"
    by (auto intro: done_ok_through map_passes_final)
  have a: "answers ss p Next (Body x) (\<lambda>ss'. streams ss' p xs fin)" using Cons.prems(1) by simp
  show ?case
  proof (cases "m_e t x")
    case (Started y)
    obtain zs where zs: "map_spec (m_e t) xs fin = (zs, fin')" "ys = y # zs"
      using Cons.prems(2) Started by (auto split: prod.splits)
    have "answers (ss @ [MapS t]) p Next (Body y) (\<lambda>z. streams z p zs fin')"
      by (rule answers_deliver [OF a, of _ "MapS (t\<lparr>m_adapted := True\<rparr>)"])
        (use map_body_handles [of ss t x] Started Cons.IH [of _ "t\<lparr>m_adapted := True\<rparr>" zs] zs in auto)
    with d zs show ?thesis by simp
  next
    case (Failed e)
    then have "answers (ss @ [MapS t]) p Next (Fail e) (\<lambda>_. True)"
      using answers_deliver [OF a, of "MapS t"] map_body_handles [of ss t x] by fastforce
    with d Failed Cons.prems(2) show ?thesis by auto
  next
    case Stopped
    then have "answers (ss @ [MapS t]) p Next Stop (\<lambda>_. True)"
      using answers_deliver [OF a, of "MapS t"] map_body_handles [of ss t x] by fastforce
    with d Stopped Cons.prems(2) show ?thesis by auto
  qed
qed

lemma map_produces:
  assumes "produces ss v xs fin"
  shows "produces (ss @ [MapS (Map_e e)]) v (fst (map_spec e xs fin)) (snd (map_spec e xs fin))"
  by (rule produces_through [OF assms, where t' = "\<lambda>_ _. MapS (Map_e e)" and q = "\<lambda>p. p"])
    (auto simp: Map_e_def intro!: map_streams)

interpretation map_stage: stream_transformer "[MapS (Map_e e)]" "\<lambda>_ _. True" "map_spec e" for e
  by unfold_locales (rule map_produces)

interpretation map_pure: stream_transformer "[MapS (Map f)]" "\<lambda>_ _. True" "\<lambda>xs fin. (map f xs, fin)" for f
  using map_produces [of _ _ _ _ "\<lambda>v. Started (f v)"]
  by unfold_locales (simp add: Map_def map_spec_pure)

subsection \<open>Filter\<close>

lemma filter_passes_final: "passes_final (FilterS t)"
  by (rule passes_finalI) (auto simp: handles_def)

lemma filter_streams:
  assumes "streams ss p xs fin" and "f_stream t = Some p"
  shows "streams (ss @ [FilterS t]) p (filter (f_f t) xs) fin"
  using assms
proof (induction xs arbitrary: ss)
  case Nil
  then show ?case by (simp add: streams_Nil_through filter_passes_final del: streams.simps)
next
  case (Cons x xs)
  have d: "done_ok (ss @ [FilterS t]) p"
    using Cons.prems(1) by (auto intro: done_ok_through filter_passes_final)
  have a: "answers ss p Next (Body x) (\<lambda>ss'. streams ss' p xs fin)" using Cons.prems(1) by simp
  show ?case
  proof (cases "f_f t x")
    case True
    have "answers (ss @ [FilterS t]) p Next (Body x) (\<lambda>z. streams z p (filter (f_f t) xs) fin)"
      by (rule answers_deliver [OF a, of _ "FilterS t"])
        (use True Cons in \<open>auto simp: handles_def\<close>)
    with d True show ?thesis by simp
  next
    case False
    have "asks (ss @ [FilterS t]) p p (filter (f_f t) xs) fin"
      by (rule asks_again [OF a, of _ "FilterS t" p])
        (use False Cons in \<open>auto simp: handles_def streams_iff\<close>)
    with d False show ?thesis by (simp add: streams_iff)
  qed
qed

lemma filter_produces:
  fixes ss :: "('c, 'd, 'i) stage list"
  assumes "produces ss v xs fin"
  shows "produces (ss @ [FilterS (Filter f)]) v (filter f xs) fin"
proof (rule produces_through [OF assms, where t' = "\<lambda>_ p. FilterS ((Filter f)\<lparr>f_stream := Some p\<rparr>)"
      and q = "\<lambda>p. p"])
  fix ss' :: "('c, 'd, 'i) stage list" and p assume "streams ss' p xs fin"
  from filter_streams [OF this, of "(Filter f)\<lparr>f_stream := Some p\<rparr>"]
  show "streams (ss' @ [FilterS ((Filter f)\<lparr>f_stream := Some p\<rparr>)]) p (filter f xs) fin"
    by (simp add: Filter_def)
qed auto

interpretation filter_stage:
  stream_transformer "[FilterS (Filter f)]" "\<lambda>_ _. True" "\<lambda>xs fin. (filter f xs, fin)" for f
  by unfold_locales (simp add: filter_produces)

end
