(* ===== verification/Stream_Takes.thy ===== *)
theory Stream_Takes
  imports Stream_Pipelines
begin

text \<open>
  The stages that decide when a stream is over: \<^verbatim>\<open>Until\<close> (both specialisations), \<^verbatim>\<open>TakeRange\<close>,
  \<^verbatim>\<open>TakeFirst\<close> and \<^verbatim>\<open>TakeLast\<close>. Each is shown to compute its list function; the size counters are
  64-bit words, and the laws hold where \<^verbatim>\<open>begin_ + amount_\<close> does not wrap around.
\<close>

section \<open>Until\<close>

fun until_spec :: "(val \<Rightarrow> bool) \<Rightarrow> val list \<Rightarrow> final option \<Rightarrow> val list \<times> final option" where
  "until_spec f [] fin = ([], fin)"
| "until_spec f (x # xs) fin =
     (if f x then ([], Some FEnded) else (case until_spec f xs fin of (ys, e) \<Rightarrow> (x # ys, e)))"

lemma until_spec_eq:
  "until_spec f xs fin =
     (takeWhile (\<lambda>x. \<not> f x) xs, if \<exists>x \<in> set xs. f x then Some FEnded else fin)"
  by (induction xs) auto

lemma until_passes_final: "passes_final (UntilS t)"
  by (rule passes_finalI) (auto simp: handles_def)

lemma until_streams:
  fixes ss :: "('c, 'd, 'i) stage list"
  assumes "streams ss p xs fin" and "u_stream t = Some p" and "until_spec (u_f t) xs fin = (ys, fin')"
  shows "streams (ss @ [UntilS t]) p ys fin'"
  using assms
proof (induction xs arbitrary: ss ys)
  case Nil
  then show ?case by (metis until_passes_final until_spec.simps(1) prod.inject streams_Nil_through)
next
  case (Cons x xs)
  have d: "done_ok (ss @ [UntilS t]) p"
    using Cons.prems(1) by (auto intro: done_ok_through until_passes_final)
  have a: "answers ss p Next (Body x) (\<lambda>ss'. streams ss' p xs fin)" using Cons.prems(1) by simp
  show ?case
  proof (cases "u_f t x")
    case True
    have "answers (ss @ [UntilS t]) p Next Ended (\<lambda>_. True)"
    proof (rule answers_again [OF a, of _ "UntilS t" p Done])
      show "handles ss (UntilS t) (Call (Body x)) (UntilS t) (ToStream p Done)"
        using True Cons.prems(2) by (simp add: handles_def)
      fix ss' :: "('c, 'd, 'i) stage list" assume "streams ss' p xs fin"
      then have "done_ok ss' p" by (rule streams_done_ok)
      then show "answers (ss' @ [UntilS t]) p Done Ended (\<lambda>_. True)"
        using done_ok_through [OF _ until_passes_final] unfolding done_ok_def by blast
    qed
    with d True Cons.prems(3) show ?thesis by auto
  next
    case False
    obtain zs where zs: "until_spec (u_f t) xs fin = (zs, fin')" "ys = x # zs"
      using Cons.prems(3) False by (auto split: prod.splits)
    have "answers (ss @ [UntilS t]) p Next (Body x) (\<lambda>z. streams z p zs fin')"
      by (rule answers_deliver [OF a, of _ "UntilS t"])
        (use False Cons zs in \<open>auto simp: handles_def\<close>)
    with d zs show ?thesis by simp
  qed
qed

lemma until_produces:
  fixes ss :: "('c, 'd, 'i) stage list"
  assumes "produces ss v xs fin"
  shows "produces (ss @ [UntilS (Until f)]) v (fst (until_spec f xs fin)) (snd (until_spec f xs fin))"
proof (rule produces_through [OF assms, where t' = "\<lambda>_ p. UntilS ((Until f)\<lparr>u_stream := Some p\<rparr>)"
      and q = "\<lambda>p. p"])
  fix ss' :: "('c, 'd, 'i) stage list" and p assume "streams ss' p xs fin"
  from until_streams [OF this, of "(Until f)\<lparr>u_stream := Some p\<rparr>"]
  show "streams (ss' @ [UntilS ((Until f)\<lparr>u_stream := Some p\<rparr>)]) p
      (fst (until_spec f xs fin)) (snd (until_spec f xs fin))"
    by (simp add: Until_def)
qed auto

interpretation until_stage:
  stream_transformer "[UntilS (Until f)]" "\<lambda>_ _. True" "until_spec f" for f
  by unfold_locales (rule until_produces)

section \<open>Until with an eventual condition\<close>

text \<open>The condition's eventual may fail or stop, and must otherwise yield a \<^verbatim>\<open>bool\<close>.\<close>

fun until_e_spec :: "(val \<Rightarrow> signal) \<Rightarrow> val list \<Rightarrow> final option \<Rightarrow> val list \<times> final option" where
  "until_e_spec f [] fin = ([], fin)"
| "until_e_spec f (x # xs) fin =
     (case f x of
        Started (VBool True) \<Rightarrow> ([], Some FEnded)
      | Started _ \<Rightarrow> (case until_e_spec f xs fin of (ys, e) \<Rightarrow> (x # ys, e))
      | Failed err \<Rightarrow> ([], Some (FFail err))
      | Stopped \<Rightarrow> ([], Some FStop))"

definition yields_bool :: "(val \<Rightarrow> signal) \<Rightarrow> val list \<Rightarrow> bool" where
  "yields_bool f xs \<longleftrightarrow> (\<forall>x \<in> set xs. \<forall>v. f x = Started v \<longrightarrow> (\<exists>b. v = VBool b))"

lemma until_e_passes_final: "passes_final (UntilES t)"
  by (rule passes_finalI) (auto simp: handles_def)

lemma until_e_body_handles:
  assumes "ue_stream t = Some p" and "until_adaptor x p (ue_f t x) = Inr d"
  shows "handles ss (UntilES t) (Call (Body x)) (UntilES (t\<lparr>ue_arg := Some x\<rparr>)) d"
  using assms by (simp add: handles_def)

lemma until_e_streams:
  fixes ss :: "('c, 'd, 'i) stage list"
  assumes "streams ss p xs fin" and "ue_stream t = Some p" and "yields_bool (ue_f t) xs"
    and "until_e_spec (ue_f t) xs fin = (ys, fin')"
  shows "streams (ss @ [UntilES t]) p ys fin'"
  using assms
proof (induction xs arbitrary: ss ys t)
  case Nil
  then show ?case by (metis until_e_passes_final until_e_spec.simps(1) prod.inject streams_Nil_through)
next
  case (Cons x xs)
  let ?t = "UntilES (t\<lparr>ue_arg := Some x\<rparr>)"
  have d: "done_ok (ss @ [UntilES t]) p"
    using Cons.prems(1) by (auto intro: done_ok_through until_e_passes_final)
  have a: "answers ss p Next (Body x) (\<lambda>ss'. streams ss' p xs fin)" using Cons.prems(1) by simp
  note h = until_e_body_handles [OF Cons.prems(2), of x _ ss]
  have finals: "answers (ss @ [UntilES t]) p Next c (\<lambda>_. True)"
    if "until_adaptor x p (ue_f t x) = Inr (ToK c)" for c
    by (rule answers_deliver [OF a h [OF that]]) simp
  consider (finished) "ue_f t x = Started (VBool True)" | (body) "ue_f t x = Started (VBool False)"
    | (failed) e where "ue_f t x = Failed e" | (stopped) "ue_f t x = Stopped"
    using Cons.prems(3) by (cases "ue_f t x") (auto simp: yields_bool_def)
  then show ?case
  proof cases
    case finished
    have "answers (ss @ [UntilES t]) p Next Ended (\<lambda>_. True)"
    proof (rule answers_again [OF a, of _ ?t p Done])
      show "handles ss (UntilES t) (Call (Body x)) ?t (ToStream p Done)"
        by (rule h) (simp add: finished)
      fix ss' :: "('c, 'd, 'i) stage list" assume "streams ss' p xs fin"
      then have "done_ok ss' p" by (rule streams_done_ok)
      then show "answers (ss' @ [?t]) p Done Ended (\<lambda>_. True)"
        using done_ok_through [OF _ until_e_passes_final] unfolding done_ok_def by blast
    qed
    with d finished Cons.prems(4) show ?thesis by auto
  next
    case body
    obtain zs where zs: "until_e_spec (ue_f t) xs fin = (zs, fin')" "ys = x # zs"
      using Cons.prems(4) body by (auto split: prod.splits)
    have "answers (ss @ [UntilES t]) p Next (Body x) (\<lambda>z. streams z p zs fin')"
    proof (rule answers_deliver [OF a, of _ ?t])
      show "handles ss (UntilES t) (Call (Body x)) ?t (ToK (Body x))"
        by (rule h) (simp add: body)
      fix ss' :: "('c, 'd, 'i) stage list" assume "streams ss' p xs fin"
      then show "streams (ss' @ [?t]) p zs fin'"
        using Cons.IH [of ss' "t\<lparr>ue_arg := Some x\<rparr>" zs] Cons.prems(2,3) zs
        by (auto simp: yields_bool_def)
    qed
    with d zs show ?thesis by simp
  next
    case (failed e)
    with d Cons.prems(4) finals [of "Fail e"] show ?thesis by auto
  next
    case stopped
    with d Cons.prems(4) finals [of Stop] show ?thesis by auto
  qed
qed

lemma until_e_produces:
  fixes ss :: "('c, 'd, 'i) stage list"
  assumes "produces ss v xs fin" and "yields_bool f xs"
  shows "produces (ss @ [UntilES (Until_e f)]) v (fst (until_e_spec f xs fin)) (snd (until_e_spec f xs fin))"
proof (rule produces_through [OF assms(1), where t' = "\<lambda>_ p. UntilES ((Until_e f)\<lparr>ue_stream := Some p\<rparr>)"
      and q = "\<lambda>p. p"])
  fix ss' :: "('c, 'd, 'i) stage list" and p assume "streams ss' p xs fin"
  from until_e_streams [OF this, of "(Until_e f)\<lparr>ue_stream := Some p\<rparr>"] assms(2)
  show "streams (ss' @ [UntilES ((Until_e f)\<lparr>ue_stream := Some p\<rparr>)]) p
      (fst (until_e_spec f xs fin)) (snd (until_e_spec f xs fin))"
    by (simp add: Until_e_def)
qed auto

interpretation until_e_stage:
  stream_transformer "[UntilES (Until_e f)]" "\<lambda>xs _. yields_bool f xs" "until_e_spec f" for f
  by unfold_locales (rule until_e_produces)

section \<open>TakeRange and TakeFirst\<close>

text \<open>The stage \<^verbatim>\<open>TakeRange(begin, amount)\<close> after it has seen \<open>i\<close> values.\<close>

definition tr_at :: "size_t \<Rightarrow> size_t \<Rightarrow> sptr \<Rightarrow> ctx \<Rightarrow> nat \<Rightarrow> ('c, 'd, 'i) stage" where
  "tr_at b n p c i =
     TakeRangeS \<lparr>tr_begin = b, tr_amount = n, tr_i = of_nat i, tr_stream = Some p, tr_previous = Some c\<rparr>"

definition range_no_wrap :: "size_t \<Rightarrow> size_t \<Rightarrow> bool" where
  "range_no_wrap b n \<longleftrightarrow> unat b + unat n < 2 ^ 64"

definition take_range_spec ::
    "nat \<Rightarrow> nat \<Rightarrow> nat \<Rightarrow> val list \<Rightarrow> final option \<Rightarrow> val list \<times> final option" where
  "take_range_spec b n i xs fin =
     (take (b + n - max i b) (drop (b - i) xs),
      if b + n \<le> i + length xs then Some FEnded else fin)"

lemma tr_at_words:
  assumes "range_no_wrap b n" and "i \<le> unat b + unat n"
  shows "of_nat i < b + n \<longleftrightarrow> i < unat b + unat n"
    and "b \<le> of_nat i \<longleftrightarrow> unat b \<le> i"
    and "of_nat i < b \<longleftrightarrow> i < unat b"
    and "of_nat i = b + n \<longleftrightarrow> i = unat b + unat n"
proof -
  have s: "unat (b + n) = unat b + unat n"
    using assms(1) unat_add_lem [of b n] by (simp add: range_no_wrap_def)
  have i: "unat (of_nat i :: size_t) = i"
    using assms by (simp add: range_no_wrap_def unat_of_nat)
  show "of_nat i < b + n \<longleftrightarrow> i < unat b + unat n" by (simp add: word_less_nat_alt s i)
  show "b \<le> of_nat i \<longleftrightarrow> unat b \<le> i" by (simp add: word_le_nat_alt i)
  show "of_nat i < b \<longleftrightarrow> i < unat b" by (simp add: word_less_nat_alt i)
  show "of_nat i = b + n \<longleftrightarrow> i = unat b + unat n" 
    using s i word_eq_iff_unsigned [where 'a = nat, of "of_nat i" "b + n"] by simp
qed

lemma tr_passes_final: "passes_final (tr_at b n p c i)"
  by (rule passes_finalI) (auto simp: handles_def tr_at_def)

lemma tr_done_handles: "handles ss (tr_at b n p c i) (Req Done) (tr_at b n p c i) (ToStream p Done)"
  by (simp add: handles_def tr_at_def)

lemma tr_next_handles:
  assumes "range_no_wrap b n" and "i < unat b + unat n"
  shows "handles ss (tr_at b n p c i) (Req Next) (tr_at b n p c i) (ToStream p Next)"
  using tr_at_words [OF assms(1), of i] assms(2) by (simp add: handles_def tr_at_def)

lemma tr_full_handles:
  assumes "range_no_wrap b n"
  shows "handles ss (tr_at b n p c (unat b + unat n)) (Req Next) (tr_at b n p c (unat b + unat n)) (ToStream p Done)"
  using tr_at_words [OF assms, of "unat b + unat n"] by (simp add: handles_def tr_at_def)

lemma tr_take_handles:
  assumes "range_no_wrap b n" and "unat b \<le> i" and "i < unat b + unat n"
  shows "handles ss (tr_at b n p c i) (Call (Body x)) (tr_at b n p c (Suc i)) (ToK (Body x))"
  using tr_at_words [OF assms(1), of i] assms(2,3) by (simp add: handles_def tr_at_def add.commute)

lemma tr_skip_handles:
  assumes "range_no_wrap b n" and "i < unat b"
  shows "handles ss (tr_at b n p c i) (Call (Body x)) (tr_at b n p c (Suc i)) (ToStream p Next)"
  using tr_at_words [OF assms(1), of i] assms(2) by (simp add: handles_def tr_at_def add.commute)

lemma tr_done_ok: "done_ok ss p \<Longrightarrow> done_ok (ss @ [tr_at b n p c i]) (length ss)"
  by (rule done_ok_own [OF tr_done_handles]) (rule done_ok_through [OF _ tr_passes_final])

lemma tr_streams_from_asks:
  assumes "range_no_wrap b n" and "i \<le> unat b + unat n" and "done_ok ss p"
    and "take_range_spec (unat b) (unat n) i xs fin = (ys, fin')"
    and "i < unat b + unat n \<Longrightarrow> asks (ss @ [tr_at b n p c i]) p (length ss) ys fin'"
  shows "streams (ss @ [tr_at b n p c i]) (length ss) ys fin'"
proof (cases "i < unat b + unat n")
  case True
  with assms show ?thesis
    by (auto simp: streams_iff tr_done_ok intro: asks_own tr_next_handles)
next
  case False
  with assms(2) have i: "i = unat b + unat n" by simp
  have "answers (ss @ [tr_at b n p c i]) p Done Ended (\<lambda>_. True)"
    using done_ok_through [OF assms(3) tr_passes_final] by (simp add: done_ok_def)
  then have "answers (ss @ [tr_at b n p c i]) (length ss) Next Ended (\<lambda>_. True)"
    using tr_full_handles [OF assms(1)] unfolding i by (rule answers_own [rotated])
  moreover have "ys = []" "fin' = Some FEnded" using assms(4) i by (auto simp: take_range_spec_def)
  ultimately show ?thesis using assms(3) by (simp add: tr_done_ok)
qed

lemma tr_asks:
  fixes ss :: "('c, 'd, 'i) stage list"
  assumes "range_no_wrap b n" and "i < unat b + unat n" and "0 < unat n" and "streams ss p xs fin"
    and "take_range_spec (unat b) (unat n) i xs fin = (ys, fin')"
  shows "asks (ss @ [tr_at b n p c i]) p (length ss) ys fin'"
  using assms(2,4,5)
proof (induction xs arbitrary: ss i ys)
  case Nil
  then have "ys = []" "fin' = fin" by (auto simp: take_range_spec_def)
  with Nil show ?case by (cases fin) (auto intro: answers_deliver passes_finalD tr_passes_final)
next
  case (Cons x xs)
  have a: "answers ss p Next (Body x) (\<lambda>ss'. streams ss' p xs fin)" using Cons.prems(2) by simp
  show ?case
  proof (cases "unat b \<le> i")
    case True
    have sp: "take_range_spec (unat b) (unat n) (Suc i) xs fin = (tl ys, fin')" and y: "ys = x # tl ys"
      using Cons.prems(1,3) True by (auto simp: take_range_spec_def Suc_diff_le max_def take_Cons')
    have "answers (ss @ [tr_at b n p c i]) p Next (Body x) (\<lambda>z. streams z (length ss) (tl ys) fin')"
    proof (rule answers_deliver [OF a tr_take_handles [OF assms(1) True Cons.prems(1)]])
      fix ss' :: "('c, 'd, 'i) stage list"
      assume l: "length ss' = length ss" and str: "streams ss' p xs fin"
      have "streams (ss' @ [tr_at b n p c (Suc i)]) (length ss') (tl ys) fin'"
        using Cons.prems(1) Cons.IH [OF _ str sp]
        by (intro tr_streams_from_asks [OF assms(1) _ streams_done_ok [OF str] sp]) auto
      then show "streams (ss' @ [tr_at b n p c (Suc i)]) (length ss) (tl ys) fin'" by (simp add: l)
    qed
    then show ?thesis by (subst y) simp
  next
    case False
    then have sp: "take_range_spec (unat b) (unat n) (Suc i) xs fin = (ys, fin')"
      using Cons.prems(3) by (auto simp: take_range_spec_def max_def drop_Cons' split: if_splits)
    have "asks (ss' @ [tr_at b n p c (Suc i)]) p (length ss) ys fin'"
      if "length ss' = length ss" "streams ss' p xs fin" for ss' :: "('c, 'd, 'i) stage list"
      using Cons.IH [OF _ that(2) sp] that(1) False assms(3) by simp
    then show ?thesis
      using False by (intro asks_again [OF a tr_skip_handles [OF assms(1)]]) auto
  qed
qed

lemma take_range_produces:
  fixes ss :: "('c, 'd, 'i) stage list"
  assumes "produces ss v xs fin" and "range_no_wrap b n" and "0 < n \<or> b = 0"
  shows "produces (ss @ [TakeRangeS (TakeRange b n)]) v
    (fst (take_range_spec (unat b) (unat n) 0 xs fin)) (snd (take_range_spec (unat b) (unat n) 0 xs fin))"
proof (rule produces_through [OF assms(1), where t' = "\<lambda>c p. tr_at b n p c 0" and q = "\<lambda>_. length ss"])
  fix ss' :: "('c, 'd, 'i) stage list" and p c
  assume l: "length ss' = length ss" and str: "streams ss' p xs fin"
  have pos: "0 < unat n" if "(0::nat) < unat b + unat n"
    using assms(3) that by (auto simp: word_less_nat_alt)
  have "streams (ss' @ [tr_at b n p c 0]) (length ss')
      (fst (take_range_spec (unat b) (unat n) 0 xs fin)) (snd (take_range_spec (unat b) (unat n) 0 xs fin))"
    using tr_asks [OF assms(2) _ pos str]
    by (intro tr_streams_from_asks [OF assms(2) _ streams_done_ok [OF str]]) auto
  then show "streams (ss' @ [tr_at b n p c 0]) (length ss)
      (fst (take_range_spec (unat b) (unat n) 0 xs fin)) (snd (take_range_spec (unat b) (unat n) 0 xs fin))"
    by (simp add: l)
qed (auto simp: TakeRange_def tr_at_def)

interpretation take_range_stage:
  stream_transformer "[TakeRangeS (TakeRange b n)]"
    "\<lambda>_ _. range_no_wrap b n \<and> (0 < n \<or> b = 0)" "take_range_spec (unat b) (unat n) 0" for b n
  by unfold_locales (auto intro: take_range_produces)

lemma take_first_produces:
  assumes "produces ss v xs fin"
  shows "produces (ss @ [TakeRangeS (TakeFirst n)]) v (take (unat n) xs)
    (if unat n \<le> length xs then Some FEnded else fin)"
proof -
  have "range_no_wrap 0 n"
    using unsigned_less [of n, where 'a = nat] by (simp add: range_no_wrap_def)
  then show ?thesis
    using take_range_produces [OF assms, of 0 n] by (simp add: TakeFirst_def take_range_spec_def)
qed

interpretation take_first_stage:
  stream_transformer "[TakeRangeS (TakeFirst n)]" "\<lambda>_ _. True"
    "\<lambda>xs fin. (take (unat n) xs, if unat n \<le> length xs then Some FEnded else fin)" for n
  by unfold_locales (simp only: fst_conv snd_conv take_first_produces)

section \<open>TakeLast\<close>

definition tl_at :: "size_t \<Rightarrow> sptr \<Rightarrow> ctx \<Rightarrow> val list \<Rightarrow> bool \<Rightarrow> ('c, 'd, 'i) stage" where
  "tl_at n p c d e =
     TakeLastS \<lparr>tl_n = n, tl_data = d, tl_ended = e, tl_stream = Some p, tl_previous = Some c\<rparr>"

definition lastn :: "nat \<Rightarrow> 'a list \<Rightarrow> 'a list" where
  "lastn n xs = drop (length xs - n) xs"

fun take_last_spec :: "nat \<Rightarrow> val list \<Rightarrow> final option \<Rightarrow> val list \<times> final option" where
  "take_last_spec n xs (Some FEnded) = (lastn n xs, Some FEnded)"
| "take_last_spec n xs fin = ([], fin)"

text \<open>The bounded buffer after one more value: the oldest one goes when the buffer is full.\<close>

definition tl_push :: "nat \<Rightarrow> val list \<Rightarrow> val \<Rightarrow> val list" where
  "tl_push n d x = (if length d = n then tl d else d) @ [x]"

lemma lastn_push:
  assumes "0 < n" and "length d \<le> n"
  shows "lastn n (tl_push n d x @ xs) = lastn n (d @ x # xs)" and "length (tl_push n d x) \<le> n"
proof -
  show "length (tl_push n d x) \<le> n" using assms by (auto simp: tl_push_def)
  show "lastn n (tl_push n d x @ xs) = lastn n (d @ x # xs)"
  proof (cases "length d = n")
    case True
    with assms(1) obtain y ys where "d = y # ys" by (cases d) auto
    with True [symmetric] show ?thesis by (simp add: tl_push_def lastn_def)
  qed (simp add: tl_push_def)
qed

lemma tl_done_ok: "done_ok (ss @ [tl_at n p c d e]) (length ss)"
  unfolding done_ok_def by (rule answers_own_now) (auto simp: handles_def tl_at_def)

lemma tl_ended_streams:
  "streams (ss @ [tl_at n p c d True]) (length ss) d (Some FEnded)"
proof (induction d)
  case Nil
  show ?case by (auto simp: tl_done_ok intro!: answers_own_now) (auto simp: handles_def tl_at_def)
next
  case (Cons x d)
  have "handles ss (tl_at n p c (x # d) True) (Req Next) (tl_at n p c d True) (ToK (Body x))"
    by (simp add: handles_def tl_at_def)
  with Cons show ?case by (auto simp: tl_done_ok intro: answers_own_now)
qed

lemma tl_next_handles: "handles ss (tl_at n p c d False) (Req Next) (tl_at n p c d False) (ToStream p Next)"
  by (simp add: handles_def tl_at_def)

lemma tl_body_handles:
  assumes "0 < n"
  shows "handles ss (tl_at n p c d False) (Call (Body x)) (tl_at n p c (tl_push (unat n) d x) False) (ToStream p Next)"
proof -
  have "0 < unat n" using assms by (simp add: word_less_nat_alt)
  then show ?thesis
    by (cases d) (auto simp: handles_def tl_at_def tl_push_def pop_front_def)
qed

lemma tl_ended_handles:
  "handles ss (tl_at n p c (x # d) False) (Call Ended)
     (tl_at (min n (of_nat (length (x # d)))) p c d True) (ToK (Body x))"
  by (simp add: handles_def tl_at_def pop_front_def)

lemma tl_asks:
  fixes ss :: "('c, 'd, 'i) stage list"
  assumes "0 < n" and "streams ss p xs (Some FEnded)" and "length d \<le> unat n" and "d @ xs \<noteq> []"
  shows "asks (ss @ [tl_at n p c d False]) p (length ss) (lastn (unat n) (d @ xs)) (Some FEnded)"
  using assms(2-)
proof (induction xs arbitrary: ss d)
  case Nil
  then obtain x d' where d: "d = x # d'" by (cases d) auto
  have a: "answers ss p Next Ended (\<lambda>_. True)" using Nil.prems(1) by simp
  have "answers (ss @ [tl_at n p c d False]) p Next (Body x) (\<lambda>z. streams z (length ss) d' (Some FEnded))"
  proof (rule answers_deliver [OF a tl_ended_handles [of ss n p c x d', folded d]])
    fix ss' :: "('c, 'd, 'i) stage list" assume "length ss' = length ss"
    then show "streams (ss' @ [tl_at (min n (of_nat (length d))) p c d' True]) (length ss) d' (Some FEnded)"
      using tl_ended_streams [of ss'] by metis
  qed
  moreover have "lastn (unat n) (d @ []) = x # d'" using Nil.prems(2) d by (simp add: lastn_def)
  ultimately show ?case by simp
next
  case (Cons x xs)
  have n: "0 < unat n" using assms(1) by (simp add: word_less_nat_alt)
  note push = lastn_push [OF n Cons.prems(2), of x]
  have a: "answers ss p Next (Body x) (\<lambda>ss'. streams ss' p xs (Some FEnded))" using Cons.prems(1) by simp
  show ?case
  proof (rule asks_again [OF a tl_body_handles [OF assms(1)]])
    fix ss' :: "('c, 'd, 'i) stage list"
    assume "length ss' = length ss" and str: "streams ss' p xs (Some FEnded)"
    moreover have "tl_push (unat n) d x @ xs \<noteq> []" by (simp add: tl_push_def)
    ultimately show "asks (ss' @ [tl_at n p c (tl_push (unat n) d x) False]) p (length ss)
        (lastn (unat n) (d @ x # xs)) (Some FEnded)"
      using Cons.IH [OF str push(2)] push(1) by simp
  qed
qed

lemma tl_asks_fail:
  fixes ss :: "('c, 'd, 'i) stage list"
  assumes "0 < n" and "streams ss p xs (Some e)" and "e \<noteq> FEnded"
  shows "asks (ss @ [tl_at n p c d False]) p (length ss) [] (Some e)"
  using assms(2)
proof (induction xs arbitrary: ss d)
  case Nil
  then have "answers ss p Next (call_of_final e) (\<lambda>_. True)" by simp
  moreover have "handles ss (tl_at n p c d False) (Call (call_of_final e)) (tl_at n p c d False) (ToK (call_of_final e))"
    using assms(3) by (cases e) (auto simp: handles_def tl_at_def)
  ultimately show ?case by (auto intro: answers_deliver)
next
  case (Cons x xs)
  have a: "answers ss p Next (Body x) (\<lambda>ss'. streams ss' p xs (Some e))" using Cons.prems(1) by simp
  show ?case
    by (rule asks_again [OF a tl_body_handles [OF assms(1)]]) (metis Cons.IH)
qed

lemma take_last_produces:
  fixes ss :: "('c, 'd, 'i) stage list"
  assumes "produces ss v xs fin" and "0 < n" and "fin = Some FEnded \<longrightarrow> xs \<noteq> []"
  shows "produces (ss @ [TakeLastS (TakeLast n)]) v
    (fst (take_last_spec (unat n) xs fin)) (snd (take_last_spec (unat n) xs fin))"
proof (rule produces_through [OF assms(1), where t' = "\<lambda>c p. tl_at n p c [] False" and q = "\<lambda>_. length ss"])
  fix ss' :: "('c, 'd, 'i) stage list" and p c
  assume l: "length ss' = length ss" and str: "streams ss' p xs fin"
  have "asks (ss' @ [tl_at n p c [] False]) p (length ss')
      (fst (take_last_spec (unat n) xs fin)) (snd (take_last_spec (unat n) xs fin))"
  proof (cases fin)
    case (Some e)
    then show ?thesis
      using tl_asks [OF assms(2), of ss' p xs "[]" c] tl_asks_fail [OF assms(2), of ss' p xs e c "[]"]
        str assms(3) by (cases e) auto
  qed simp
  then show "streams (ss' @ [tl_at n p c [] False]) (length ss)
      (fst (take_last_spec (unat n) xs fin)) (snd (take_last_spec (unat n) xs fin))"
    using asks_own [OF tl_next_handles] tl_done_ok [of ss'] by (metis l streams_iff)
qed (auto simp: TakeLast_def tl_at_def)

interpretation take_last_stage:
  stream_transformer "[TakeLastS (TakeLast n)]"
    "\<lambda>xs fin. 0 < n \<and> (fin = Some FEnded \<longrightarrow> xs \<noteq> [])" "take_last_spec (unat n)" for n
  by unfold_locales (auto intro: take_last_produces)

end
