(* ===== verification/Stream_Consumers.thy ===== *)
theory Stream_Consumers
  imports Stream_Pipelines
begin

text \<open>
  The stages that end a stream: \<^verbatim>\<open>Collect\<close> and \<^verbatim>\<open>Loop\<close> (both continuations of \<^verbatim>\<open>loop.h\<close>), \<^verbatim>\<open>Head\<close> and
  \<^verbatim>\<open>Reduce\<close>; and \<^verbatim>\<open>FlatMap\<close>, which ends one inner stream per value of the outer one.
\<close>

section \<open>Consumers in general\<close>

lemma consumes_through:
  fixes ss :: "('c, 'd, 'i) stage list"
  assumes "produces ss v xs fin"
    and "\<And>cur p. stage_handle (length ss) cur t (Call (Begin p)) = Inr (t' p, Now (ToStream p Next))"
    and "\<And>ss' :: ('c, 'd, 'i) stage list. \<And>p. length ss' = length ss \<Longrightarrow> streams ss' p xs fin \<Longrightarrow>
      answers (ss' @ [t' p]) p Next (call_of_signal g) (\<lambda>_. True)"
  shows "\<exists>ss' cur'. pipe_steps (ss @ [t], cur, Down 0 (Start v))
    (ss', cur', Down (Suc (length ss)) (call_of_signal g))"
proof -
  from assms(1) obtain cur' ss' p where
    st: "pipe_steps (ss, cur, Down 0 (Start v)) (ss', cur', Down (length ss) (Begin p))"
    and str: "streams ss' p xs fin" unfolding produces_def by blast
  have l: "length ss' = length ss" by (rule pipe_steps_length [OF st])
  have "pipe_steps (ss @ [t], cur, Down 0 (Start v)) (ss' @ [t' p], cur', Up p Next)"
    using steps_then_last [OF st assms(2)] by simp
  moreover obtain cur'' z where "pipe_steps (ss' @ [t' p], cur', Up p Next)
      (z, cur'', Down (Suc (length ss)) (call_of_signal g))"
    using assms(3) [OF l str] l unfolding answers_def by (metis length_append_singleton)
  ultimately show ?thesis by (blast intro: star_trans)
qed

section \<open>Loops that read the whole stream\<close>

text \<open>
  A loop whose body updates the context by \<open>b\<close> and asks for the next value, and whose end makes a
  signal from the context: \<^verbatim>\<open>Collect\<close> and \<^verbatim>\<open>Loop()\<close> without callbacks are of this kind.
\<close>

definition full_loop :: "('d \<Rightarrow> val \<Rightarrow> 'd) \<Rightarrow> ('d \<Rightarrow> signal) \<Rightarrow> 'd loop_k \<Rightarrow> bool" where
  "full_loop b g s \<longleftrightarrow>
     l_begin s = None \<and> l_fail s = None \<and> l_stop s = None \<and>
     (l_body s = Some (\<lambda>d v. Inr (b d v, Next)) \<or> l_body s = None \<and> b = (\<lambda>d v. d)) \<and>
     (l_ended s = Some (\<lambda>d. Inr (d, g d)) \<or> l_ended s = None \<and> g = (\<lambda>d. Started VVoid))"

fun loop_result :: "('d \<Rightarrow> val \<Rightarrow> 'd) \<Rightarrow> ('d \<Rightarrow> signal) \<Rightarrow> 'd \<Rightarrow> val list \<Rightarrow> final option \<Rightarrow> signal" where
  "loop_result b g d xs (Some FEnded) = g (foldl b d xs)"
| "loop_result b g d xs (Some (FFail e)) = Failed e"
| "loop_result b g d xs _ = Stopped"

lemma full_loop_final:
  fixes s :: "'d loop_k"
  assumes "full_loop b g s" and "fin = Some e"
    and "answers ss p Next (call_of_final e) P"
  shows "answers (ss @ [LoopS s]) p Next (call_of_signal (loop_result b g (l_context s) [] fin)) (\<lambda>_. True)"
  unfolding answers_def
proof
  fix cur
  from assms(3) obtain cur' ss' where
    st: "pipe_steps (ss, cur, Up p Next) (ss', cur', Down (length ss) (call_of_final e))"
    unfolding answers_def by blast
  have "\<exists>s' w. loop_handle cur' s (Call (call_of_final e)) = Inr (s', w) \<and>
      out_dest w = ToK (call_of_signal (loop_result b g (l_context s) [] fin))"
    using assms(1,2)
    by (cases e) (auto simp: full_loop_def loop_finish_def loop_capture_def split: option.splits)
  then obtain s' w where w: "loop_handle cur' s (Call (call_of_final e)) = Inr (s', w)"
    "out_dest w = ToK (call_of_signal (loop_result b g (l_context s) [] fin))" by blast
  have "pipe_steps (ss @ [LoopS s], cur, Up p Next) (ss' @ [LoopS s'], enter cur' (length ss) w)"
    by (rule steps_then_last [OF st]) (simp add: w)
  moreover have "enter cur' (length ss) w = (fst (enter cur' (length ss) w),
      Down (length (ss @ [LoopS s])) (call_of_signal (loop_result b g (l_context s) [] fin)))"
    using w(2) by (metis length_append_singleton prod.collapse route.simps(1) snd_enter)
  ultimately show "\<exists>cur' z. pipe_steps (ss @ [LoopS s], cur, Up p Next)
      (z, cur', Down (length (ss @ [LoopS s])) (call_of_signal (loop_result b g (l_context s) [] fin))) \<and> True"
    by metis
qed

lemma full_loop_answers:
  fixes ss :: "('c, 'd, 'i) stage list"
  assumes "streams ss p xs fin" and "fin \<noteq> None" and "full_loop b g s" and "l_stream s = Some p"
  shows "answers (ss @ [LoopS s]) p Next (call_of_signal (loop_result b g (l_context s) xs fin)) (\<lambda>_. True)"
  using assms
proof (induction xs arbitrary: ss s)
  case Nil
  then show ?case using full_loop_final [OF Nil.prems(3)] by auto
next
  case (Cons x xs)
  let ?s = "s\<lparr>l_context := b (l_context s) x\<rparr>"
  have a: "answers ss p Next (Body x) (\<lambda>ss'. streams ss' p xs fin)" using Cons.prems(1) by simp
  have "handles ss (LoopS s) (Call (Body x)) (LoopS ?s) (ToStream p Next)"
    using Cons.prems(3,4) by (auto simp: handles_def full_loop_def loop_request_def)
  moreover have "answers (ss' @ [LoopS ?s]) p Next
      (call_of_signal (loop_result b g (l_context s) (x # xs) fin)) (\<lambda>_. True)"
    if "streams ss' p xs fin" for ss' :: "('c, 'd, 'i) stage list"
  proof -
    have "loop_result b g (l_context s) (x # xs) fin = loop_result b g (l_context ?s) xs fin"
      by (cases "(b, g, l_context s, xs, fin)" rule: loop_result.cases) auto
    moreover have "full_loop b g ?s" "l_stream ?s = Some p"
      using Cons.prems(3,4) by (auto simp: full_loop_def)
    ultimately show ?thesis using Cons.IH [OF that Cons.prems(2), of ?s] by simp
  qed
  ultimately show ?case by (auto intro: answers_again [OF a])
qed

lemma full_loop_consumes:
  fixes ss :: "('c, 'd, 'i) stage list"
  assumes "produces ss v xs fin" and "fin \<noteq> None" and "full_loop b g s"
  shows "\<exists>ss' cur'. pipe_steps (ss @ [LoopS s], cur, Down 0 (Start v))
    (ss', cur', Down (Suc (length ss)) (call_of_signal (loop_result b g (l_context s) xs fin)))"
proof (rule consumes_through [OF assms(1), where t' = "\<lambda>p. LoopS (s\<lparr>l_stream := Some p\<rparr>)"])
  fix ss' :: "('c, 'd, 'i) stage list" and p assume "streams ss' p xs fin"
  moreover have "full_loop b g (s\<lparr>l_stream := Some p\<rparr>)" using assms(3) by (simp add: full_loop_def)
  ultimately show "answers (ss' @ [LoopS (s\<lparr>l_stream := Some p\<rparr>)]) p Next
      (call_of_signal (loop_result b g (l_context s) xs fin)) (\<lambda>_. True)"
    using full_loop_answers [of ss' p xs fin b g "s\<lparr>l_stream := Some p\<rparr>"] assms(2) by simp
qed (use assms(3) in \<open>simp add: full_loop_def loop_request_def\<close>)

interpretation collect_stage:
  stream_consumer "LoopS (Collect coll)" "\<lambda>_ fin. fin \<noteq> None"
    "loop_result coll (\<lambda>c. Started (VVec c)) []" for coll
proof unfold_locales
  have "full_loop coll (\<lambda>c. Started (VVec c)) (Collect coll)"
    by (simp add: full_loop_def Collect_def Loop_def)
  moreover have "l_context (Collect coll) = []" by (simp add: Collect_def Loop_def)
  ultimately show "produces ss v ys e \<Longrightarrow> e \<noteq> None \<Longrightarrow>
      \<exists>ss' cur'. pipe_steps (ss @ [LoopS (Collect coll)], cur, Down 0 (Start v))
        (ss', cur', Down (Suc (length ss))
          (call_of_signal (loop_result coll (\<lambda>c. Started (VVec c)) [] ys e)))" for ss v ys e cur
    using full_loop_consumes by metis
qed

interpretation loop_stage:
  stream_consumer "LoopS (Loop d)" "\<lambda>_ fin. fin \<noteq> None"
    "loop_result (\<lambda>d v. d) (\<lambda>_. Started VVoid) d" for d
proof unfold_locales
  have "full_loop (\<lambda>d v. d) (\<lambda>_. Started VVoid) (Loop d)" by (simp add: full_loop_def Loop_def)
  moreover have "l_context (Loop d) = d" by (simp add: Loop_def)
  ultimately show "produces ss v ys e \<Longrightarrow> e \<noteq> None \<Longrightarrow>
      \<exists>ss' cur'. pipe_steps (ss @ [LoopS (Loop d)], cur, Down 0 (Start v))
        (ss', cur', Down (Suc (length ss))
          (call_of_signal (loop_result (\<lambda>d v. d) (\<lambda>_. Started VVoid) d ys e)))" for ss v ys e cur
    using full_loop_consumes by metis
qed

lemma foldl_emplace_back: "foldl collector_emplace_back ys xs = ys @ xs"
  by (induction xs arbitrary: ys) (auto simp: collector_emplace_back_def)

lemma foldl_insert_set: "set (foldl collector_insert ys xs) = set ys \<union> set xs"
  by (induction xs arbitrary: ys) (auto simp: collector_insert_def)

lemma foldl_insert_distinct: "distinct ys \<Longrightarrow> distinct (foldl collector_insert ys xs)"
  by (induction xs arbitrary: ys) (auto simp: collector_insert_def)

section \<open>Head\<close>

fun head_result :: "val list \<Rightarrow> final option \<Rightarrow> signal" where
  "head_result (x # xs) fin = Started x"
| "head_result [] (Some (FFail e)) = Failed e"
| "head_result [] (Some FStop) = Stopped"
| "head_result [] _ = Failed (RuntimeError ''empty stream'')"

lemma head_answers:
  assumes "streams ss p xs fin" and "xs \<noteq> [] \<or> fin \<noteq> None"
  shows "answers (ss @ [HeadS \<lparr>h_arg = None, h_stream = Some p\<rparr>]) p Next
    (call_of_signal (head_result xs fin)) (\<lambda>_. True)"
proof (cases xs)
  case Nil
  with assms obtain e where fin: "fin = Some e"
    and a: "answers ss p Next (call_of_final e) (\<lambda>_. True)" by auto
  show ?thesis
    by (rule answers_deliver [OF a, of _ "HeadS \<lparr>h_arg = None, h_stream = Some p\<rparr>"])
      (use Nil fin in \<open>cases e; auto simp: handles_def\<close>)+
next
  case (Cons x xs')
  let ?t = "HeadS \<lparr>h_arg = Some x, h_stream = Some p\<rparr>"
  have a: "answers ss p Next (Body x) (\<lambda>ss'. streams ss' p xs' fin)" using assms(1) Cons by simp
  have "answers (ss' @ [?t]) p Done (Start x) (\<lambda>_. True)" if "streams ss' p xs' fin" for ss'
    using streams_done_ok [OF that] unfolding done_ok_def
    by (rule answers_deliver [where t' = ?t]) (auto simp: handles_def)
  then show ?thesis
    using Cons by (auto intro!: answers_again [OF a, where t' = ?t and q = p and r' = Done]) (auto simp: handles_def)
qed

interpretation head_stage:
  stream_consumer "HeadS Head" "\<lambda>xs fin. xs \<noteq> [] \<or> fin \<noteq> None" head_result
  by unfold_locales
    (rule consumes_through [where t' = "\<lambda>p. HeadS \<lparr>h_arg = None, h_stream = Some p\<rparr>"],
     auto simp: Head_def intro: head_answers)

section \<open>Reduce\<close>

fun reduce_result :: "(val \<Rightarrow> val \<Rightarrow> val \<times> signal) \<Rightarrow> val \<Rightarrow> val list \<Rightarrow> final option \<Rightarrow> signal" where
  "reduce_result f t [] (Some (FFail e)) = Failed e"
| "reduce_result f t [] (Some FStop) = Stopped"
| "reduce_result f t [] _ = Started t"
| "reduce_result f t (x # xs) fin =
     (case f t x of
        (t', Started (VBool False)) \<Rightarrow> Started t'
      | (t', Started _) \<Rightarrow> reduce_result f t' xs fin
      | (t', Failed e) \<Rightarrow> Failed e
      | (t', Stopped) \<Rightarrow> Stopped)"

text \<open>The reducer's eventual yields a \<^verbatim>\<open>bool\<close> whenever it yields a value (a \<^verbatim>\<open>static_assert\<close> in \<^verbatim>\<open>reduce.h\<close>).\<close>

definition reduces_bool :: "(val \<Rightarrow> val \<Rightarrow> val \<times> signal) \<Rightarrow> bool" where
  "reduces_bool f \<longleftrightarrow> (\<forall>t x t' v. f t x = (t', Started v) \<longrightarrow> (\<exists>b. v = VBool b))"

lemma reduce_answers:
  fixes ss :: "('c, 'd, 'i) stage list"
  assumes "streams ss p xs fin" and "fin \<noteq> None" and "reduces_bool (rd_e s)" and "rd_stream s = Some p"
  shows "answers (ss @ [ReduceS s]) p Next (call_of_signal (reduce_result (rd_e s) (rd_t s) xs fin)) (\<lambda>_. True)"
  using assms
proof (induction xs arbitrary: ss s)
  case Nil
  then obtain e where fin: "fin = Some e" and a: "answers ss p Next (call_of_final e) (\<lambda>_. True)" by auto
  show ?case
    by (rule answers_deliver [OF a, of _ "ReduceS s"]) (use fin in \<open>cases e; auto simp: handles_def\<close>)+
next
  case (Cons x xs)
  obtain t' g where f: "rd_e s (rd_t s) x = (t', g)" by (cases "rd_e s (rd_t s) x")
  let ?s = "s\<lparr>rd_t := t', rd_adapted := True\<rparr>"
  have a: "answers ss p Next (Body x) (\<lambda>ss'. streams ss' p xs fin)" using Cons.prems(1) by simp
  have h: "handles ss (ReduceS s) (Call (Body x)) (ReduceS ?s) d"
    if "reduce_adaptor (Some p) g = Inr d" for d
    using f that Cons.prems(4) by (simp add: handles_def)
  have finish: "answers (ss @ [ReduceS s]) p Next c (\<lambda>_. True)" if "reduce_adaptor (Some p) g = Inr (ToK c)" for c
    by (rule answers_deliver [OF a h [OF that]]) simp
  consider (more) "g = Started (VBool True)" | (enough) "g = Started (VBool False)"
    | (failed) e where "g = Failed e" | (stopped) "g = Stopped"
    using Cons.prems(3) f by (cases g) (fastforce simp: reduces_bool_def)+
  then show ?case
  proof cases
    case more
    have "answers (ss' @ [ReduceS ?s]) p Next (call_of_signal (reduce_result (rd_e s) t' xs fin)) (\<lambda>_. True)"
      if "streams ss' p xs fin" for ss' :: "('c, 'd, 'i) stage list"
      using Cons.IH [OF that Cons.prems(2), of ?s] Cons.prems(3,4) by simp
    then show ?thesis using more f by (auto intro!: answers_again [OF a h])
  next
    case enough
    have "answers (ss' @ [ReduceS ?s]) p Done (Start t') (\<lambda>_. True)"
      if "streams ss' p xs fin" for ss' :: "('c, 'd, 'i) stage list"
      using streams_done_ok [OF that] unfolding done_ok_def
      by (rule answers_deliver [where t' = "ReduceS ?s"]) (auto simp: handles_def)
    then show ?thesis using enough f by (auto intro!: answers_again [OF a h])
  next
    case (failed e)
    with finish [of "Fail e"] f show ?thesis by simp
  next
    case stopped
    with finish [of Stop] f show ?thesis by simp
  qed
qed

interpretation reduce_stage:
  stream_consumer "ReduceS (Reduce t f)" "\<lambda>xs fin. fin \<noteq> None \<and> reduces_bool f" "reduce_result f t" for t f
proof (unfold_locales, goal_cases)
  case (1 ss v ys e cur)
  show ?case
  proof (rule consumes_through [OF 1(1), where t' = "\<lambda>p. ReduceS ((Reduce t f)\<lparr>rd_stream := Some p\<rparr>)"])
    fix ss' :: "('a, 'b, 'c) stage list" and p assume "streams ss' p ys e"
    then show "answers (ss' @ [ReduceS ((Reduce t f)\<lparr>rd_stream := Some p\<rparr>)]) p Next
        (call_of_signal (reduce_result f t ys e)) (\<lambda>_. True)"
      using reduce_answers [of ss' p ys e "(Reduce t f)\<lparr>rd_stream := Some p\<rparr>"] 1(2) by (simp add: Reduce_def)
  qed simp
qed

section \<open>FlatMap\<close>

text \<open>
  \<open>inner_streams nx dn i ys\<close>: the inner stream in state \<open>i\<close> delivers \<open>ys\<close> and ends, and can be told at
  any time that it is done. The locale is the contract of the eventuals \<^verbatim>\<open>f_\<close> returns.
\<close>

fun inner_streams ::
    "('i \<Rightarrow> ('i \<times> call) res) \<Rightarrow> ('i \<Rightarrow> ('i \<times> call) res) \<Rightarrow> 'i \<Rightarrow> val list \<Rightarrow> bool" where
  "inner_streams nx dn i [] \<longleftrightarrow> (\<exists>i'. dn i = Inr (i', Ended)) \<and> (\<exists>i'. nx i = Inr (i', Ended))"
| "inner_streams nx dn i (y # ys) \<longleftrightarrow>
     (\<exists>i'. dn i = Inr (i', Ended)) \<and> (\<exists>i'. nx i = Inr (i', Body y) \<and> inner_streams nx dn i' ys)"

definition fm_idle ::
    "(val \<Rightarrow> 'i) \<Rightarrow> ('i \<Rightarrow> ('i \<times> call) res) \<Rightarrow> ('i \<Rightarrow> ('i \<times> call) res) \<Rightarrow> ('i \<Rightarrow> ('i \<times> call) res) \<Rightarrow>
     sptr \<Rightarrow> ctx \<Rightarrow> bool \<Rightarrow> 'i flat_map_k" where
  "fm_idle f st nx dn p c fin =
     (FlatMap f st nx dn)\<lparr>fm_outer := Some p, fm_previous := Some c, fm_is_done := fin\<rparr>"

locale inner_stream =
  fixes f :: "val \<Rightarrow> 'i" and st nx dn :: "'i \<Rightarrow> ('i \<times> call) res" and contents :: "val \<Rightarrow> val list"
  assumes inner_start: "\<exists>i q. st (f v) = Inr (i, Begin q) \<and> inner_streams nx dn i (contents v)"
begin

abbreviation idle :: "sptr \<Rightarrow> ctx \<Rightarrow> bool \<Rightarrow> ('c, 'd, 'i) stage" where
  "idle p c fin \<equiv> FlatMapS (fm_idle f st nx dn p c fin)"

abbreviation active :: "sptr \<Rightarrow> ctx \<Rightarrow> 'i \<Rightarrow> sptr \<Rightarrow> ('c, 'd, 'i) stage" where
  "active p c i q \<equiv>
     FlatMapS ((fm_idle f st nx dn p c False)\<lparr>fm_adapted := Some i, fm_inner := Some q\<rparr>)"

lemma idle_next: "handles ss (idle p c False) (Req Next) (idle p c False) (ToStream p Next)"
  by (simp add: handles_def fm_idle_def FlatMap_def via_def)

lemma idle_done: "handles ss (idle p c False) (Req Done) (idle p c True) (ToStream p Done)"
  by (simp add: handles_def fm_idle_def FlatMap_def via_def)

lemma idle_ended: "handles ss (idle p c fin) (Call Ended) (idle p c fin) (ToK Ended)"
  by (simp add: handles_def fm_idle_def FlatMap_def)

lemma idle_final:
  "\<exists>t. handles ss (idle p c False) (Call (call_of_final e)) t (ToK (call_of_final e))"
  by (cases e) (auto simp: handles_def fm_idle_def FlatMap_def)

lemma idle_done_ok: "done_ok ss p \<Longrightarrow> done_ok (ss @ [idle p c False]) (length ss)"
  by (rule done_ok_own [OF idle_done]) (rule done_ok_deliver [OF _ idle_ended])

lemma body_empty:
  assumes "contents x = []"
  shows "handles ss (idle p c False) (Call (Body x)) (idle p c False) (ToStream p Next)"
  using inner_start [of x] assms
  by (auto simp: handles_def fm_idle_def FlatMap_def flat_map_inner_def)

lemma body_cons:
  assumes "contents x = y # ys"
  shows "\<exists>i q. handles ss (idle p c False) (Call (Body x)) (active p c i q) (ToK (Body y)) \<and>
    inner_streams nx dn i ys"
  using inner_start [of x] assms
  by (auto simp: handles_def fm_idle_def FlatMap_def flat_map_inner_def)

lemma active_done:
  assumes "inner_streams nx dn i ys" and "done_ok ss p"
  shows "done_ok (ss @ [active p c i q]) (length ss)"
proof (rule done_ok_own)
  have "\<exists>i'. dn i = Inr (i', Ended)" using assms(1) by (cases ys) auto
  then show "handles ss (active p c i q) (Req Done) (idle p c True) (ToStream p Done)"
    by (auto simp: handles_def fm_idle_def FlatMap_def flat_map_inner_def via_def)
  show "done_ok (ss @ [idle p c True]) p" by (rule done_ok_deliver [OF assms(2) idle_ended])
qed

lemma active_streams:
  assumes "inner_streams nx dn i ys" and "done_ok ss p"
    and "asks (ss @ [idle p c False]) p (length ss) zs fin"
  shows "streams (ss @ [active p c i q]) (length ss) (ys @ zs) fin"
  using assms
proof (induction ys arbitrary: i)
  case Nil
  then have "handles ss (active p c i q) (Req Next) (idle p c False) (ToStream p Next)"
    by (auto simp: handles_def fm_idle_def FlatMap_def flat_map_inner_def via_def)
  with Nil show ?case
    unfolding streams_iff using active_done [of i "[]"] asks_own by fastforce
next
  case (Cons y ys)
  then obtain i' where i': "nx i = Inr (i', Body y)" "inner_streams nx dn i' ys" by auto
  then have "handles ss (active p c i q) (Req Next) (active p c i' q) (ToK (Body y))"
    by (auto simp: handles_def fm_idle_def FlatMap_def flat_map_inner_def via_def)
  with Cons.IH [OF i'(2)] Cons.prems active_done [OF Cons.prems(1,2)] show ?case
    by (auto intro: answers_own_now)
qed

lemma flat_map_asks:
  fixes ss :: "('c, 'd, 'i) stage list"
  assumes "streams ss p xs fin"
  shows "asks (ss @ [idle p c False]) p (length ss) (concat (map contents xs)) fin"
  using assms
proof (induction xs arbitrary: ss)
  case Nil
  then show ?case
    using idle_final [of ss p c] by (cases fin) (auto intro: answers_deliver)
next
  case (Cons x xs)
  have a: "answers ss p Next (Body x) (\<lambda>ss'. streams ss' p xs fin)" using Cons.prems by simp
  show ?case
  proof (cases "contents x")
    case Nil
    have "asks (ss @ [idle p c False]) p (length ss) (concat (map contents xs)) fin"
      by (rule asks_again [OF a body_empty [OF Nil]]) (metis Cons.IH)
    with Nil show ?thesis by simp
  next
    case (Cons y ys)
    obtain i q where h: "handles ss (idle p c False) (Call (Body x)) (active p c i q) (ToK (Body y))"
      and i: "inner_streams nx dn i ys" using body_cons [OF Cons] by blast
    have "answers (ss @ [idle p c False]) p Next (Body y)
        (\<lambda>z. streams z (length ss) (ys @ concat (map contents xs)) fin)"
      by (rule answers_deliver [OF a h]) (metis active_streams [OF i] Cons.IH streams_done_ok)
    with Cons show ?thesis by simp
  qed
qed

lemma flat_map_produces:
  fixes ss :: "('c, 'd, 'i) stage list"
  assumes "produces ss v xs fin"
  shows "produces (ss @ [FlatMapS (FlatMap f st nx dn)]) v (concat (map contents xs)) fin"
proof (rule produces_through [OF assms, where t' = "\<lambda>c p. idle p c False" and q = "\<lambda>_. length ss"])
  fix ss' :: "('c, 'd, 'i) stage list" and p c
  assume l: "length ss' = length ss" and str: "streams ss' p xs fin"
  show "streams (ss' @ [idle p c False]) (length ss) (concat (map contents xs)) fin"
    using asks_own [OF idle_next flat_map_asks [OF str]] idle_done_ok [OF streams_done_ok [OF str]]
    by (metis l streams_iff)
qed (auto simp: fm_idle_def FlatMap_def)

end

text \<open>\<^verbatim>\<open>Iterate\<close> as the inner stream: its continuation in the place of \<^verbatim>\<open>adapted_\<close>.\<close>

definition as_inner :: "input \<Rightarrow> 'c stream_k \<Rightarrow> ('c stream_k \<times> call) res" where
  "as_inner x s = rbind (stream_handle 0 0 s x) (\<lambda>(s', w).
     case out_dest w of ToK c \<Rightarrow> Inr (s', c) | ToStream _ _ \<Rightarrow> Inl NoSuchMethod)"

lemma iterate_inner_streams:
  "iter_at xs i c s \<Longrightarrow> i \<le> length xs \<Longrightarrow>
   inner_streams (as_inner (Req Next)) (as_inner (Req Done)) s (drop i xs)"
proof (induction "length xs - i" arbitrary: i s)
  case 0
  then show ?case
    by (auto simp: as_inner_def iter_at_def stream_emit_def iterate_next_def iterate_done_def)
next
  case (Suc n)
  then have i: "i < length xs" by simp
  let ?s = "s\<lparr>s_context := \<lparr>container = xs, iter = Some (Suc i)\<rparr>\<rparr>"
  have "iter_at xs (Suc i) c ?s" using Suc.prems(1) by (simp add: iter_at_def)
  then have "inner_streams (as_inner (Req Next)) (as_inner (Req Done)) ?s (drop (Suc i) xs)"
    using Suc.hyps(2) i by (intro Suc.hyps(1)) auto
  then show ?case
    using Suc.prems(1) i
    by (auto simp: Cons_nth_drop_Suc [symmetric] as_inner_def iter_at_def stream_emit_def
        iterate_next_def iterate_done_def)
qed

interpretation iterate_inner:
  inner_stream "\<lambda>v. Iterate (g v)" "as_inner (Call (Start VVoid))" "as_inner (Req Next)" "as_inner (Req Done)" g for g
proof unfold_locales
  fix v
  let ?s = "(Iterate (g v))\<lparr>s_previous := Some 0, s_context := \<lparr>container = g v, iter = Some 0\<rparr>\<rparr>"
  have "as_inner (Call (Start VVoid)) (Iterate (g v)) = Inr (?s, Begin 0)"
    by (simp add: as_inner_def Iterate_def stream_bind_adaptor_def stream_emit_def iterate_begin_def)
  moreover have "iter_at (g v) 0 0 ?s" by (simp add: iter_at_def Iterate_def)
  ultimately show "\<exists>i q. as_inner (Call (Start VVoid)) (Iterate (g v)) = Inr (i, Begin q) \<and>
      inner_streams (as_inner (Req Next)) (as_inner (Req Done)) i (g v)"
    using iterate_inner_streams [of "g v" 0 0 ?s] by auto
qed

interpretation flat_map_stage:
  stream_transformer
    "[FlatMapS (FlatMap (\<lambda>v. Iterate (g v)) (as_inner (Call (Start VVoid))) (as_inner (Req Next)) (as_inner (Req Done)))]"
    "\<lambda>_ _. True" "\<lambda>xs fin. (concat (map g xs), fin)" for g
  by unfold_locales (simp add: iterate_inner.flat_map_produces)

end
