(* ===== verification/Stream_Theorems.thy ===== *)
theory Stream_Theorems
  imports Stream_Takes Stream_Consumers
begin

text \<open>
  What closed pipelines compute: the interpretations of \<open>closed_pipeline\<close> on the stages of the
  library, the theorems that follow from them, and the faults that the handlers can run into.
\<close>

section \<open>Closed pipelines\<close>

interpretation iterate_source: stream_source "[StreamS (Iterate xs)]" v xs "Some FEnded" for v xs
  by unfold_locales (rule iterate_produces)

interpretation repeat_source: stream_source "[RepeatS Repeat]" v "replicate n VVoid" None for v n
  by unfold_locales (rule repeat_produces)

interpretation map_filter:
  transformer_chain "[MapS (Map f)]" "\<lambda>_ _. True" "\<lambda>xs fin. (map f xs, fin)"
    "[FilterS (Filter p)]" "\<lambda>_ _. True" "\<lambda>xs fin. (filter p xs, fin)" for f p
  by unfold_locales

interpretation iterate_map_filter:
  closed_pipeline "[StreamS (Iterate xs)]" v xs "Some FEnded"
    "[MapS (Map f)] @ [FilterS (Filter p)]" "\<lambda>_ _. True \<and> True" "\<lambda>xs fin. (filter p (map f xs), fin)"
    "LoopS (Collect collector_emplace_back)" "\<lambda>_ fin. fin \<noteq> None"
    "loop_result collector_emplace_back (\<lambda>c. Started (VVec c)) []" for v xs f p
  using map_filter.transforms [of _ _ _ _ f p] by unfold_locales auto

text \<open>
  C34. \<^verbatim>\<open>Iterate(xs) >> Map(f) >> Filter(p) >> Collect<std::vector>()\<close> runs to completion and delivers to
  its continuation, exactly once, \<^verbatim>\<open>Start\<close> with the vector of the values of \<open>f\<close> that satisfy \<open>p\<close>, in order.
\<close>
theorem iterate_map_filter_collect:
  "\<exists>n ss cur'. pipe_run n
      ([StreamS (Iterate xs), MapS (Map f), FilterS (Filter p), LoopS (Collect collector_emplace_back)],
       cur, Down 0 (Start v)) =
     Delivered (ss, cur', Down 4 (Start (VVec (filter p (map f xs)))))"
  using iterate_map_filter.completes [of xs f p cur v] by (simp add: foldl_emplace_back numeral_eq_Suc)

text \<open>
  \<^verbatim>\<open>Iterate(xs) >> TakeRange(begin, amount) >> Collect\<close> completes with \<open>amount\<close> values starting at
  index \<open>begin\<close> (fewer if the stream is shorter), provided the 64-bit sum \<open>begin + amount\<close> does not wrap.
\<close>
theorem take_range_collect:
  assumes "range_no_wrap b n" and "0 < n \<or> b = 0"
  shows "\<exists>k ss cur'. pipe_run k
      ([StreamS (Iterate xs), TakeRangeS (TakeRange b n), LoopS (Collect collector_emplace_back)],
       cur, Down 0 (Start v)) =
     Delivered (ss, cur', Down 3 (Start (VVec (take (unat n) (drop (unat b) xs)))))"
proof -
  have "closed_pipeline [StreamS (Iterate xs)] v xs (Some FEnded) [TakeRangeS (TakeRange b n)]
      (\<lambda>_ _. range_no_wrap b n \<and> (0 < n \<or> b = 0)) (take_range_spec (unat b) (unat n) 0)
      (LoopS (Collect collector_emplace_back)) (\<lambda>_ fin. fin \<noteq> None)
      (loop_result collector_emplace_back (\<lambda>c. Started (VVec c)) [])"
    using assms by unfold_locales (auto simp: take_range_spec_def)
  from closed_pipeline.completes [OF this, of cur] show ?thesis
    by (simp add: take_range_spec_def foldl_emplace_back numeral_eq_Suc)
qed

theorem take_range_collect_witness:
  "range_no_wrap 1 2 \<and> (0 < (2 :: size_t) \<or> (1 :: size_t) = 0) \<and>
   (\<exists>k ss cur'. pipe_run k
      ([StreamS (Iterate [VBool True, VInt 7, VInt 8, VInt 9]), TakeRangeS (TakeRange 1 2),
        LoopS (Collect collector_emplace_back)], 0, Down 0 (Start VVoid)) =
     Delivered (ss, cur', Down 3 (Start (VVec [VInt 7, VInt 8]))))"
proof -
  have h: "range_no_wrap 1 2" "0 < (2 :: size_t) \<or> (1 :: size_t) = 0" by (simp_all add: range_no_wrap_def)
  show ?thesis
    using h take_range_collect [OF h, of "[VBool True, VInt 7, VInt 8, VInt 9]" 0 VVoid] by simp
qed

text \<open>
  C35. An infinite stream cut by \<^verbatim>\<open>TakeFirst(n)\<close> terminates: \<^verbatim>\<open>Repeat() >> TakeFirst(n) >> Collect\<close> completes
  with exactly \<open>n\<close> values, although \<^verbatim>\<open>Repeat\<close> itself never ends.
\<close>
theorem repeat_take_first_collect:
  "\<exists>k ss cur'. pipe_run k
      ([RepeatS Repeat, TakeRangeS (TakeFirst n), LoopS (Collect collector_emplace_back)],
       cur, Down 0 (Start v)) =
     Delivered (ss, cur', Down 3 (Start (VVec (replicate (unat n) VVoid))))"
proof -
  have "closed_pipeline [RepeatS Repeat] v (replicate (unat n) VVoid) None [TakeRangeS (TakeFirst n)]
      (\<lambda>_ _. True) (\<lambda>xs fin. (take (unat n) xs, if unat n \<le> length xs then Some FEnded else fin))
      (LoopS (Collect collector_emplace_back)) (\<lambda>_ fin. fin \<noteq> None)
      (loop_result collector_emplace_back (\<lambda>c. Started (VVec c)) [])"
    by unfold_locales auto
  from closed_pipeline.completes [OF this, of cur] show ?thesis
    by (simp add: foldl_emplace_back numeral_eq_Suc)
qed

text \<open>
  \<^verbatim>\<open>Iterate(xs) >> TakeLast(n) >> Collect\<close> completes with the last \<open>n\<close> values (all of them if there are
  fewer), for a stream that is not empty and \<open>n > 0\<close>.
\<close>
theorem take_last_collect:
  assumes "0 < n" and "xs \<noteq> []"
  shows "\<exists>k ss cur'. pipe_run k
      ([StreamS (Iterate xs), TakeLastS (TakeLast n), LoopS (Collect collector_emplace_back)],
       cur, Down 0 (Start v)) =
     Delivered (ss, cur', Down 3 (Start (VVec (drop (length xs - unat n) xs))))"
proof -
  have "closed_pipeline [StreamS (Iterate xs)] v xs (Some FEnded) [TakeLastS (TakeLast n)]
      (\<lambda>xs fin. 0 < n \<and> (fin = Some FEnded \<longrightarrow> xs \<noteq> [])) (take_last_spec (unat n))
      (LoopS (Collect collector_emplace_back)) (\<lambda>_ fin. fin \<noteq> None)
      (loop_result collector_emplace_back (\<lambda>c. Started (VVec c)) [])"
    using assms by unfold_locales auto
  from closed_pipeline.completes [OF this, of cur] show ?thesis
    by (simp add: foldl_emplace_back lastn_def numeral_eq_Suc)
qed

theorem take_last_collect_witness:
  "0 < (2 :: size_t) \<and> [VInt 1, VInt 2, VInt 3] \<noteq> [] \<and>
   (\<exists>k ss cur'. pipe_run k
      ([StreamS (Iterate [VInt 1, VInt 2, VInt 3]), TakeLastS (TakeLast 2),
        LoopS (Collect collector_emplace_back)], 0, Down 0 (Start VVoid)) =
     Delivered (ss, cur', Down 3 (Start (VVec [VInt 2, VInt 3]))))"
  using take_last_collect [of 2 "[VInt 1, VInt 2, VInt 3]" 0 VVoid] by simp

text \<open>
  A non-empty stream is needed: \<^verbatim>\<open>TakeLast(n)\<close> on an empty stream calls \<^verbatim>\<open>front()\<close> on an empty
  \<^verbatim>\<open>std::deque\<close> when the stream ends, for every \<open>n\<close>: the pipeline runs into undefined behaviour.
\<close>
theorem take_last_empty_stream_faults:
  "pipe_run 8
      ([StreamS (Iterate []), TakeLastS (TakeLast n), LoopS (Collect coll)], cur, Down 0 (Start v)) =
   Faulted (UndefinedBehaviour ''pop_front of an empty deque'')"
  by (simp add: numeral_eq_Suc fire_def Iterate_def TakeLast_def Collect_def Loop_def stream_bind_adaptor_def
      stream_emit_def iterate_begin_def iterate_next_def loop_request_def pop_front_def)

text \<open>
  \<^verbatim>\<open>Until(f)\<close> passes the values before the first one that satisfies \<open>f\<close>, tells the stream it is done,
  and the pipeline completes with the values it passed.
\<close>
theorem until_collect:
  "\<exists>k ss cur'. pipe_run k
      ([StreamS (Iterate xs), UntilS (Until f), LoopS (Collect collector_emplace_back)],
       cur, Down 0 (Start v)) =
     Delivered (ss, cur', Down 3 (Start (VVec (takeWhile (\<lambda>x. \<not> f x) xs))))"
proof -
  have "closed_pipeline [StreamS (Iterate xs)] v xs (Some FEnded) [UntilS (Until f)]
      (\<lambda>_ _. True) (until_spec f) (LoopS (Collect collector_emplace_back)) (\<lambda>_ fin. fin \<noteq> None)
      (loop_result collector_emplace_back (\<lambda>c. Started (VVec c)) [])"
    by unfold_locales (auto simp: until_spec_eq)
  from closed_pipeline.completes [OF this, of cur] show ?thesis
    by (auto simp add: until_spec_eq foldl_emplace_back numeral_eq_Suc)
qed

text \<open>
  \<^verbatim>\<open>Iterate(xs) >> FlatMap([](x) { return Iterate(g(x)); }) >> Collect\<close> completes with the concatenation
  of the inner streams, empty inner streams included.
\<close>
theorem flat_map_collect:
  "\<exists>k ss cur'. pipe_run k
      ([StreamS (Iterate xs),
        FlatMapS (FlatMap (\<lambda>x. Iterate (g x)) (as_inner (Call (Start VVoid))) (as_inner (Req Next)) (as_inner (Req Done))),
        LoopS (Collect collector_emplace_back)], cur, Down 0 (Start v)) =
     Delivered (ss, cur', Down 3 (Start (VVec (concat (map g xs)))))"
proof -
  have "closed_pipeline [StreamS (Iterate xs)] v xs (Some FEnded)
      [FlatMapS (FlatMap (\<lambda>x. Iterate (g x)) (as_inner (Call (Start VVoid))) (as_inner (Req Next)) (as_inner (Req Done)))]
      (\<lambda>_ _. True) (\<lambda>xs fin. (concat (map g xs), fin))
      (LoopS (Collect collector_emplace_back)) (\<lambda>_ fin. fin \<noteq> None)
      (loop_result collector_emplace_back (\<lambda>c. Started (VVec c)) [])"
    by unfold_locales auto
  from closed_pipeline.completes [OF this, of cur] show ?thesis
    by (simp add: foldl_emplace_back numeral_eq_Suc)
qed

text \<open>
  \<^verbatim>\<open>Range(from, to, step) >> Collect\<close> terminates and yields \<open>from, from + step, ...\<close> up to but
  excluding \<open>to\<close> (nothing when the step is zero or points away from \<open>to\<close>), whenever the last increment
  \<open>to + step\<close> fits a 32-bit \<^verbatim>\<open>int\<close>; for the step 1 of \<^verbatim>\<open>Range(from, to)\<close> it always does.
\<close>
theorem range_collect:
  assumes "range_fits (sint to) (sint step) \<or> step = 1"
  shows "\<exists>k ss cur'. pipe_run k
      ([RangeS (Range a to step), LoopS (Collect collector_emplace_back)], cur, Down 0 (Start v)) =
     Delivered (ss, cur', Down 2 (Start (VVec
       (map (\<lambda>i. VInt (word_of_int i)) (range_list (sint a) (sint to) (sint step))))))"
proof -
  have fits: "range_fits (sint to) (sint step)"
    using assms sint_range_size [of to] by (auto simp: range_fits_def word_size)
  show ?thesis
    using collect_stage.runs [OF range_produces [OF fits, of a v], of collector_emplace_back cur]
    by (simp add: foldl_emplace_back numeral_eq_Suc)
qed

theorem range_collect_witness:
  "(range_fits (sint (7 :: int32)) (sint (3 :: int32)) \<or> (3 :: int32) = 1) \<and>
   (\<exists>k ss cur'. pipe_run k
      ([RangeS (Range 0 7 3), LoopS (Collect collector_emplace_back)], 0, Down 0 (Start VVoid)) =
     Delivered (ss, cur', Down 2 (Start (VVec [VInt 0, VInt 3, VInt 6]))))"
proof -
  have h: "range_fits (sint (7 :: int32)) (sint (3 :: int32)) \<or> (3 :: int32) = 1"
    by (simp add: range_fits_def)
  have "range_list 0 7 3 = [0, 3, 6]" by (simp add: range_list.simps)
  with h range_collect [OF h, of 0 0 VVoid] show ?thesis by simp
qed

text \<open>
  Without that bound the loop counter overflows: one \<^verbatim>\<open>Next\<close> after a value within \<open>step\<close> of
  \<^verbatim>\<open>INT_MAX\<close> executes \<^verbatim>\<open>from_ += step_\<close> with signed overflow, whatever \<open>to\<close> is beyond \<open>from\<close>.
\<close>
theorem range_overflow_faults:
  assumes "sint (r_from s) < sint (r_to s)" and "0 < sint (r_step s)"
    and "2 ^ 31 \<le> sint (r_from s) + sint (r_step s)" and "r_previous s \<noteq> None"
  shows "range_handle this cur s (Req Next) = Inl (UndefinedBehaviour ''signed overflow'')"
proof -
  have "\<not> range_ended s" using assms(1,2) by (simp add: range_ended_iff)
  moreover have "int32_add_overflows (r_from s) (r_step s)"
    using assms(3) by (simp add: int32_add_overflows_def)
  ultimately show ?thesis using assms(4) by auto
qed

theorem range_overflow_faults_witness:
  "range_handle 0 0 \<lparr>r_from = 2147483646, r_to = 2147483647, r_step = 2, r_previous = Some 0\<rparr> (Req Next) =
     Inl (UndefinedBehaviour ''signed overflow'')"
  by (rule range_overflow_faults) simp_all

text \<open>
  \<^verbatim>\<open>Head()\<close> delivers the first value of any stream that has one, bounded or not, and fails with
  \<^verbatim>\<open>RuntimeError("empty stream")\<close> when the stream ends without one.
\<close>
theorem head_first_or_error:
  "\<exists>k ss cur'. pipe_run k ([StreamS (Iterate xs), HeadS Head], cur, Down 0 (Start v)) =
     Delivered (ss, cur', Down 2 (case xs of
        x # _ \<Rightarrow> Start x | [] \<Rightarrow> Fail (RuntimeError ''empty stream'')))"
  using head_stage.runs [OF iterate_produces [of xs v], of cur]
  by (cases xs) (simp_all add: numeral_eq_Suc)

text \<open>
  \<^verbatim>\<open>Reduce(t, f)\<close> folds the stream into the accumulator: it stops early when the reducer's eventual
  yields \<^verbatim>\<open>false\<close>, and a failure or stop of that eventual completes the pipeline with it.
\<close>
theorem reduce_folds:
  assumes "reduces_bool f"
  shows "\<exists>k ss cur'. pipe_run k ([StreamS (Iterate xs), ReduceS (Reduce t f)], cur, Down 0 (Start v)) =
     Delivered (ss, cur', Down 2 (call_of_signal (reduce_result f t xs (Some FEnded))))"
  using reduce_stage.runs [OF iterate_produces [of xs v], of f t cur] assms
  by (simp add: numeral_eq_Suc)

definition sum_below_ten :: "val \<Rightarrow> val \<Rightarrow> val \<times> signal" where
  "sum_below_ten t x = (case (t, x) of
     (VInt a, VInt b) \<Rightarrow> (VInt (a + b), Started (VBool (a + b < 10))) | _ \<Rightarrow> (t, Stopped))"

theorem reduce_folds_witness:
  "reduces_bool sum_below_ten \<and>
   (\<exists>k ss cur'. pipe_run k ([StreamS (Iterate [VInt 4, VInt 5, VInt 6, VInt 7]), ReduceS (Reduce (VInt 0) sum_below_ten)],
       0, Down 0 (Start VVoid)) =
     Delivered (ss, cur', Down 2 (Start (VInt 15))))"
proof -
  have h: "reduces_bool sum_below_ten"
    by (auto simp: reduces_bool_def sum_below_ten_def split: val.splits)
  have "reduce_result sum_below_ten (VInt 0) [VInt 4, VInt 5, VInt 6, VInt 7] (Some FEnded) = Started (VInt 15)"
    by (simp add: sum_below_ten_def)
  with h reduce_folds [OF h, of "[VInt 4, VInt 5, VInt 6, VInt 7]" "VInt 0" 0 VVoid] show ?thesis by simp
qed

lemma map_spec_fuse:
  "map_spec (\<lambda>v. signal_bind (a v) b) xs fin = map_spec b (fst (map_spec a xs fin)) (snd (map_spec a xs fin))"
  by (induction xs) (auto simp: signal_bind_def split: signal.splits prod.splits)

lemma map_spec_final: "snd (map_spec e xs (Some f)) \<noteq> None"
  by (induction xs) (auto split: signal.splits prod.splits)

text \<open>
  Fusing \<^verbatim>\<open>Map(a) >> Map(b)\<close> into one continuation over the composed eventual (the optimisation in
  \<^verbatim>\<open>map.h\<close>) does not change what a pipeline delivers: for every list of values, and also when one of the
  eventuals fails or stops, both pipelines complete with the same signal.
\<close>
theorem map_fusion_equivalent:
  "\<exists>g. (\<exists>k ss cur'. pipe_run k
          ([StreamS (Iterate xs), MapS (Map_e a), MapS (Map_e b), LoopS (Collect coll)], cur, Down 0 (Start v)) =
          Delivered (ss, cur', Down 4 (call_of_signal g))) \<and>
       (\<exists>k ss cur'. pipe_run k
          ([StreamS (Iterate xs), MapS (map_fuse (Map_e a) (Map_e b)), LoopS (Collect coll)], cur, Down 0 (Start v)) =
          Delivered (ss, cur', Down 3 (call_of_signal g)))"
proof -
  let ?m = "map_spec (\<lambda>v. signal_bind (a v) b) xs (Some FEnded)"
  have fin: "snd ?m \<noteq> None" by (rule map_spec_final)
  have two: "\<exists>k ss cur'. pipe_run k
      ([StreamS (Iterate xs), MapS (Map_e a), MapS (Map_e b), LoopS (Collect coll)], cur, Down 0 (Start v)) =
      Delivered (ss, cur', Down 4 (call_of_signal
        (loop_result coll (\<lambda>c. Started (VVec c)) [] (fst ?m) (snd ?m))))"
    using collect_stage.runs [OF map_produces [OF map_produces [OF iterate_produces [of xs v]]], of b a coll cur]
      fin by (simp add: map_spec_fuse numeral_eq_Suc)
  have one: "\<exists>k ss cur'. pipe_run k
      ([StreamS (Iterate xs), MapS (map_fuse (Map_e a) (Map_e b)), LoopS (Collect coll)], cur, Down 0 (Start v)) =
      Delivered (ss, cur', Down 3 (call_of_signal
        (loop_result coll (\<lambda>c. Started (VVec c)) [] (fst ?m) (snd ?m))))"
    using collect_stage.runs [OF map_produces [OF iterate_produces [of xs v]], of "\<lambda>v. signal_bind (a v) b" coll cur]
      fin by (simp add: map_fuse_def Map_e_def numeral_eq_Suc)
  from two one show ?thesis by blast
qed

text \<open>
  The no-wrap hypothesis is needed: with \<^verbatim>\<open>begin_ + amount_\<close> wrapped around,
  \<^verbatim>\<open>TakeRange(2, SIZE_MAX)\<close> on a stream of at least three values fails the
  \<^verbatim>\<open>CHECK_EQ(i_, begin_ + amount_)\<close> and aborts instead of skipping two values and taking the rest.
\<close>
theorem take_range_wrap_aborts:
  "pipe_run 14 ([StreamS (Iterate (x # y # z # xs)), TakeRangeS (TakeRange 2 (- 1)), LoopS (Collect coll)],
     cur, Down 0 (Start v)) =
   Faulted (CheckFailed ''i_ == begin_ + amount_'')"
  by (simp add: numeral_eq_Suc fire_def Iterate_def TakeRange_def Collect_def Loop_def stream_bind_adaptor_def
      stream_emit_def iterate_begin_def iterate_next_def loop_request_def)

text \<open>
  A failing eventual in a \<^verbatim>\<open>Map\<close> ends the pipeline: when the eventual succeeds on the values before
  \<open>x\<close> and fails with \<open>err\<close> on \<open>x\<close>, the continuation after \<^verbatim>\<open>Collect\<close> gets \<^verbatim>\<open>Fail(err)\<close> and no value.
\<close>
theorem map_failure_propagates:
  assumes "\<forall>y \<in> set ys. \<exists>w. e y = Started w" and "e x = Failed err"
  shows "\<exists>k ss cur'. pipe_run k
      ([StreamS (Iterate (ys @ x # zs)), MapS (Map_e e), LoopS (Collect coll)], cur, Down 0 (Start v)) =
     Delivered (ss, cur', Down 3 (Fail err))"
proof -
  have "snd (map_spec e (ys @ x # zs) (Some FEnded)) = Some (FFail err)"
    using assms by (induction ys) (auto split: prod.splits)
  then show ?thesis
    using collect_stage.runs [OF map_produces [OF iterate_produces [of "ys @ x # zs" v]], of e coll cur]
    by (simp add: numeral_eq_Suc)
qed

definition fail_on_true :: "val \<Rightarrow> signal" where
  "fail_on_true v = (if v = VBool True then Failed (RuntimeError ''error'') else Started v)"

theorem map_failure_propagates_witness:
  "(\<exists>w. fail_on_true (VInt 1) = Started w) \<and> fail_on_true (VBool True) = Failed (RuntimeError ''error'') \<and>
   (\<exists>k ss cur'. pipe_run k
      ([StreamS (Iterate ([VInt 1] @ VBool True # [VInt 2])), MapS (Map_e fail_on_true), LoopS (Collect collector_insert)],
       0, Down 0 (Start VVoid)) =
     Delivered (ss, cur', Down 3 (Fail (RuntimeError ''error''))))"
proof -
  have h: "\<forall>y \<in> set [VInt 1]. \<exists>w. fail_on_true y = Started w"
    "fail_on_true (VBool True) = Failed (RuntimeError ''error'')"
    by (simp_all add: fail_on_true_def)
  show ?thesis
    using h map_failure_propagates [OF h, of "[VInt 2]" collector_insert 0 VVoid] by simp
qed

text \<open>
  A stream keeps its scheduler context: once started in context \<open>c\<close>, every \<^verbatim>\<open>Next\<close> or \<^verbatim>\<open>Done\<close>, from
  whichever context it is called, makes the stream's next call on its continuation inside \<open>c\<close>.
\<close>
theorem stream_stays_in_its_context:
  assumes "stream_handle this c s (Call (Start v)) = Inr (s1, w1)" and "s_previous s = None"
    and "stream_handle this cur s1 (Req r) = Inr (s2, w2)"
  shows "s_previous s1 = Some c \<and> s_previous s2 = Some c \<and> (\<exists>k. w2 = Via c (ToK k))"
  using assms
  by (cases r) (auto simp: stream_bind_adaptor_def stream_emit_def Let_def split: option.splits)

theorem stream_stays_in_its_context_witness:
  "\<exists>s1 w1 s2 w2. stream_handle 0 5 (Iterate [VInt 1]) (Call (Start VVoid)) = Inr (s1, w1) \<and>
     s_previous (Iterate [VInt 1]) = None \<and> stream_handle 0 9 s1 (Req Next) = Inr (s2, w2) \<and>
     s_previous s1 = Some 5 \<and> s_previous s2 = Some 5 \<and> (\<exists>k. w2 = Via 5 (ToK k))"
proof -
  obtain s1 w1 where 1: "stream_handle 0 5 (Iterate [VInt 1]) (Call (Start VVoid)) = Inr (s1, w1)"
    by (simp add: Iterate_def stream_bind_adaptor_def stream_emit_def iterate_begin_def)
  then obtain s2 w2 where 2: "stream_handle 0 9 s1 (Req Next) = Inr (s2, w2)"
    by (auto simp: Iterate_def stream_bind_adaptor_def stream_emit_def iterate_begin_def iterate_next_def)
  have p: "s_previous (Iterate [VInt 1]) = None" by (simp add: Iterate_def)
  from stream_stays_in_its_context [OF 1 p 2] 1 2 p show ?thesis by blast
qed

end
