(* ===== verification/Scheduler.thy ===== *)
theory Scheduler
  imports Eventuals_Prelude
begin

text \<open>
  Scheduler contexts and the default scheduler (\<^verbatim>\<open>scheduler.h\<close>, \<^verbatim>\<open>scheduler.cc\<close>).

  A thread's world holds \<open>current\<close> (the thread-local \<^verbatim>\<open>Scheduler::Context::current_\<close>), the state of
  every context, and a part \<open>user\<close> for everything the callbacks of a pipeline read and write. The
  virtual functions of a \<^verbatim>\<open>Scheduler\<close> are a record \<open>vtable\<close>; the operations that dispatch on
  \<^verbatim>\<open>context.scheduler()\<close> take the table of all schedulers as their argument \<open>vt\<close>.

  The locale \<open>schedulers\<close> states what the library relies on when it hands a callback to a scheduler
  that runs it at once: the callback is executed once, in the context it was submitted to, and the
  caller's current context and the use counts are what they were. The locale derives the same
  for both overloads of \<^verbatim>\<open>Context::Continue\<close>; the default scheduler interprets it.
\<close>

section \<open>Contexts\<close>

type_synonym sid = nat

record ctx_state =
  sched :: sid
  uses :: int
  blocked :: bool
  ctx_name :: string
  data :: "nat option"

record 'u world =
  current :: ctx
  contexts :: "ctx \<Rightarrow> ctx_state"
  user :: 'u

type_synonym 'u action = "'u world \<Rightarrow> 'u world res"

definition Context :: "sid \<Rightarrow> string \<Rightarrow> nat option \<Rightarrow> ctx_state" where
  "Context s n d = \<lparr>sched = s, uses = 0, blocked = False, ctx_name = n, data = d\<rparr>"

definition Get :: "'u world \<Rightarrow> ctx" where
  "Get w = current w"

definition Switch :: "ctx \<Rightarrow> 'u world \<Rightarrow> ctx \<times> 'u world" where
  "Switch c w = (let previous = current w in (previous, w\<lparr>current := c\<rparr>))"

definition on_context :: "ctx \<Rightarrow> (ctx_state \<Rightarrow> ctx_state) \<Rightarrow> 'u world \<Rightarrow> 'u world" where
  "on_context c f w = w\<lparr>contexts := (contexts w)(c := f (contexts w c))\<rparr>"

definition ctx_block :: "ctx \<Rightarrow> 'u world \<Rightarrow> 'u world" where
  "ctx_block c = on_context c (\<lambda>s. s\<lparr>blocked := True\<rparr>)"

definition ctx_unblock :: "ctx \<Rightarrow> 'u world \<Rightarrow> 'u world" where
  "ctx_unblock c = on_context c (\<lambda>s. s\<lparr>blocked := False\<rparr>)"

definition in_use :: "ctx \<Rightarrow> 'u world \<Rightarrow> bool" where
  "in_use c w = (uses (contexts w c) \<noteq> 0)"

definition ctx_use :: "ctx \<Rightarrow> 'u world \<Rightarrow> 'u world" where
  "ctx_use c = on_context c (\<lambda>s. s\<lparr>uses := uses s + 1\<rparr>)"

definition ctx_unuse :: "ctx \<Rightarrow> 'u world \<Rightarrow> 'u world res" where
  "ctx_unuse c w =
     check (uses (contexts w c) > 0) ''in_use_.load() > 0''
       (Inr (on_context c (\<lambda>s. s\<lparr>uses := uses s - 1\<rparr>) w))"

section \<open>Schedulers\<close>

record 'u vtable =
  Continuable :: "ctx \<Rightarrow> 'u world \<Rightarrow> bool res"
  Submit :: "'u action \<Rightarrow> ctx \<Rightarrow> 'u world \<Rightarrow> 'u world res"
  Clone :: "ctx \<Rightarrow> 'u world \<Rightarrow> 'u world res"

definition ctx_scheduler :: "(sid \<Rightarrow> 'u vtable) \<Rightarrow> ctx \<Rightarrow> 'u world \<Rightarrow> 'u vtable" where
  "ctx_scheduler vt c w = vt (sched (contexts w c))"

text \<open>The constructor that clones the current context: a context of the same scheduler, which may give it data.\<close>

definition Context_clone :: "(sid \<Rightarrow> 'u vtable) \<Rightarrow> ctx \<Rightarrow> string \<Rightarrow> 'u world \<Rightarrow> 'u world res" where
  "Context_clone vt c name w =
     (let w1 = w\<lparr>contexts := (contexts w)(c := Context (sched (contexts w (Get w))) name None)\<rparr>
      in Clone (ctx_scheduler vt c w1) c w1)"

definition Unblock :: "(sid \<Rightarrow> 'u vtable) \<Rightarrow> ctx \<Rightarrow> 'u action \<Rightarrow> 'u action" where
  "Unblock vt c f w = Submit (ctx_scheduler vt c w) f c w"

definition Continue :: "(sid \<Rightarrow> 'u vtable) \<Rightarrow> ctx \<Rightarrow> 'u action \<Rightarrow> 'u action" where
  "Continue vt c f w =
     rbind (Continuable (ctx_scheduler vt c w) c w) (\<lambda>continuable.
       if continuable then
         let (previous, w1) = Switch c w
         in rbind (f (ctx_use c w1)) (\<lambda>w2.
              let (_, w3) = Switch previous w2
              in ctx_unuse c w3)
       else Submit (ctx_scheduler vt c w) f c w)"

definition Continue_or :: "(sid \<Rightarrow> 'u vtable) \<Rightarrow> ctx \<Rightarrow> 'u action \<Rightarrow> (unit \<Rightarrow> 'u action) \<Rightarrow> 'u action" where
  "Continue_or vt c f g w =
     rbind (Continuable (ctx_scheduler vt c w) c w) (\<lambda>continuable.
       if continuable then
         let (previous, w1) = Switch c w
         in rbind (f (ctx_use c w1)) (\<lambda>w2.
              let (_, w3) = Switch previous w2
              in ctx_unuse c w3)
       else Submit (ctx_scheduler vt c w) (g ()) c w)"

section \<open>The default scheduler\<close>

definition default_Continuable :: "sid \<Rightarrow> ctx \<Rightarrow> 'u world \<Rightarrow> bool res" where
  "default_Continuable this c w = Inr (sched (contexts w (Get w)) = this)"

definition default_Submit :: "sid \<Rightarrow> 'u action \<Rightarrow> ctx \<Rightarrow> 'u world \<Rightarrow> 'u world res" where
  "default_Submit this callback c w =
     check (this = sched (contexts w c)) ''this == context.scheduler()''
       (let (previous, w1) = Switch c w
        in rbind (callback (ctx_use c w1)) (\<lambda>w2.
             let (switched, w3) = Switch previous w2
             in check (c = switched) ''&context == Context::Switch(previous).get()'' (ctx_unuse c w3)))"

definition default_Clone :: "ctx \<Rightarrow> 'u world \<Rightarrow> 'u world res" where
  "default_Clone c w = Inr w"

definition DefaultScheduler :: "sid \<Rightarrow> 'u vtable" where
  "DefaultScheduler this =
     \<lparr>Continuable = default_Continuable this, Submit = default_Submit this, Clone = default_Clone\<rparr>"

section \<open>Running a callback in a context\<close>

text \<open>
  \<open>wf_world\<close>: no use count is negative, no context is blocked, and contexts of the thread pool, scheduler number 1, have data (their requirements). \<open>neutral f g\<close>: the callback \<open>f\<close>, run in any well-formed world,
  reads only the current context and the user part and changes only the user part, as \<open>g\<close> says; in
  particular it gives back \<open>current\<close> and every use count.
\<close>

definition wf_world :: "'u world \<Rightarrow> bool" where
  "wf_world w \<longleftrightarrow> (\<forall>c. 0 \<le> uses (contexts w c) \<and> \<not> blocked (contexts w c) \<and> (sched (contexts w c) = 1 \<longrightarrow> data (contexts w c) \<noteq> None))"

definition set_user :: "'u world \<Rightarrow> 'u \<Rightarrow> 'u world" where
  "set_user w u = w\<lparr>user := u\<rparr>"

definition neutral :: "'u action \<Rightarrow> (ctx \<Rightarrow> 'u \<Rightarrow> 'u res) \<Rightarrow> bool" where
  "neutral f g \<longleftrightarrow> (\<forall>w. wf_world w \<longrightarrow> f w = map_sum id (set_user w) (g (current w) (user w)))"

lemma neutralI: "(\<And>w. wf_world w \<Longrightarrow> f w = map_sum id (set_user w) (g (current w) (user w))) \<Longrightarrow> neutral f g"
  by (simp add: neutral_def)

lemma neutralD: "neutral f g \<Longrightarrow> wf_world w \<Longrightarrow> f w = map_sum id (set_user w) (g (current w) (user w))"
  by (simp add: neutral_def)

lemma wf_ctx_use [simp]: "wf_world w \<Longrightarrow> wf_world (ctx_use c (w\<lparr>current := d\<rparr>))"
  by (auto simp: wf_world_def ctx_use_def on_context_def le_add1 intro: order_trans)

lemma wf_set_user [simp]: "wf_world (set_user w u) = wf_world w"
  by (simp add: wf_world_def set_user_def)

lemma set_user_simps [simp]:
  "current (set_user w u) = current w" "contexts (set_user w u) = contexts w" "user (set_user w u) = u"
  "set_user (set_user w u) u' = set_user w u'" "set_user w (user w) = w"
  by (simp_all add: set_user_def)

lemma set_user_twice [simp]: "set_user (set_user w u) = set_user w"
  by (rule ext) simp

lemma ctx_use_simps [simp]:
  "current (ctx_use c w) = current w" "user (ctx_use c w) = user w"
  by (simp_all add: ctx_use_def on_context_def)

lemma rbind_map_res: "rbind (map_sum id h r) f = rbind r (\<lambda>a. f (h a))"
  by (cases r) simp_all

lemma map_res_rbind: "map_sum id h (rbind r f) = rbind r (\<lambda>a. map_sum id h (f a))"
  by (cases r) simp_all

lemma rbind_Inr_right: "rbind r (\<lambda>a. Inr (h a)) = map_sum id h r"
  by (cases r) auto

lemma switched_back:
  assumes "wf_world w"
  shows "ctx_unuse c ((set_user (ctx_use c (w\<lparr>current := c\<rparr>)) u)\<lparr>current := current w\<rparr>) = Inr (set_user w u)"
proof -
  have "0 \<le> uses (contexts w c)"
    using assms by (simp add: wf_world_def)
  moreover have "set_user w u = w\<lparr>contexts := contexts w, user := u\<rparr>"
    by (simp add: set_user_def)
  ultimately show ?thesis
    by (simp add: ctx_unuse_def ctx_use_def on_context_def set_user_def)
qed

text \<open>Switching to a context, running a neutral callback and switching back is neutral.\<close>

lemma run_in_context:
  assumes "neutral f g" and "wf_world w"
  shows "rbind (f (ctx_use c (w\<lparr>current := c\<rparr>))) (\<lambda>w2. ctx_unuse c (w2\<lparr>current := current w\<rparr>)) =
    map_sum id (set_user w) (g c (user w))"
  using neutralD [OF assms(1) wf_ctx_use [OF assms(2)], of c c] assms(2)
  by (simp add: rbind_map_res switched_back rbind_Inr_right)

locale schedulers =
  fixes vt :: "sid \<Rightarrow> 'u vtable"
  assumes submit_runs:
    "neutral f g \<Longrightarrow> wf_world w \<Longrightarrow>
     Submit (ctx_scheduler vt c w) f c w = map_sum id (set_user w) (g c (user w))"
    and continuable_answers: "wf_world w \<Longrightarrow> \<exists>b. Continuable (ctx_scheduler vt c w) c w = Inr b"
begin

lemma unblock_runs: "neutral f g \<Longrightarrow> neutral (Unblock vt c f) (\<lambda>_. g c)"
  by (auto intro!: neutralI simp: Unblock_def submit_runs)

lemma continue_runs: "neutral f g \<Longrightarrow> neutral (Continue vt c f) (\<lambda>_. g c)"
  by (rule neutralI) (use continuable_answers [of _ c] in \<open>fastforce simp: Continue_def Switch_def submit_runs run_in_context\<close>)

lemma continue_or_runs: "neutral f g \<Longrightarrow> neutral (h ()) g \<Longrightarrow> neutral (Continue_or vt c f h) (\<lambda>_. g c)"
  by (rule neutralI) (use continuable_answers [of _ c] in \<open>fastforce simp: Continue_or_def Switch_def submit_runs run_in_context\<close>)

end

lemma default_submit_runs:
  assumes "neutral f g" and "wf_world w"
  shows "default_Submit (sched (contexts w c)) f c w = map_sum id (set_user w) (g c (user w))"
  using neutralD [OF assms(1) wf_ctx_use [OF assms(2)], of c c] assms(2)
  by (simp add: default_Submit_def Switch_def rbind_map_res rbind_Inr_right switched_back)

interpretation default: schedulers DefaultScheduler
  by unfold_locales (simp_all add: ctx_scheduler_def DefaultScheduler_def default_submit_runs default_Continuable_def)

end
