(* ===== verification/Continuations.thy ===== *)
theory Continuations
  imports Scheduler
begin

text \<open>
  The continuations of the value combinators: \<^verbatim>\<open>eventual.h\<close>, \<^verbatim>\<open>then.h\<close>, \<^verbatim>\<open>just.h\<close>, \<^verbatim>\<open>raise.h\<close>,
  \<^verbatim>\<open>conditional.h\<close>, \<^verbatim>\<open>if.h\<close>, \<^verbatim>\<open>catch.h\<close>, \<^verbatim>\<open>finally.h\<close>, \<^verbatim>\<open>expected.h\<close>, \<^verbatim>\<open>closure.h\<close>, \<^verbatim>\<open>terminal.h\<close>,
  \<^verbatim>\<open>compose.h\<close>, and \<^verbatim>\<open>Reschedule\<close>, \<^verbatim>\<open>RescheduleAfter\<close>, \<^verbatim>\<open>Preempt\<close> of \<^verbatim>\<open>scheduler.h\<close>.

  A continuation is an object with the methods \<^verbatim>\<open>Start\<close>, \<^verbatim>\<open>Fail\<close>, \<^verbatim>\<open>Stop\<close> (one function \<open>invoke\<close> of the
  \<open>signal\<close>) and \<^verbatim>\<open>Register\<close>, which answers the object that has the interrupt stored or runs into a
  failed assertion. Objects are codata: each class of the source is a corecursive function from its
  data members to the object, and composing with \<^verbatim>\<open>k\<close> is a function from objects to objects.
  A continuation of a value receives one signal, so \<open>invoke\<close> does not return the object.

  The functions a caller passes in work on the user part of the world and may fail; the \<^verbatim>\<open>start\<close>,
  \<^verbatim>\<open>fail\<close>, \<^verbatim>\<open>stop\<close> callbacks of \<^verbatim>\<open>Eventual<T>()\<close> get the continuation and the whole world.
\<close>

section \<open>Continuation objects\<close>

type_synonym intr = nat

codatatype 'u kont = Kont
  (invoke: "signal \<Rightarrow> 'u world \<Rightarrow> fault + 'u world")
  (register: "intr \<Rightarrow> fault + 'u kont")

type_synonym 'u eventual = "'u kont \<Rightarrow> 'u kont"

definition on_user :: "('u \<Rightarrow> ('a \<times> 'u) res) \<Rightarrow> 'u world \<Rightarrow> ('a \<times> 'u world) res" where
  "on_user f w = map_sum id (\<lambda>(a, u). (a, set_user w u)) (f (user w))"

definition invoke_registered :: "'u kont \<Rightarrow> intr option \<Rightarrow> signal \<Rightarrow> 'u action" where
  "invoke_registered k i s w =
     (case i of
        None \<Rightarrow> invoke k s w
      | Some j \<Rightarrow> rbind (register k j) (\<lambda>k'. invoke k' s w))"

definition compose :: "'u eventual \<Rightarrow> 'u eventual \<Rightarrow> 'u eventual" where
  "compose left right k = left (right k)"

section \<open>Reschedule and the helper of Eventual\<close>

primcorec RescheduleK :: "(sid \<Rightarrow> 'u vtable) \<Rightarrow> ctx \<Rightarrow> 'u kont \<Rightarrow> 'u kont" where
  "invoke (RescheduleK vt c k) =
     (\<lambda>s. case s of
        Started v \<Rightarrow> Continue_or vt c (invoke k (Started v)) (\<lambda>_. let arg = v in invoke k (Started arg))
      | Failed e \<Rightarrow> Continue_or vt c (invoke k (Failed e)) (\<lambda>_. let error = e in invoke k (Failed error))
      | Stopped \<Rightarrow> Continue vt c (invoke k Stopped))"
| "register (RescheduleK vt c k) = (\<lambda>i. map_sum id (RescheduleK vt c) (register k i))"

definition Reschedule :: "(sid \<Rightarrow> 'u vtable) \<Rightarrow> ctx \<Rightarrow> 'u eventual" where
  "Reschedule vt c k = RescheduleK vt c k"

definition reschedulable :: "(sid \<Rightarrow> 'u vtable) \<Rightarrow> 'u kont \<Rightarrow> intr option \<Rightarrow> 'u world \<Rightarrow> 'u kont res" where
  "reschedulable vt k i w =
     (let continuation = Reschedule vt (Get w) k
      in case i of
           None \<Rightarrow> Inr continuation
         | Some j \<Rightarrow> register continuation j)"

section \<open>Eventual\<close>

record 'u eventual_builder =
  context_data :: "val option"
  on_start :: "val option \<Rightarrow> 'u kont \<Rightarrow> intr option \<Rightarrow> val \<Rightarrow> 'u action"
  on_fail :: "(val option \<Rightarrow> 'u kont \<Rightarrow> intr option \<Rightarrow> err \<Rightarrow> 'u action) option"
  on_stop :: "(val option \<Rightarrow> 'u kont \<Rightarrow> intr option \<Rightarrow> 'u action) option"
  interruptible :: bool

primcorec EventualK ::
  "(sid \<Rightarrow> 'u vtable) \<Rightarrow> 'u eventual_builder \<Rightarrow> intr option \<Rightarrow> intr option \<Rightarrow> 'u kont \<Rightarrow> 'u kont" where
  "invoke (EventualK vt b handler i k) =
     (\<lambda>s w. rbind (reschedulable vt k i w) (\<lambda>adaptor.
        case s of
          Started v \<Rightarrow> on_start b (context_data b) adaptor handler v w
        | Failed e \<Rightarrow>
            (case on_fail b of
               None \<Rightarrow> invoke adaptor (Failed e) w
             | Some f \<Rightarrow> f (context_data b) adaptor handler e w)
        | Stopped \<Rightarrow>
            (case on_stop b of
               None \<Rightarrow> invoke adaptor Stopped w
             | Some f \<Rightarrow> f (context_data b) adaptor handler w)))"
| "register (EventualK vt b handler i k) =
     (\<lambda>j. Inr (EventualK vt b (if interruptible b then Some j else handler) (Some j) k))"

definition Eventual :: "(sid \<Rightarrow> 'u vtable) \<Rightarrow> 'u eventual_builder \<Rightarrow> 'u eventual" where
  "Eventual vt b k = EventualK vt b None None k"

definition Eventual_start :: "('u kont \<Rightarrow> val \<Rightarrow> 'u action) \<Rightarrow> 'u eventual_builder" where
  "Eventual_start f =
     \<lparr>context_data = None, on_start = (\<lambda>_ k _ v. f k v), on_fail = None, on_stop = None, interruptible = False\<rparr>"

definition Just :: "(sid \<Rightarrow> 'u vtable) \<Rightarrow> val \<Rightarrow> 'u eventual" where
  "Just vt t = Eventual vt (Eventual_start (\<lambda>k _. invoke k (Started t)))"

section \<open>Then\<close>

primcorec ThenAdaptor :: "'u kont \<Rightarrow> 'u kont" where
  "invoke (ThenAdaptor k) = invoke k"
| "register (ThenAdaptor k) = (\<lambda>_. Inr (ThenAdaptor k))"

primcorec ThenValueK :: "(val \<Rightarrow> 'u \<Rightarrow> (val \<times> 'u) res) \<Rightarrow> 'u kont \<Rightarrow> 'u kont" where
  "invoke (ThenValueK f k) =
     (\<lambda>s w. case s of
        Started v \<Rightarrow> rbind (on_user (f v) w) (\<lambda>(y, w'). invoke k (Started y) w')
      | Failed e \<Rightarrow> invoke k (Failed e) w
      | Stopped \<Rightarrow> invoke k Stopped w)"
| "register (ThenValueK f k) = (\<lambda>i. map_sum id (ThenValueK f) (register k i))"

primcorec ThenK :: "(val \<Rightarrow> 'u \<Rightarrow> ('u eventual \<times> 'u) res) \<Rightarrow> intr option \<Rightarrow> 'u kont \<Rightarrow> 'u kont" where
  "invoke (ThenK f i k) =
     (\<lambda>s w. case s of
        Started v \<Rightarrow> rbind (on_user (f v) w) (\<lambda>(e, w').
          let adapted = e (ThenAdaptor k)
          in invoke_registered adapted i (Started VVoid) w')
      | Failed e \<Rightarrow> invoke k (Failed e) w
      | Stopped \<Rightarrow> invoke k Stopped w)"
| "register (ThenK f i k) =
     (\<lambda>j. map_sum id (ThenK f (Some j)) (check (i = None) ''interrupt_ == nullptr'' (register k j)))"

definition Then_value :: "(val \<Rightarrow> 'u \<Rightarrow> (val \<times> 'u) res) \<Rightarrow> 'u eventual" where
  "Then_value f k = ThenValueK f k"

definition Then :: "(val \<Rightarrow> 'u \<Rightarrow> ('u eventual \<times> 'u) res) \<Rightarrow> 'u eventual" where
  "Then f k = ThenK f None k"

section \<open>Raise\<close>

primcorec RaiseK :: "err \<Rightarrow> 'u kont \<Rightarrow> 'u kont" where
  "invoke (RaiseK t k) =
     (\<lambda>s w. case s of
        Started _ \<Rightarrow> invoke k (Failed t) w
      | Failed e \<Rightarrow> invoke k (Failed e) w
      | Stopped \<Rightarrow> invoke k Stopped w)"
| "register (RaiseK t k) = (\<lambda>i. map_sum id (RaiseK t) (register k i))"

definition Raise :: "err \<Rightarrow> 'u eventual" where
  "Raise t k = RaiseK t k"

definition Raise_string :: "string \<Rightarrow> 'u eventual" where
  "Raise_string s = Raise (RuntimeError s)"

section \<open>Conditional and If\<close>

primcorec ConditionalK ::
  "(val \<Rightarrow> 'u \<Rightarrow> (bool \<times> 'u) res) \<Rightarrow> (val \<Rightarrow> 'u \<Rightarrow> ('u eventual \<times> 'u) res) \<Rightarrow>
   (val \<Rightarrow> 'u \<Rightarrow> ('u eventual \<times> 'u) res) \<Rightarrow> intr option \<Rightarrow> 'u kont \<Rightarrow> 'u kont" where
  "invoke (ConditionalK condition thn els i k) =
     (\<lambda>s w. case s of
        Started v \<Rightarrow> rbind (on_user (condition v) w) (\<lambda>(b, w1).
          if b then
            rbind (on_user (thn v) w1) (\<lambda>(e, w2).
              invoke_registered (e (ThenAdaptor k)) i (Started VVoid) w2)
          else
            rbind (on_user (els v) w1) (\<lambda>(e, w2).
              invoke_registered (e (ThenAdaptor k)) i (Started VVoid) w2))
      | Failed e \<Rightarrow> invoke k (Failed e) w
      | Stopped \<Rightarrow> invoke k Stopped w)"
| "register (ConditionalK condition thn els i k) =
     (\<lambda>j. map_sum id (ConditionalK condition thn els (Some j))
       (check (i = None) ''interrupt_ == nullptr'' (register k j)))"

definition Conditional ::
  "(val \<Rightarrow> 'u \<Rightarrow> (bool \<times> 'u) res) \<Rightarrow> (val \<Rightarrow> 'u \<Rightarrow> ('u eventual \<times> 'u) res) \<Rightarrow>
   (val \<Rightarrow> 'u \<Rightarrow> ('u eventual \<times> 'u) res) \<Rightarrow> 'u eventual" where
  "Conditional condition thn els k = ConditionalK condition thn els None k"

primcorec IfK :: "bool \<Rightarrow> 'u eventual \<Rightarrow> 'u eventual \<Rightarrow> intr option \<Rightarrow> 'u kont \<Rightarrow> 'u kont" where
  "invoke (IfK condition yes no i k) =
     (\<lambda>s w. case s of
        Started _ \<Rightarrow>
          if condition then invoke_registered (yes (ThenAdaptor k)) i (Started VVoid) w
          else invoke_registered (no (ThenAdaptor k)) i (Started VVoid) w
      | Failed e \<Rightarrow> invoke k (Failed e) w
      | Stopped \<Rightarrow> invoke k Stopped w)"
| "register (IfK condition yes no i k) =
     (\<lambda>j. map_sum id (IfK condition yes no (Some j)) (check (i = None) ''interrupt_ == nullptr'' (register k j)))"

definition If_yes_no :: "bool \<Rightarrow> 'u eventual \<Rightarrow> 'u eventual \<Rightarrow> 'u eventual" where
  "If_yes_no condition yes no k = IfK condition yes no None k"

section \<open>Catch\<close>

text \<open>
  A handler has the error class it was installed for with \<^verbatim>\<open>raised<Error>()\<close>, or none for \<^verbatim>\<open>all()\<close>, and the
  eventual \<^verbatim>\<open>Then(f)\<close>. The classes of the program are a parameter: \<open>base_of b c\<close> is
  \<^verbatim>\<open>std::is_base_of<b, c>\<close>.
\<close>

datatype 'u catch_handler = Handler (handler_error: "string option") (handler_then: "'u eventual")

definition catches :: "(string \<Rightarrow> string \<Rightarrow> bool) \<Rightarrow> string option \<Rightarrow> err \<Rightarrow> bool" where
  "catches base_of h e =
     (case h of
        None \<Rightarrow> True
      | Some t \<Rightarrow> t = err_type e \<or> t = ''TypeErasedError'' \<or> base_of t (err_type e))"

fun try_handlers ::
  "(string \<Rightarrow> string \<Rightarrow> bool) \<Rightarrow> 'u catch_handler list \<Rightarrow> 'u kont \<Rightarrow> intr option \<Rightarrow> err \<Rightarrow> 'u action option" where
  "try_handlers base_of [] k i e = None"
| "try_handlers base_of (h # hs) k i e =
     (if catches base_of (handler_error h) e
      then Some (invoke_registered (handler_then h k) i (Started (VError e)))
      else try_handlers base_of hs k i e)"

primcorec CatchK ::
  "(string \<Rightarrow> string \<Rightarrow> bool) \<Rightarrow> 'u catch_handler list \<Rightarrow> intr option \<Rightarrow> 'u kont \<Rightarrow> 'u kont" where
  "invoke (CatchK base_of handlers i k) =
     (\<lambda>s w. case s of
        Started v \<Rightarrow> invoke_registered k i (Started v) w
      | Failed e \<Rightarrow>
          (case try_handlers base_of handlers k i e of
             Some handled \<Rightarrow> handled w
           | None \<Rightarrow> invoke_registered k i (Failed e) w)
      | Stopped \<Rightarrow> invoke_registered k i Stopped w)"
| "register (CatchK base_of handlers i k) =
     (\<lambda>j. if i = None then Inr (CatchK base_of handlers (Some j) k)
          else Inl (CheckFailed ''interrupt_ == nullptr''))"

definition Catch :: "(string \<Rightarrow> string \<Rightarrow> bool) \<Rightarrow> 'u catch_handler list \<Rightarrow> 'u eventual" where
  "Catch base_of handlers k = CatchK base_of handlers None k"

section \<open>Finally and expected\<close>

definition StoppedError :: err where
  "StoppedError = Error ''Stopped'' ''Eventual computation stopped (cancelled)''"

primcorec FinallyK :: "'u kont \<Rightarrow> 'u kont" where
  "invoke (FinallyK k) =
     (\<lambda>s. case s of
        Started v \<Rightarrow> invoke k (Started (VExpected v))
      | Failed e \<Rightarrow> invoke k (Started (VUnexpected e))
      | Stopped \<Rightarrow> invoke k (Started (VUnexpected StoppedError)))"
| "register (FinallyK k) = (\<lambda>i. map_sum id FinallyK (register k i))"

definition Finally_value :: "(val \<Rightarrow> 'u \<Rightarrow> (val \<times> 'u) res) \<Rightarrow> 'u eventual" where
  "Finally_value f = compose FinallyK (Then_value f)"

definition Finally :: "(val \<Rightarrow> 'u \<Rightarrow> ('u eventual \<times> 'u) res) \<Rightarrow> 'u eventual" where
  "Finally f = compose FinallyK (Then f)"

text \<open>
  The three overloads of \<^verbatim>\<open>ExpectedToEventual\<close> differ in the static error type only: a \<^verbatim>\<open>Stopped\<close> (alone or
  in a variant) becomes \<^verbatim>\<open>Stop\<close>, a string becomes a \<^verbatim>\<open>RuntimeError\<close>, any other error is passed on.
\<close>

definition ExpectedToEventual :: "(sid \<Rightarrow> 'u vtable) \<Rightarrow> val \<Rightarrow> 'u eventual" where
  "ExpectedToEventual vt x = Eventual vt (Eventual_start (\<lambda>k _.
     case x of
       VExpected v \<Rightarrow> invoke k (Started v)
     | VUnexpected e \<Rightarrow>
         if err_type e = ''Stopped'' then invoke k Stopped
         else if err_type e = ''std::string'' then invoke k (Failed (RuntimeError (err_what e)))
         else invoke k (Failed e)
     | _ \<Rightarrow> (\<lambda>_. Inl NoSuchMethod)))"

section \<open>Closure, RescheduleAfter and Preempt\<close>

primcorec ClosureK :: "('u world \<Rightarrow> ('u eventual \<times> 'u world) res) \<Rightarrow> intr option \<Rightarrow> 'u kont \<Rightarrow> 'u kont" where
  "invoke (ClosureK f i k) =
     (\<lambda>s w. rbind (f w) (\<lambda>(e, w'). let continuation = e k in invoke_registered continuation i s w'))"
| "register (ClosureK f i k) =
     (\<lambda>j. if i = None then Inr (ClosureK f (Some j) k) else Inl (CheckFailed ''interrupt_ == nullptr''))"

definition Closure :: "('u world \<Rightarrow> ('u eventual \<times> 'u world) res) \<Rightarrow> 'u eventual" where
  "Closure f k = ClosureK f None k"

definition RescheduleAfter :: "(sid \<Rightarrow> 'u vtable) \<Rightarrow> 'u eventual \<Rightarrow> 'u eventual" where
  "RescheduleAfter vt e = Closure (\<lambda>w. Inr (compose e (Reschedule vt (Get w)), w))"

primcorec PreemptK :: "(sid \<Rightarrow> 'u vtable) \<Rightarrow> ctx \<Rightarrow> 'u eventual \<Rightarrow> intr option \<Rightarrow> 'u kont \<Rightarrow> 'u kont" where
  "invoke (PreemptK vt context e i k) =
     (\<lambda>s w. let previous = Get w;
                adapted = compose (compose (Reschedule vt context) e) (Reschedule vt previous) k
            in invoke_registered adapted i s w)"
| "register (PreemptK vt context e i k) = (\<lambda>j. Inr (PreemptK vt context e (Some j) k))"

definition Preempt :: "(sid \<Rightarrow> 'u vtable) \<Rightarrow> ctx \<Rightarrow> 'u eventual \<Rightarrow> 'u eventual" where
  "Preempt vt context e k = PreemptK vt context e None k"

section \<open>Terminal\<close>

record 'u terminal_builder =
  term_start :: "(val \<Rightarrow> 'u \<Rightarrow> 'u res) option"
  term_fail :: "(err \<Rightarrow> 'u \<Rightarrow> 'u res) option"
  term_stop :: "('u \<Rightarrow> 'u res) option"

primcorec TerminalK :: "'u terminal_builder \<Rightarrow> 'u kont" where
  "invoke (TerminalK b) =
     (\<lambda>s w. map_sum id (set_user w)
        (case s of
           Started v \<Rightarrow> (case term_start b of None \<Rightarrow> Inr (user w) | Some f \<Rightarrow> f v (user w))
         | Failed e \<Rightarrow> (case term_fail b of None \<Rightarrow> Inr (user w) | Some f \<Rightarrow> f e (user w))
         | Stopped \<Rightarrow> (case term_stop b of None \<Rightarrow> Inr (user w) | Some f \<Rightarrow> f (user w))))"
| "register (TerminalK b) = (\<lambda>_. Inr (TerminalK b))"

end
