(* ===== verification/Direct_Style.thy ===== *)
theory Direct_Style
  imports Continuations
begin

text \<open>
  The contract of a value eventual and the refinement of continuation-passing objects to direct style.

  A meaning \<open>'u sem\<close> is a function from the registered interrupt, the current context, the incoming
  signal and the user state to the context, the signal and the state with which the continuation is
  called. The locale \<open>eventual_contract\<close> says that an eventual built on a continuation \<open>k\<close> does exactly
  this and then calls \<open>k\<close> once, whether or not an interrupt was registered first, and leaves the
  scheduler's state as it was. Each combinator interprets it, composition preserves it, and so every pipeline
  \<open>'u ev\<close> built from the combinators has it.
\<close>

section \<open>The contract\<close>

type_synonym 'u sem = "intr option \<Rightarrow> ctx \<Rightarrow> signal \<Rightarrow> 'u \<Rightarrow> (ctx \<times> signal \<times> 'u) res"
type_synonym 'u body = "ctx \<Rightarrow> signal \<Rightarrow> 'u \<Rightarrow> 'u res"

named_theorems sem_defs

definition implements :: "'u kont \<Rightarrow> 'u body \<Rightarrow> bool" where
  "implements k g \<longleftrightarrow> (\<forall>s. neutral (invoke k s) (\<lambda>c. g c s))"

definition after :: "(ctx \<Rightarrow> signal \<Rightarrow> 'u \<Rightarrow> (ctx \<times> signal \<times> 'u) res) \<Rightarrow> 'u body \<Rightarrow> 'u body" where
  "after d g c s u = rbind (d c s u) (\<lambda>(c', s', u'). g c' s' u')"

definition registered :: "'u kont \<Rightarrow> intr option \<Rightarrow> 'u kont res" where
  "registered k i = (case i of None \<Rightarrow> Inr k | Some j \<Rightarrow> register k j)"

lemma implementsI: "(\<And>s w. wf_world w \<Longrightarrow> invoke k s w = map_sum id (set_user w) (g (current w) s (user w))) \<Longrightarrow> implements k g"
  by (simp add: implements_def neutral_def)

lemma implementsD: "implements k g \<Longrightarrow> wf_world w \<Longrightarrow> invoke k s w = map_sum id (set_user w) (g (current w) s (user w))"
  by (simp add: implements_def neutral_def)

lemma implements_neutral: "implements k g \<Longrightarrow> neutral (invoke k s) (\<lambda>c. g c s)"
  by (simp add: implements_def)

lemma invoke_registered_eq: "invoke_registered k i s w = rbind (registered k i) (\<lambda>k'. invoke k' s w)"
  by (simp add: invoke_registered_def registered_def split: option.split)

lemma registered_simps [simp]:
  "registered k None = Inr k" "registered k (Some j) = register k j"
  by (simp_all add: registered_def)

lemma registered_adaptor [simp]: "registered (ThenAdaptor k) i = Inr (ThenAdaptor k)"
  by (cases i) auto

lemma implements_adaptor [simp]: "implements (ThenAdaptor k) g = implements k g"
  by (simp add: implements_def)

locale eventual_contract =
  fixes ev :: "'u eventual" and d :: "'u sem"
  assumes calls_once:
    "registered k i = Inr k' \<Longrightarrow> implements k' g \<Longrightarrow>
     \<exists>k1. registered (ev k) i = Inr k1 \<and> implements k1 (after (d i) g)"
begin

lemma unregistered: "implements k g \<Longrightarrow> implements (ev k) (after (d None) g)"
  using calls_once [of k None k g] by simp

lemma starts:
  "registered k i = Inr k' \<Longrightarrow> implements k' g \<Longrightarrow> wf_world w \<Longrightarrow>
   invoke_registered (ev k) i s w = map_sum id (set_user w) (after (d i) g (current w) s (user w))"
  using calls_once [of k i k' g] by (auto simp: invoke_registered_eq implementsD)

lemma starts_adapted:
  "implements k g \<Longrightarrow> wf_world w \<Longrightarrow>
   invoke_registered (ev (ThenAdaptor k)) i s w = map_sum id (set_user w) (after (d i) g (current w) s (user w))"
  by (rule starts [where k' = "ThenAdaptor k"]) simp_all

end

text \<open>A proof of the contract names the object after registration.\<close>

lemma contractI:
  assumes "\<And>k i k'. registered k i = Inr k' \<Longrightarrow> registered (ev k) i = Inr (obj i k k')"
    and "\<And>k i k' g s w. registered k i = Inr k' \<Longrightarrow> implements k' g \<Longrightarrow> wf_world w \<Longrightarrow>
      invoke (obj i k k') s w = map_sum id (set_user w) (after (d i) g (current w) s (user w))"
  shows "eventual_contract ev d"
proof
  fix k k' :: "'a kont" and i g
  assume "registered k i = Inr k'" "implements k' g"
  then show "\<exists>k1. registered (ev k) i = Inr k1 \<and> implements k1 (after (d i) g)"
    using assms by (blast intro: implementsI)
qed

section \<open>Meanings of the combinators\<close>

definition sem_seq :: "'u sem \<Rightarrow> 'u sem \<Rightarrow> 'u sem" where
  "sem_seq d1 d2 i c s u = rbind (d1 i c s u) (\<lambda>(c', s', u'). d2 i c' s' u')"

definition sem_reschedule :: "ctx \<Rightarrow> 'u sem" where
  "sem_reschedule c' i c s u = Inr (c', s, u)"

definition sem_on_start :: "(intr option \<Rightarrow> ctx \<Rightarrow> val \<Rightarrow> 'u \<Rightarrow> (ctx \<times> signal \<times> 'u) res) \<Rightarrow> 'u sem" where
  "sem_on_start f i c s u = (case s of Started v \<Rightarrow> f i c v u | _ \<Rightarrow> Inr (c, s, u))"

definition sem_eventual :: "bool \<Rightarrow> (intr option \<Rightarrow> val \<Rightarrow> 'u \<Rightarrow> (signal \<times> 'u) res) \<Rightarrow> 'u sem" where
  "sem_eventual intrb q = sem_on_start (\<lambda>i c v u.
     rbind (q (if intrb then i else None) v u) (\<lambda>(s, u'). Inr (c, s, u')))"

definition sem_just :: "val \<Rightarrow> 'u sem" where
  "sem_just t = sem_on_start (\<lambda>i c v u. Inr (c, Started t, u))"

definition sem_raise :: "err \<Rightarrow> 'u sem" where
  "sem_raise t = sem_on_start (\<lambda>i c v u. Inr (c, Failed t, u))"

definition sem_then_value :: "(val \<Rightarrow> 'u \<Rightarrow> (val \<times> 'u) res) \<Rightarrow> 'u sem" where
  "sem_then_value f = sem_on_start (\<lambda>i c v u. rbind (f v u) (\<lambda>(y, u'). Inr (c, Started y, u')))"

definition sem_then :: "(val \<Rightarrow> 'u \<Rightarrow> ('u sem \<times> 'u) res) \<Rightarrow> 'u sem" where
  "sem_then f = sem_on_start (\<lambda>i c v u. rbind (f v u) (\<lambda>(d, u'). d i c (Started VVoid) u'))"

definition sem_conditional ::
  "(val \<Rightarrow> 'u \<Rightarrow> (bool \<times> 'u) res) \<Rightarrow> (val \<Rightarrow> 'u \<Rightarrow> ('u sem \<times> 'u) res) \<Rightarrow>
   (val \<Rightarrow> 'u \<Rightarrow> ('u sem \<times> 'u) res) \<Rightarrow> 'u sem" where
  "sem_conditional p f g = sem_on_start (\<lambda>i c v u.
     rbind (p v u) (\<lambda>(b, u1). rbind ((if b then f else g) v u1) (\<lambda>(d, u2). d i c (Started VVoid) u2)))"

definition sem_if :: "bool \<Rightarrow> 'u sem \<Rightarrow> 'u sem \<Rightarrow> 'u sem" where
  "sem_if b yes no = sem_on_start (\<lambda>i c v u. (if b then yes else no) i c (Started VVoid) u)"

definition sem_catch :: "(string \<Rightarrow> string \<Rightarrow> bool) \<Rightarrow> (string option \<times> 'u sem) list \<Rightarrow> 'u sem" where
  "sem_catch base_of hs i c s u =
     (case s of
        Failed e \<Rightarrow>
          (case find (\<lambda>h. catches base_of (fst h) e) hs of
             Some h \<Rightarrow> snd h i c (Started (VError e)) u
           | None \<Rightarrow> Inr (c, s, u))
      | _ \<Rightarrow> Inr (c, s, u))"

definition sem_finally :: "'u sem" where
  "sem_finally i c s u =
     Inr (c, Started (case s of Started v \<Rightarrow> VExpected v | Failed e \<Rightarrow> VUnexpected e | Stopped \<Rightarrow> VUnexpected StoppedError), u)"

definition expected_signal :: "val \<Rightarrow> signal res" where
  "expected_signal x =
     (case x of
        VExpected v \<Rightarrow> Inr (Started v)
      | VUnexpected e \<Rightarrow> Inr (if err_type e = ''Stopped'' then Stopped
          else if err_type e = ''std::string'' then Failed (RuntimeError (err_what e)) else Failed e)
      | _ \<Rightarrow> Inl NoSuchMethod)"

definition sem_expected :: "val \<Rightarrow> 'u sem" where
  "sem_expected x = sem_on_start (\<lambda>i c v u. rbind (expected_signal x) (\<lambda>s. Inr (c, s, u)))"

definition sem_closure :: "('u \<Rightarrow> ('u sem \<times> 'u) res) \<Rightarrow> 'u sem" where
  "sem_closure f i c s u = rbind (f u) (\<lambda>(d, u'). d i c s u')"

definition sem_come_back :: "'u sem \<Rightarrow> 'u sem" where
  "sem_come_back d i c s u = rbind (d i c s u) (\<lambda>(_, s', u'). Inr (c, s', u'))"

definition sem_preempt :: "ctx \<Rightarrow> 'u sem \<Rightarrow> 'u sem" where
  "sem_preempt context d i c s u = rbind (d i context s u) (\<lambda>(_, s', u'). Inr (c, s', u'))"

lemmas [sem_defs] = sem_on_start_def after_def

section \<open>The combinators that do not schedule\<close>

lemma on_user_simps: "rbind (on_user f w) h = rbind (f (user w)) (\<lambda>(a, u). h (a, set_user w u))"
  by (cases "f (user w)") (auto simp: on_user_def)

lemma contract_compose:
  assumes "eventual_contract e1 d1" "eventual_contract e2 d2"
  shows "eventual_contract (compose e1 e2) (sem_seq d1 d2)"
proof
  fix k k' :: "'a kont" and i g
  assume "registered k i = Inr k'" "implements k' g"
  then obtain k2 where k2: "registered (e2 k) i = Inr k2" "implements k2 (after (d2 i) g)"
    using eventual_contract.calls_once [OF assms(2)] by blast
  obtain k1 where "registered (e1 (e2 k)) i = Inr k1" "implements k1 (after (d1 i) (after (d2 i) g))"
    using eventual_contract.calls_once [OF assms(1) k2] by blast
  moreover have "after (d1 i) (after (d2 i) g) = after (sem_seq d1 d2 i) g"
    by (intro ext) (simp add: after_def sem_seq_def rbind_assoc split_def)
  ultimately show "\<exists>k1. registered (compose e1 e2 k) i = Inr k1 \<and> implements k1 (after (sem_seq d1 d2 i) g)"
    by (auto simp: compose_def)
qed

lemma contract_then_value: "eventual_contract (Then_value f) (sem_then_value f)"
proof (rule contractI [where obj = "\<lambda>i k k'. ThenValueK f k'"])
  fix k k' :: "'a kont" and i assume "registered k i = Inr k'"
  then show "registered (Then_value f k) i = Inr (ThenValueK f k')"
    by (cases i) (auto simp: Then_value_def)
next
  fix k k' :: "'a kont" and i g s and w :: "'a world"
  assume "implements k' g" "wf_world w"
  then show "invoke (ThenValueK f k') s w = map_sum id (set_user w) (after (sem_then_value f i) g (current w) s (user w))"
    by (auto simp: sem_then_value_def sem_defs on_user_simps implementsD map_res_rbind rbind_assoc split_def
        split: signal.split)
qed

lemma contract_raise: "eventual_contract (Raise t) (sem_raise t)"
proof (rule contractI [where obj = "\<lambda>i k k'. RaiseK t k'"])
  fix k k' :: "'a kont" and i assume "registered k i = Inr k'"
  then show "registered (Raise t k) i = Inr (RaiseK t k')"
    by (cases i) (auto simp: Raise_def)
qed (auto simp: sem_raise_def sem_defs implementsD split: signal.split)

lemma contract_finally: "eventual_contract FinallyK sem_finally"
proof (rule contractI [where obj = "\<lambda>i k k'. FinallyK k'"])
  fix k k' :: "'a kont" and i assume "registered k i = Inr k'"
  then show "registered (FinallyK k) i = Inr (FinallyK k')"
    by (cases i) auto
qed (auto simp: sem_finally_def sem_defs implementsD split: signal.split)

text \<open>Functions that return an eventual are related pointwise to functions that return its meaning.\<close>

definition rel_fun_contract :: "(val \<Rightarrow> 'u \<Rightarrow> ('u eventual \<times> 'u) res) \<Rightarrow> (val \<Rightarrow> 'u \<Rightarrow> ('u sem \<times> 'u) res) \<Rightarrow> bool" where
  "rel_fun_contract f F \<longleftrightarrow> (\<forall>v u. rel_sum (=) (rel_prod eventual_contract (=)) (f v u) (F v u))"

lemma started_in_user:
  assumes "rel_sum (=) (rel_prod eventual_contract (=)) r R" "implements k g" "wf_world w"
  shows "rbind r (\<lambda>(e, u). invoke_registered (e (ThenAdaptor k)) i s (set_user w u)) =
    map_sum id (set_user w) (rbind R (\<lambda>(d, u). after (d i) g (current w) s u))"
proof (cases r)
  case (Inl x)
  then show ?thesis
    using assms(1) by (cases R) auto
next
  case (Inr p)
  then obtain d u where R: "R = Inr (d, u)" "eventual_contract (fst p) d" "snd p = u"
    using assms(1) by (cases R) (auto simp: rel_prod_sel)
  then show ?thesis
    using Inr eventual_contract.starts_adapted [OF R(2) assms(2), of "set_user w u" i s] assms(3)
    by (cases p) simp
qed

lemma contract_then:
  assumes "rel_fun_contract f F"
  shows "eventual_contract (Then f) (sem_then F)"
proof (rule contractI [where obj = "\<lambda>i k k'. ThenK f i k'"])
  fix k k' :: "'a kont" and i assume "registered k i = Inr k'"
  then show "registered (Then f k) i = Inr (ThenK f i k')"
    by (cases i) (auto simp: Then_def)
next
  fix k k' :: "'a kont" and i g s and w :: "'a world"
  assume k: "implements k' g" "wf_world w"
  have "rbind (on_user (f v) w) (\<lambda>(e, w'). invoke_registered (e (ThenAdaptor k')) i (Started VVoid) w') =
      map_sum id (set_user w) (rbind (F v (user w)) (\<lambda>(d, u). after (d i) g (current w) (Started VVoid) u))" for v
    using started_in_user [OF _ k] assms unfolding rel_fun_contract_def on_user_simps by (simp add: split_def)
  then show "invoke (ThenK f i k') s w = map_sum id (set_user w) (after (sem_then F i) g (current w) s (user w))"
    using k by (auto simp: sem_then_def sem_defs implementsD rbind_assoc split_def split: signal.split)
qed


lemma contract_conditional:
  assumes "rel_fun_contract f F" "rel_fun_contract h H"
  shows "eventual_contract (Conditional p f h) (sem_conditional p F H)"
proof (rule contractI [where obj = "\<lambda>i k k'. ConditionalK p f h i k'"])
  fix k k' :: "'a kont" and i assume "registered k i = Inr k'"
  then show "registered (Conditional p f h k) i = Inr (ConditionalK p f h i k')"
    by (cases i) (auto simp: Conditional_def)
next
  fix k k' :: "'a kont" and i g s and w :: "'a world"
  assume k: "implements k' g" "wf_world w"
  have branch: "rbind (f' v u) (\<lambda>p. invoke_registered (fst p (ThenAdaptor k')) i (Started VVoid) (set_user w (snd p))) =
      rbind (F' v u) (\<lambda>p. rbind (fst p i (current w) (Started VVoid) (snd p))
        (\<lambda>q. map_sum id (set_user w) (g (fst q) (fst (snd q)) (snd (snd q)))))"
    if "rel_fun_contract f' F'" for f' F' v u
    using started_in_user [OF _ k, of "f' v u" "F' v u"] that
    by (simp add: rel_fun_contract_def split_def after_def map_res_rbind)
  show "invoke (ConditionalK p f h i k') s w = map_sum id (set_user w) (after (sem_conditional p F H i) g (current w) s (user w))"
    using k
    by (auto simp: branch [OF assms(1)] branch [OF assms(2)] sem_conditional_def sem_defs implementsD map_res_rbind rbind_assoc on_user_simps split_def
        intro!: ext arg_cong2 [where f = rbind] split: signal.split)
qed

lemma contract_if:
  assumes "eventual_contract yes Y" "eventual_contract no N"
  shows "eventual_contract (If_yes_no b yes no) (sem_if b Y N)"
proof (rule contractI [where obj = "\<lambda>i k k'. IfK b yes no i k'"])
  fix k k' :: "'a kont" and i assume "registered k i = Inr k'"
  then show "registered (If_yes_no b yes no k) i = Inr (IfK b yes no i k')"
    by (cases i) (auto simp: If_yes_no_def)
next
  fix k k' :: "'a kont" and i g s and w :: "'a world"
  assume "implements k' g" "wf_world w"
  then show "invoke (IfK b yes no i k') s w = map_sum id (set_user w) (after (sem_if b Y N i) g (current w) s (user w))"
    using eventual_contract.starts_adapted [OF assms(1)] eventual_contract.starts_adapted [OF assms(2)]
    by (auto simp: sem_if_def sem_defs implementsD split: signal.split)
qed

lemma try_handlers_runs:
  assumes "list_all2 (\<lambda>h (t, d). handler_error h = t \<and> eventual_contract (handler_then h) d) hs ds"
    and "registered k i = Inr k'" "implements k' g" "wf_world w"
  shows "case try_handlers base_of hs k i e of
      None \<Rightarrow> find (\<lambda>h. catches base_of (fst h) e) ds = None
    | Some handled \<Rightarrow> \<exists>h. find (\<lambda>h. catches base_of (fst h) e) ds = Some h \<and>
        handled w = map_sum id (set_user w) (after (snd h i) g (current w) (Started (VError e)) (user w))"
  using assms(1)
proof (induction rule: list_all2_induct)
  case (Cons h hs x ds)
  then show ?case
    using eventual_contract.starts [OF _ assms(2-4)] by (auto split: prod.splits option.splits)
qed simp

lemma contract_catch:
  assumes "list_all2 (\<lambda>h (t, d). handler_error h = t \<and> eventual_contract (handler_then h) d) hs ds"
  shows "eventual_contract (Catch base_of hs) (sem_catch base_of ds)"
proof (rule contractI [where obj = "\<lambda>i k k'. CatchK base_of hs i k"])
  fix k k' :: "'a kont" and i
  show "registered (Catch base_of hs k) i = Inr (CatchK base_of hs i k)"
    by (cases i) (auto simp: Catch_def)
next
  fix k k' :: "'a kont" and i g s and w :: "'a world"
  assume k: "registered k i = Inr k'" "implements k' g" "wf_world w"
  then have fwd: "invoke_registered k i s w = map_sum id (set_user w) (g (current w) s (user w))" for s
    by (simp add: invoke_registered_eq implementsD)
  show "invoke (CatchK base_of hs i k) s w = map_sum id (set_user w) (after (sem_catch base_of ds i) g (current w) s (user w))"
  proof (cases s)
    case (Failed e)
    then show ?thesis
      using try_handlers_runs [OF assms k, of base_of e]
      by (auto simp: fwd sem_catch_def after_def split: option.splits)
  qed (simp_all add: fwd sem_catch_def after_def)
qed

definition rel_closure :: "('u world \<Rightarrow> ('u eventual \<times> 'u world) res) \<Rightarrow> (ctx \<Rightarrow> 'u \<Rightarrow> ('u sem \<times> 'u) res) \<Rightarrow> bool" where
  "rel_closure f F \<longleftrightarrow> (\<forall>w. wf_world w \<longrightarrow>
     rel_sum (=) (rel_prod eventual_contract (\<lambda>w' u. w' = set_user w u)) (f w) (F (current w) (user w)))"

lemma contract_closure:
  assumes "rel_closure f F"
  shows "eventual_contract (Closure f) (\<lambda>i c s u. rbind (F c u) (\<lambda>(d, u'). d i c s u'))"
proof (rule contractI [where obj = "\<lambda>i k k'. ClosureK f i k"])
  fix k k' :: "'a kont" and i
  show "registered (Closure f k) i = Inr (ClosureK f i k)"
    by (cases i) (auto simp: Closure_def)
next
  fix k k' :: "'a kont" and i g s and w :: "'a world"
  assume k: "registered k i = Inr k'" "implements k' g" "wf_world w"
  have r: "rel_sum (=) (rel_prod eventual_contract (\<lambda>w' u. w' = set_user w u)) (f w) (F (current w) (user w))"
    using assms k(3) by (simp add: rel_closure_def)
  show "invoke (ClosureK f i k) s w = map_sum id (set_user w)
      (after (\<lambda>c s u. rbind (F c u) (\<lambda>(d, u'). d i c s u')) g (current w) s (user w))"
  proof (cases "f w")
    case (Inl x)
    then show ?thesis
      using r by (cases "F (current w) (user w)") (auto simp: after_def)
  next
    case (Inr p)
    then obtain d u where R: "F (current w) (user w) = Inr (d, u)" "eventual_contract (fst p) d" "snd p = set_user w u"
      using r by (cases "F (current w) (user w)") (auto simp: rel_prod_sel)
    then show ?thesis
      using Inr eventual_contract.starts [OF R(2) k(1,2), of "set_user w u" s] k(3)
      by (cases p) (simp add: after_def)
  qed
qed

section \<open>The combinators that schedule\<close>

text \<open>
  The callbacks of an \<^verbatim>\<open>Eventual\<close> are the caller's. \<open>delivers\<close> says that a callback, given any continuation,
  changes the user state and calls that continuation once.
\<close>

definition delivers :: "('u kont \<Rightarrow> 'u action) \<Rightarrow> ('u \<Rightarrow> (signal \<times> 'u) res) \<Rightarrow> bool" where
  "delivers f q \<longleftrightarrow> (\<forall>k g w. implements k g \<longrightarrow> wf_world w \<longrightarrow>
     f k w = map_sum id (set_user w) (rbind (q (user w)) (\<lambda>(s, u). g (current w) s u)))"

context schedulers
begin

lemma contract_reschedule: "eventual_contract (Reschedule vt c') (sem_reschedule c')"
proof (rule contractI [where obj = "\<lambda>i k k'. RescheduleK vt c' k'"])
  fix k k' :: "'u kont" and i assume "registered k i = Inr k'"
  then show "registered (Reschedule vt c' k) i = Inr (RescheduleK vt c' k')"
    by (cases i) (auto simp: Reschedule_def)
next
  fix k k' :: "'u kont" and i g s and w :: "'u world"
  assume k: "implements k' g" "wf_world w"
  have runs: "neutral (Continue_or vt c' (invoke k' s) (\<lambda>_. invoke k' s)) (\<lambda>_. g c' s)"
    "neutral (Continue vt c' (invoke k' s)) (\<lambda>_. g c' s)" for s
    by (rule continue_or_runs continue_runs implements_neutral [OF k(1)])+
  show "invoke (RescheduleK vt c' k') s w =
      map_sum id (set_user w) (after (sem_reschedule c' i) g (current w) s (user w))"
    using k(2) by (auto simp: sem_reschedule_def after_def runs [THEN neutralD] split: signal.split)
qed

lemma reschedulable_runs:
  assumes "registered k i = Inr k'" "implements k' g"
  obtains r where "reschedulable vt k i w = Inr r" "implements r (\<lambda>_. g (current w))"
proof -
  have "after (sem_reschedule c i) g = (\<lambda>_. g c)" for c
    by (intro ext) (simp add: after_def sem_reschedule_def)
  then show ?thesis
    using that eventual_contract.calls_once [OF contract_reschedule assms, of "current w"]
    by (cases i) (auto simp: reschedulable_def Get_def)
qed

lemma contract_eventual:
  assumes "\<And>h v. delivers (\<lambda>k. on_start b (context_data b) k h v) (q h v)"
    and "on_fail b = None" "on_stop b = None"
  shows "eventual_contract (Eventual vt b) (sem_eventual (interruptible b) q)"
proof (rule contractI [where obj = "\<lambda>i k k'. EventualK vt b (if interruptible b then i else None) i k"])
  fix k k' :: "'u kont" and i
  show "registered (Eventual vt b k) i = Inr (EventualK vt b (if interruptible b then i else None) i k)"
    by (cases i) (auto simp: Eventual_def)
next
  fix k k' :: "'u kont" and i g s and w :: "'u world"
  assume k: "registered k i = Inr k'" "implements k' g" "wf_world w"
  obtain r where r: "reschedulable vt k i w = Inr r" "implements r (\<lambda>_. g (current w))"
    using reschedulable_runs [OF k(1,2)] by blast
  show "invoke (EventualK vt b (if interruptible b then i else None) i k) s w =
      map_sum id (set_user w) (after (sem_eventual (interruptible b) q i) g (current w) s (user w))"
    using assms r k(3)
    by (auto simp: sem_eventual_def sem_defs delivers_def implementsD [OF r(2)] rbind_assoc split_def split: signal.split)
qed

end

end
