(* ===== verification/Value_Pipelines.thy ===== *)
theory Value_Pipelines
  imports Direct_Style
begin

text \<open>
  Pipelines of value eventuals. \<open>'u ev\<close> is the syntax of what a caller can write with the combinators of
  \<open>Continuations\<close>; \<open>build\<close> composes the continuation objects the way \<^verbatim>\<open>Composed::k\<close> does; \<open>denote\<close> is
  the direct-style meaning. The main lemma of the theory is that every pipeline satisfies the
  contract of \<open>Direct_Style\<close> for its meaning.
\<close>

section \<open>Eventual, Just, expected, RescheduleAfter, Preempt\<close>

definition signal_start :: "bool \<Rightarrow> (intr option \<Rightarrow> val \<Rightarrow> 'u \<Rightarrow> (signal \<times> 'u) res) \<Rightarrow> 'u eventual_builder" where
  "signal_start b q =
     \<lparr>context_data = None, on_start = (\<lambda>_ k h v w. rbind (on_user (q h v) w) (\<lambda>(s, w'). invoke k s w')),
      on_fail = None, on_stop = None, interruptible = b\<rparr>"

lemma delivers_signal_start: "delivers (\<lambda>k. on_start (signal_start b q) c k h v) (q h v)"
  by (auto simp: delivers_def signal_start_def on_user_simps implementsD map_res_rbind split_def)

lemma delivers_constant:
  "delivers (\<lambda>k. on_start (Eventual_start (\<lambda>k _. invoke k t)) c k h v) (\<lambda>u. Inr (t, u))"
  by (auto simp: delivers_def Eventual_start_def implementsD)

context schedulers
begin

sublocale just: eventual_contract "Just vt t" "sem_just t" for t
proof -
  have "eventual_contract (Just vt t) (sem_eventual False (\<lambda>h v u. Inr (Started t, u)))"
    using contract_eventual [of "Eventual_start (\<lambda>k _. invoke k (Started t))" "\<lambda>h v u. Inr (Started t, u)"]
      delivers_constant [of "Started t"]
    by (simp add: Just_def Eventual_start_def)
  then show "eventual_contract (Just vt t) (sem_just t)"
    by (simp add: sem_eventual_def sem_just_def)
qed

sublocale expected: eventual_contract "ExpectedToEventual vt x" "sem_expected x" for x
proof -
  let ?q = "\<lambda>(h :: intr option) (v :: val) (u :: 'u). map_sum id (\<lambda>s. (s, u)) (expected_signal x)"
  have "eventual_contract (ExpectedToEventual vt x) (sem_eventual False ?q)"
    unfolding ExpectedToEventual_def
    by (rule contract_eventual [where b = "Eventual_start f" for f, unfolded Eventual_start_def, simplified,
          folded Eventual_start_def])
      (auto simp: delivers_def implementsD expected_signal_def split: val.split)
  moreover have "sem_eventual False ?q = sem_expected x"
    by (intro ext) (auto simp: sem_eventual_def sem_expected_def sem_on_start_def rbind_map_res split: signal.split)
  ultimately show "eventual_contract (ExpectedToEventual vt x) (sem_expected x)"
    by simp
qed

lemma contract_signal_start: "eventual_contract (Eventual vt (signal_start b q)) (sem_eventual b q)"
  using contract_eventual [of "signal_start b q" q] delivers_signal_start [of b q]
  by (simp add: signal_start_def)

lemma contract_reschedule_after:
  assumes "eventual_contract e d"
  shows "eventual_contract (RescheduleAfter vt e) (sem_come_back d)"
proof -
  have "rel_closure (\<lambda>w. Inr (compose e (Reschedule vt (Get w)), w)) (\<lambda>c u. Inr (sem_seq d (sem_reschedule c), u))"
    using contract_compose [OF assms contract_reschedule] by (simp add: rel_closure_def Get_def)
  note closure = contract_closure [OF this]
  have "(\<lambda>i c s u. rbind (Inr (sem_seq d (sem_reschedule c), u)) (\<lambda>(d, u'). d i c s u')) = sem_come_back d"
    by (intro ext) (simp add: sem_come_back_def sem_seq_def sem_reschedule_def)
  then show ?thesis
    using closure unfolding RescheduleAfter_def by (simp only:)
qed

lemma contract_preempt:
  assumes "eventual_contract e d"
  shows "eventual_contract (Preempt vt context e) (sem_preempt context d)"
proof (rule contractI [where obj = "\<lambda>i k k'. PreemptK vt context e i k"])
  fix k k' :: "'u kont" and i
  show "registered (Preempt vt context e k) i = Inr (PreemptK vt context e i k)"
    by (cases i) (auto simp: Preempt_def)
next
  fix k k' :: "'u kont" and i g s and w :: "'u world"
  assume k: "registered k i = Inr k'" "implements k' g" "wf_world w"
  show "invoke (PreemptK vt context e i k) s w =
      map_sum id (set_user w) (after (sem_preempt context d i) g (current w) s (user w))"
    using eventual_contract.starts [OF contract_compose [OF contract_compose [OF contract_reschedule assms] contract_reschedule] k]
    by (simp add: Get_def after_def sem_preempt_def sem_seq_def sem_reschedule_def rbind_assoc split_def)
qed

end

section \<open>Pipelines and their meaning\<close>

datatype 'u ev =
    Ev_Just val
  | Ev_Raise err
  | Ev_Eventual bool "intr option \<Rightarrow> val \<Rightarrow> 'u \<Rightarrow> (signal \<times> 'u) res"
  | Ev_ThenValue "val \<Rightarrow> 'u \<Rightarrow> (val \<times> 'u) res"
  | Ev_Then "val \<Rightarrow> 'u \<Rightarrow> fault + ('u ev \<times> 'u)"
  | Ev_Conditional "val \<Rightarrow> 'u \<Rightarrow> (bool \<times> 'u) res"
      "val \<Rightarrow> 'u \<Rightarrow> fault + ('u ev \<times> 'u)" "val \<Rightarrow> 'u \<Rightarrow> fault + ('u ev \<times> 'u)"
  | Ev_If bool "'u ev" "'u ev"
  | Ev_Catch "(string option \<times> 'u ev) list"
  | Ev_Finally
  | Ev_Expected val
  | Ev_Closure "'u \<Rightarrow> fault + ('u ev \<times> 'u)"
  | Ev_Reschedule ctx
  | Ev_RescheduleAfter "'u ev"
  | Ev_Preempt ctx "'u ev"
  | Ev_Seq "'u ev" "'u ev"

primrec build :: "(sid \<Rightarrow> 'u vtable) \<Rightarrow> (string \<Rightarrow> string \<Rightarrow> bool) \<Rightarrow> 'u ev \<Rightarrow> 'u eventual" where
  "build vt base_of (Ev_Just v) = Just vt v"
| "build vt base_of (Ev_Raise e) = Raise e"
| "build vt base_of (Ev_Eventual b q) = Eventual vt (signal_start b q)"
| "build vt base_of (Ev_ThenValue f) = Then_value f"
| "build vt base_of (Ev_Then f) = Then (\<lambda>v u. map_sum id (map_prod (build vt base_of) id) (f v u))"
| "build vt base_of (Ev_Conditional p f g) = Conditional p
     (\<lambda>v u. map_sum id (map_prod (build vt base_of) id) (f v u))
     (\<lambda>v u. map_sum id (map_prod (build vt base_of) id) (g v u))"
| "build vt base_of (Ev_If b y n) = If_yes_no b (build vt base_of y) (build vt base_of n)"
| "build vt base_of (Ev_Catch hs) =
     Catch base_of (map (\<lambda>(t, e). Handler t e) (map (map_prod id (build vt base_of)) hs))"
| "build vt base_of Ev_Finally = FinallyK"
| "build vt base_of (Ev_Expected x) = ExpectedToEventual vt x"
| "build vt base_of (Ev_Closure f) =
     Closure (on_user (\<lambda>u. map_sum id (map_prod (build vt base_of) id) (f u)))"
| "build vt base_of (Ev_Reschedule c) = Reschedule vt c"
| "build vt base_of (Ev_RescheduleAfter e) = RescheduleAfter vt (build vt base_of e)"
| "build vt base_of (Ev_Preempt c e) = Preempt vt c (build vt base_of e)"
| "build vt base_of (Ev_Seq e1 e2) = compose (build vt base_of e1) (build vt base_of e2)"

primrec denote :: "(string \<Rightarrow> string \<Rightarrow> bool) \<Rightarrow> 'u ev \<Rightarrow> 'u sem" where
  "denote base_of (Ev_Just v) = sem_just v"
| "denote base_of (Ev_Raise e) = sem_raise e"
| "denote base_of (Ev_Eventual b q) = sem_eventual b q"
| "denote base_of (Ev_ThenValue f) = sem_then_value f"
| "denote base_of (Ev_Then f) = sem_then (\<lambda>v u. map_sum id (map_prod (denote base_of) id) (f v u))"
| "denote base_of (Ev_Conditional p f g) = sem_conditional p
     (\<lambda>v u. map_sum id (map_prod (denote base_of) id) (f v u))
     (\<lambda>v u. map_sum id (map_prod (denote base_of) id) (g v u))"
| "denote base_of (Ev_If b y n) = sem_if b (denote base_of y) (denote base_of n)"
| "denote base_of (Ev_Catch hs) = sem_catch base_of (map (map_prod id (denote base_of)) hs)"
| "denote base_of Ev_Finally = sem_finally"
| "denote base_of (Ev_Expected x) = sem_expected x"
| "denote base_of (Ev_Closure f) = sem_closure (\<lambda>u. map_sum id (map_prod (denote base_of) id) (f u))"
| "denote base_of (Ev_Reschedule c) = sem_reschedule c"
| "denote base_of (Ev_RescheduleAfter e) = sem_come_back (denote base_of e)"
| "denote base_of (Ev_Preempt c e) = sem_preempt c (denote base_of e)"
| "denote base_of (Ev_Seq e1 e2) = sem_seq (denote base_of e1) (denote base_of e2)"

lemma rel_mapped:
  assumes "\<And>a u. r = Inr (a, u) \<Longrightarrow> eventual_contract (b a) (d a)"
  shows "rel_sum (=) (rel_prod eventual_contract (=)) (map_sum id (map_prod b id) r) (map_sum id (map_prod d id) r)"
  using assms by (cases r) auto

lemma rel_fun_mapped:
  assumes "\<And>v u a u'. f v u = Inr (a, u') \<Longrightarrow> eventual_contract (b a) (d a)"
  shows "rel_fun_contract (\<lambda>v u. map_sum id (map_prod b id) (f v u)) (\<lambda>v u. map_sum id (map_prod d id) (f v u))"
  unfolding rel_fun_contract_def using assms by (blast intro: rel_mapped)

lemma rel_closure_mapped:
  assumes "\<And>u a u'. f u = Inr (a, u') \<Longrightarrow> eventual_contract (b a) (d a)"
  shows "rel_closure (on_user (\<lambda>u. map_sum id (map_prod b id) (f u))) (\<lambda>_ u. map_sum id (map_prod d id) (f u))"
  unfolding rel_closure_def
proof (intro allI impI)
  fix w
  show "rel_sum (=) (rel_prod eventual_contract (\<lambda>w' u. w' = set_user w u))
      (on_user (\<lambda>u. map_sum id (map_prod b id) (f u)) w) (map_sum id (map_prod d id) (f (user w)))"
    using assms by (cases "f (user w)") (auto simp: on_user_def)
qed

lemma contract_closure_user:
  assumes "\<And>u a u'. f u = Inr (a, u') \<Longrightarrow> eventual_contract (b a) (d a)"
  shows "eventual_contract (Closure (on_user (\<lambda>u. map_sum id (map_prod b id) (f u))))
    (sem_closure (\<lambda>u. map_sum id (map_prod d id) (f u)))"
proof -
  have "sem_closure (\<lambda>u. map_sum id (map_prod d id) (f u)) =
      (\<lambda>i c s u. rbind (map_sum id (map_prod d id) (f u)) (\<lambda>(d, u'). d i c s u'))"
    by (intro ext) (simp add: sem_closure_def)
  then show ?thesis
    using contract_closure [OF rel_closure_mapped [of f b d, OF assms]] by simp
qed

context schedulers
begin

lemma contract_build: "eventual_contract (build vt base_of e) (denote base_of e)"
proof (induction e)
  case (Ev_Then f)
  have "eventual_contract (build vt base_of a) (denote base_of a)" if "f v u = Inr (a, u')" for v u a u'
    using Ev_Then [OF rangeI rangeI, of "(a, u')" v u a] that by simp
  then show ?case
    by (simp add: contract_then rel_fun_mapped)
next
  case (Ev_Conditional p f g)
  have "eventual_contract (build vt base_of a) (denote base_of a)" if "f v u = Inr (a, u')" for v u a u'
    using Ev_Conditional(1) [OF rangeI rangeI, of "(a, u')" v u a] that by simp
  moreover have "eventual_contract (build vt base_of a) (denote base_of a)" if "g v u = Inr (a, u')" for v u a u'
    using Ev_Conditional(2) [OF rangeI rangeI, of "(a, u')" v u a] that by simp
  ultimately show ?case
    by (simp add: contract_conditional rel_fun_mapped)
next
  case (Ev_Catch hs)
  then have "eventual_contract (build vt base_of (snd h)) (denote base_of (snd h))" if "h \<in> set hs" for h
    using that by (cases h) auto
  then have "list_all2 (\<lambda>h (t, d). handler_error h = t \<and> eventual_contract (handler_then h) d)
      (map (\<lambda>(t, e). Handler t e) (map (map_prod id (build vt base_of)) hs)) (map (map_prod id (denote base_of)) hs)"
    by (simp add: list_all2_conv_all_nth split_def)
  then show ?case
    by (simp only: build.simps denote.simps contract_catch)
next
  case (Ev_Closure f)
  have "eventual_contract (build vt base_of a) (denote base_of a)" if "f u = Inr (a, u')" for u a u'
    using Ev_Closure [OF rangeI, of "(a, u')" u a] that by simp
  then show ?case
    by (simp add: contract_closure_user)
qed (auto intro: contract_signal_start contract_raise contract_then_value contract_if contract_finally
      contract_reschedule contract_reschedule_after contract_preempt contract_compose
      just.eventual_contract_axioms expected.eventual_contract_axioms)

end

end
