(* ===== verification/Value_Theorems.thy ===== *)
theory Value_Theorems
  imports Value_Pipelines
begin

text \<open>
  The properties of the value combinators: refinement of every pipeline to its direct-style meaning,
  with and without a registered interrupt; nesting of \<^verbatim>\<open>Then\<close>; which handler of a \<^verbatim>\<open>Catch\<close> runs; the
  round trip through \<^verbatim>\<open>Finally\<close> and \<^verbatim>\<open>expected\<close>; and the contexts of \<^verbatim>\<open>Preempt\<close> and of a submitted
  callback. All are instances of the contract at the default scheduler.
\<close>

section \<open>Terminals and concrete worlds\<close>

definition terminal_run :: "'u terminal_builder \<Rightarrow> signal \<Rightarrow> 'u \<Rightarrow> 'u res" where
  "terminal_run b s u =
     (case s of
        Started v \<Rightarrow> (case term_start b of None \<Rightarrow> Inr u | Some f \<Rightarrow> f v u)
      | Failed e \<Rightarrow> (case term_fail b of None \<Rightarrow> Inr u | Some f \<Rightarrow> f e u)
      | Stopped \<Rightarrow> (case term_stop b of None \<Rightarrow> Inr u | Some f \<Rightarrow> f u))"

lemma implements_terminal: "implements (TerminalK b) (\<lambda>_. terminal_run b)"
  by (rule implementsI) (simp add: terminal_run_def)

lemma pipeline_runs:
  "wf_world w \<Longrightarrow> implements k g \<Longrightarrow>
   invoke (build DefaultScheduler base_of e k) s w =
     map_sum id (set_user w) (after (denote base_of e None) g (current w) s (user w))"
  by (rule implementsD [OF eventual_contract.unregistered [OF default.contract_build]])

definition start_world :: "'u \<Rightarrow> 'u world" where
  "start_world u = \<lparr>current = 0, contexts = (\<lambda>_. Context 0 ''[default context]'' None), user = u\<rparr>"

lemma wf_start_world [simp]: "wf_world (start_world u)"
  by (simp add: wf_world_def start_world_def Context_def)

lemma start_world_simps [simp]:
  "user (start_world u) = u" "current (start_world u) = 0" "set_user (start_world u) u' = start_world u'"
  by (simp_all add: start_world_def set_user_def)

definition log_terminal :: "signal list terminal_builder" where
  "log_terminal =
     \<lparr>term_start = Some (\<lambda>v u. Inr (u @ [Started v])),
      term_fail = Some (\<lambda>e u. Inr (u @ [Failed e])),
      term_stop = Some (\<lambda>u. Inr (u @ [Stopped]))\<rparr>"

lemma terminal_run_log [simp]: "terminal_run log_terminal s u = Inr (u @ [s])"
  by (cases s) (simp_all add: terminal_run_def log_terminal_def)

section \<open>Pipelines\<close>

text \<open>
  C1. A pipeline of value eventuals that is started, failed or stopped does exactly what its direct-style
  meaning says and then calls its terminal once with the resulting signal; when the call returns,
  the current scheduler context and the use count of every context are as before. A
  failed CHECK or an abort of a callback on the way is the result of the whole run.
\<close>

theorem pipeline_refines_direct_style:
  assumes "wf_world w"
  shows "invoke (build DefaultScheduler base_of e (TerminalK b)) s w =
    map_sum id (set_user w)
      (rbind (denote base_of e None (current w) s (user w)) (\<lambda>(_, s', u). terminal_run b s' u))"
  using pipeline_runs [OF assms implements_terminal] by (simp add: after_def)

definition raise_and_catch :: "signal list ev" where
  "raise_and_catch =
     Ev_Seq (Ev_Just (VInt 1)) (Ev_Seq (Ev_Raise (RuntimeError ''no'')) (Ev_Catch [(None, Ev_ThenValue (\<lambda>v u. Inr (VStr ''caught'', u)))]))"

theorem pipeline_refines_direct_style_witness:
  "wf_world (start_world ([] :: signal list)) \<and>
   invoke (build DefaultScheduler (=) raise_and_catch (TerminalK log_terminal)) (Started VVoid) (start_world []) =
     Inr (start_world [Started (VStr ''caught'')])"
  using pipeline_refines_direct_style [OF wf_start_world, of "(=)" raise_and_catch log_terminal "Started VVoid" "[]"]
  by (simp add: raise_and_catch_def sem_seq_def sem_just_def sem_raise_def sem_catch_def sem_then_value_def
      sem_on_start_def catches_def)

text \<open>
  C10. Registering an interrupt before the start succeeds for every pipeline; afterwards the pipeline does
  what its meaning under that interrupt says, which hands it to every interruptible eventual that
  runs, including those created on the way by \<^verbatim>\<open>Then\<close>, \<^verbatim>\<open>Conditional\<close>, a \<^verbatim>\<open>Catch\<close> handler or a \<^verbatim>\<open>Closure\<close>.
\<close>

theorem registered_pipeline_refines_direct_style:
  assumes "wf_world w"
  shows "\<exists>k. register (build DefaultScheduler base_of e (TerminalK b)) i = Inr k \<and>
    invoke k s w =
      map_sum id (set_user w)
        (rbind (denote base_of e (Some i) (current w) s (user w)) (\<lambda>(_, s', u). terminal_run b s' u))"
  using eventual_contract.calls_once [OF default.contract_build, of "TerminalK b" "Some i" "TerminalK b"]
    implements_terminal [of b] implementsD assms
  by (fastforce simp: after_def)

definition stop_if_interrupted :: "signal list ev" where
  "stop_if_interrupted =
     Ev_Then (\<lambda>v u. Inr (Ev_Eventual True (\<lambda>h _ u. Inr (if h = None then Started VVoid else Stopped, u)), u))"

theorem registered_pipeline_refines_direct_style_witness:
  "wf_world (start_world ([] :: signal list)) \<and>
   (\<exists>k. register (build DefaultScheduler (=) stop_if_interrupted (TerminalK log_terminal)) 7 = Inr k \<and>
      invoke k (Started VVoid) (start_world []) = Inr (start_world [Stopped]))"
  using registered_pipeline_refines_direct_style [OF wf_start_world, of "(=)" stop_if_interrupted log_terminal 7 "Started VVoid" "[]"]
  by (simp add: stop_if_interrupted_def sem_then_def sem_eventual_def sem_on_start_def)

text \<open>
  Nesting of \<^verbatim>\<open>Then\<close>: \<^verbatim>\<open>Then(f) >> Then(g)\<close> behaves, for every signal and state, as a single \<^verbatim>\<open>Then\<close> whose
  function returns \<^verbatim>\<open>f(x) >> Then(g)\<close>.
\<close>

theorem then_nests:
  assumes "wf_world w"
  shows "invoke (build DefaultScheduler base_of (Ev_Seq (Ev_Then f) (Ev_Then g)) (TerminalK b)) s w =
    invoke (build DefaultScheduler base_of
      (Ev_Then (\<lambda>v u. map_sum id (\<lambda>(e, u'). (Ev_Seq e (Ev_Then g), u')) (f v u))) (TerminalK b)) s w"
proof -
  have "sem_seq (denote base_of (Ev_Then f)) (denote base_of (Ev_Then g)) i c s u =
      denote base_of (Ev_Then (\<lambda>v u. map_sum id (\<lambda>(e, u'). (Ev_Seq e (Ev_Then g), u')) (f v u))) i c s u" for i c s u
  proof (cases s)
    case (Started v)
    then show ?thesis
      by (cases "f v u") (auto simp: sem_seq_def sem_then_def sem_on_start_def)
  qed (simp_all add: sem_seq_def sem_then_def sem_on_start_def)
  then show ?thesis
    unfolding pipeline_runs [OF assms implements_terminal] after_def denote.simps(15) by (simp only:)
qed

theorem then_nests_witness:
  "wf_world (start_world ([] :: signal list)) \<and>
   invoke (build DefaultScheduler (=)
     (Ev_Seq (Ev_Then (\<lambda>v u. Inr (Ev_Just (VInt 3), u))) (Ev_Then (\<lambda>v u. Inr (Ev_Just v, u)))) (TerminalK log_terminal))
     (Started VVoid) (start_world []) =
   invoke (build DefaultScheduler (=)
     (Ev_Then (\<lambda>v u. Inr (Ev_Seq (Ev_Just (VInt 3)) (Ev_Then (\<lambda>v u. Inr (Ev_Just v, u))), u))) (TerminalK log_terminal))
     (Started VVoid) (start_world [])"
  using then_nests [OF wf_start_world, of "(=)" "\<lambda>v u. Inr (Ev_Just (VInt 3), u)" "\<lambda>v u. Inr (Ev_Just v, u)"
      log_terminal "Started VVoid" "[]"]
  by simp

section \<open>Errors\<close>

text \<open>
  When the eventual before a \<^verbatim>\<open>Catch\<close> fails, the first handler whose class is the class of the error, a base
  of it, \<^verbatim>\<open>TypeErasedError\<close>, or that was installed with \<^verbatim>\<open>all()\<close>, is started with the error, and
  what that handler delivers (its own failures included) is delivered; no other handler runs.
\<close>

theorem catch_runs_first_matching_handler:
  assumes "wf_world w"
    and "denote base_of e None (current w) s (user w) = Inr (c, Failed err, u)"
    and "\<forall>h \<in> set hs. \<not> catches base_of (fst h) err" and "catches base_of t err"
  shows "invoke (build DefaultScheduler base_of (Ev_Seq e (Ev_Catch (hs @ (t, handler) # hs'))) (TerminalK b)) s w =
    map_sum id (set_user w)
      (rbind (denote base_of handler None c (Started (VError err)) u) (\<lambda>(_, s', u'). terminal_run b s' u'))"
proof -
  have "find (\<lambda>h. catches base_of (fst h) err) (map (map_prod id (denote base_of)) (hs @ (t, handler) # hs')) =
      Some (t, denote base_of handler)"
    using assms(3,4) by (induction hs) auto
  then show ?thesis
    unfolding pipeline_runs [OF assms(1) implements_terminal]
    using assms(2) by (simp add: after_def sem_seq_def sem_catch_def)
qed

definition handler_named :: "string \<Rightarrow> signal list ev" where
  "handler_named n = Ev_ThenValue (\<lambda>v u. Inr (VStr n, u))"

theorem catch_runs_first_matching_handler_witness:
  "\<not> catches (=) (Some ''Overflow'') (RuntimeError ''x'') \<and> catches (=) (Some ''RuntimeError'') (RuntimeError ''x'') \<and>
   invoke (build DefaultScheduler (=)
     (Ev_Seq (Ev_Raise (RuntimeError ''x''))
       (Ev_Catch [(Some ''Overflow'', handler_named ''a''), (Some ''RuntimeError'', handler_named ''b''), (None, handler_named ''c'')]))
     (TerminalK log_terminal)) (Started VVoid) (start_world []) =
     Inr (start_world [Started (VStr ''b'')])"
proof -
  have h: "denote (=) (Ev_Raise (RuntimeError ''x'')) None (current (start_world [])) (Started VVoid) (user (start_world ([] :: signal list)))
      = Inr (0, Failed (RuntimeError ''x''), [])"
    "\<forall>h \<in> set [(Some ''Overflow'', handler_named ''a'')]. \<not> catches (=) (fst h) (RuntimeError ''x'')"
    "catches (=) (Some ''RuntimeError'') (RuntimeError ''x'')"
    by (simp_all add: sem_raise_def sem_on_start_def catches_def RuntimeError_def)
  show ?thesis
    using h(2,3) catch_runs_first_matching_handler [OF wf_start_world h, of "handler_named ''b''" "[(None, handler_named ''c'')]" log_terminal]
    by (simp add: handler_named_def sem_then_value_def sem_on_start_def)
qed

text \<open>
  \<^verbatim>\<open>Finally\<close> turns every outcome into an \<^verbatim>\<open>expected\<close> value, and returning that \<^verbatim>\<open>expected\<close> restores the outcome:
  \<^verbatim>\<open>e >> Finally([](auto&& expected) { return expected; })\<close> delivers what \<^verbatim>\<open>e\<close> delivers, a failure and a stop
  included, if no error of \<^verbatim>\<open>e\<close> is itself of the class \<^verbatim>\<open>Stopped\<close>.
\<close>

theorem finally_expected_roundtrip:
  assumes "wf_world w"
    and "\<And>c err u. denote base_of e None (current w) s (user w) = Inr (c, Failed err, u) \<Longrightarrow>
      err_type err \<noteq> ''Stopped'' \<and> err_type err \<noteq> ''std::string''"
  shows "invoke (build DefaultScheduler base_of
      (Ev_Seq e (Ev_Seq Ev_Finally (Ev_Then (\<lambda>x u. Inr (Ev_Expected x, u))))) (TerminalK b)) s w =
    invoke (build DefaultScheduler base_of e (TerminalK b)) s w"
proof -
  have id: "denote base_of (Ev_Seq Ev_Finally (Ev_Then (\<lambda>x u. Inr (Ev_Expected x, u)))) None c s' u = Inr (c, s', u)"
    if "\<And>err. s' = Failed err \<Longrightarrow> err_type err \<noteq> ''Stopped'' \<and> err_type err \<noteq> ''std::string''" for c s' u
    using that by (cases s') (auto simp: sem_seq_def sem_finally_def sem_then_def sem_on_start_def sem_expected_def
        expected_signal_def StoppedError_def)
  show ?thesis
  proof (cases "denote base_of e None (current w) s (user w)")
    case (Inr r)
    then obtain c s' u where r: "denote base_of e None (current w) s (user w) = Inr (c, s', u)"
      by (cases r) auto
    then have "err_type err \<noteq> ''Stopped'' \<and> err_type err \<noteq> ''std::string''" if "s' = Failed err" for err
      using assms(2) that by blast
    from id [OF this] r have "denote base_of (Ev_Seq e (Ev_Seq Ev_Finally (Ev_Then (\<lambda>x u. Inr (Ev_Expected x, u))))) None
        (current w) s (user w) = Inr (c, s', u)"
      by (simp only: denote.simps(15) [of base_of e] sem_seq_def [of "denote base_of e"] rbind_simps prod.case)
    with r show ?thesis
      unfolding pipeline_runs [OF assms(1) implements_terminal] by (simp only: after_def)
  qed (simp add: pipeline_runs [OF assms(1) implements_terminal, of base_of e]
        pipeline_runs [OF assms(1) implements_terminal, of base_of "Ev_Seq e _"] after_def sem_seq_def del: build.simps)
qed

theorem finally_expected_roundtrip_witness:
  "wf_world (start_world ([] :: signal list)) \<and>
   invoke (build DefaultScheduler (=)
      (Ev_Seq (Ev_Raise (RuntimeError ''x'')) (Ev_Seq Ev_Finally (Ev_Then (\<lambda>x u. Inr (Ev_Expected x, u))))) (TerminalK log_terminal))
      (Started VVoid) (start_world []) =
    invoke (build DefaultScheduler (=) (Ev_Raise (RuntimeError ''x'')) (TerminalK log_terminal)) (Started VVoid) (start_world [])"
proof -
  have h: "err_type err \<noteq> ''Stopped'' \<and> err_type err \<noteq> ''std::string''"
    if "denote (=) (Ev_Raise (RuntimeError ''x'')) None (current (start_world ([] :: signal list))) (Started VVoid) (user (start_world [])) =
      Inr (c, Failed err, u)" for c err u
    using that by (auto simp: sem_raise_def sem_on_start_def RuntimeError_def)
  show ?thesis
    by (intro conjI wf_start_world finally_expected_roundtrip h)
qed

section \<open>Scheduler contexts\<close>

text \<open>
  \<^verbatim>\<open>Preempt\<close> runs its eventual in its own context and calls the continuation in the context the
  \<^verbatim>\<open>Preempt\<close> was started in, for any continuation and whatever contexts the eventual switches to.
\<close>

theorem preempt_returns_to_its_context:
  assumes "wf_world w" and "implements k g"
  shows "invoke (build DefaultScheduler base_of (Ev_Preempt context e) k) s w =
    map_sum id (set_user w)
      (rbind (denote base_of e None context s (user w)) (\<lambda>(_, s', u). g (current w) s' u))"
  unfolding pipeline_runs [OF assms] by (simp add: after_def sem_preempt_def rbind_assoc split_def)

theorem preempt_returns_to_its_context_witness:
  "wf_world (start_world ([] :: signal list)) \<and> implements (TerminalK log_terminal) (\<lambda>_. terminal_run log_terminal) \<and>
   invoke (build DefaultScheduler (=) (Ev_Preempt 3 (Ev_Seq (Ev_Reschedule 4) (Ev_Just (VInt 1)))) (TerminalK log_terminal))
     (Started VVoid) (start_world []) = Inr (start_world [Started (VInt 1)])"
  using implements_terminal [of log_terminal] preempt_returns_to_its_context [OF wf_start_world implements_terminal,
      of "(=)" 3 "Ev_Seq (Ev_Reschedule 4) (Ev_Just (VInt 1))" log_terminal "Started VVoid" "[]"]
  by (simp add: sem_seq_def sem_reschedule_def sem_just_def sem_on_start_def)

text \<open>
  \<^verbatim>\<open>Context::Continue\<close> runs the callback once in the context, whether the scheduler lets it continue or has to
  submit it, and afterwards the caller's context is current again and every use count is what it
  was, for a callback that itself keeps them.
\<close>

theorem continue_runs_in_context:
  assumes "neutral f g" and "wf_world w"
  shows "Continue DefaultScheduler c f w = map_sum id (set_user w) (g c (user w)) \<and>
    Unblock DefaultScheduler c f w = map_sum id (set_user w) (g c (user w))"
  using neutralD [OF default.continue_runs [OF assms(1)] assms(2)]
    neutralD [OF default.unblock_runs [OF assms(1)] assms(2)]
  by simp

definition log_context :: "ctx list action" where
  "log_context w = Inr (set_user w (user w @ [current w]))"

theorem continue_runs_in_context_witness:
  "neutral log_context (\<lambda>c u. Inr (u @ [c])) \<and>
   Continue DefaultScheduler 5 log_context (start_world [1]) = Inr (set_user (start_world [1]) [1, 5])"
proof -
  have h: "neutral log_context (\<lambda>c u. Inr (u @ [c]))"
    by (rule neutralI) (simp add: log_context_def)
  show ?thesis
    using h continue_runs_in_context [OF h wf_start_world, of 5 "[1]"] by (simp add: start_world_def)
qed

text \<open>
  The default scheduler checks that a callback leaves the context it was submitted to as the current one:
  a callback that returns in another context aborts the process, as does a submission for a context of
  another scheduler.
\<close>

theorem default_submit_checks_context:
  assumes "callback (ctx_use c (w\<lparr>current := c\<rparr>)) = Inr w'" and "current w' \<noteq> c"
  shows "\<exists>msg. Submit (DefaultScheduler this) callback c w = Inl (CheckFailed msg)"
  using assms by (auto simp: DefaultScheduler_def default_Submit_def Switch_def check_def)

theorem default_submit_checks_context_witness:
  "\<exists>msg. Submit (DefaultScheduler 0) (\<lambda>w. Inr (w\<lparr>current := 9\<rparr>)) 4 (start_world ()) = Inl (CheckFailed msg)"
  by (rule default_submit_checks_context [OF refl]) simp

end
