(* ===== verification/Type_Lists.thy ===== *)
theory Type_Lists
  imports Eventuals_Prelude
begin

text \<open>
  Compile-time lists of types (\<^verbatim>\<open>type-traits.h\<close>). A \<^verbatim>\<open>std::tuple<Ts...>\<close> is used there as a list of class names; the templates that
  compute with such lists are functions on lists here, with their specialisations as equations. \<^verbatim>\<open>std::is_base_of\<close> depends on the
  classes of the program: it is the reflexive closure of the argument \<open>base_of\<close>.
\<close>

section \<open>Membership\<close>

type_synonym cls = string

definition is_base_of :: "(cls \<Rightarrow> cls \<Rightarrow> bool) \<Rightarrow> cls \<Rightarrow> cls \<Rightarrow> bool" where
  "is_base_of base_of t c \<longleftrightarrow> t = c \<or> base_of t c"

fun types_contains :: "cls \<Rightarrow> cls list \<Rightarrow> bool" where
  "types_contains t [] = False"
| "types_contains t (x # xs) = (t = x \<or> types_contains t xs)"

definition tuple_types_contains :: "cls \<Rightarrow> cls list \<Rightarrow> bool" where
  "tuple_types_contains t ts = types_contains t ts"

fun tuple_types_contains_subtype :: "(cls \<Rightarrow> cls \<Rightarrow> bool) \<Rightarrow> cls \<Rightarrow> cls list \<Rightarrow> bool" where
  "tuple_types_contains_subtype base_of t [] = False"
| "tuple_types_contains_subtype base_of t (x # xs) = (is_base_of base_of x t \<or> tuple_types_contains_subtype base_of t xs)"

fun tuple_types_subset_subtype :: "(cls \<Rightarrow> cls \<Rightarrow> bool) \<Rightarrow> cls list \<Rightarrow> cls list \<Rightarrow> bool" where
  "tuple_types_subset_subtype base_of [] right = True"
| "tuple_types_subset_subtype base_of (l # ls) right =
     (tuple_types_contains_subtype base_of l right \<and> tuple_types_subset_subtype base_of ls right)"

fun tuple_types_subset :: "cls list \<Rightarrow> cls list \<Rightarrow> bool" where
  "tuple_types_subset [] right = True"
| "tuple_types_subset (l # ls) right = (tuple_types_contains l right \<and> tuple_types_subset ls right)"

definition tuple_types_unordered_equals :: "cls list \<Rightarrow> cls list \<Rightarrow> bool" where
  "tuple_types_unordered_equals left right = (tuple_types_subset left right \<and> tuple_types_subset right left)"

fun tuple_contains_exact_type :: "cls \<Rightarrow> cls list \<Rightarrow> bool" where
  "tuple_contains_exact_type v [] = False"
| "tuple_contains_exact_type v (t # ts) = (if t = v then True else tuple_contains_exact_type v ts)"

section \<open>Union and difference\<close>

fun union_intersection :: "cls list \<Rightarrow> cls list \<Rightarrow> cls list" where
  "union_intersection [] rights = []"
| "union_intersection (l # ls) [] = []"
| "union_intersection (l # ls) (r # rs) =
     (if types_contains l (r # rs) then [l] else []) @ union_intersection ls (r # rs)"

fun union_unique_left :: "cls list \<Rightarrow> cls list \<Rightarrow> cls list" where
  "union_unique_left [] rights = []"
| "union_unique_left (l # ls) [] = l # ls"
| "union_unique_left (l # ls) (r # rs) =
     (if types_contains l (r # rs) then [] else [l]) @ union_unique_left ls (r # rs)"

fun union_unique_right :: "cls list \<Rightarrow> cls list \<Rightarrow> cls list" where
  "union_unique_right lefts [] = []"
| "union_unique_right [] (r # rs) = r # rs"
| "union_unique_right (l # ls) (r # rs) =
     (if types_contains r (l # ls) then [] else [r]) @ union_unique_right (l # ls) rs"

definition tuple_types_union :: "cls list \<Rightarrow> cls list \<Rightarrow> cls list" where
  "tuple_types_union left right =
     (case (left, right) of
        ([], _) \<Rightarrow> right
      | (_, []) \<Rightarrow> left
      | _ \<Rightarrow> (union_unique_left left right @ union_unique_right left right) @ union_intersection left right)"

fun tuple_types_union_all :: "cls list list \<Rightarrow> cls list" where
  "tuple_types_union_all [] = []"
| "tuple_types_union_all [ts] = ts"
| "tuple_types_union_all (left # right # rest) =
     tuple_types_union (tuple_types_union left right) (tuple_types_union_all rest)"

fun tuple_types_subtract :: "cls list \<Rightarrow> cls list \<Rightarrow> cls list" where
  "tuple_types_subtract [] right = []"
| "tuple_types_subtract (l # ls) right =
     (if tuple_types_contains l right then [] else [l]) @ tuple_types_subtract ls right"

section \<open>What they compute\<close>

lemma types_contains_set [simp]: "types_contains t xs \<longleftrightarrow> t \<in> set xs"
  by (induction xs) auto

lemma tuple_types_contains_set [simp]: "tuple_types_contains t xs \<longleftrightarrow> t \<in> set xs"
  by (simp add: tuple_types_contains_def)

lemma contains_subtype_iff: "tuple_types_contains_subtype base_of t ts \<longleftrightarrow> (\<exists>x \<in> set ts. is_base_of base_of x t)"
  by (induction ts) auto

lemma subset_subtype_iff:
  "tuple_types_subset_subtype base_of ls rs \<longleftrightarrow> (\<forall>l \<in> set ls. tuple_types_contains_subtype base_of l rs)"
  by (induction ls) auto

lemma exact_type_set [simp]: "tuple_contains_exact_type v ts \<longleftrightarrow> v \<in> set ts"
  by (induction ts) auto

lemma tuple_types_subset_set [simp]: "tuple_types_subset ls rs \<longleftrightarrow> set ls \<subseteq> set rs"
  by (induction ls) auto

lemma unordered_equals_set [simp]: "tuple_types_unordered_equals ls rs \<longleftrightarrow> set ls = set rs"
  by (auto simp: tuple_types_unordered_equals_def)

lemma union_intersection_filter: "union_intersection ls rs = filter (\<lambda>l. l \<in> set rs) ls"
  by (induction ls rs rule: union_intersection.induct) auto

lemma union_unique_left_filter: "union_unique_left ls rs = filter (\<lambda>l. l \<notin> set rs) ls"
  by (induction ls rs rule: union_unique_left.induct) auto

lemma union_unique_right_filter: "union_unique_right ls rs = filter (\<lambda>r. r \<notin> set ls) rs"
  by (induction ls rs rule: union_unique_right.induct) auto

lemmas union_parts = union_intersection_filter union_unique_left_filter union_unique_right_filter

lemma set_tuple_types_union [simp]: "set (tuple_types_union ls rs) = set ls \<union> set rs"
  by (auto simp: tuple_types_union_def union_parts split: list.split)

lemma distinct_tuple_types_union: "distinct ls \<Longrightarrow> distinct rs \<Longrightarrow> distinct (tuple_types_union ls rs)"
  by (auto simp: tuple_types_union_def union_parts split: list.split)

lemma set_tuple_types_union_all [simp]: "set (tuple_types_union_all tss) = \<Union> (set ` set tss)"
  by (induction tss rule: tuple_types_union_all.induct) auto

lemma tuple_types_subtract_filter: "tuple_types_subtract ls rs = filter (\<lambda>l. l \<notin> set rs) ls"
  by (induction ls) auto

lemma subtype_union:
  "tuple_types_contains_subtype base_of t (tuple_types_union ls rs) \<longleftrightarrow>
   tuple_types_contains_subtype base_of t ls \<or> tuple_types_contains_subtype base_of t rs"
  by (auto simp: contains_subtype_iff)

end
