(* ===== verification/Typing.thy ===== *)
theory Typing
  imports Type_Lists Value_Pipelines
begin

text \<open>
  The error types that the library computes for a pipeline (the member templates \<^verbatim>\<open>ErrorsFrom\<close>) and their soundness.

  An \<open>ety\<close> is the C++ type of an eventual, as far as its errors are concerned; \<open>ErrorsFrom\<close> maps the errors that arrive from
  upstream to those that may be passed on. \<open>has_ety\<close> relates the pipelines of \<open>Value_Pipelines\<close>, whose stages are given by functions, to these types: a function
  returns eventuals of one type, and an \<^verbatim>\<open>Eventual\<close> fails only with what it declares in \<^verbatim>\<open>raises<...>()\<close>
  (the static assertion of its adaptor). An error is listed if its class or a base of it is.
\<close>

section \<open>Types of eventuals\<close>

text \<open>The error parameter of an \<^verbatim>\<open>expected\<close>: a class derived from \<^verbatim>\<open>Error\<close>, a string, \<^verbatim>\<open>Stopped\<close>, or the variant that \<^verbatim>\<open>Finally\<close> makes.\<close>

datatype ekind = EClass cls | EString | EStopped | EVariant "cls list"

datatype ety =
    TEventual "cls list"
  | TRaise cls
  | TThenValue
  | TThen ety
  | TConditional ety ety
  | TIf ety ety
  | TCatch "(cls option \<times> ety) list"
  | TFinally
  | TExpected ekind
  | TClosure ety
  | TReschedule
  | TPreempt ety
  | TComposed ety ety

definition catches_of :: "(cls option \<times> 'a) list \<Rightarrow> cls list" where
  "catches_of hs = concat (map (\<lambda>h. case fst h of None \<Rightarrow> [] | Some t \<Rightarrow> [t]) hs)"

definition has_all :: "(cls option \<times> 'a) list \<Rightarrow> bool" where
  "has_all hs = list_ex (\<lambda>h. fst h = None) hs"

definition handler_raises :: "cls option \<Rightarrow> cls list \<Rightarrow> cls list" where
  "handler_raises t raised = (case t of None \<Rightarrow> [] | Some _ \<Rightarrow> raised)"

definition catch_errors :: "cls list \<Rightarrow> bool \<Rightarrow> cls list list \<Rightarrow> cls list \<Rightarrow> cls list" where
  "catch_errors caught everything raised errors =
     tuple_types_union
       (if tuple_types_contains ''TypeErasedError'' caught \<or> everything then [] else tuple_types_subtract errors caught)
       (tuple_types_union_all raised)"

definition expected_class_error :: "ekind \<Rightarrow> cls" where
  "expected_class_error k =
     (case k of EClass c \<Rightarrow> c | EString \<Rightarrow> ''RuntimeError'' | EStopped \<Rightarrow> ''Stopped'' | EVariant _ \<Rightarrow> ''RuntimeError'')"

definition expected_raises :: "ekind \<Rightarrow> cls list" where
  "expected_raises k =
     (case k of EClass c \<Rightarrow> [c] | EString \<Rightarrow> [''RuntimeError''] | EStopped \<Rightarrow> [] | EVariant es \<Rightarrow> es)"

definition eventual_errors :: "cls list \<Rightarrow> cls list \<Rightarrow> cls list" where
  "eventual_errors raises errors = tuple_types_union raises errors"

definition raise_errors :: "cls \<Rightarrow> cls list \<Rightarrow> cls list" where
  "raise_errors t errors = tuple_types_union [t] errors"

definition then_errors :: "cls list \<Rightarrow> cls list \<Rightarrow> cls list" where
  "then_errors inner errors = tuple_types_union errors inner"

definition conditional_errors :: "cls list \<Rightarrow> cls list \<Rightarrow> cls list \<Rightarrow> cls list" where
  "conditional_errors thn els errors = tuple_types_union errors (tuple_types_union thn els)"

definition if_errors :: "cls list \<Rightarrow> cls list \<Rightarrow> cls list \<Rightarrow> cls list" where
  "if_errors yes no errors = tuple_types_union_all [errors, yes, no]"

definition expected_errors :: "ekind \<Rightarrow> cls list \<Rightarrow> cls list" where
  "expected_errors k errors = tuple_types_union [expected_class_error k] errors"

lemmas errors_simps [simp] = eventual_errors_def raise_errors_def then_errors_def conditional_errors_def if_errors_def expected_errors_def

primrec ErrorsFrom :: "ety \<Rightarrow> cls list \<Rightarrow> cls list" where
  "ErrorsFrom (TEventual raises) errors = eventual_errors raises errors"
| "ErrorsFrom (TRaise t) errors = raise_errors t errors"
| "ErrorsFrom TThenValue errors = then_errors [] errors"
| "ErrorsFrom (TThen t) errors = then_errors (ErrorsFrom t []) errors"
| "ErrorsFrom (TConditional t e) errors = conditional_errors (ErrorsFrom t []) (ErrorsFrom e []) errors"
| "ErrorsFrom (TIf yes no) errors = if_errors (ErrorsFrom yes []) (ErrorsFrom no []) errors"
| "ErrorsFrom (TCatch hs) errors =
     catch_errors (catches_of hs) (has_all hs)
       (map (\<lambda>(t, raised). handler_raises t (raised [])) (map (map_prod id ErrorsFrom) hs)) errors"
| "ErrorsFrom TFinally errors = []"
| "ErrorsFrom (TExpected k) errors = expected_errors k errors"
| "ErrorsFrom (TClosure t) errors = ErrorsFrom t errors"
| "ErrorsFrom TReschedule errors = errors"
| "ErrorsFrom (TPreempt t) errors = ErrorsFrom t errors"
| "ErrorsFrom (TComposed l r) errors = ErrorsFrom r (ErrorsFrom l errors)"

section \<open>Typed pipelines\<close>

definition lists_error :: "(cls \<Rightarrow> cls \<Rightarrow> bool) \<Rightarrow> cls list \<Rightarrow> err \<Rightarrow> bool" where
  "lists_error base_of errors e = tuple_types_contains_subtype base_of (err_type e) errors"

fun holds_kind :: "ekind \<Rightarrow> val \<Rightarrow> bool" where
  "holds_kind k (VExpected _) = True"
| "holds_kind (EClass c) (VUnexpected e) = (err_type e = c \<and> c \<noteq> ''std::string'')"
| "holds_kind EString (VUnexpected e) = (err_type e = ''std::string'')"
| "holds_kind EStopped (VUnexpected e) = (err_type e = ''Stopped'')"
| "holds_kind (EVariant es) (VUnexpected e) = (err_type e = ''Stopped'' \<or> err_type e \<in> set es \<and> err_type e \<noteq> ''std::string'')"
| "holds_kind _ _ = False"

inductive has_ety :: "(cls \<Rightarrow> cls \<Rightarrow> bool) \<Rightarrow> 'u ev \<Rightarrow> ety \<Rightarrow> bool" for base_of where
  ty_just: "has_ety base_of (Ev_Just v) (TEventual [])"
| ty_raise: "has_ety base_of (Ev_Raise e) (TRaise (err_type e))"
| ty_eventual: "(\<And>i v u e u'. q i v u = Inr (Failed e, u') \<Longrightarrow> lists_error base_of raises e) \<Longrightarrow> has_ety base_of (Ev_Eventual b q) (TEventual raises)"
| ty_then_value: "has_ety base_of (Ev_ThenValue f) TThenValue"
| ty_then: "(\<And>v u e u'. f v u = Inr (e, u') \<Longrightarrow> has_ety base_of e t) \<Longrightarrow> has_ety base_of (Ev_Then f) (TThen t)"
| ty_conditional: "(\<And>v u e u'. f v u = Inr (e, u') \<Longrightarrow> has_ety base_of e t) \<Longrightarrow> (\<And>v u e u'. g v u = Inr (e, u') \<Longrightarrow> has_ety base_of e t') \<Longrightarrow>
    has_ety base_of (Ev_Conditional p f g) (TConditional t t')"
| ty_if: "has_ety base_of yes t \<Longrightarrow> has_ety base_of no t' \<Longrightarrow> has_ety base_of (Ev_If b yes no) (TIf t t')"
| ty_catch: "list_all2 (\<lambda>h t. fst h = fst t \<and> has_ety base_of (snd h) (snd t)) hs ts \<Longrightarrow> has_ety base_of (Ev_Catch hs) (TCatch ts)"
| ty_finally: "has_ety base_of Ev_Finally TFinally"
| ty_expected: "holds_kind k x \<Longrightarrow> has_ety base_of (Ev_Expected x) (TExpected k)"
| ty_tl_expected: "holds_kind k x \<Longrightarrow> has_ety base_of (Ev_Expected x) (TEventual (expected_raises k))"
| ty_closure: "(\<And>u e u'. f u = Inr (e, u') \<Longrightarrow> has_ety base_of e t) \<Longrightarrow> has_ety base_of (Ev_Closure f) (TClosure t)"
| ty_reschedule: "has_ety base_of (Ev_Reschedule c) TReschedule"
| ty_reschedule_after: "has_ety base_of e t \<Longrightarrow> has_ety base_of (Ev_RescheduleAfter e) (TClosure (TComposed t TReschedule))"
| ty_preempt: "has_ety base_of e t \<Longrightarrow> has_ety base_of (Ev_Preempt c e) (TPreempt t)"
| ty_composed: "has_ety base_of l t \<Longrightarrow> has_ety base_of r t' \<Longrightarrow> has_ety base_of (Ev_Seq l r) (TComposed t t')"

text \<open>The types for which the computed errors can be relied on: no variant in an \<^verbatim>\<open>expected\<close>, and handlers for everything that do not raise.\<close>

primrec reliable :: "ety \<Rightarrow> bool" where
  "reliable (TEventual raises) = True"
| "reliable (TRaise t) = True"
| "reliable TThenValue = True"
| "reliable (TThen t) = reliable t"
| "reliable (TConditional t e) = (reliable t \<and> reliable e)"
| "reliable (TIf yes no) = (reliable yes \<and> reliable no)"
| "reliable (TCatch hs) = list_all (\<lambda>(t, (ok, raised)). ok \<and> (t = None \<longrightarrow> raised = [])) (map (map_prod id (\<lambda>t. (reliable t, ErrorsFrom t []))) hs)"
| "reliable TFinally = True"
| "reliable (TExpected k) = (case k of EVariant _ \<Rightarrow> False | _ \<Rightarrow> True)"
| "reliable (TClosure t) = reliable t"
| "reliable TReschedule = True"
| "reliable (TPreempt t) = reliable t"
| "reliable (TComposed l r) = (reliable l \<and> reliable r)"

definition signal_listed :: "(cls \<Rightarrow> cls \<Rightarrow> bool) \<Rightarrow> cls list \<Rightarrow> signal \<Rightarrow> bool" where
  "signal_listed base_of errors s = (case s of Failed e \<Rightarrow> lists_error base_of errors e | _ \<Rightarrow> True)"

lemma lists_error_iff: "lists_error base_of es e \<longleftrightarrow> (\<exists>t \<in> set es. is_base_of base_of t (err_type e))"
  by (simp add: lists_error_def contains_subtype_iff)

lemma lists_error_mono: "lists_error base_of es e \<Longrightarrow> set es \<subseteq> set es' \<Longrightarrow> lists_error base_of es' e"
  by (auto simp: lists_error_iff)

lemma signal_listed_simps [simp]:
  "signal_listed base_of es (Started v)" "signal_listed base_of es Stopped"
  "signal_listed base_of es (Failed e) = lists_error base_of es e"
  by (simp_all add: signal_listed_def)

lemma signal_listed_mono: "signal_listed base_of es s \<Longrightarrow> set es \<subseteq> set es' \<Longrightarrow> signal_listed base_of es' s"
  by (cases s) (auto intro: lists_error_mono)

text \<open>A meaning is typed if it turns listed signals into signals listed in the computed errors.\<close>

definition sem_typed :: "(cls \<Rightarrow> cls \<Rightarrow> bool) \<Rightarrow> 'u sem \<Rightarrow> (cls list \<Rightarrow> cls list) \<Rightarrow> bool" where
  "sem_typed base_of d F \<longleftrightarrow>
     (\<forall>es i c s u c' s' u'. signal_listed base_of es s \<longrightarrow> d i c s u = Inr (c', s', u') \<longrightarrow> signal_listed base_of (F es) s')"

lemma sem_typedD: "sem_typed base_of d F \<Longrightarrow> signal_listed base_of es s \<Longrightarrow> d i c s u = Inr (c', s', u') \<Longrightarrow> signal_listed base_of (F es) s'"
  unfolding sem_typed_def by blast

lemma sem_typed_mono: "sem_typed base_of d F \<Longrightarrow> (\<And>es. set (F es) \<subseteq> set (G es)) \<Longrightarrow> sem_typed base_of d G"
  unfolding sem_typed_def by (blast intro: signal_listed_mono)

lemma typed_on_start:
  assumes "\<And>i c v u c' s' u'. f i c v u = Inr (c', s', u') \<Longrightarrow> signal_listed base_of raised s'"
    and "\<And>es. set es \<union> set raised \<subseteq> set (F es)"
  shows "sem_typed base_of (sem_on_start f) F"
  unfolding sem_typed_def
proof (intro allI impI)
  fix es i c s u c' s' u'
  assume h: "signal_listed base_of es s" "sem_on_start f i c s u = Inr (c', s', u')"
  have "signal_listed base_of raised s' \<or> s' = s"
    using h(2) assms(1) by (auto simp: sem_on_start_def split: signal.splits)
  then show "signal_listed base_of (F es) s'"
    using signal_listed_mono [OF h(1), of "F es"] signal_listed_mono [of base_of raised s' "F es"] assms(2) [of es] by auto
qed

lemma typed_called:
  assumes "sem_typed base_of d F" "d i c (Started v) u = Inr (c', s', u')"
  shows "signal_listed base_of (F []) s'"
  using sem_typedD [OF assms(1) _ assms(2), of "[]"] by simp

lemma find_handler:
  assumes "find p xs = Some x"
  shows "x \<in> set xs \<and> p x"
  using assms by (auto simp: find_Some_iff)

lemma catches_of_set: "set (catches_of hs) = {t. \<exists>x. (Some t, x) \<in> set hs}"
  by (force simp: catches_of_def split: option.splits)

lemma catches_iff: "catches base_of (Some t) e \<longleftrightarrow> is_base_of base_of t (err_type e) \<or> t = ''TypeErasedError''"
  by (auto simp: catches_def is_base_of_def)

text \<open>An error that no handler catches is not among the errors that are taken out of the list.\<close>

lemma uncaught_listed:
  assumes e: "lists_error base_of es e" and n: "\<And>h. h \<in> set ts \<Longrightarrow> \<not> catches base_of (fst h) e"
  shows "lists_error base_of (catch_errors (catches_of ts) (has_all ts) rs es) e"
proof -
  have "\<not> has_all ts"
  proof
    assume "has_all ts"
    then obtain h where "h \<in> set ts" "fst h = None"
      by (auto simp: has_all_def list_ex_iff)
    then show False
      using n [of h] by (simp add: catches_def)
  qed
  moreover have un: "\<not> catches base_of (Some t) e" if "t \<in> set (catches_of ts)" for t
    using that n by (auto simp: catches_of_set)
  then have "''TypeErasedError'' \<notin> set (catches_of ts)"
    by (auto simp: catches_iff)
  moreover obtain t where t: "t \<in> set es" "is_base_of base_of t (err_type e)"
    using e by (auto simp: lists_error_iff)
  moreover have "t \<notin> set (catches_of ts)"
    using un [of t] t(2) by (auto simp: catches_iff)
  ultimately show ?thesis
    by (auto simp: lists_error_iff catch_errors_def tuple_types_subtract_filter)
qed

lemma list_all2_left: "list_all2 p xs ys \<Longrightarrow> x \<in> set xs \<Longrightarrow> \<exists>y \<in> set ys. p x y"
  by (induction rule: list_all2_induct) auto

lemma list_all2_right: "list_all2 p xs ys \<Longrightarrow> y \<in> set ys \<Longrightarrow> \<exists>x \<in> set xs. p x y"
  by (induction rule: list_all2_induct) auto

lemma typed_catch:
  assumes h: "list_all2 (\<lambda>h t. fst h = fst t \<and> sem_typed base_of (snd h) (ErrorsFrom (snd t))) ds ts"
    and ok: "\<And>t. (None, t) \<in> set ts \<Longrightarrow> ErrorsFrom t [] = []"
  shows "sem_typed base_of (sem_catch base_of ds) (ErrorsFrom (TCatch ts))"
  unfolding sem_typed_def
proof (intro allI impI)
  fix es i c s u c' s' u'
  assume s: "signal_listed base_of es s" "sem_catch base_of ds i c s u = Inr (c', s', u')"
  have caught: "\<exists>t. (fst d, t) \<in> set ts \<and> sem_typed base_of (snd d) (ErrorsFrom t)" if "d \<in> set ds" for d
    using list_all2_left [OF h that] by force
  have handled: "\<exists>d. d \<in> set ds \<and> fst d = fst t" if "t \<in> set ts" for t
    using list_all2_right [OF h that] by blast
  show "signal_listed base_of (ErrorsFrom (TCatch ts) es) s'"
  proof (cases s)
    case (Failed e)
    show ?thesis
    proof (cases "find (\<lambda>h. catches base_of (fst h) e) ds")
      case None
      have "s' = Failed e"
        using s(2) Failed None by (simp add: sem_catch_def)
      moreover have "\<not> catches base_of (fst t) e" if t: "t \<in> set ts" for t
      proof -
        obtain d where "d \<in> set ds" "fst d = fst t"
          using handled [OF t] by blast
        then show ?thesis
          using None unfolding find_None_iff by metis
      qed
      ultimately show ?thesis
        using s(1) Failed uncaught_listed [of base_of es e ts] by simp
    next
      case (Some d)
      then have d: "d \<in> set ds" "snd d i c (Started (VError e)) u = Inr (c', s', u')"
        using s(2) Failed find_handler [OF Some] by (simp_all add: sem_catch_def)
      obtain t where t: "(fst d, t) \<in> set ts" "sem_typed base_of (snd d) (ErrorsFrom t)"
        using caught [OF d(1)] by blast
      have "set (ErrorsFrom t []) \<subseteq> set (ErrorsFrom (TCatch ts) es)"
        using t(1) ok [of t] by (cases "fst d") (force simp: catch_errors_def handler_raises_def)+
      then show ?thesis
        using typed_called [OF t(2) d(2)] signal_listed_mono by blast
    qed
  qed (use s in \<open>auto simp: sem_catch_def\<close>)
qed

lemma typed_expected:
  assumes "expected_signal x = Inr s" "holds_kind k x"
  shows "signal_listed base_of (expected_raises k) s" "(case k of EVariant _ \<Rightarrow> False | _ \<Rightarrow> True) \<Longrightarrow> signal_listed base_of [expected_class_error k] s"
  using assms
  by (cases x; cases k; auto simp: expected_signal_def expected_raises_def expected_class_error_def lists_error_iff is_base_of_def
      RuntimeError_def split: if_splits)+

lemma typed_expected_sem:
  assumes "holds_kind k x" "\<And>s. expected_signal x = Inr s \<Longrightarrow> signal_listed base_of raised s" "\<And>es. set es \<union> set raised \<subseteq> set (F es)"
  shows "sem_typed base_of (sem_expected x) F"
  unfolding sem_expected_def by (rule typed_on_start [where raised = raised]) (use assms in auto)

lemma typed_mapped:
  assumes "\<And>e u'. r = Inr (e, u') \<Longrightarrow> sem_typed base_of (denote base_of e) F"
    and "rbind (map_sum id (map_prod (denote base_of) id) r) (\<lambda>(d, u2). d i c (Started v) u2) = Inr (c', s', u')"
  shows "signal_listed base_of (F []) s'"
  using assms by (cases r) (auto intro: typed_called)

lemma typed_through:
  assumes "sem_typed base_of d F" "\<And>i c s u c' s' u'. d' i c s u = Inr (c', s', u') \<Longrightarrow> \<exists>i c c'. d i c s u = Inr (c', s', u')"
  shows "sem_typed base_of d' F"
  unfolding sem_typed_def
proof (intro allI impI)
  fix es i c s u c' s' u'
  assume s: "signal_listed base_of es s" "d' i c s u = Inr (c', s', u')"
  obtain j k k' where "d j k s u = Inr (k', s', u')"
    using assms(2) [OF s(2)] by blast
  then show "signal_listed base_of (F es) s'"
    using sem_typedD [OF assms(1) s(1)] by blast
qed

lemma has_ety_sound: "has_ety base_of e t \<Longrightarrow> reliable t \<Longrightarrow> sem_typed base_of (denote base_of e) (ErrorsFrom t)"
proof (induction rule: has_ety.induct)
  case (ty_just v)
  then show ?case
    unfolding denote.simps sem_just_def by (intro typed_on_start [where raised = "[]"]) auto
next
  case (ty_raise e)
  then show ?case
    unfolding denote.simps sem_raise_def
    by (intro typed_on_start [where raised = "[err_type e]"]) (auto simp: lists_error_iff is_base_of_def)
next
  case (ty_eventual q raises b)
  have "signal_listed base_of raises s" if "q i v u = Inr (s, u')" for i v u s u'
    using ty_eventual(1) [of i v u _ u'] that by (cases s) auto
  then show ?case
    unfolding denote.simps sem_eventual_def by (intro typed_on_start [where raised = raises]) auto
next
  case (ty_then_value f)
  then show ?case
    unfolding denote.simps sem_then_value_def by (intro typed_on_start [where raised = "[]"]) auto
next
  case (ty_then f t)
  show ?case
    unfolding denote.simps sem_then_def
  proof (rule typed_on_start [where raised = "ErrorsFrom t []"])
    fix i c v u c' s' u'
    assume "rbind (map_sum id (map_prod (denote base_of) id) (f v u)) (\<lambda>(d, u'). d i c (Started VVoid) u') = Inr (c', s', u')"
    then show "signal_listed base_of (ErrorsFrom t []) s'"
      using typed_mapped [of "f v u" base_of "ErrorsFrom t"] ty_then by simp
  qed auto
next
  case (ty_conditional f t g t' p)
  show ?case
    unfolding denote.simps sem_conditional_def
  proof (rule typed_on_start [where raised = "ErrorsFrom t [] @ ErrorsFrom t' []"])
    fix i c v u c' s' u'
    assume h: "rbind (p v u) (\<lambda>(b, u1). rbind ((if b then \<lambda>v u. map_sum id (map_prod (denote base_of) id) (f v u)
        else (\<lambda>v u. map_sum id (map_prod (denote base_of) id) (g v u))) v u1) (\<lambda>(d, u2). d i c (Started VVoid) u2)) = Inr (c', s', u')"
    obtain b u1 where p: "p v u = Inr (b, u1)"
      using h by (cases "p v u") auto
    have "rbind (map_sum id (map_prod (denote base_of) id) ((if b then f else g) v u1))
        (\<lambda>(d, u2). d i c (Started VVoid) u2) = Inr (c', s', u')"
      using h unfolding p by (cases b) simp_all
    then have "signal_listed base_of (ErrorsFrom t []) s' \<or> signal_listed base_of (ErrorsFrom t' []) s'"
      using typed_mapped [of "f v u1" base_of "ErrorsFrom t"] typed_mapped [of "g v u1" base_of "ErrorsFrom t'"] ty_conditional
      by (cases b) auto
    then show "signal_listed base_of (ErrorsFrom t [] @ ErrorsFrom t' []) s'"
      by (auto intro: signal_listed_mono)
  qed auto
next
  case (ty_if yes t no t' b)
  show ?case
    unfolding denote.simps sem_if_def
  proof (rule typed_on_start [where raised = "ErrorsFrom t [] @ ErrorsFrom t' []"])
    fix i c v u c' s' u'
    assume "(if b then denote base_of yes else denote base_of no) i c (Started VVoid) u = Inr (c', s', u')"
    then have "signal_listed base_of (ErrorsFrom t []) s' \<or> signal_listed base_of (ErrorsFrom t' []) s'"
      using ty_if typed_called [of base_of "denote base_of yes" "ErrorsFrom t"] typed_called [of base_of "denote base_of no" "ErrorsFrom t'"]
      by (auto split: if_splits)
    then show "signal_listed base_of (ErrorsFrom t [] @ ErrorsFrom t' []) s'"
      by (auto intro: signal_listed_mono)
  qed auto
next
  case (ty_catch hs ts)
  have ok: "reliable (snd t)" "fst t = None \<Longrightarrow> ErrorsFrom (snd t) [] = []" if "t \<in> set ts" for t
    using ty_catch(2) that by (cases t; fastforce simp: list_all_iff)+
  have "list_all2 (\<lambda>h t. fst h = fst t \<and> sem_typed base_of (snd h) (ErrorsFrom (snd t))) (map (map_prod id (denote base_of)) hs) ts"
    using ty_catch(1) ok by (auto simp: list_all2_map1 list_all2_conv_all_nth)
  then show ?case
    unfolding denote.simps by (rule typed_catch) (use ok in force)
next
  case ty_finally
  then show ?case
    by (auto simp: sem_typed_def sem_finally_def)
next
  case (ty_expected k x)
  then show ?case
    unfolding denote.simps by (intro typed_expected_sem [where raised = "[expected_class_error k]"]) (auto dest: typed_expected(2))
next
  case (ty_tl_expected k x)
  then show ?case
    unfolding denote.simps by (intro typed_expected_sem [where raised = "expected_raises k"]) (auto dest: typed_expected(1))
next
  case (ty_closure f t)
  show ?case
    unfolding sem_typed_def
  proof (intro allI impI)
    fix es i c s u c' s' u'
    assume s: "signal_listed base_of es s" "denote base_of (Ev_Closure f) i c s u = Inr (c', s', u')"
    then obtain e u1 where e: "f u = Inr (e, u1)" "denote base_of e i c s u1 = Inr (c', s', u')"
      by (cases "f u") (auto simp: sem_closure_def)
    have "sem_typed base_of (denote base_of e) (ErrorsFrom t)"
      using ty_closure(2) [OF e(1)] ty_closure(3) by simp
    from sem_typedD [OF this s(1) e(2)] show "signal_listed base_of (ErrorsFrom (TClosure t) es) s'"
      by simp
  qed
next
  case (ty_reschedule c)
  then show ?case
    by (simp add: sem_typed_def sem_reschedule_def)
next
  case (ty_reschedule_after e t)
  then have e: "sem_typed base_of (denote base_of e) (ErrorsFrom t)"
    by simp
  have "sem_typed base_of (sem_come_back (denote base_of e)) (ErrorsFrom t)"
    by (rule typed_through [OF e]) (auto simp: sem_come_back_def)
  then show ?case
    by (simp add: sem_typed_def)
next
  case (ty_preempt e t c)
  then have e: "sem_typed base_of (denote base_of e) (ErrorsFrom t)"
    by simp
  have "sem_typed base_of (sem_preempt c (denote base_of e)) (ErrorsFrom t)"
    by (rule typed_through [OF e]) (auto simp: sem_preempt_def)
  then show ?case
    by (simp add: sem_typed_def)
next
  case (ty_composed l t r t')
  show ?case
    unfolding sem_typed_def
  proof (intro allI impI)
    fix es i c s u c' s' u'
    assume s: "signal_listed base_of es s" "denote base_of (Ev_Seq l r) i c s u = Inr (c', s', u')"
    then obtain c1 s1 u1 where d: "denote base_of l i c s u = Inr (c1, s1, u1)" "denote base_of r i c1 s1 u1 = Inr (c', s', u')"
      by (auto simp: sem_seq_def)
    have ok: "sem_typed base_of (denote base_of l) (ErrorsFrom t)" "sem_typed base_of (denote base_of r) (ErrorsFrom t')"
      using ty_composed by simp_all
    from sem_typedD [OF ok(2) sem_typedD [OF ok(1) s(1) d(1)] d(2)]
    show "signal_listed base_of (ErrorsFrom (TComposed t t') es) s'"
      by simp
  qed
qed

section \<open>The error types are sound\<close>

text \<open>
  C13. The computed error types are sound: a pipeline of a reliable type, started, stopped or failed with an error that \<^verbatim>\<open>Errors\<close> lists,
  fails only with errors that \<^verbatim>\<open>ErrorsFrom<Arg, Errors>\<close> lists, itself or by a base class.
\<close>

theorem failures_are_listed:
  assumes "has_ety base_of e t" and "reliable t" and "signal_listed base_of errors s"
    and "denote base_of e i c s u = Inr (c', Failed err, u')"
  shows "lists_error base_of (ErrorsFrom t errors) err"
  using sem_typedD [OF has_ety_sound [OF assms(1,2)] assms(3,4)] by simp

definition guarded :: "unit ev" where
  "guarded = Ev_Seq (Ev_Raise (Error ''NotFound'' ''no such key'')) (Ev_Catch [(Some ''Timeout'', Ev_ThenValue (\<lambda>v u. Inr (v, u)))])"

lemma guarded_type: "has_ety base_of guarded (TComposed (TRaise ''NotFound'') (TCatch [(Some ''Timeout'', TThenValue)]))"
  unfolding guarded_def
proof (rule ty_composed)
  show "has_ety base_of (Ev_Raise (Error ''NotFound'' ''no such key'')) (TRaise ''NotFound'')"
    using ty_raise [of base_of "Error ''NotFound'' ''no such key''"] by simp
  show "has_ety base_of (Ev_Catch [(Some ''Timeout'', Ev_ThenValue (\<lambda>v u. Inr (v, u)))]) (TCatch [(Some ''Timeout'', TThenValue)])"
    by (rule ty_catch) (simp add: ty_then_value)
qed

theorem failures_are_listed_witness:
  "denote (\<lambda>_ _. False) guarded None 0 (Started VVoid) () = Inr (0, Failed (Error ''NotFound'' ''no such key''), ()) \<and>
   lists_error (\<lambda>_ _. False) (ErrorsFrom (TComposed (TRaise ''NotFound'') (TCatch [(Some ''Timeout'', TThenValue)])) [])
     (Error ''NotFound'' ''no such key'')"
proof -
  have d: "denote (\<lambda>_ _. False) guarded None 0 (Started VVoid) () = Inr (0, Failed (Error ''NotFound'' ''no such key''), ())"
    by (simp add: guarded_def sem_seq_def sem_raise_def sem_on_start_def sem_catch_def catches_def)
  show ?thesis
    using d failures_are_listed [OF guarded_type _ _ d, of "[]"] by simp
qed

text \<open>
  The error type of an \<^verbatim>\<open>expected\<close> with a variant of errors is wrong: an \<^verbatim>\<open>expected<T, std::variant<Stopped, E>>\<close> (what \<^verbatim>\<open>Finally\<close>
  passes on) that holds an \<^verbatim>\<open>E\<close> fails with it, but its \<^verbatim>\<open>ErrorsFrom\<close> lists only \<^verbatim>\<open>RuntimeError\<close>, for every
  class \<^verbatim>\<open>E\<close> that is not derived from \<^verbatim>\<open>RuntimeError\<close> (which is final).
\<close>

theorem expected_variant_errors_unlisted:
  assumes "err_type e \<notin> {''Stopped'', ''std::string'', ''RuntimeError''}" and "\<not> base_of ''RuntimeError'' (err_type e)"
  shows "has_ety base_of (Ev_Expected (VUnexpected e)) (TExpected (EVariant [err_type e])) \<and>
    denote base_of (Ev_Expected (VUnexpected e)) i c (Started VVoid) u = Inr (c, Failed e, u) \<and>
    \<not> lists_error base_of (ErrorsFrom (TExpected (EVariant [err_type e])) []) e"
  using assms ty_expected [of "EVariant [err_type e]" "VUnexpected e" base_of]
  by (auto simp: sem_expected_def sem_on_start_def expected_signal_def lists_error_iff expected_class_error_def is_base_of_def tuple_types_union_def)

theorem expected_variant_errors_unlisted_witness:
  "\<not> lists_error (\<lambda>_ _. False) (ErrorsFrom (TExpected (EVariant [''NotFound''])) []) (Error ''NotFound'' ''no such key'')"
proof -
  have "err_type (Error ''NotFound'' ''no such key'') \<notin> {''Stopped'', ''std::string'', ''RuntimeError''}"
    by simp
  from expected_variant_errors_unlisted [OF this, of "\<lambda>_ _. False" None 0 "()"] show ?thesis
    by (metis err.sel(1))
qed

text \<open>
  The union of two error lists has exactly the types of both, and none twice if the two lists have none twice; so the order of its arguments does not
  matter up to the order of the result.
\<close>

theorem tuple_types_union_is_set_union:
  assumes "distinct left" and "distinct right"
  shows "set (tuple_types_union left right) = set left \<union> set right \<and> distinct (tuple_types_union left right) \<and>
    tuple_types_unordered_equals (tuple_types_union left right) (tuple_types_union right left)"
  using assms distinct_tuple_types_union by auto

theorem tuple_types_union_is_set_union_witness:
  "set (tuple_types_union [''A'', ''B''] [''B'', ''C'']) = {''A'', ''B'', ''C''} \<and> distinct (tuple_types_union [''A'', ''B''] [''B'', ''C''])"
  using tuple_types_union_is_set_union [of "[''A'', ''B'']" "[''B'', ''C'']"] by auto

end
