(* ===== verification/Lock_Invariant.thy ===== *)
theory Lock_Invariant
  imports Lock_Machine
begin

text \<open>
  The inductive invariant of the lock machine. \<open>lock_inv s q\<close> relates a state to the list \<open>q\<close> that
  \<^verbatim>\<open>head_\<close> points to. One lemma per group of actions shows that a step keeps it, for the same list, for the list with the
  moving process in front (a successful compare-and-swap of an acquire), or for the list without
  its last element (a release); together they show that no step from a reachable state fails a CHECK.
\<close>

section \<open>The invariant\<close>

fun holding :: "pc \<Rightarrow> bool" where
  "holding (FastOwner _) = True"
| "holding (FastAcquired _) = True"
| "holding Critical = True"
| "holding RelLoad = True"
| "holding (RelOwner0 _) = True"
| "holding (RelCas _) = True"
| "holding (RelWalk _) = True"
| "holding (RelUnacquire _) = True"
| "holding (RelUnlink _) = True"
| "holding _ = False"

fun handing :: "pc \<Rightarrow> wid option" where
  "handing (RelOwner1 x) = Some x"
| "handing (RelAcquire x) = Some x"
| "handing (RelCall x) = Some x"
| "handing _ = None"

fun acquiring :: "pc \<Rightarrow> bool" where
  "acquiring (FastLoad _) = True"
| "acquiring (FastCas _) = True"
| "acquiring SlowEnter = True"
| "acquiring SlowLoad = True"
| "acquiring SlowCas = True"
| "acquiring _ = False"

fun slow_side :: "pc \<Rightarrow> bool" where
  "slow_side SlowEnter = True"
| "slow_side SlowLoad = True"
| "slow_side SlowCas = True"
| "slow_side (FastLoad b) = b"
| "slow_side (FastCas b) = b"
| "slow_side Blocked = True"
| "slow_side _ = False"

definition last_two :: "wid list \<Rightarrow> wid \<Rightarrow> wid \<Rightarrow> bool" where
  "last_two q x y \<longleftrightarrow> (\<exists>ys. q = ys @ [x, y])"

lemma last_two_Cons: "last_two q x y \<Longrightarrow> last_two (w # q) x y"
  unfolding last_two_def by (metis append_Cons)

text \<open>What the position of process \<open>w\<close> says about its own waiter and its local variables.\<close>

definition local_inv :: "lock \<Rightarrow> wid list \<Rightarrow> wid \<Rightarrow> pc \<Rightarrow> bool" where
  "local_inv m q w p \<longleftrightarrow>
     (holding p \<longrightarrow> q \<noteq> [] \<and> last q = w) \<and>
     (p = Blocked \<longrightarrow> w \<in> set q) \<and>
     (w \<in> set q \<and> w \<noteq> last q \<longrightarrow> p = Blocked) \<and>
     (w \<in> set q \<longrightarrow> p = Blocked \<or> holding p) \<and>
     (slow_side p \<longrightarrow> wfun m w) \<and>
     (acquiring p \<or> p = Blocked \<or> (\<exists>b. p = FastOwner b) \<longrightarrow> wctx m w \<noteq> None) \<and>
     (acquired m w \<longrightarrow> (q \<noteq> [] \<and> w = last q) \<or> p = RelClear w) \<and>
     (w \<notin> set q \<longrightarrow> nxt m w = None \<or> p = SlowCas) \<and>
     (p = SlowCas \<longrightarrow> nxt m w \<noteq> None) \<and>
     (\<forall>x. p = RelOwner0 x \<or> p = RelCas x \<or> p = RelClear x \<longrightarrow> x = w) \<and>
     (\<forall>x. p = RelWalk x \<longrightarrow> x \<in> set q \<and> x \<noteq> last q) \<and>
     (\<forall>x. p = RelUnacquire x \<or> p = RelUnlink x \<longrightarrow> last_two q x w) \<and>
     (\<forall>x. handing p = Some x \<longrightarrow> q \<noteq> [] \<and> last q = x) \<and>
     (\<forall>x. p = RelUnlink x \<longrightarrow> \<not> acquired m w)"

definition lock_inv :: "sys \<Rightarrow> wid list \<Rightarrow> bool" where
  "lock_inv s q \<longleftrightarrow>
     lpath (nxt (mem s)) (head (mem s)) q \<and> distinct q \<and>
     (\<forall>w. local_inv (mem s) q w (pcs s w)) \<and>
     (\<forall>w w'. handing (pcs s w) \<noteq> None \<longrightarrow> handing (pcs s w') \<noteq> None \<longrightarrow> w = w') \<and>
     (\<forall>w x. handing (pcs s w) = Some x \<longrightarrow> pcs s x = Blocked) \<and>
     (q \<noteq> [] \<longrightarrow> holding (pcs s (last q)) \<or> (\<exists>w. handing (pcs s w) = Some (last q)))"

lemma inv_init: "lock_inv lock_init []"
  by (simp add: lock_inv_def lock_init_def local_inv_def)

lemma lock_invI:
  assumes "lpath (nxt (mem s)) (head (mem s)) q" "distinct q"
    and "\<And>w. local_inv (mem s) q w (pcs s w)"
    and "\<And>w w'. handing (pcs s w) \<noteq> None \<Longrightarrow> handing (pcs s w') \<noteq> None \<Longrightarrow> w = w'"
    and "\<And>w x. handing (pcs s w) = Some x \<Longrightarrow> pcs s x = Blocked"
    and "q \<noteq> [] \<Longrightarrow> holding (pcs s (last q)) \<or> (\<exists>w. handing (pcs s w) = Some (last q))"
  shows "lock_inv s q"
  using assms by (simp add: lock_inv_def)

lemma lock_invD:
  assumes "lock_inv s q"
  shows "lpath (nxt (mem s)) (head (mem s)) q" "distinct q" "local_inv (mem s) q w (pcs s w)"
    "handing (pcs s w) \<noteq> None \<Longrightarrow> handing (pcs s w') \<noteq> None \<Longrightarrow> w = w'"
    "handing (pcs s w) = Some x \<Longrightarrow> pcs s x = Blocked"
    "q \<noteq> [] \<Longrightarrow> holding (pcs s (last q)) \<or> (\<exists>w. handing (pcs s w) = Some (last q))"
  using assms by (auto simp: lock_inv_def)

text \<open>The local invariants as rules.\<close>

lemma local_invD:
  assumes "local_inv m q w p"
  shows "holding p \<Longrightarrow> q \<noteq> [] \<and> last q = w"
    "p = Blocked \<Longrightarrow> w \<in> set q"
    "w \<in> set q \<Longrightarrow> w \<noteq> last q \<Longrightarrow> p = Blocked"
    "w \<in> set q \<Longrightarrow> p = Blocked \<or> holding p"
    "slow_side p \<Longrightarrow> wfun m w"
    "acquiring p \<or> p = Blocked \<or> (\<exists>b. p = FastOwner b) \<Longrightarrow> wctx m w \<noteq> None"
    "acquired m w \<Longrightarrow> (q \<noteq> [] \<and> w = last q) \<or> p = RelClear w"
    "w \<notin> set q \<Longrightarrow> nxt m w = None \<or> p = SlowCas"
    "p = SlowCas \<Longrightarrow> nxt m w \<noteq> None"
    "p = RelOwner0 x \<or> p = RelCas x \<or> p = RelClear x \<Longrightarrow> x = w"
    "p = RelWalk x \<Longrightarrow> x \<in> set q \<and> x \<noteq> last q"
    "p = RelUnacquire x \<or> p = RelUnlink x \<Longrightarrow> last_two q x w"
    "handing p = Some x \<Longrightarrow> q \<noteq> [] \<and> last q = x"
    "p = RelUnlink x \<Longrightarrow> \<not> acquired m w"
  using assms unfolding local_inv_def by blast+

lemmas own_inv = local_invD [OF lock_invD(3)]

lemma inv_handing: "lock_inv s q \<Longrightarrow> handing (pcs s w) = Some x \<Longrightarrow> q \<noteq> [] \<and> last q = x \<and> x \<in> set q \<and> pcs s x = Blocked"
  using own_inv(13) [of s q w x] lock_invD(5) [of s q w x] last_in_set by blast

text \<open>A process that is neither blocked nor holding is not in the list.\<close>

lemma not_in_list:
  assumes "lock_inv s q" "\<not> holding (pcs s w)" "pcs s w \<noteq> Blocked"
  shows "w \<notin> set q"
  using own_inv(4) [OF assms(1), of w] assms(2,3) by blast

lemma holding_not: "holding p \<Longrightarrow> handing p = None" "holding p \<Longrightarrow> p \<noteq> Blocked"
  by (cases p; simp)+

lemma local_inv_frame:
  assumes "nxt m v = nxt m' v" "acquired m v = acquired m' v" "wctx m v = wctx m' v" "wfun m v = wfun m' v"
  shows "local_inv m q v p = local_inv m' q v p"
  unfolding local_inv_def assms by (rule refl)

section \<open>Actions that keep the list\<close>

text \<open>
  A step of \<open>w\<close> that changes, besides \<^verbatim>\<open>owner_\<close>, only the members of \<open>w\<close>'s own waiter while \<open>w\<close> is not in the
  list keeps the invariant if the new position of \<open>w\<close> satisfies its local invariant.
\<close>

lemma process_step:
  assumes inv: "lock_inv s q" and w: "w \<notin> set q" "handing (pcs s w) = None"
    and "head m = head (mem s)" "\<And>v. v \<noteq> w \<Longrightarrow> nxt m v = nxt (mem s) v \<and> acquired m v = acquired (mem s) v \<and>
      wctx m v = wctx (mem s) v \<and> wfun m v = wfun (mem s) v"
    and "local_inv m q w p" "handing p = None"
  shows "lock_inv (goto w s (m, p)) q"
proof (rule lock_invI)
  note D = lock_invD [OF inv]
  have n: "nxt m = (nxt (mem s))(w := nxt m w)"
    using assms(5) by auto
  have "lpath (nxt m) (head (mem s)) q"
    by (subst n, subst lpath_frame [OF w(1)]) (rule D(1))
  then show "lpath (nxt (mem (goto w s (m, p)))) (head (mem (goto w s (m, p)))) q"
    using assms(4) by (simp add: goto_def)
  show "distinct q"
    by (rule D(2))
  fix v
  show "local_inv (mem (goto w s (m, p))) q v (pcs (goto w s (m, p)) v)"
    using D(3) [of v] assms(5) [of v] assms(6) local_inv_frame [of m v "mem s"] by (cases "v = w") (simp_all add: goto_def)
next
  fix v v'
  assume "handing (pcs (goto w s (m, p)) v) \<noteq> None" "handing (pcs (goto w s (m, p)) v') \<noteq> None"
  then show "v = v'"
    using lock_invD(4) [OF inv, of v v'] assms(7) by (auto simp: goto_def split: if_splits)
next
  fix v x
  assume h: "handing (pcs (goto w s (m, p)) v) = Some x"
  then have "pcs s x = Blocked" "x \<in> set q"
    using inv_handing [OF inv, of v x] assms(7) by (auto simp: goto_def split: if_splits)
  then show "pcs (goto w s (m, p)) x = Blocked"
    using w(1) by (auto simp: goto_def)
next
  assume "q \<noteq> []"
  then show "holding (pcs (goto w s (m, p)) (last q)) \<or> (\<exists>v. handing (pcs (goto w s (m, p)) v) = Some (last q))"
    using lock_invD(6) [OF inv] w last_in_set [of q] by (auto simp: goto_def) (metis option.distinct(1))
qed

text \<open>A step of the holder that changes \<^verbatim>\<open>owner_\<close> only and stays holding.\<close>

lemma holder_step:
  assumes inv: "lock_inv s q" and w: "holding (pcs s w)" "holding p"
    and m: "head m = head (mem s)" "nxt m = nxt (mem s)" "\<And>v. v \<noteq> w \<Longrightarrow> acquired m v = acquired (mem s) v \<and>
      wctx m v = wctx (mem s) v \<and> wfun m v = wfun (mem s) v"
    and loc: "local_inv m q w p"
  shows "lock_inv (goto w s (m, p)) q"
proof (rule lock_invI)
  note D = lock_invD [OF inv]
  have nh: "handing p = None" "handing (pcs s w) = None" "p \<noteq> Blocked" "pcs s w \<noteq> Blocked"
    using w by (auto dest: holding_not)
  show "lpath (nxt (mem (goto w s (m, p)))) (head (mem (goto w s (m, p)))) q" "distinct q"
    using D(1,2) m by (simp_all add: goto_def)
  show "local_inv (mem (goto w s (m, p))) q v (pcs (goto w s (m, p)) v)" for v
    using D(3) [of v] m(2) m(3) [of v] loc local_inv_frame [of m v "mem s"] by (cases "v = w") (simp_all add: goto_def)
  show "handing (pcs (goto w s (m, p)) v) \<noteq> None \<Longrightarrow> handing (pcs (goto w s (m, p)) v') \<noteq> None \<Longrightarrow> v = v'" for v v'
    using D(4) [of v v'] nh by (auto simp: goto_def split: if_splits)
  show "handing (pcs (goto w s (m, p)) v) = Some x \<Longrightarrow> pcs (goto w s (m, p)) x = Blocked" for v x
    using D(5) [of v x] nh by (auto simp: goto_def split: if_splits)
  show "holding (pcs (goto w s (m, p)) (last q)) \<or> (\<exists>v. handing (pcs (goto w s (m, p)) v) = Some (last q))"
    using own_inv(1) [OF inv w(1)] w(2) by (auto simp: goto_def)
qed


text \<open>Local invariants of the three kinds of positions.\<close>

lemma local_inv_outside:
  assumes "w \<notin> set q" "\<not> holding p" "p \<noteq> Blocked" "handing p = None"
    and "slow_side p \<Longrightarrow> wfun m w" "acquiring p \<Longrightarrow> wctx m w \<noteq> None" "acquired m w \<Longrightarrow> p = RelClear w"
    and "nxt m w = None \<or> p = SlowCas" "p = SlowCas \<Longrightarrow> nxt m w \<noteq> None" "\<And>x. p = RelClear x \<Longrightarrow> x = w"
  shows "local_inv m q w p"
  using assms unfolding local_inv_def by (cases p) auto

lemma local_inv_holder:
  assumes "q \<noteq> []" "last q = w" "holding p" "\<And>b. p = FastOwner b \<Longrightarrow> wctx m w \<noteq> None"
    and "\<And>x. p = RelOwner0 x \<or> p = RelCas x \<Longrightarrow> x = w"
    and "\<And>x. p = RelWalk x \<Longrightarrow> x \<in> set q \<and> x \<noteq> last q"
    and "\<And>x. p = RelUnacquire x \<or> p = RelUnlink x \<Longrightarrow> last_two q x w"
    and "\<And>x. p = RelUnlink x \<Longrightarrow> \<not> acquired m w"
  shows "local_inv m q w p"
  using assms last_in_set [of q] unfolding local_inv_def by (cases p) auto

section \<open>Entering and leaving the list\<close>

lemma push_local:
  assumes "local_inv (mem s) q v (pcs s v)" "v \<noteq> w"
    and "q \<noteq> [] \<or> \<not> holding (pcs s v)" "q \<noteq> [] \<or> handing (pcs s v) = None"
  shows "local_inv (mem s) (w # q) v (pcs s v)"
  using assms unfolding local_inv_def by (cases "pcs s v") (auto intro: last_two_Cons)

lemma push_step:
  assumes inv: "lock_inv s q" and w: "w \<notin> set q" "handing (pcs s w) = None" "\<not> acquired (mem s) w"
    and nx: "nxt (mem s) w = head (mem s)" and ctx: "wctx (mem s) w \<noteq> None"
    and p: "q = [] \<and> p = FastOwner b \<or> q \<noteq> [] \<and> p = Blocked \<and> wfun (mem s) w"
  shows "lock_inv (goto w s ((mem s)\<lparr>head := Some w\<rparr>, p)) (w # q)"
proof (rule lock_invI)
  note D = lock_invD [OF inv]
  have q: "holding (pcs s v) \<Longrightarrow> q \<noteq> []" "handing (pcs s v) = Some x \<Longrightarrow> q \<noteq> []" for v x
    using own_inv(1) [OF inv, of v] inv_handing [OF inv, of v x] by auto
  have hp: "handing p = None"
    using p by auto
  show "lpath (nxt (mem (goto w s ((mem s)\<lparr>head := Some w\<rparr>, p)))) (head (mem (goto w s ((mem s)\<lparr>head := Some w\<rparr>, p)))) (w # q)"
    using D(1) nx by (simp add: goto_def)
  show "distinct (w # q)"
    using D(2) w(1) by simp
  show "local_inv (mem (goto w s ((mem s)\<lparr>head := Some w\<rparr>, p))) (w # q) v (pcs (goto w s ((mem s)\<lparr>head := Some w\<rparr>, p)) v)" for v
  proof (cases "v = w")
    case True
    then show ?thesis
      using p w ctx by (auto simp: goto_def local_inv_def)
  next
    case False
    then show ?thesis
      using push_local [OF D(3) False] q local_inv_frame [of "(mem s)\<lparr>head := Some w\<rparr>" v "mem s"]
      by (cases "handing (pcs s v)") (auto simp: goto_def)
  qed
  show "handing (pcs (goto w s ((mem s)\<lparr>head := Some w\<rparr>, p)) v) \<noteq> None \<Longrightarrow>
      handing (pcs (goto w s ((mem s)\<lparr>head := Some w\<rparr>, p)) v') \<noteq> None \<Longrightarrow> v = v'" for v v'
    using D(4) [of v v'] hp by (auto simp: goto_def split: if_splits)
  show "handing (pcs (goto w s ((mem s)\<lparr>head := Some w\<rparr>, p)) v) = Some x \<Longrightarrow>
      pcs (goto w s ((mem s)\<lparr>head := Some w\<rparr>, p)) x = Blocked" for v x
    using inv_handing [OF inv, of v x] hp w by (auto simp: goto_def split: if_splits)
  show "holding (pcs (goto w s ((mem s)\<lparr>head := Some w\<rparr>, p)) (last (w # q))) \<or>
      (\<exists>v. handing (pcs (goto w s ((mem s)\<lparr>head := Some w\<rparr>, p)) v) = Some (last (w # q)))"
    using D(6) p w last_in_set [of q] by (auto simp: goto_def) (metis option.distinct(1))
qed

lemma no_handing:
  assumes "lock_inv s q" "q \<noteq> [] \<Longrightarrow> pcs s (last q) \<noteq> Blocked"
  shows "handing (pcs s v) = None"
proof (rule ccontr)
  assume "handing (pcs s v) \<noteq> None"
  then obtain x where "handing (pcs s v) = Some x"
    by blast
  from inv_handing [OF assms(1) this] show False
    using assms(2) by blast
qed

lemma pop_last:
  assumes inv: "lock_inv s [w]" and w: "pcs s w = RelCas w"
  shows "lock_inv (goto w s ((mem s)\<lparr>head := None\<rparr>, RelClear w)) []"
proof -
  note D = lock_invD [OF inv]
  have none: "handing (pcs s v) = None" for v
    by (rule no_handing [OF inv]) (simp add: w)
  have local: "local_inv (mem s) [] v (pcs s v)" if "v \<noteq> w" for v
  proof (rule local_inv_outside)
    show "\<not> holding (pcs s v)" "pcs s v \<noteq> Blocked" "handing (pcs s v) = None"
      using own_inv(1,2) [OF inv, of v] that none [of v] by auto
    show "nxt (mem s) v = None \<or> pcs s v = SlowCas" "acquired (mem s) v \<Longrightarrow> pcs s v = RelClear v"
      using own_inv(7,8) [OF inv, of v] that by auto
  qed (use own_inv(5,6,9,10) [OF inv, of v] in auto)
  have "nxt (mem s) w = None"
    using D(1) by simp
  then have "local_inv (mem s) [] w (RelClear w)"
    by (intro local_inv_outside) auto
  then have "local_inv ((mem s)\<lparr>head := None\<rparr>) [] v (((pcs s)(w := RelClear w)) v)" for v
    using local [of v] local_inv_frame [of "(mem s)\<lparr>head := None\<rparr>" v "mem s"] by simp
  then show ?thesis
    using none by (intro lock_invI) (simp_all add: goto_def split: if_splits)
qed

lemma pop_handing:
  assumes inv: "lock_inv s (ys @ [x, w])" and w: "pcs s w = RelUnlink x" and acq: "\<not> acquired (mem s) w"
  shows "lock_inv (goto w s (set_next x None (mem s), RelOwner1 x)) (ys @ [x])"
proof -
  let ?m = "set_next x None (mem s)"
  note D = lock_invD [OF inv]
  have d: "distinct (ys @ [x, w])" "x \<noteq> w" "w \<notin> set ys"
    using D(2) by auto
  have none: "handing (pcs s v) = None" for v
    by (rule no_handing [OF inv]) (simp add: w)
  have blocked: "pcs s v = Blocked" if "v \<in> set (ys @ [x])" for v
    using own_inv(3) [OF inv, of v] that d by auto
  have outside: "local_inv ?m (ys @ [x]) v (pcs s v)" if "v \<notin> set (ys @ [x, w])" for v
  proof (rule local_inv_outside)
    show "\<not> holding (pcs s v)" "pcs s v \<noteq> Blocked" "handing (pcs s v) = None"
      using own_inv(1,2) [OF inv, of v] that none [of v] by auto
    show "nxt ?m v = None \<or> pcs s v = SlowCas" "acquired ?m v \<Longrightarrow> pcs s v = RelClear v"
      "pcs s v = SlowCas \<Longrightarrow> nxt ?m v \<noteq> None"
      using own_inv(7,8,9) [OF inv, of v] that by (auto simp: set_next_def)
  qed (use that own_inv(5,6,10) [OF inv, of v] in \<open>auto simp: set_next_def\<close>)
  have inside: "local_inv ?m (ys @ [x]) v (pcs s v)" if "v \<in> set (ys @ [x])" for v
  proof -
    have "wfun (mem s) v" "wctx (mem s) v \<noteq> None"
      using own_inv(5,6) [OF inv, of v] blocked [OF that] by auto
    moreover have "\<not> acquired (mem s) v"
      using own_inv(7) [OF inv, of v] that d blocked [OF that] by auto
    ultimately show ?thesis
      using blocked [OF that] that by (auto simp: local_inv_def set_next_def)
  qed
  have "nxt (mem s) w = None"
    using lpath_next [OF D(1,2), of w] by simp
  then have self: "local_inv ?m (ys @ [x]) w (RelOwner1 x)"
    using d acq by (auto simp: local_inv_def set_next_def)
  have "local_inv ?m (ys @ [x]) v (((pcs s)(w := RelOwner1 x)) v)" for v
    using inside [of v] outside [of v] self by (cases "v = w") auto
  moreover have "lpath (nxt ?m) (head ?m) (ys @ [x])"
    using lpath_unlink [OF D(1) d(1)] by (simp add: set_next_def)
  moreover have "pcs s x = Blocked"
    using blocked by simp
  ultimately show ?thesis
    using d none by (intro lock_invI) (auto simp: goto_def split: if_splits)
qed


section \<open>Handing the lock over\<close>

lemma other_not_handing:
  assumes "lock_inv s q" "handing (pcs s w) = Some x" "v \<noteq> w"
  shows "handing (pcs s v) = None"
  using lock_invD(4) [OF assms(1), of v w] assms(2,3) by (cases "handing (pcs s v)") auto

lemma handing_step:
  assumes inv: "lock_inv s q" and w: "handing (pcs s w) = Some x" "handing p = Some x"
    and m: "head m = head (mem s)" "nxt m = nxt (mem s)" "wctx m = wctx (mem s)" "wfun m = wfun (mem s)"
    "\<And>v. v \<noteq> x \<Longrightarrow> acquired m v = acquired (mem s) v"
  shows "lock_inv (goto w s (m, p)) q"
proof -
  note D = lock_invD [OF inv]
  have x: "q \<noteq> []" "last q = x" "x \<in> set q" "pcs s x = Blocked"
    using inv_handing [OF inv w(1)] by auto
  have nw: "pcs s w \<noteq> Blocked" "\<not> holding (pcs s w)" "\<not> holding p" "p \<noteq> Blocked" "w \<noteq> x"
    using w x(4) by (auto dest: holding_not(1))
  have w': "w \<notin> set q"
    using not_in_list [OF inv] nw by blast
  have "nxt (mem s) w = None" "\<not> acquired (mem s) w"
    using own_inv(7,8) [OF inv, of w] w(1) w' x by auto
  then have self: "local_inv m q w p"
    using w' w(2) x m(2) m(5) [OF nw(5)] unfolding local_inv_def by (cases p) auto
  have "wfun (mem s) x" "wctx (mem s) x \<noteq> None"
    using own_inv(5,6) [OF inv, of x] x by auto
  then have target: "local_inv m q x (pcs s x)"
    using x m unfolding local_inv_def by auto
  have "local_inv m q v (((pcs s)(w := p)) v)" for v
    using self target D(3) [of v] m local_inv_frame [of m v "mem s"] by (cases "v = w"; cases "v = x") auto
  moreover note other_not_handing [OF inv w(1)]
  ultimately show ?thesis
    using D(1,2) m w x nw by (intro lock_invI) (auto simp: goto_def split: if_splits)
qed

lemma call_step:
  assumes inv: "lock_inv s q" and w: "pcs s w = RelCall x"
  shows "\<exists>s'. release_call w x s = Inr s' \<and> lock_inv s' q"
proof -
  let ?m = "set_ctx x None (set_fun x False (mem s))"
  let ?P = "(pcs s)(x := Critical, w := Idle)"
  note D = lock_invD [OF inv]
  have h: "handing (pcs s w) = Some x"
    using w by simp
  have x: "q \<noteq> []" "last q = x" "x \<in> set q" "pcs s x = Blocked"
    using inv_handing [OF inv h] by auto
  then have f: "wfun (mem s) x" "w \<noteq> x"
    using own_inv(5) [OF inv, of x] w by auto
  have w': "w \<notin> set q"
    using not_in_list [OF inv, of w] w by simp
  have "nxt (mem s) w = None" "\<not> acquired (mem s) w"
    using own_inv(7,8) [OF inv, of w] w w' x by auto
  then have self: "local_inv ?m q w Idle"
    using w' f by (intro local_inv_outside) (auto simp: set_ctx_def set_fun_def)
  have target: "local_inv ?m q x Critical"
    using x by (intro local_inv_holder) auto
  have other: "local_inv ?m q v (pcs s v)" if "v \<noteq> x" for v
    using D(3) [of v] local_inv_frame [of ?m v "mem s"] that by (auto simp: set_ctx_def set_fun_def)
  have loc: "local_inv ?m q v (?P v)" for v
    using self target other [of v] by (cases "v = w"; cases "v = x") auto
  have none: "handing (?P v) = None" for v
    using other_not_handing [OF inv h, of v] by auto
  have "lock_inv (s\<lparr>mem := ?m, pcs := ?P\<rparr>) q"
    using D(1,2) loc none x f by (intro lock_invI) (auto simp: set_ctx_def set_fun_def split: if_splits)
  then show ?thesis
    using f by (simp add: release_call_def)
qed


section \<open>Every step\<close>

text \<open>The new list after a step of \<open>w\<close>.\<close>

definition list_step :: "wid \<Rightarrow> wid list \<Rightarrow> wid list \<Rightarrow> bool" where
  "list_step w q q' \<longleftrightarrow> q' = q \<or> q' = w # q \<or> q = q' @ [w]"

definition step_ok :: "bool \<Rightarrow> wid \<Rightarrow> sys \<Rightarrow> wid list \<Rightarrow> bool" where
  "step_ok b w s q \<longleftrightarrow> (\<exists>s' q'. lock_step b w s = Inr s' \<and> lock_inv s' q' \<and> list_step w q q')"

lemma step_okI: "lock_step b w s = Inr s' \<Longrightarrow> lock_inv s' q' \<Longrightarrow> list_step w q q' \<Longrightarrow> step_ok b w s q"
  by (auto simp: step_ok_def)

lemmas set_defs = set_next_def set_acquired_def set_ctx_def set_fun_def

lemma outside_facts:
  assumes "lock_inv s q" "acquiring (pcs s w)"
  shows "w \<notin> set q" "handing (pcs s w) = None" "\<not> acquired (mem s) w" "wctx (mem s) w \<noteq> None"
    "slow_side (pcs s w) \<Longrightarrow> wfun (mem s) w" "nxt (mem s) w = None \<or> pcs s w = SlowCas"
    "head (mem s) = None \<longleftrightarrow> q = []"
proof -
  show w: "w \<notin> set q"
    using not_in_list [OF assms(1), of w] assms(2) by (cases "pcs s w") auto
  show "handing (pcs s w) = None"
    using assms(2) by (cases "pcs s w") auto
  show "\<not> acquired (mem s) w"
    using own_inv(7) [OF assms(1), of w] assms(2) w last_in_set [of q] by auto
  show "wctx (mem s) w \<noteq> None" "slow_side (pcs s w) \<Longrightarrow> wfun (mem s) w" "nxt (mem s) w = None \<or> pcs s w = SlowCas"
    using own_inv(5,6,8) [OF assms(1), of w] assms(2) w by auto
  show "head (mem s) = None \<longleftrightarrow> q = []"
    using lpath_head [OF lock_invD(1) [OF assms(1)]] by (cases q) auto
qed

lemma acquiring_not:
  assumes "acquiring p"
  shows "\<not> holding p" "p \<noteq> Blocked" "handing p = None" "p \<noteq> RelClear x"
  using assms by (cases p; simp)+

text \<open>A step of an acquiring process that does not enter the list.\<close>

lemma acquire_moves:
  assumes inv: "lock_inv s q" and a: "acquiring (pcs s w)"
    and m: "m = set_next w n (mem s) \<or> m = set_fun w True (set_next w n (mem s))"
    and p: "acquiring p" "p = SlowCas \<longleftrightarrow> n \<noteq> None" "slow_side p \<Longrightarrow> wfun m w"
  shows "lock_inv (goto w s (m, p)) q"
proof (rule process_step [OF inv])
  note F = outside_facts [OF inv a]
  show "w \<notin> set q" "handing (pcs s w) = None" "head m = head (mem s)"
    using F m by (auto simp: set_defs)
  show "nxt m v = nxt (mem s) v \<and> acquired m v = acquired (mem s) v \<and> wctx m v = wctx (mem s) v \<and>
      wfun m v = wfun (mem s) v" if "v \<noteq> w" for v
    using m that by (auto simp: set_defs)
  have own: "nxt m w = n" "acquired m w = acquired (mem s) w" "wctx m w = wctx (mem s) w"
    using m by (auto simp: set_defs)
  show "local_inv m q w p"
    by (rule local_inv_outside) (simp_all only: own F(1,3,4) p acquiring_not [OF p(1)] not_False_eq_True simp_thms)
  show "handing p = None"
    by (rule acquiring_not(3) [OF p(1)])
qed

lemma fast_return_moves:
  assumes "lock_inv s q" "acquiring (pcs s w)" "slow \<Longrightarrow> wfun (mem s) w"
  shows "lock_inv (goto w s (fast_return slow w (set_next w n (mem s)))) q"
  using acquire_moves [OF assms(1,2), of "set_next w None (mem s)" None SlowLoad]
    acquire_moves [OF assms(1,2), of "set_fun w True (set_next w None (mem s))" None SlowEnter] assms(3)
  by (auto simp: fast_return_def set_defs Let_def)

lemma step_fast_load:
  assumes inv: "lock_inv s q" and w: "pcs s w = FastLoad slow"
  shows "step_ok b w s q"
proof -
  note F = outside_facts [OF inv, of w]
  have "lock_inv (goto w s (set_next w None (mem s), FastCas slow)) q"
    by (rule acquire_moves [OF inv, where n = None]) (use w F in \<open>auto simp: set_defs\<close>)
  moreover have "lock_inv (goto w s (fast_return slow w (set_next w (head (mem s)) (mem s)))) q"
    by (rule fast_return_moves [OF inv]) (use w F in auto)
  ultimately have "\<exists>s'. lock_step b w s = Inr s' \<and> lock_inv s' q"
    using w F by (auto simp: lock_step_def fast_load_def enter_check_def set_next_def Let_def)
  then show ?thesis
    by (auto intro: step_okI simp: list_step_def)
qed

lemma step_fast_cas:
  assumes inv: "lock_inv s q" and w: "pcs s w = FastCas slow"
  shows "step_ok b w s q"
proof (cases "head (mem s) = nxt (mem s) w \<and> \<not> b")
  case True
  note F = outside_facts [OF inv, of w]
  have "q = []" "nxt (mem s) w = head (mem s)"
    using F w True by auto
  then have "lock_inv (goto w s ((mem s)\<lparr>head := Some w\<rparr>, FastOwner slow)) (w # q)"
    by (intro push_step [OF inv]) (use F w in auto)
  then show ?thesis
    using True w by (auto intro!: step_okI simp: lock_step_def fast_cas_def list_step_def)
next
  case False
  note F = outside_facts [OF inv, of w]
  have "lock_inv (goto w s (set_next w None (mem s), FastCas slow)) q"
    by (rule acquire_moves [OF inv, where n = None]) (use w F in \<open>auto simp: set_defs\<close>)
  moreover have "lock_inv (goto w s (fast_return slow w (set_next w (head (mem s)) (mem s)))) q"
    by (rule fast_return_moves [OF inv]) (use w F in auto)
  moreover have "lock_step b w s = Inr (goto w s (if head (mem s) = None then (set_next w None (mem s), FastCas slow)
      else fast_return slow w (set_next w (head (mem s)) (mem s))))"
    using False w by (auto simp: lock_step_def fast_cas_def set_next_def Let_def)
  ultimately show ?thesis
    by (cases "head (mem s)") (auto intro!: step_okI [where q' = q] simp: list_step_def)
qed

lemma slow_moves:
  assumes inv: "lock_inv s q" and w: "pcs s w = SlowLoad \<or> pcs s w = SlowCas"
  shows "lock_inv (goto w s (set_next w (head (mem s)) (mem s), if head (mem s) = None then FastLoad True else SlowCas)) q"
  by (rule acquire_moves [OF inv, where n = "head (mem s)"])
    (use w outside_facts [OF inv, of w] in \<open>auto simp: set_defs\<close>)

lemma step_slow:
  assumes inv: "lock_inv s q" and w: "pcs s w = SlowEnter \<or> pcs s w = SlowLoad \<or> pcs s w = SlowCas"
  shows "step_ok b w s q"
proof -
  note F = outside_facts [OF inv, of w]
  consider "pcs s w = SlowEnter" | "pcs s w = SlowLoad" | "pcs s w = SlowCas"
    using w by blast
  then show ?thesis
  proof cases
    case 1
    have "set_next w None (mem s) = mem s"
      using F 1 by (simp add: set_next_def fun_upd_idem)
    moreover have "lock_inv (goto w s (set_next w None (mem s), SlowLoad)) q"
      by (rule acquire_moves [OF inv, where n = None]) (use 1 F in \<open>auto simp: set_defs\<close>)
    ultimately show ?thesis
      using 1 F by (intro step_okI [where q' = q]) (auto simp: lock_step_def enter_check_def list_step_def)
  next
    case 2
    then show ?thesis
      using slow_moves [OF inv] by (intro step_okI [where q' = q]) (auto simp: lock_step_def slow_load_def list_step_def set_next_def Let_def)
  next
    case 3
    show ?thesis
    proof (cases "head (mem s) = nxt (mem s) w \<and> \<not> b")
      case True
      then have "lock_inv (goto w s ((mem s)\<lparr>head := Some w\<rparr>, Blocked)) (w # q)"
        using own_inv(9) [OF inv 3] F 3 by (intro push_step [OF inv]) auto
      then show ?thesis
        using True 3 by (auto intro!: step_okI simp: lock_step_def slow_cas_def list_step_def)
    next
      case False
      then show ?thesis
        using 3 slow_moves [OF inv, of w]
        by (intro step_okI [where q' = q]) (auto simp: lock_step_def slow_cas_def list_step_def set_next_def Let_def)
    qed
  qed
qed


text \<open>Steps of the holder.\<close>

lemma holder_okI:
  assumes inv: "lock_inv s q" and w: "holding (pcs s w)"
    and step: "lock_step b w s = Inr (goto w s (m, p))"
    and m: "head m = head (mem s)" "nxt m = nxt (mem s)" "\<And>v. v \<noteq> w \<Longrightarrow> acquired m v = acquired (mem s) v \<and>
      wctx m v = wctx (mem s) v \<and> wfun m v = wfun (mem s) v"
    and p: "holding p" "\<And>b. p = FastOwner b \<Longrightarrow> wctx m w \<noteq> None"
    "\<And>x. p = RelOwner0 x \<or> p = RelCas x \<Longrightarrow> x = w"
    "\<And>x. p = RelWalk x \<Longrightarrow> x \<in> set q \<and> x \<noteq> last q"
    "\<And>x. p = RelUnacquire x \<or> p = RelUnlink x \<Longrightarrow> last_two q x w"
    "\<And>x. p = RelUnlink x \<Longrightarrow> \<not> acquired m w"
  shows "step_ok b w s q"
proof (rule step_okI [OF step])
  have "local_inv m q w p"
    using own_inv(1) [OF inv w] p by (intro local_inv_holder) blast+
  then show "lock_inv (goto w s (m, p)) q"
    using m(3) by (intro holder_step [OF inv w p(1) m(1,2)]) blast+
qed (simp add: list_step_def)

lemma step_fast_done:
  assumes inv: "lock_inv s q" and w: "pcs s w = FastOwner slow \<or> pcs s w = FastAcquired slow \<or> pcs s w = Critical"
  shows "step_ok b w s q"
proof -
  have h: "holding (pcs s w)"
    using w by auto
  consider "pcs s w = FastOwner slow" | "pcs s w = FastAcquired slow" | "pcs s w = Critical"
    using w by blast
  then show ?thesis
  proof cases
    case 1
    then obtain c where "wctx (mem s) w = Some c"
      using own_inv(6) [OF inv, of w] by auto
    then show ?thesis
      using 1 by (intro holder_okI [OF inv h, where m = "(mem s)\<lparr>owner := Some c\<rparr>" and p = "FastAcquired slow"])
        (simp_all add: lock_step_def fast_owner_def)
  next
    case 2
    then show ?thesis
      by (intro holder_okI [OF inv h, where m = "fst (fast_acquired w (mem s))" and p = Critical])
        (simp_all add: lock_step_def fast_acquired_def set_defs Let_def)
  next
    case 3
    then show ?thesis
      by (intro holder_okI [OF inv h, where m = "mem s" and p = RelLoad]) (simp_all add: lock_step_def)
  qed
qed

lemma step_release_load:
  assumes inv: "lock_inv s q" and w: "pcs s w = RelLoad"
  shows "step_ok b w s q"
proof -
  note D = lock_invD [OF inv]
  have h: "holding (pcs s w)"
    using w by simp
  then obtain x q' where q: "q = x # q'" "last q = w"
    using own_inv(1) [OF inv h] by (cases q) auto
  then have head: "head (mem s) = Some x" and last: "nxt (mem s) x = None \<longleftrightarrow> x = w"
    using lpath_head [OF D(1)] lpath_next [OF D(1,2), of x] by auto
  let ?p = "if nxt (mem s) x = None then RelOwner0 x else RelWalk x"
  show ?thesis
    by (rule holder_okI [OF inv h, where m = "mem s" and p = ?p])
      (use w head last q in \<open>simp_all add: lock_step_def release_load_def split: if_splits\<close>)
qed

lemma step_release_owner0:
  assumes inv: "lock_inv s q" and w: "pcs s w = RelOwner0 x"
  shows "step_ok b w s q"
proof -
  have "x = w" and h: "holding (pcs s w)"
    using own_inv(10) [OF inv, of w x] w by auto
  then show ?thesis
    using w by (intro holder_okI [OF inv h, where m = "(mem s)\<lparr>owner := None\<rparr>" and p = "RelCas x"])
      (simp_all add: lock_step_def)
qed

lemma step_release_cas:
  assumes inv: "lock_inv s q" and w: "pcs s w = RelCas x"
  shows "step_ok b w s q"
proof -
  have x: "x = w" and h: "holding (pcs s w)"
    using own_inv(10) [OF inv, of w x] w by auto
  show ?thesis
  proof (cases "head (mem s) = Some w \<and> \<not> b")
    case True
    then have q: "q = [w]"
      using lpath_single [of _ w q] lock_invD(1,2) [OF inv] own_inv(1) [OF inv h] by metis
    have "lock_inv (goto w s ((mem s)\<lparr>head := None\<rparr>, RelClear w)) []"
      using pop_last inv w x unfolding q by blast
    then show ?thesis
      using True w x q by (intro step_okI [where q' = "[]"]) (simp_all add: lock_step_def release_cas_def list_step_def)
  next
    case False
    then show ?thesis
      using w x by (intro holder_okI [OF inv h, where m = "mem s" and p = RelLoad]) (auto simp: lock_step_def release_cas_def)
  qed
qed

lemma step_release_walk:
  assumes inv: "lock_inv s q" and w: "pcs s w = RelWalk x"
  shows "step_ok b w s q"
proof -
  note D = lock_invD [OF inv]
  have h: "holding (pcs s w)" and x: "x \<in> set q" "x \<noteq> last q"
    using w own_inv(11) [OF inv w] by auto
  then obtain y where y: "nxt (mem s) x = Some y"
    using lpath_next [OF D(1,2) x(1)] by auto
  obtain ys zs where q: "q = ys @ x # y # zs"
    using lpath_succ [OF D(1) x(1) y] .
  have yl: "nxt (mem s) y = None \<longleftrightarrow> y = last q"
    using lpath_next [OF D(1,2), of y] q by simp
  have wl: "last q = w"
    using own_inv(1) [OF inv h] by blast
  have two: "last_two q x w" if "y = last q"
  proof -
    have "zs = []"
      using that D(2) unfolding q by (cases zs rule: rev_cases) auto
    then show ?thesis
      using that wl q unfolding last_two_def by blast
  qed
  show ?thesis
  proof (cases "nxt (mem s) y")
    case None
    then have "last_two q x w"
      using yl two by blast
    then show ?thesis
      by (intro holder_okI [OF inv h, where m = "mem s" and p = "RelUnacquire x"])
        (simp_all add: lock_step_def release_walk_def w y None)
  next
    case (Some z)
    then have "y \<noteq> last q" "y \<in> set q"
      using yl by (simp_all add: q)
    then show ?thesis
      by (intro holder_okI [OF inv h, where m = "mem s" and p = "RelWalk y"])
        (simp_all add: lock_step_def release_walk_def w y Some)
  qed
qed


lemma last_two_next:
  assumes "lock_inv s q" "last_two q x w"
  shows "nxt (mem s) x = Some w"
proof -
  obtain ys where q: "q = ys @ [x, w]"
    using assms(2) by (auto simp: last_two_def)
  have "lpath (nxt (mem s)) p (ys @ [x, w]) \<Longrightarrow> nxt (mem s) x = Some w" for p
    by (induction ys arbitrary: p) auto
  then show ?thesis
    using lock_invD(1) [OF assms(1)] unfolding q by blast
qed

lemma step_release_unacquire:
  assumes inv: "lock_inv s q" and w: "pcs s w = RelUnacquire x"
  shows "step_ok b w s q"
proof -
  have h: "holding (pcs s w)" and two: "last_two q x w"
    using w own_inv(12) [OF inv, of w x] by auto
  have "nxt (mem s) x = Some w"
    by (rule last_two_next [OF inv two])
  then show ?thesis
    using two by (intro holder_okI [OF inv h, where m = "set_acquired w False (mem s)" and p = "RelUnlink x"])
      (simp_all add: lock_step_def release_unacquire_def w set_acquired_def Let_def)
qed

lemma step_release_unlink:
  assumes inv: "lock_inv s q" and w: "pcs s w = RelUnlink x"
  shows "step_ok b w s q"
proof -
  obtain ys where q: "q = ys @ [x, w]"
    using w own_inv(12) [OF inv, of w x] by (auto simp: last_two_def)
  have "\<not> acquired (mem s) w"
    using own_inv(14) [OF inv w] .
  then have "lock_inv (goto w s (set_next x None (mem s), RelOwner1 x)) (ys @ [x])"
    using pop_handing inv w unfolding q by blast
  then show ?thesis
    using w q by (intro step_okI [where q' = "ys @ [x]"]) (simp_all add: lock_step_def list_step_def)
qed

lemma step_release_handing:
  assumes inv: "lock_inv s q" and w: "handing (pcs s w) = Some x"
  shows "step_ok b w s q"
proof (cases "pcs s w")
  case (RelOwner1 y)
  then have y: "y = x" "pcs s x = Blocked"
    using w inv_handing [OF inv w] by auto
  then obtain c where "wctx (mem s) x = Some c"
    using own_inv(6) [OF inv, of x] by auto
  then show ?thesis
    using RelOwner1 y handing_step [OF inv w, of "RelAcquire x" "(mem s)\<lparr>owner := Some c\<rparr>"]
    by (intro step_okI [where q' = q]) (simp_all add: lock_step_def release_owner_def list_step_def)
next
  case (RelAcquire y)
  then show ?thesis
    using w handing_step [OF inv w, of "RelCall x" "set_acquired x True (mem s)"]
    by (intro step_okI [where q' = q]) (simp_all add: lock_step_def list_step_def set_acquired_def Let_def)
next
  case (RelCall y)
  then show ?thesis
    using w call_step [OF inv, of w x] by (auto intro!: step_okI simp: lock_step_def list_step_def)
qed (use w in simp_all)

lemma step_idle:
  assumes inv: "lock_inv s q" and w: "pcs s w = Idle"
  shows "step_ok b w s q"
proof -
  let ?m = "set_ctx w (Some w) (mem s)"
  have w': "w \<notin> set q"
    using not_in_list [OF inv, of w] w by simp
  then have "nxt (mem s) w = None" "\<not> acquired (mem s) w"
    using own_inv(7,8) [OF inv, of w] w last_in_set [of q] by auto
  then have "local_inv ?m q w (FastLoad False)"
    using w' by (intro local_inv_outside) (simp_all add: set_ctx_def)
  then have "lock_inv (goto w s (?m, FastLoad False)) q"
    using w w' by (intro process_step [OF inv w']) (simp_all add: set_ctx_def)
  then show ?thesis
    using w by (intro step_okI [where q' = q]) (simp_all add: lock_step_def list_step_def)
qed

lemma step_release_clear:
  assumes inv: "lock_inv s q" and w: "pcs s w = RelClear x"
  shows "step_ok b w s q"
proof -
  have x: "x = w"
    using own_inv(10) [OF inv, of w x] w by simp
  have w': "w \<notin> set q"
    using not_in_list [OF inv, of w] w by simp
  then have "nxt (mem s) w = None"
    using own_inv(8) [OF inv, of w] w by simp
  then have "local_inv (set_acquired w False (mem s)) q w Idle"
    using w' by (intro local_inv_outside) (simp_all add: set_acquired_def)
  then have "lock_inv (goto w s (set_acquired w False (mem s), Idle)) q"
    using w w' by (intro process_step [OF inv w']) (simp_all add: set_acquired_def)
  then show ?thesis
    using w x by (intro step_okI [where q' = q]) (simp_all add: lock_step_def list_step_def)
qed

lemma step_blocked: "lock_inv s q \<Longrightarrow> pcs s w = Blocked \<Longrightarrow> step_ok b w s q"
  by (intro step_okI [where s' = s and q' = q]) (simp_all add: lock_step_def list_step_def)

lemmas step_lemmas = step_fast_load step_fast_cas step_slow step_fast_done step_release_load step_release_owner0
  step_release_cas step_release_walk step_release_unacquire step_release_unlink step_release_handing step_idle
  step_release_clear step_blocked

lemma every_step_ok: "lock_inv s q \<Longrightarrow> step_ok b w s q"
  by (cases "pcs s w") (simp_all add: step_lemmas)

lemma reach_inv: "lock_reach s \<Longrightarrow> \<exists>q. lock_inv s q"
proof (induction rule: lock_reach.induct)
  case reach_init
  then show ?case
    using inv_init by blast
next
  case (reach_step s b w s')
  then show ?case
    using every_step_ok unfolding step_ok_def by (metis sum.inject(2))
qed

lemma reach_step_inv:
  assumes "lock_reach s"
  obtains q s' q' where "lock_inv s q" "lock_step b w s = Inr s'" "lock_inv s' q'" "list_step w q q'"
  using reach_inv [OF assms] every_step_ok unfolding step_ok_def by blast

end
