(* ===== verification/Lock_Theorems.thy ===== *)
theory Lock_Theorems
  imports Lock_Invariant
begin

text \<open>
  The properties of \<^verbatim>\<open>Lock\<close>, for any number of processes and every interleaving of their atomic
  actions, spurious failures of \<^verbatim>\<open>compare_exchange_weak\<close> included.
\<close>

section \<open>Safety\<close>

text \<open>
  C2. Mutual exclusion: in every reachable state at most one process is between the return of its acquire and
  its release.
\<close>

theorem lock_mutual_exclusion:
  assumes "lock_reach s" and "pcs s w = Critical" and "pcs s w' = Critical"
  shows "w = w'"
proof -
  obtain q where "lock_inv s q"
    using reach_inv [OF assms(1)] by blast
  then show ?thesis
    using own_inv(1) [of s q w] own_inv(1) [of s q w'] assms(2,3) by auto
qed

lemma run_reaches: "lock_reach s \<Longrightarrow> lock_run sched s = Inr s' \<Longrightarrow> lock_reach s'"
proof (induction sched arbitrary: s)
  case (Cons a sched)
  then show ?case
    by (cases a) (auto intro: reach_step)
qed simp

lemma run_append: "lock_run (xs @ ys) s = rbind (lock_run xs s) (lock_run ys)"
proof (induction xs arbitrary: s)
  case (Cons a xs)
  then show ?case
    by (cases a; cases "lock_step (fst a) (snd a) s") auto
qed simp

definition fast_schedule :: "wid \<Rightarrow> (bool \<times> wid) list" where
  "fast_schedule w = replicate 5 (False, w)"

lemma fast_schedule_runs:
  "\<exists>s'. lock_run (fast_schedule 0) lock_init = Inr s' \<and> pcs s' 0 = Critical"
  by (simp add: fast_schedule_def numeral_eq_Suc lock_step_def lock_init_def fast_load_def enter_check_def set_defs
      goto_def fast_cas_def fast_owner_def fast_acquired_def Let_def)

theorem lock_mutual_exclusion_witness:
  "\<exists>s. lock_reach s \<and> pcs s 0 = Critical \<and> pcs s 1 \<noteq> Critical"
proof -
  obtain s where s: "lock_run (fast_schedule 0) lock_init = Inr s" "pcs s 0 = Critical"
    using fast_schedule_runs by blast
  have "lock_reach s"
    using run_reaches [OF reach_init s(1)] .
  then show ?thesis
    using s(2) lock_mutual_exclusion [of s 0 1] by auto
qed



section \<open>First in, first out\<close>

text \<open>
  C3. The list behind \<^verbatim>\<open>head_\<close> is a FIFO queue: it never has a cycle, and a step of process \<^verbatim>\<open>w\<close> either leaves
  it, or puts \<^verbatim>\<open>w\<close> in front of it, or takes \<^verbatim>\<open>w\<close> from its end, where the processes that came before it were.
  So waiters get the lock in the order in which their compare-and-swap succeeded.
\<close>

theorem lock_is_fifo:
  assumes "lock_reach s" and "lock_step b w s = Inr s'"
  shows "\<exists>q q'. lpath (nxt (mem s)) (head (mem s)) q \<and> lpath (nxt (mem s')) (head (mem s')) q' \<and>
    distinct q \<and> distinct q' \<and> (q' = q \<or> q' = w # q \<or> q = q' @ [w])"
proof -
  obtain q s'' q' where "lock_inv s q" "lock_step b w s = Inr s''" "lock_inv s'' q'" "list_step w q q'"
    using reach_step_inv [OF assms(1)] .
  then show ?thesis
    using assms(2) lock_invD(1,2) [of s q] lock_invD(1,2) [of s' q'] unfolding list_step_def by auto
qed

theorem lock_is_fifo_witness:
  "\<exists>s s' q q'. lock_reach s \<and> lock_step False 0 s = Inr s' \<and> lpath (nxt (mem s)) (head (mem s)) q \<and>
    lpath (nxt (mem s')) (head (mem s')) q' \<and> (q' = q \<or> q' = 0 # q \<or> q = q' @ [0])"
proof -
  obtain s' where "lock_step False 0 lock_init = Inr s'"
    using reach_step_inv [OF reach_init] by metis
  with lock_is_fifo [OF reach_init this] show ?thesis
    using reach_init by blast
qed

section \<open>Progress\<close>

text \<open>
  The lock is not leaked: while a process is blocked, some process holds the lock or is just handing it over, and
  a blocked process has its callback set, so the hand-over can resume it.
\<close>

theorem lock_blocked_has_holder:
  assumes "lock_reach s" and "pcs s w = Blocked"
  shows "wfun (mem s) w \<and> (\<exists>v. v \<noteq> w \<and> (holding (pcs s v) \<or> handing (pcs s v) \<noteq> None))"
proof -
  obtain q where inv: "lock_inv s q"
    using reach_inv [OF assms(1)] by blast
  have "w \<in> set q" "wfun (mem s) w"
    using own_inv(2,5) [OF inv, of w] assms(2) by auto
  then have "q \<noteq> []"
    by auto
  then consider "holding (pcs s (last q))" | v where "handing (pcs s v) = Some (last q)"
    using lock_invD(6) [OF inv] by blast
  then have "\<exists>v. v \<noteq> w \<and> (holding (pcs s v) \<or> handing (pcs s v) \<noteq> None)"
    using assms(2) by cases (metis holding_not(2), metis handing.simps(12) option.distinct(1) assms(2))
  then show ?thesis
    using \<open>wfun (mem s) w\<close> by blast
qed

lemma goto_simps [simp]:
  "mem (goto w s r) = fst r" "pcs (goto w s r) w = snd r" "goto w (goto w s r) r' = goto w s r'"
  by (simp_all add: goto_def)

lemma walk_run:
  assumes "lpath (nxt (mem s)) p (as @ z # bs @ [w])" "distinct (as @ z # bs @ [w])" "pcs s w = RelWalk z"
  shows "\<exists>k. lock_run (replicate k (False, w)) s = Inr (goto w s (mem s, RelUnacquire (last (z # bs))))"
  using assms
proof (induction bs arbitrary: s as z)
  case Nil
  have "nxt (mem s) z = Some w" "nxt (mem s) w = None"
    using Nil lpath_next [OF Nil(1,2), of w] lpath_tail [OF Nil(1) [simplified]] by auto
  then have "lock_run (replicate 1 (False, w)) s = Inr (goto w s (mem s, RelUnacquire (last [z])))"
    using Nil(3) by (simp add: lock_step_def release_walk_def)
  then show ?case
    by blast
next
  case (Cons y bs)
  let ?s = "goto w s (mem s, RelWalk y)"
  have "nxt (mem s) z = Some y" "nxt (mem s) y \<noteq> None"
    using Cons.prems lpath_next [OF Cons.prems(1,2), of y] lpath_tail [OF Cons.prems(1) [simplified]] by auto
  then have "lock_step False w s = Inr ?s"
    using Cons.prems(3) by (simp add: lock_step_def release_walk_def)
  moreover have "\<exists>k. lock_run (replicate k (False, w)) ?s = Inr (goto w s (mem s, RelUnacquire (last (y # bs))))"
    using Cons.IH [of ?s "as @ [z]" y] Cons.prems by (simp del: last.simps)
  then obtain k where "lock_run (replicate k (False, w)) ?s = Inr (goto w s (mem s, RelUnacquire (last (y # bs))))"
    by blast
  ultimately have "lock_run (replicate (Suc k) (False, w)) s = Inr (goto w s (mem s, RelUnacquire (last (z # y # bs))))"
    by simp
  then show ?case
    by blast
qed

lemma hand_over_run:
  assumes "pcs s w = RelUnacquire x" "nxt (mem s) x = Some w" "wctx (mem s) x = Some c" "wfun (mem s) x" "x \<noteq> w"
  shows "\<exists>s'. lock_run (replicate 5 (False, w)) s = Inr s' \<and> pcs s' x = Critical \<and> pcs s' w = Idle \<and> owner (mem s') = Some c"
  using assms
  by (simp add: numeral_eq_Suc lock_step_def release_unacquire_def release_owner_def release_call_def goto_def set_defs Let_def)

text \<open>
  Hand-over: when the holder releases while others wait, its \<^verbatim>\<open>Release()\<close> terminates after a walk through the
  list and has then resumed exactly the process that has waited longest, which is the new owner.
\<close>

theorem lock_release_resumes_oldest:
  assumes "lock_reach s" and "pcs s w = RelLoad" and "lpath (nxt (mem s)) (head (mem s)) (ys @ [x, w])"
  shows "\<exists>k s'. lock_run (replicate k (False, w)) s = Inr s' \<and> pcs s' x = Critical \<and> pcs s' w = Idle \<and>
    owner (mem s') = wctx (mem s) x"
proof -
  obtain q where inv: "lock_inv s q"
    using reach_inv [OF assms(1)] by blast
  have q: "q = ys @ [x, w]"
    using lpath_unique [OF lock_invD(1) [OF inv] assms(3)] .
  obtain z bs where zs: "ys @ [x] = z # bs"
    by (cases "ys @ [x]") auto
  have path: "lpath (nxt (mem s)) (head (mem s)) ([] @ z # bs @ [w])" "distinct ([] @ z # bs @ [w])" "last (z # bs) = x"
  proof -
    have e: "ys @ [x, w] = [] @ z # bs @ [w]"
      using zs by (metis append.assoc append_Cons append_Nil)
    show "lpath (nxt (mem s)) (head (mem s)) ([] @ z # bs @ [w])"
      using assms(3) unfolding e .
    show "distinct ([] @ z # bs @ [w])"
      using lock_invD(2) [OF inv] unfolding q e .
    show "last (z # bs) = x"
      using zs by (metis last_snoc)
  qed
  have x: "pcs s x = Blocked" "x \<noteq> w"
    using own_inv(3) [OF inv, of x] lock_invD(2) [OF inv] q by auto
  then obtain c where c: "wctx (mem s) x = Some c" "wfun (mem s) x"
    using own_inv(5,6) [OF inv, of x] by auto
  have "nxt (mem s) z \<noteq> None" "head (mem s) = Some z"
    using lpath_next [OF path(1,2), of z] path(1,2) by auto
  then obtain y where "nxt (mem s) z = Some y" "head (mem s) = Some z"
    by blast
  then have "lock_step False w s = Inr (goto w s (mem s, RelWalk z))"
    using assms(2) by (simp add: lock_step_def release_load_def)
  moreover have "\<exists>k. lock_run (replicate k (False, w)) (goto w s (mem s, RelWalk z)) =
      Inr (goto w s (mem s, RelUnacquire x))"
    using walk_run [of "goto w s (mem s, RelWalk z)" "head (mem s)" "[]" z bs w] path by (simp del: last.simps)
  then obtain k where "lock_run (replicate k (False, w)) (goto w s (mem s, RelWalk z)) =
      Inr (goto w s (mem s, RelUnacquire x))"
    by blast
  moreover obtain s' where "lock_run (replicate 5 (False, w)) (goto w s (mem s, RelUnacquire x)) = Inr s'"
      "pcs s' x = Critical" "pcs s' w = Idle" "owner (mem s') = Some c"
    using hand_over_run [of "goto w s (mem s, RelUnacquire x)" w x c] c x(2) last_two_next [OF inv, of x w] q
    by (auto simp: last_two_def goto_def)
  ultimately have "lock_run (replicate (Suc k + 5) (False, w)) s = Inr s' \<and> pcs s' x = Critical \<and> pcs s' w = Idle \<and>
      owner (mem s') = wctx (mem s) x"
    using c unfolding replicate_add run_append by simp
  then show ?thesis
    by blast
qed

text \<open>Two processes: 0 acquires, 1 blocks, 0 starts its release.\<close>

definition contended_schedule :: "(bool \<times> wid) list" where
  "contended_schedule = fast_schedule 0 @ replicate 5 (False, 1) @ [(False, 0)]"

lemma contended_runs:
  "\<exists>s. lock_run contended_schedule lock_init = Inr s \<and> pcs s 0 = RelLoad \<and> pcs s 1 = Blocked \<and>
     lpath (nxt (mem s)) (head (mem s)) ([] @ [1, 0])"
  by (simp add: contended_schedule_def fast_schedule_def numeral_eq_Suc lock_step_def lock_init_def fast_load_def
      enter_check_def set_defs goto_def fast_cas_def fast_owner_def fast_acquired_def fast_return_def slow_load_def
      slow_cas_def Let_def)

theorem lock_release_resumes_oldest_witness:
  "\<exists>s k s'. lock_reach s \<and> pcs s 1 = Blocked \<and> lock_run (replicate k (False, 0)) s = Inr s' \<and> pcs s' 1 = Critical \<and> pcs s' 0 = Idle"
proof -
  obtain s where s: "lock_run contended_schedule lock_init = Inr s" "pcs s 0 = RelLoad" "pcs s 1 = Blocked"
    "lpath (nxt (mem s)) (head (mem s)) ([] @ [1, 0])"
    using contended_runs by blast
  have r: "lock_reach s"
    using run_reaches [OF reach_init s(1)] .
  show ?thesis
    using r s(3) lock_release_resumes_oldest [OF r s(2,4)] by blast
qed

theorem lock_blocked_has_holder_witness:
  "\<exists>s. lock_reach s \<and> pcs s 1 = Blocked \<and> wfun (mem s) 1 \<and> (\<exists>v. v \<noteq> 1 \<and> (holding (pcs s v) \<or> handing (pcs s v) \<noteq> None))"
proof -
  obtain s where s: "lock_run contended_schedule lock_init = Inr s" "pcs s 1 = Blocked"
    using contended_runs by blast
  have "lock_reach s"
    using run_reaches [OF reach_init s(1)] .
  then show ?thesis
    using s(2) lock_blocked_has_holder [of s 1] by blast
qed

text \<open>
  Process 1 gets the lock from process 0 and releases it up to the write of its \<^verbatim>\<open>acquired\<close> flag; then process 2 acquires the
  free lock.
\<close>

definition renotified_schedule :: "(bool \<times> wid) list" where
  "renotified_schedule = contended_schedule @ replicate 7 (False, 0) @ replicate 4 (False, 1) @ replicate 5 (False, 2)"

lemma renotified_runs:
  "\<exists>s. lock_run renotified_schedule lock_init = Inr s \<and> pcs s 1 = RelClear 1 \<and> pcs s 2 = Critical \<and> acquired (mem s) 1 \<and>
     head (mem s) = Some 2"
  by (simp add: renotified_schedule_def contended_schedule_def fast_schedule_def numeral_eq_Suc lock_step_def lock_init_def
      fast_load_def enter_check_def set_defs goto_def fast_cas_def fast_owner_def fast_acquired_def fast_return_def slow_load_def
      slow_cas_def release_load_def release_walk_def release_unacquire_def release_owner_def release_call_def release_cas_def Let_def)

text \<open>
  A waiter cannot be enqueued again before its \<^verbatim>\<open>Release()\<close> has finished: there is an execution in which process 1 has given up the lock by
  its compare-and-swap, process 2 holds it, and an \<^verbatim>\<open>AcquireSlow\<close> of the waiter of process 1 (which is what a notification by process 2 does for a
  \<^verbatim>\<open>Wait\<close> that waits for the second time) fails its CHECK for recursive acquires, because \<^verbatim>\<open>Release()\<close> clears \<^verbatim>\<open>acquired\<close> only after
  the compare-and-swap.
\<close>

theorem notify_during_release_aborts:
  "\<exists>s. lock_reach s \<and> pcs s 1 = RelClear 1 \<and> head (mem s) = Some 2 \<and> pcs s 2 = Critical \<and>
     enter_check 1 (mem s) (Inr ()) = Inl (CheckFailed ''recursive lock acquire detected'')"
proof -
  obtain s where s: "lock_run renotified_schedule lock_init = Inr s" "pcs s 1 = RelClear 1" "pcs s 2 = Critical" "acquired (mem s) 1"
    "head (mem s) = Some 2"
    using renotified_runs by blast
  then show ?thesis
    using run_reaches [OF reach_init s(1)] by (auto simp: enter_check_def)
qed

end
