(* ===== verification/Monitor.thy ===== *)
theory Monitor
  imports Lock_Theorems
begin

text \<open>
  The continuations over a lock (\<^verbatim>\<open>lock.h\<close>): \<^verbatim>\<open>Acquire\<close>, \<^verbatim>\<open>Release\<close>, \<^verbatim>\<open>Wait\<close>, \<^verbatim>\<open>Synchronized\<close> and
  \<^verbatim>\<open>ConditionVariable\<close>, as a machine of tasks.

  A task is a pipeline \<^verbatim>\<open>Synchronized(Wait >> Then)\<close>, that is \<^verbatim>\<open>Acquire >> Wait >> Then >> Release\<close>, with the \<^verbatim>\<open>Wait\<close>
  optional, and either a stage of its own or returned by the function of a \<^verbatim>\<open>Then\<close> or \<^verbatim>\<open>Map\<close>. Its \<open>pos\<close> is the continuation that is called next and with which \<open>call\<close>; \<open>Off\<close> when nothing of
  it runs because a callback of it is stored in a waiter. The members of the continuations are the records
  \<open>acquire_k\<close> and \<open>wait_k\<close>; a callback stored in \<^verbatim>\<open>waiter_.f\<close> is the call it will make.
  Each task has its own scheduler context, named like the task; \<^verbatim>\<open>Context::Unblock\<close> hands the
  callback to the scheduler, which runs it in a later step of that task.

  The lock is used here through its abstract queue (oldest first, the holder at its head), whose correctness is the FIFO
  theorem of \<open>Lock_Theorems\<close>; \<^verbatim>\<open>AcquireFast\<close> and \<^verbatim>\<open>AcquireSlow\<close> are separate steps,
  so another task may take or give up the lock in between. What \<^verbatim>\<open>Then\<close> does under the lock, its notifications included, is one step.
\<close>

section \<open>State\<close>

type_synonym tid = nat
type_synonym cv = nat

datatype wkind = AcquireW | WaitW

record alock =
  aq :: "(tid \<times> wkind) list"
  aowner :: "ctx option"

record acquire_k =
  a_arg :: "val option"
  a_stream :: "sptr option"
  a_f :: "call option"
  a_ctx :: "ctx option"

record wait_k =
  w_made :: "bool option"
  w_arg :: "val option"
  w_f :: "call option"
  w_ctx :: "ctx option"
  notifiable :: bool
  waiting :: bool
  notified :: bool

datatype pos =
    AtAcquire call
  | AtAcquireSlow
  | Off
  | RunAcquired call
  | AtFirst call
  | AtWait call
  | RunNotified call
  | AtThen call
  | AtRelease call
  | AtDone call

record 's proc =
  p_wait :: "(cv \<times> (bool \<Rightarrow> 's \<Rightarrow> bool)) option"
  p_inner :: bool
  p_first :: "('s \<Rightarrow> val \<Rightarrow> ('s \<times> (cv \<times> bool) list) res) option"
  p_body :: "'s \<Rightarrow> val \<Rightarrow> ('s \<times> (cv \<times> bool) list \<times> val) res"

record 's mon =
  mlock :: alock
  ak :: "tid \<Rightarrow> acquire_k"
  wk :: "tid \<Rightarrow> wait_k"
  at :: "tid \<Rightarrow> pos"
  cvs :: "cv \<Rightarrow> tid list"
  shared :: 's

definition acquire_k_init :: acquire_k where
  "acquire_k_init = \<lparr>a_arg = None, a_stream = None, a_f = None, a_ctx = None\<rparr>"

definition wait_k_init :: wait_k where
  "wait_k_init = \<lparr>w_made = None, w_arg = None, w_f = None, w_ctx = None, notifiable = False, waiting = False, notified = False\<rparr>"

definition set_at :: "tid \<Rightarrow> pos \<Rightarrow> 's mon \<Rightarrow> 's mon" where
  "set_at t p s = s\<lparr>at := (at s)(t := p)\<rparr>"

definition upd_ak :: "tid \<Rightarrow> (acquire_k \<Rightarrow> acquire_k) \<Rightarrow> 's mon \<Rightarrow> 's mon" where
  "upd_ak t f s = s\<lparr>ak := (ak s)(t := f (ak s t))\<rparr>"

definition upd_wk :: "tid \<Rightarrow> (wait_k \<Rightarrow> wait_k) \<Rightarrow> 's mon \<Rightarrow> 's mon" where
  "upd_wk t f s = s\<lparr>wk := (wk s)(t := f (wk s t))\<rparr>"

section \<open>The lock seen from its clients\<close>

definition lock_available :: "'s mon \<Rightarrow> bool" where
  "lock_available s = (aq (mlock s) = [])"

definition owned_by :: "ctx \<Rightarrow> 's mon \<Rightarrow> bool" where
  "owned_by c s = (aowner (mlock s) = Some c)"

definition acquire_fast :: "tid \<times> wkind \<Rightarrow> ctx \<Rightarrow> 's mon \<Rightarrow> bool \<times> 's mon" where
  "acquire_fast w c s =
     (if aq (mlock s) = [] then (True, s\<lparr>mlock := \<lparr>aq = [w], aowner = Some c\<rparr>\<rparr>) else (False, s))"

definition acquire_slow :: "tid \<times> wkind \<Rightarrow> ctx \<Rightarrow> 's mon \<Rightarrow> bool \<times> 's mon" where
  "acquire_slow w c s =
     (if aq (mlock s) = [] then (True, s\<lparr>mlock := \<lparr>aq = [w], aowner = Some c\<rparr>\<rparr>)
      else (False, s\<lparr>mlock := (mlock s)\<lparr>aq := aq (mlock s) @ [w]\<rparr>\<rparr>))"

text \<open>The callbacks that \<^verbatim>\<open>Release\<close> takes from the waiter it hands the lock to.\<close>

definition acquire_f :: "tid \<Rightarrow> 's mon \<Rightarrow> 's mon res" where
  "acquire_f t s =
     (case a_f (ak s t) of
        None \<Rightarrow> Inl (CheckFailed ''callback'')
      | Some c \<Rightarrow> Inr (set_at t (RunAcquired c) (upd_ak t (\<lambda>k. k\<lparr>a_f := None\<rparr>) s)))"

definition wait_f :: "tid \<Rightarrow> 's mon \<Rightarrow> 's mon res" where
  "wait_f t s =
     (case w_f (wk s t) of
        None \<Rightarrow> Inl (CheckFailed ''callback'')
      | Some c \<Rightarrow> Inr (set_at t (RunNotified c) (upd_wk t (\<lambda>k. k\<lparr>w_f := None, waiting := False\<rparr>) s)))"

definition lock_release :: "'s mon \<Rightarrow> 's mon res" where
  "lock_release s =
     (case aq (mlock s) of
        [] \<Rightarrow> Inl (CheckFailed ''waiter'')
      | [_] \<Rightarrow> Inr (s\<lparr>mlock := \<lparr>aq = [], aowner = None\<rparr>\<rparr>)
      | _ # w # ws \<Rightarrow>
          let s1 = s\<lparr>mlock := \<lparr>aq = w # ws, aowner = Some (fst w)\<rparr>\<rparr>
          in case snd w of
               AcquireW \<Rightarrow> acquire_f (fst w) s1
             | WaitW \<Rightarrow> wait_f (fst w) s1)"

section \<open>Acquire\<close>

fun call_arg :: "call \<Rightarrow> val option" where
  "call_arg (Start v) = Some v"
| "call_arg (Body v) = Some v"
| "call_arg _ = None"

definition after_first :: "'s proc \<Rightarrow> call \<Rightarrow> pos" where
  "after_first p c = (case p_wait p of None \<Rightarrow> AtThen c | Some _ \<Rightarrow> AtWait c)"

definition after_acquire :: "'s proc \<Rightarrow> call \<Rightarrow> pos" where
  "after_acquire p c = (case p_first p of None \<Rightarrow> after_first p c | Some _ \<Rightarrow> AtFirst c)"

text \<open>
  With \<open>p_inner\<close> the \<^verbatim>\<open>Wait\<close> is returned by the function of a \<^verbatim>\<open>Then\<close> or \<^verbatim>\<open>Map\<close>, which makes a new one and starts
  it with \<^verbatim>\<open>Start\<close> for each value; \<open>p_first\<close> is what that function does to the shared state before it returns the \<^verbatim>\<open>Wait\<close>.
\<close>

definition enter_section :: "'s proc \<Rightarrow> tid \<Rightarrow> call \<Rightarrow> 's mon \<Rightarrow> 's mon" where
  "enter_section p t c s =
     set_at t (after_acquire p c) (if p_inner p then upd_wk t (\<lambda>_. wait_k_init\<lparr>w_made := Some False\<rparr>) s else s)"

definition acquire_value_call :: "'s proc \<Rightarrow> tid \<Rightarrow> call \<Rightarrow> 's mon \<Rightarrow> 's mon" where
  "acquire_value_call p t c s =
     (let s1 = upd_ak t (\<lambda>k. k\<lparr>a_ctx := Some t\<rparr>) s;
          (acquired, s2) = acquire_fast (t, AcquireW) t s1
      in if acquired then enter_section p t c (upd_ak t (\<lambda>k. k\<lparr>a_ctx := None\<rparr>) s2)
         else set_at t AtAcquireSlow
           (upd_ak t (\<lambda>k. k\<lparr>a_arg := (if call_arg c = None then a_arg k else call_arg c), a_f := Some c\<rparr>) s2))"

definition acquire_stream_call :: "'s proc \<Rightarrow> tid \<Rightarrow> call \<Rightarrow> 's mon \<Rightarrow> 's mon res" where
  "acquire_stream_call p t c s =
     (case c of
        Begin stream \<Rightarrow>
          check (a_stream (ak s t) = None) ''stream_ == nullptr''
            (Inr (acquire_value_call p t c (upd_ak t (\<lambda>k. k\<lparr>a_stream := Some stream\<rparr>) s)))
      | Body v \<Rightarrow> Inr (acquire_value_call p t c s)
      | Ended \<Rightarrow> Inr (acquire_value_call p t c s)
      | _ \<Rightarrow> Inl NoSuchMethod)"

definition acquire_call :: "'s proc \<Rightarrow> tid \<Rightarrow> call \<Rightarrow> 's mon \<Rightarrow> 's mon res" where
  "acquire_call p t c s =
     (case c of
        Start v \<Rightarrow> Inr (acquire_value_call p t c s)
      | Fail e \<Rightarrow> Inr (acquire_value_call p t c s)
      | Stop \<Rightarrow> Inr (acquire_value_call p t c s)
      | _ \<Rightarrow> acquire_stream_call p t c s)"

definition acquire_slow_call :: "tid \<Rightarrow> 's mon \<Rightarrow> 's mon res" where
  "acquire_slow_call t s =
     (let (acquired, s1) = acquire_slow (t, AcquireW) t s
      in if acquired then acquire_f t s1 else Inr (set_at t Off s1))"

definition acquire_unblocked :: "'s proc \<Rightarrow> tid \<Rightarrow> call \<Rightarrow> 's mon \<Rightarrow> 's mon" where
  "acquire_unblocked p t c s =
     enter_section p t c (upd_ak t (\<lambda>k. k\<lparr>a_ctx := None\<rparr>) s)"

section \<open>Condition variables\<close>

text \<open>
  The notify callbacks that \<^verbatim>\<open>Wait::Start\<close> and \<^verbatim>\<open>Wait::Body\<close> give to the condition, called by the task that
  holds the lock. \<open>w_made\<close> records which of the two made the condition (\<open>Some True\<close> for \<^verbatim>\<open>Body\<close>).
\<close>

definition wait_notify_acquire :: "tid \<Rightarrow> ctx \<Rightarrow> 's mon \<Rightarrow> 's mon res" where
  "wait_notify_acquire t c s =
     (let (acquired, s1) = acquire_slow (t, WaitW) c s
      in check (\<not> acquired) ''lock should be held when notifying'' (Inr s1))"

definition wait_notify_value :: "ctx \<Rightarrow> tid \<Rightarrow> 's mon \<Rightarrow> 's mon res" where
  "wait_notify_value current t s =
     (if notifiable (wk s t) then
        check (owned_by current s) ''lock_->OwnedByCurrentSchedulerContext()''
          (case w_ctx (wk s t) of
             None \<Rightarrow> Inl (CheckFailed ''waiter_.context'')
           | Some c \<Rightarrow> wait_notify_acquire t c (upd_wk t (\<lambda>k. k\<lparr>notifiable := False, waiting := True\<rparr>) s))
      else Inr s)"

definition wait_notify_stream :: "tid \<Rightarrow> 's mon \<Rightarrow> 's mon res" where
  "wait_notify_stream t s =
     (if notifiable (wk s t) then
        check (\<not> lock_available s) ''!lock_->Available()''
          (case w_ctx (wk s t) of
             None \<Rightarrow> Inl (CheckFailed ''waiter_.context'')
           | Some c \<Rightarrow> wait_notify_acquire t c (upd_wk t (\<lambda>k. k\<lparr>notifiable := False\<rparr>) s))
      else Inr s)"

definition wait_notify :: "ctx \<Rightarrow> tid \<Rightarrow> 's mon \<Rightarrow> 's mon res" where
  "wait_notify current t s =
     (if w_made (wk s t) = Some True then wait_notify_stream t s else wait_notify_value current t s)"

definition cv_notify :: "ctx \<Rightarrow> cv \<Rightarrow> 's mon \<Rightarrow> 's mon res" where
  "cv_notify current v s =
     check (owned_by current s) ''lock_->OwnedByCurrentSchedulerContext()''
       (case cvs s v of
          [] \<Rightarrow> Inr s
        | t # ts \<Rightarrow>
            let s1 = upd_wk t (\<lambda>k. k\<lparr>notified := True\<rparr>) (s\<lparr>cvs := (cvs s)(v := ts)\<rparr>)
            in wait_notify current t s1)"

fun notify_loop :: "nat \<Rightarrow> ctx \<Rightarrow> cv \<Rightarrow> 's mon \<Rightarrow> 's mon res" where
  "notify_loop 0 current v s = Inr s"
| "notify_loop (Suc n) current v s =
     (if cvs s v = [] then Inr s else rbind (cv_notify current v s) (notify_loop n current v))"

definition cv_notify_all :: "ctx \<Rightarrow> cv \<Rightarrow> 's mon \<Rightarrow> 's mon res" where
  "cv_notify_all current v s =
     check (owned_by current s) ''lock_->OwnedByCurrentSchedulerContext()'' (notify_loop (length (cvs s v)) current v s)"

fun do_notifies :: "ctx \<Rightarrow> (cv \<times> bool) list \<Rightarrow> 's mon \<Rightarrow> 's mon res" where
  "do_notifies current [] s = Inr s"
| "do_notifies current ((v, everyone) # ns) s =
     rbind (if everyone then cv_notify_all current v s else cv_notify current v s) (do_notifies current ns)"

definition cv_condition :: "cv \<Rightarrow> (bool \<Rightarrow> 's \<Rightarrow> bool) \<Rightarrow> tid \<Rightarrow> 's mon \<Rightarrow> (bool \<times> 's mon) res" where
  "cv_condition v f t s =
     check (owned_by t s) ''lock_->OwnedByCurrentSchedulerContext()''
       (let wait = f (notified (wk s t)) (shared s)
        in Inr (wait, if wait then s\<lparr>cvs := (cvs s)(v := cvs s v @ [t])\<rparr> else s))"

section \<open>Wait\<close>

fun stream_call :: "call \<Rightarrow> bool" where
  "stream_call (Body _) = True"
| "stream_call _ = False"

definition wait_enter :: "cv \<Rightarrow> (bool \<Rightarrow> 's \<Rightarrow> bool) \<Rightarrow> tid \<Rightarrow> call \<Rightarrow> 's mon \<Rightarrow> 's mon res" where
  "wait_enter v f t c s =
     check (\<not> lock_available s) ''expecting lock to be acquired''
       (let s1 = upd_wk t (\<lambda>k. k\<lparr>notifiable := False, w_made := (if w_made k = None then Some (stream_call c) else w_made k)\<rparr>) s
        in rbind (cv_condition v f t s1) (\<lambda>(wait, s2).
             if wait then
               check (\<not> notifiable (wk s2 t)) ''recursive wait detected (without notify)''
                 (let s3 = upd_wk t (\<lambda>k. k\<lparr>notifiable := True, w_arg := call_arg c, w_ctx := Some t, w_f := Some c\<rparr>) s2
                  in lock_release (set_at t Off s3))
             else Inr (set_at t (AtThen c) s2)))"

definition wait_Ended :: "tid \<Rightarrow> 's mon \<Rightarrow> 's mon res" where
  "wait_Ended t s =
     check (\<not> lock_available s) ''expecting lock to be acquired''
       (check (\<not> waiting (wk s t)) ''continuation still waiting for lock''
         (check (w_f (wk s t) = None) ''continuation still notifiable'' (Inr (set_at t (AtThen Ended) s))))"

definition wait_call :: "'s proc \<Rightarrow> tid \<Rightarrow> call \<Rightarrow> 's mon \<Rightarrow> 's mon res" where
  "wait_call p t c s =
     (case p_wait p of
        None \<Rightarrow> Inl NoSuchMethod
      | Some (v, f) \<Rightarrow>
          (case c of
             Start x \<Rightarrow> wait_enter v f t c s
           | Body x \<Rightarrow> wait_enter v f t c s
           | Ended \<Rightarrow> if p_inner p then Inr (set_at t (AtThen c) s) else wait_Ended t s
           | _ \<Rightarrow> Inr (set_at t (AtThen c) s)))"

definition wait_unblocked :: "tid \<Rightarrow> call \<Rightarrow> 's mon \<Rightarrow> 's mon" where
  "wait_unblocked t c s = set_at t (AtWait c) (upd_wk t (\<lambda>k. k\<lparr>w_ctx := None\<rparr>) s)"

section \<open>The function under the lock and Release\<close>

definition then_call :: "'s proc \<Rightarrow> tid \<Rightarrow> call \<Rightarrow> 's mon \<Rightarrow> 's mon res" where
  "then_call p t c s =
     (case call_arg c of
        None \<Rightarrow> Inr (set_at t (AtRelease c) s)
      | Some x \<Rightarrow>
          rbind (p_body p (shared s) x) (\<lambda>(sh, ns, r).
            rbind (do_notifies t ns (s\<lparr>shared := sh\<rparr>)) (\<lambda>s1.
              Inr (set_at t (AtRelease (case c of Start _ \<Rightarrow> Start r | _ \<Rightarrow> Body r)) s1))))"

definition first_call :: "'s proc \<Rightarrow> tid \<Rightarrow> call \<Rightarrow> 's mon \<Rightarrow> 's mon res" where
  "first_call p t c s =
     (case (call_arg c, p_first p) of
        (Some x, Some f) \<Rightarrow>
          rbind (f (shared s) x) (\<lambda>(sh, ns).
            rbind (do_notifies t ns (s\<lparr>shared := sh\<rparr>)) (\<lambda>s1. Inr (set_at t (after_first p c) s1)))
      | _ \<Rightarrow> Inr (set_at t (after_first p c) s))"

definition release_k_call :: "tid \<Rightarrow> call \<Rightarrow> 's mon \<Rightarrow> 's mon res" where
  "release_k_call t c s =
     check (\<not> lock_available s) ''!lock_->Available()'' (lock_release (set_at t (AtDone c) s))"

section \<open>Steps\<close>

definition mon_step :: "(tid \<Rightarrow> 's proc) \<Rightarrow> tid \<Rightarrow> 's mon \<Rightarrow> 's mon res" where
  "mon_step P t s =
     (case at s t of
        AtAcquire c \<Rightarrow> acquire_call (P t) t c s
      | AtAcquireSlow \<Rightarrow> acquire_slow_call t s
      | Off \<Rightarrow> Inr s
      | RunAcquired c \<Rightarrow> Inr (acquire_unblocked (P t) t c s)
      | AtFirst c \<Rightarrow> first_call (P t) t c s
      | AtWait c \<Rightarrow> wait_call (P t) t c s
      | RunNotified c \<Rightarrow> Inr (wait_unblocked t c s)
      | AtThen c \<Rightarrow> then_call (P t) t c s
      | AtRelease c \<Rightarrow> release_k_call t c s
      | AtDone c \<Rightarrow> Inr s)"

definition mon_init :: "(tid \<Rightarrow> call) \<Rightarrow> 's \<Rightarrow> 's mon" where
  "mon_init first sh =
     \<lparr>mlock = \<lparr>aq = [], aowner = None\<rparr>, ak = (\<lambda>_. acquire_k_init), wk = (\<lambda>_. wait_k_init), at = (\<lambda>t. AtAcquire (first t)),
      cvs = (\<lambda>_. []), shared = sh\<rparr>"

text \<open>
  The machine: any task moves, or a stream hands the next call to a task that has passed on the previous one.
\<close>

fun next_call :: "call \<Rightarrow> bool" where
  "next_call (Body _) = True"
| "next_call Ended = True"
| "next_call Stop = True"
| "next_call (Fail _) = True"
| "next_call _ = False"

inductive mon_reach :: "(tid \<Rightarrow> 's proc) \<Rightarrow> (tid \<Rightarrow> call) \<Rightarrow> 's \<Rightarrow> 's mon \<Rightarrow> bool" for P first sh where
  mon_start: "mon_reach P first sh (mon_init first sh)"
| mon_move: "mon_reach P first sh s \<Longrightarrow> mon_step P t s = Inr s' \<Longrightarrow> mon_reach P first sh s'"
| mon_next: "mon_reach P first sh s \<Longrightarrow> at s t = AtDone c \<Longrightarrow> next_call c' \<Longrightarrow> mon_reach P first sh (set_at t (AtAcquire c') s)"

fun mon_run :: "(tid \<Rightarrow> 's proc) \<Rightarrow> tid list \<Rightarrow> 's mon \<Rightarrow> 's mon res" where
  "mon_run P [] s = Inr s"
| "mon_run P (t # ts) s = rbind (mon_step P t s) (mon_run P ts)"

end
