(* ===== verification/Monitor_Invariant.thy ===== *)
theory Monitor_Invariant
  imports Monitor
begin

text \<open>
  The invariant of the monitor machine, relative to the task \<open>h\<close> that holds the lock. During a \<^verbatim>\<open>Release\<close>
  the list still has the releasing task at its head but no task holds the lock (\<open>h = None\<close>).
\<close>

section \<open>The invariant\<close>

fun hold_pos :: "pos \<Rightarrow> bool" where
  "hold_pos (RunAcquired _) = True"
| "hold_pos (AtFirst _) = True"
| "hold_pos (AtWait _) = True"
| "hold_pos (RunNotified _) = True"
| "hold_pos (AtThen _) = True"
| "hold_pos (AtRelease _) = True"
| "hold_pos _ = False"

fun needs_wait :: "pos \<Rightarrow> bool" where
  "needs_wait (AtWait _) = True"
| "needs_wait (RunNotified _) = True"
| "needs_wait _ = False"

definition queued :: "'s mon \<Rightarrow> tid set" where
  "queued s = fst ` set (tl (aq (mlock s)))"

definition on_cv :: "'s mon \<Rightarrow> tid \<Rightarrow> bool" where
  "on_cv s t \<longleftrightarrow> (\<exists>v. t \<in> set (cvs s v))"

definition task_inv :: "'s proc \<Rightarrow> 's mon \<Rightarrow> tid option \<Rightarrow> tid \<Rightarrow> bool" where
  "task_inv p s h t \<longleftrightarrow>
     (hold_pos (at s t) \<longleftrightarrow> h = Some t) \<and>
     (at s t = Off \<longleftrightarrow> t \<in> queued s \<or> on_cv s t) \<and>
     \<not> (t \<in> queued s \<and> on_cv s t) \<and>
     ((t, AcquireW) \<in> set (tl (aq (mlock s))) \<longrightarrow> a_f (ak s t) \<noteq> None) \<and>
     ((t, WaitW) \<in> set (tl (aq (mlock s))) \<or> on_cv s t \<longrightarrow> w_f (wk s t) \<noteq> None \<and> p_wait p \<noteq> None) \<and>
     (on_cv s t \<longrightarrow> notifiable (wk s t) \<and> w_ctx (wk s t) \<noteq> None) \<and>
     (needs_wait (at s t) \<longrightarrow> p_wait p \<noteq> None) \<and>
     (at s t = AtAcquireSlow \<longrightarrow> a_f (ak s t) \<noteq> None) \<and>
     (\<forall>x. at s t = AtAcquire (Begin x) \<longrightarrow> a_stream (ak s t) = None) \<and>
     (w_f (wk s t) \<noteq> None \<or> waiting (wk s t) \<longrightarrow> (t, WaitW) \<in> set (tl (aq (mlock s))) \<or> on_cv s t)"

definition minv :: "(tid \<Rightarrow> 's proc) \<Rightarrow> tid option \<Rightarrow> 's mon \<Rightarrow> bool" where
  "minv P h s \<longleftrightarrow>
     distinct (map fst (aq (mlock s))) \<and>
     (\<forall>v. distinct (cvs s v)) \<and>
     (\<forall>v v' t. t \<in> set (cvs s v) \<longrightarrow> t \<in> set (cvs s v') \<longrightarrow> v = v') \<and>
     (\<forall>t. h = Some t \<longrightarrow> aq (mlock s) \<noteq> [] \<and> fst (hd (aq (mlock s))) = t) \<and>
     (aq (mlock s) \<noteq> [] \<longrightarrow> aowner (mlock s) = Some (fst (hd (aq (mlock s))))) \<and>
     (\<forall>t. task_inv (P t) s h t)"

definition holder :: "'s mon \<Rightarrow> tid option" where
  "holder s = (case aq (mlock s) of [] \<Rightarrow> None | w # _ \<Rightarrow> Some (fst w))"

lemma minvI:
  assumes "distinct (map fst (aq (mlock s)))" "\<And>v. distinct (cvs s v)"
    and "\<And>v v' t. t \<in> set (cvs s v) \<Longrightarrow> t \<in> set (cvs s v') \<Longrightarrow> v = v'"
    and "\<And>t. h = Some t \<Longrightarrow> aq (mlock s) \<noteq> [] \<and> fst (hd (aq (mlock s))) = t"
    and "aq (mlock s) \<noteq> [] \<Longrightarrow> aowner (mlock s) = Some (fst (hd (aq (mlock s))))"
    and "\<And>t. task_inv (P t) s h t"
  shows "minv P h s"
  using assms unfolding minv_def by blast

lemma minvD:
  assumes "minv P h s"
  shows "distinct (map fst (aq (mlock s)))" "distinct (cvs s v)"
    "t \<in> set (cvs s v) \<Longrightarrow> t \<in> set (cvs s v') \<Longrightarrow> v = v'"
    "h = Some t \<Longrightarrow> aq (mlock s) \<noteq> [] \<and> fst (hd (aq (mlock s))) = t"
    "aq (mlock s) \<noteq> [] \<Longrightarrow> aowner (mlock s) = Some (fst (hd (aq (mlock s))))"
    "task_inv (P t) s h t"
  using assms unfolding minv_def by blast+

lemma task_invD:
  assumes "task_inv p s h t"
  shows "hold_pos (at s t) \<longleftrightarrow> h = Some t" "at s t = Off \<longleftrightarrow> t \<in> queued s \<or> on_cv s t"
    "t \<in> queued s \<Longrightarrow> \<not> on_cv s t"
    "(t, AcquireW) \<in> set (tl (aq (mlock s))) \<Longrightarrow> a_f (ak s t) \<noteq> None"
    "(t, WaitW) \<in> set (tl (aq (mlock s))) \<or> on_cv s t \<Longrightarrow> w_f (wk s t) \<noteq> None \<and> p_wait p \<noteq> None"
    "on_cv s t \<Longrightarrow> notifiable (wk s t) \<and> w_ctx (wk s t) \<noteq> None"
    "needs_wait (at s t) \<Longrightarrow> p_wait p \<noteq> None"
    "at s t = AtAcquireSlow \<Longrightarrow> a_f (ak s t) \<noteq> None"
    "at s t = AtAcquire (Begin x) \<Longrightarrow> a_stream (ak s t) = None"
    "w_f (wk s t) \<noteq> None \<or> waiting (wk s t) \<Longrightarrow> (t, WaitW) \<in> set (tl (aq (mlock s))) \<or> on_cv s t"
  using assms unfolding task_inv_def by blast+

lemmas own_task = task_invD [OF minvD(6)]

lemma minv_init: "minv P (holder (mon_init first sh)) (mon_init first sh)"
  by (intro minvI)
    (auto simp: mon_init_def task_inv_def queued_def on_cv_def holder_def acquire_k_init_def wait_k_init_def)

text \<open>A task that is not \<open>Off\<close> is neither queued behind the holder nor on a condition variable.\<close>

lemma not_off: "minv P h s \<Longrightarrow> at s t \<noteq> Off \<Longrightarrow> t \<notin> queued s \<and> \<not> on_cv s t"
  using own_task(2) [of P h s t] by blast

lemma hold_not_off: "minv P h s \<Longrightarrow> hold_pos (at s t) \<Longrightarrow> t \<notin> queued s \<and> \<not> on_cv s t"
  using not_off [of P h s t] by (metis hold_pos.simps(9))

lemma idle_wait: "minv P h s \<Longrightarrow> at s t \<noteq> Off \<Longrightarrow> w_f (wk s t) = None \<and> \<not> waiting (wk s t) \<and> (t, k) \<notin> set (tl (aq (mlock s)))"
  using own_task(10) [of P h s t] not_off [of P h s t] by (force simp: queued_def)

lemma holder_not_queued:
  assumes "minv P h s" "aq (mlock s) = w # ws"
  shows "fst w \<notin> queued s"
  using minvD(1) [OF assms(1)] assms(2) by (auto simp: queued_def)

section \<open>Release\<close>

text \<open>A task's invariant depends only on its own part of the state and on the lists.\<close>

lemma task_inv_frame:
  assumes "at s' t = at s t" "ak s' t = ak s t" "wk s' t = wk s t"
    and "\<And>k. (t, k) \<in> set (tl (aq (mlock s'))) \<longleftrightarrow> (t, k) \<in> set (tl (aq (mlock s)))"
    and "on_cv s' t \<longleftrightarrow> on_cv s t" "h' = Some t \<longleftrightarrow> h = Some t"
  shows "task_inv p s' h' t = task_inv p s h t"
proof -
  have "t \<in> queued s' \<longleftrightarrow> t \<in> queued s"
    using assms(4) by (force simp: queued_def)
  then show ?thesis
    unfolding task_inv_def assms by (simp only:)
qed

lemma resumed_inv:
  assumes inv: "minv P None s" and aq: "aq (mlock s) = w # (u, k) # ws"
    and s': "mlock s' = \<lparr>aq = (u, k) # ws, aowner = Some u\<rparr>" "cvs s' = cvs s" "hold_pos (at s' u)"
    "\<And>t. t \<noteq> u \<Longrightarrow> at s' t = at s t \<and> ak s' t = ak s t \<and> wk s' t = wk s t"
    and wf: "w_f (wk s' u) = None" "\<not> waiting (wk s' u)" "needs_wait (at s' u) \<Longrightarrow> p_wait (P u) \<noteq> None"
  shows "minv P (Some u) s'"
proof (rule minvI)
  have d: "distinct (map fst (w # (u, k) # ws))"
    using minvD(1) [OF inv] unfolding aq .
  have cv: "on_cv s' t \<longleftrightarrow> on_cv s t" for t
    using s'(2) by (simp add: on_cv_def)
  have "u \<in> queued s"
    using aq by (simp add: queued_def)
  then have u: "\<not> on_cv s u"
    using own_task(3) [OF inv] by blast
  have uq: "u \<notin> queued s'"
    using d s'(1) by (auto simp: queued_def)
  show "task_inv (P t) s' (Some u) t" for t
  proof (cases "t = u")
    case True
    have nu: "(u, k') \<notin> set (tl (aq (mlock s')))" for k'
      using uq by (force simp: queued_def)
    have "at s' u \<noteq> Off" "at s' u \<noteq> AtAcquireSlow" "at s' u \<noteq> AtAcquire x" for x
      using s'(3) by auto
    then show ?thesis
      using True nu uq u cv wf s'(3) unfolding task_inv_def by auto
  next
    case False
    then have "task_inv (P t) s' (Some u) t = task_inv (P t) s None t"
      using s' aq cv by (intro task_inv_frame) auto
    then show ?thesis
      using minvD(6) [OF inv] by blast
  qed
qed (use minvD(1-3) [OF inv] s' aq in auto)

lemma release_inv:
  assumes inv: "minv P None s" and ne: "aq (mlock s) \<noteq> []"
  shows "\<exists>s'. lock_release s = Inr s' \<and> minv P (holder s') s' \<and> shared s' = shared s \<and> cvs s' = cvs s \<and>
    (\<forall>t. at s t \<noteq> Off \<longrightarrow> at s' t = at s t) \<and> aq (mlock s') = tl (aq (mlock s))"
proof (cases "tl (aq (mlock s))")
  case Nil
  then obtain w where w: "aq (mlock s) = [w]"
    using ne by (cases "aq (mlock s)") auto
  let ?s = "s\<lparr>mlock := \<lparr>aq = [], aowner = None\<rparr>\<rparr>"
  have "task_inv (P t) ?s None t" for t
    using minvD(6) [OF inv, of t] task_inv_frame [of ?s t s None None "P t"] w by (simp add: on_cv_def)
  then have "minv P None ?s"
    using minvD(2,3) [OF inv] by (intro minvI) auto
  then show ?thesis
    using w by (simp add: lock_release_def holder_def)
next
  case (Cons x ws)
  then obtain w u k where aq: "aq (mlock s) = w # (u, k) # ws"
    using ne by (cases "aq (mlock s)"; cases x) auto
  have off: "at s u = Off"
    using own_task(2) [OF inv, of u] aq by (simp add: queued_def)
  show ?thesis
  proof (cases k)
    case AcquireW
    then obtain c where c: "a_f (ak s u) = Some c"
      using own_task(4) [OF inv, of u] aq by auto
    let ?s = "set_at u (RunAcquired c) (upd_ak u (\<lambda>k. k\<lparr>a_f := None\<rparr>) (s\<lparr>mlock := \<lparr>aq = (u, k) # ws, aowner = Some u\<rparr>\<rparr>))"
    have "lock_release s = Inr ?s"
      using aq AcquireW c by (simp add: lock_release_def acquire_f_def)
    moreover have "w_f (wk s u) = None" "\<not> waiting (wk s u)"
      using own_task(10) [OF inv, of u] own_task(3) [OF inv, of u] minvD(1) [OF inv] aq AcquireW
      by (force simp: queued_def)+
    moreover have "minv P (Some u) ?s"
      by (rule resumed_inv [OF inv aq]) (use calculation in \<open>auto simp: set_at_def upd_ak_def\<close>)
    ultimately show ?thesis
      using off aq by (auto simp: holder_def set_at_def upd_ak_def)
  next
    case WaitW
    then obtain c where c: "w_f (wk s u) = Some c" and p: "p_wait (P u) \<noteq> None"
      using own_task(5) [OF inv, of u] aq by auto
    let ?s = "set_at u (RunNotified c) (upd_wk u (\<lambda>k. k\<lparr>w_f := None, waiting := False\<rparr>) (s\<lparr>mlock := \<lparr>aq = (u, k) # ws, aowner = Some u\<rparr>\<rparr>))"
    have "lock_release s = Inr ?s"
      using aq WaitW c by (simp add: lock_release_def wait_f_def)
    moreover have "minv P (Some u) ?s"
      by (rule resumed_inv [OF inv aq]) (use p in \<open>auto simp: set_at_def upd_wk_def\<close>)
    ultimately show ?thesis
      using off aq by (auto simp: holder_def set_at_def upd_wk_def)
  qed
qed


section \<open>Moves of one task\<close>

text \<open>A task changes only its own part, and possibly gives up holding (\<open>h' = None\<close>).\<close>

lemma own_move:
  assumes inv: "minv P h s" and s': "mlock s' = mlock s" "cvs s' = cvs s"
    "\<And>u. u \<noteq> t \<Longrightarrow> at s' u = at s u \<and> ak s' u = ak s u \<and> wk s' u = wk s u"
    and h: "h' = h \<or> h = Some t \<and> h' = None" and t: "task_inv (P t) s' h' t"
  shows "minv P h' s'"
proof (rule minvI)
  have "task_inv (P u) s' h' u = task_inv (P u) s h u" if "u \<noteq> t" for u
    using s' that h by (intro task_inv_frame) (auto simp: on_cv_def)
  then show "task_inv (P u) s' h' u" for u
    using t minvD(6) [OF inv, of u] by (cases "u = t") auto
qed (use minvD(1-5) [OF inv] s'(1,2) h in auto)

text \<open>A task takes the free lock.\<close>

lemma take_lock:
  assumes inv: "minv P None s" and free: "aq (mlock s) = []" and t: "at s t \<noteq> Off"
    and s': "mlock s' = \<lparr>aq = [(t, AcquireW)], aowner = Some t\<rparr>" "cvs s' = cvs s"
    "\<And>u. u \<noteq> t \<Longrightarrow> at s' u = at s u \<and> ak s' u = ak s u \<and> wk s' u = wk s u" "w_f (wk s' t) = None" "\<not> waiting (wk s' t)"
    and p: "hold_pos (at s' t)" "needs_wait (at s' t) \<Longrightarrow> p_wait (P t) \<noteq> None"
  shows "minv P (Some t) s'"
proof (rule minvI)
  have cv: "on_cv s' u \<longleftrightarrow> on_cv s u" for u
    using s'(2) by (simp add: on_cv_def)
  have q: "queued s' = {}" "queued s = {}"
    using s'(1) free by (simp_all add: queued_def)
  have n: "\<not> on_cv s t" "w_f (wk s t) = None" "\<not> waiting (wk s t)"
    using not_off [OF inv t] idle_wait [OF inv t] by auto
  have "at s' t \<noteq> Off" "at s' t \<noteq> AtAcquireSlow" "at s' t \<noteq> AtAcquire x" for x
    using p(1) by auto
  then have self: "task_inv (P t) s' (Some t) t"
    using cv q n s'(1,4,5) p unfolding task_inv_def by auto
  have "task_inv (P u) s' (Some t) u = task_inv (P u) s None u" if "u \<noteq> t" for u
    using s' that cv free by (intro task_inv_frame) auto
  then show "task_inv (P u) s' (Some t) u" for u
    using self minvD(6) [OF inv, of u] by (cases "u = t") auto
qed (use minvD(2,3) [OF inv] s'(1,2) in auto)

text \<open>A task that is neither queued nor holding enters the queue behind the holder.\<close>

lemma enqueue:
  assumes inv: "minv P h s" and busy: "aq (mlock s) \<noteq> []" and t: "t \<notin> fst ` set (aq (mlock s))" "h \<noteq> Some t"
    and s': "mlock s' = (mlock s)\<lparr>aq := aq (mlock s) @ [(t, k)]\<rparr>" "\<And>u. u \<noteq> t \<Longrightarrow> on_cv s' u \<longleftrightarrow> on_cv s u" "\<not> on_cv s' t"
    "\<And>u. u \<noteq> t \<Longrightarrow> at s' u = at s u \<and> ak s' u = ak s u \<and> wk s' u = wk s u" "at s' t = Off"
    and cv: "\<And>v. distinct (cvs s' v)" "\<And>v v' u. u \<in> set (cvs s' v) \<Longrightarrow> u \<in> set (cvs s' v') \<Longrightarrow> v = v'"
    and f: "k = AcquireW \<Longrightarrow> a_f (ak s' t) \<noteq> None \<and> w_f (wk s' t) = None \<and> \<not> waiting (wk s' t)"
    "k = WaitW \<Longrightarrow> w_f (wk s' t) \<noteq> None \<and> p_wait (P t) \<noteq> None"
  shows "minv P h s'"
proof (rule minvI)
  obtain w ws where aq: "aq (mlock s) = w # ws"
    using busy by (cases "aq (mlock s)") auto
  have tl: "set (tl (aq (mlock s'))) = insert (t, k) (set ws)" "(t, k') \<notin> set ws" for k'
    using s'(1) aq t by force+
  have "task_inv (P t) s' h t"
    unfolding task_inv_def tl queued_def using s'(3,5) t(2) f tl(2) by (cases k) auto
  moreover have "task_inv (P u) s' h u = task_inv (P u) s h u" if "u \<noteq> t" for u
    using s' that aq tl by (intro task_inv_frame) auto
  ultimately show "task_inv (P u) s' h u" for u
    using minvD(6) [OF inv, of u] by (cases "u = t") auto
  show "distinct (map fst (aq (mlock s')))"
    using minvD(1) [OF inv] s'(1) t by auto
  show "aq (mlock s') \<noteq> [] \<and> fst (hd (aq (mlock s'))) = u" if "h = Some u" for u
    using minvD(4) [OF inv that] s'(1) aq by simp
  show "aowner (mlock s') = Some (fst (hd (aq (mlock s'))))"
    using minvD(5) [OF inv busy] s'(1) aq by simp
qed (use cv in auto)

text \<open>The holder puts itself on a condition variable and gives up holding.\<close>

lemma park:
  assumes inv: "minv P (Some t) s" and p: "p_wait (P t) \<noteq> None"
    and s': "mlock s' = mlock s" "cvs s' = (cvs s)(v := cvs s v @ [t])" "at s' t = Off"
    "\<And>u. u \<noteq> t \<Longrightarrow> at s' u = at s u \<and> ak s' u = ak s u \<and> wk s' u = wk s u"
    and w: "notifiable (wk s' t)" "w_ctx (wk s' t) \<noteq> None" "w_f (wk s' t) \<noteq> None"
  shows "minv P None s'"
proof (rule minvI)
  have "hold_pos (at s t)"
    using own_task(1) [OF inv, of t] by simp
  then have t: "t \<notin> queued s" "\<not> on_cv s t"
    using hold_not_off [OF inv, of t] by auto
  have cv: "on_cv s' u \<longleftrightarrow> on_cv s u \<or> u = t" for u
    using s'(2) by (auto simp: on_cv_def)
  have q: "queued s' = queued s"
    using s'(1) by (simp add: queued_def)
  have nt: "(t, k) \<notin> set (tl (aq (mlock s)))" for k
    using t(1) by (force simp: queued_def)
  then have self: "task_inv (P t) s' None t"
    using cv q t s' w p unfolding task_inv_def by auto
  have "task_inv (P u) s' None u = task_inv (P u) s (Some t) u" if "u \<noteq> t" for u
    using s' that cv by (intro task_inv_frame) auto
  then show "task_inv (P u) s' None u" for u
    using self minvD(6) [OF inv, of u] by (cases "u = t") auto
  show "distinct (cvs s' x)" for x
    using minvD(2) [OF inv, of x] s'(2) t(2) by (auto simp: on_cv_def)
  show "x = y" if "u \<in> set (cvs s' x)" "u \<in> set (cvs s' y)" for x y u
    using minvD(3) [OF inv, of u x y] that s'(2) t(2) by (auto simp: on_cv_def split: if_splits)
qed (use minvD(1,5) [OF inv] s'(1) in auto)


section \<open>The steps\<close>

lemmas upd_defs = set_at_def upd_ak_def upd_wk_def

definition mon_ok :: "(tid \<Rightarrow> 's proc) \<Rightarrow> 's mon res \<Rightarrow> bool" where
  "mon_ok P r \<longleftrightarrow> (\<exists>s'. r = Inr s' \<and> minv P (holder s') s')"

lemma mon_okI: "r = Inr s' \<Longrightarrow> minv P (holder s') s' \<Longrightarrow> mon_ok P r"
  by (auto simp: mon_ok_def)

lemma holder_None: "holder s = None \<longleftrightarrow> aq (mlock s) = []"
  by (simp add: holder_def split: list.split)

text \<open>A task that is neither \<open>Off\<close> nor holding moves to another such position.\<close>

lemma task_inv_idle:
  assumes "minv P h s" "at s t \<noteq> Off" "\<not> hold_pos (at s t)"
    and "mlock s' = mlock s" "cvs s' = cvs s" "wk s' t = wk s t"
    and "\<not> hold_pos (at s' t)" "at s' t \<noteq> Off" "at s' t = AtAcquireSlow \<Longrightarrow> a_f (ak s' t) \<noteq> None"
    "\<And>x. at s' t \<noteq> AtAcquire (Begin x)"
  shows "task_inv (P t) s' h t"
proof -
  have "h \<noteq> Some t" "t \<notin> queued s'" "\<not> on_cv s' t" "\<not> needs_wait (at s' t)"
    using own_task(1) [OF assms(1), of t] not_off [OF assms(1,2)] assms(3,4,5,7)
    by (auto simp: queued_def on_cv_def elim: needs_wait.elims)
  then show ?thesis
    using assms(4-) idle_wait [OF assms(1,2)] unfolding task_inv_def by simp
qed

lemma task_inv_holding:
  assumes "minv P (Some t) s" "mlock s' = mlock s" "cvs s' = cvs s" "hold_pos (at s' t)"
    and "w_f (wk s' t) = None" "\<not> waiting (wk s' t)" "needs_wait (at s' t) \<Longrightarrow> p_wait (P t) \<noteq> None"
  shows "task_inv (P t) s' (Some t) t"
proof -
  have h: "hold_pos (at s t)"
    using own_task(1) [OF assms(1), of t] by simp
  have "at s' t \<noteq> Off" "at s' t \<noteq> AtAcquireSlow" "at s' t \<noteq> AtAcquire x" for x
    using assms(4) by auto
  moreover have "t \<notin> queued s'" "\<not> on_cv s' t" "(t, k) \<notin> set (tl (aq (mlock s')))" for k
    using hold_not_off [OF assms(1) h] assms(2,3) by (force simp: queued_def on_cv_def)+
  ultimately show ?thesis
    using assms(4-) unfolding task_inv_def by simp
qed

lemma acquire_value_ok:
  assumes inv: "minv P (holder s) s" and t: "at s t = AtAcquire c"
    and s0: "s0 = s \<or> s0 = upd_ak t (\<lambda>k. k\<lparr>a_stream := x\<rparr>) s"
  shows "mon_ok P (Inr (acquire_value_call (P t) t c s0))"
proof (rule mon_okI [OF refl])
  let ?s = "acquire_value_call (P t) t c s0"
  have other: "u \<noteq> t \<Longrightarrow> at ?s u = at s u \<and> ak ?s u = ak s u \<and> wk ?s u = wk s u" "cvs ?s = cvs s" for u
    using s0 by (auto simp: acquire_value_call_def acquire_fast_def enter_section_def upd_defs Let_def)
  have w: "w_f (wk s t) = None" "\<not> waiting (wk s t)"
    using idle_wait [OF inv, of t] t by auto
  show "minv P (holder ?s) ?s"
  proof (cases "aq (mlock s) = []")
    case True
    then have l: "mlock ?s = \<lparr>aq = [(t, AcquireW)], aowner = Some t\<rparr>" "at ?s t = after_acquire (P t) c"
        "w_f (wk ?s t) = None" "\<not> waiting (wk ?s t)"
      using s0 w by (auto simp: acquire_value_call_def acquire_fast_def enter_section_def wait_k_init_def upd_defs Let_def)
    then have "holder ?s = Some t"
      by (simp add: holder_def)
    moreover have "minv P None s"
      using inv holder_None [of s] True by simp
    then have "minv P (Some t) ?s"
      by (rule take_lock [OF _ True _ l(1)])
        (use t other l in \<open>auto simp: after_acquire_def after_first_def split: option.splits\<close>)
    ultimately show ?thesis
      by simp
  next
    case False
    then have l: "mlock ?s = mlock s" "at ?s t = AtAcquireSlow" "a_f (ak ?s t) \<noteq> None" "wk ?s t = wk s t"
      using s0 by (auto simp: acquire_value_call_def acquire_fast_def upd_defs Let_def)
    have "task_inv (P t) ?s (holder s) t"
      by (rule task_inv_idle [OF inv]) (use t other l in auto)
    then have "minv P (holder s) ?s"
      using other l by (intro own_move [OF inv]) auto
    then show ?thesis
      using l(1) by (simp add: holder_def)
  qed
qed

lemma acquire_ok:
  assumes inv: "minv P (holder s) s" and t: "at s t = AtAcquire c"
  shows "mon_ok P (acquire_call (P t) t c s)"
  using acquire_value_ok [OF inv t, of s] acquire_value_ok [OF inv t, of "upd_ak t (\<lambda>k. k\<lparr>a_stream := x\<rparr>) s" x for x]
    own_task(9) [OF inv, of t] t
  by (cases c) (auto simp: acquire_call_def acquire_stream_call_def)

lemma acquire_slow_ok:
  assumes inv: "minv P (holder s) s" and t: "at s t = AtAcquireSlow"
  shows "mon_ok P (acquire_slow_call t s)"
proof -
  obtain c where c: "a_f (ak s t) = Some c"
    using own_task(8) [OF inv t] by auto
  show ?thesis
  proof (cases "aq (mlock s) = []")
    case True
    let ?s = "set_at t (RunAcquired c) (upd_ak t (\<lambda>k. k\<lparr>a_f := None\<rparr>) (s\<lparr>mlock := \<lparr>aq = [(t, AcquireW)], aowner = Some t\<rparr>\<rparr>))"
    have "minv P None s"
      using inv holder_None [of s] True by simp
    then have "minv P (Some t) ?s"
      by (rule take_lock [OF _ True]) (use t idle_wait [OF inv, of t] in \<open>auto simp: upd_defs\<close>)
    then show ?thesis
      using True c by (intro mon_okI [of _ ?s]) (simp_all add: acquire_slow_call_def acquire_slow_def acquire_f_def holder_def upd_defs)
  next
    case False
    let ?s = "set_at t Off (s\<lparr>mlock := (mlock s)\<lparr>aq := aq (mlock s) @ [(t, AcquireW)]\<rparr>\<rparr>)"
    have h: "holder s \<noteq> Some t" "t \<notin> queued s" "\<not> on_cv s t"
      using own_task(1) [OF inv, of t] not_off [OF inv, of t] t by auto
    then have "t \<notin> fst ` set (aq (mlock s))"
      using False by (cases "aq (mlock s)") (auto simp: holder_def queued_def)
    then have "minv P (holder s) ?s"
      using h t c minvD(2,3) [OF inv] idle_wait [OF inv, of t]
      by (intro enqueue [OF inv False]) (auto simp: upd_defs on_cv_def)
    moreover have "holder ?s = holder s"
      using False by (cases "aq (mlock s)") (auto simp: holder_def set_at_def)
    ultimately show ?thesis
      using False by (intro mon_okI [of _ ?s]) (simp_all add: acquire_slow_call_def acquire_slow_def)
  qed
qed


section \<open>Notifications\<close>

text \<open>What a notification by the holder \<open>h\<close> does: it moves the first task of the list, if any, behind the lock's queue.\<close>

definition notified_from :: "'s mon \<Rightarrow> 's mon \<Rightarrow> cv \<Rightarrow> tid list \<Rightarrow> bool" where
  "notified_from s s' v ts \<longleftrightarrow>
     cvs s v = ts @ cvs s' v \<and> (\<forall>v'. v' \<noteq> v \<longrightarrow> cvs s' v' = cvs s v') \<and>
     aq (mlock s') = aq (mlock s) @ map (\<lambda>t. (t, WaitW)) ts \<and>
     at s' = at s \<and> shared s' = shared s \<and> ak s' = ak s \<and> (\<forall>u. w_f (wk s' u) = w_f (wk s u))"

lemma wait_notify_enqueues:
  assumes inv: "minv P (Some h) s0" and own: "owned_by h s" "aq (mlock s) \<noteq> []"
    and t: "notifiable (wk s t)" "w_ctx (wk s t) = Some c"
  shows "\<exists>s'. wait_notify h t s = Inr s' \<and> mlock s' = (mlock s)\<lparr>aq := aq (mlock s) @ [(t, WaitW)]\<rparr> \<and>
    cvs s' = cvs s \<and> at s' = at s \<and> shared s' = shared s \<and> ak s' = ak s \<and> w_f (wk s' t) = w_f (wk s t) \<and>
    (\<forall>u. u \<noteq> t \<longrightarrow> wk s' u = wk s u)"
  using own t
  by (cases "w_made (wk s t) = Some True")
    (auto simp: wait_notify_def wait_notify_stream_def wait_notify_value_def wait_notify_acquire_def acquire_slow_def
      lock_available_def owned_by_def upd_wk_def Let_def)

lemma holder_owns:
  assumes "minv P (Some h) s"
  shows "owned_by h s" "aq (mlock s) \<noteq> []" "hold_pos (at s h)"
  using minvD(4) [OF assms refl] minvD(5) [OF assms] own_task(1) [OF assms, of h] by (auto simp: owned_by_def)

lemma cv_notify_ok:
  assumes inv: "minv P (Some h) s"
  shows "\<exists>s'. cv_notify h v s = Inr s' \<and> minv P (Some h) s' \<and> notified_from s s' v (take 1 (cvs s v))"
proof (cases "cvs s v")
  case Nil
  then show ?thesis
    using inv holder_owns [OF inv] by (simp add: cv_notify_def notified_from_def)
next
  case (Cons t ts)
  let ?s = "upd_wk t (\<lambda>k. k\<lparr>notified := True\<rparr>) (s\<lparr>cvs := (cvs s)(v := ts)\<rparr>)"
  note own = holder_owns [OF inv]
  have cv: "on_cv s t"
    unfolding on_cv_def by (rule exI [of _ v]) (simp add: Cons)
  then obtain c where f: "at s t = Off" "notifiable (wk s t)" "w_ctx (wk s t) = Some c" "t \<notin> queued s" "w_f (wk s t) \<noteq> None"
      "p_wait (P t) \<noteq> None"
    using own_task(2,3,5,6) [OF inv, of t] by auto
  have th: "t \<noteq> h"
    using f(1) own(3) by auto
  have aqt: "t \<notin> fst ` set (aq (mlock s))"
    using f(4) th minvD(4) [OF inv refl] by (cases "aq (mlock s)") (auto simp: queued_def)
  have "owned_by h ?s" "aq (mlock ?s) \<noteq> []" "notifiable (wk ?s t)" "w_ctx (wk ?s t) = Some c"
    using own f by (simp_all add: owned_by_def upd_wk_def)
  from wait_notify_enqueues [OF inv this] obtain s' where s': "wait_notify h t ?s = Inr s'"
      "mlock s' = (mlock ?s)\<lparr>aq := aq (mlock ?s) @ [(t, WaitW)]\<rparr>" "cvs s' = cvs ?s" "at s' = at ?s" "shared s' = shared ?s"
      "ak s' = ak ?s" "w_f (wk s' t) = w_f (wk ?s t)" "\<forall>u. u \<noteq> t \<longrightarrow> wk s' u = wk ?s u"
    by blast
  have cvs: "cvs s' = (cvs s)(v := ts)" "distinct (t # ts)"
    using s'(3) minvD(2) [OF inv, of v] Cons by (auto simp: upd_wk_def)
  have only: "t \<in> set (cvs s v') \<Longrightarrow> v' = v" for v'
    using minvD(3) [OF inv, of t v' v] Cons by simp
  have mem: "u \<in> set (cvs s' x) \<longleftrightarrow> u \<in> set (cvs s x)" if "u \<noteq> t" for u x
    using that cvs(1) Cons by (cases "x = v") auto
  have "minv P (Some h) s'"
  proof (rule enqueue [OF inv own(2) aqt])
    show "\<not> on_cv s' t"
      using cvs only by (auto simp: on_cv_def split: if_splits)
    show "u \<noteq> t \<Longrightarrow> on_cv s' u \<longleftrightarrow> on_cv s u" for u
      using mem unfolding on_cv_def by simp
    show "distinct (cvs s' v')" for v'
      using cvs minvD(2) [OF inv, of v'] by auto
    show "v1 = v2" if "u \<in> set (cvs s' v1)" "u \<in> set (cvs s' v2)" for v1 v2 u
    proof (cases "u = t")
      case True
      then show ?thesis
        using that cvs only by (metis distinct.simps(2) fun_upd_apply)
    next
      case False
      then show ?thesis
        using minvD(3) [OF inv, of u v1 v2] that mem by blast
    qed
  qed (use th f s' in \<open>auto simp: upd_wk_def\<close>)
  moreover have "notified_from s s' v (take 1 (cvs s v))"
    using s' cvs Cons by (auto simp: notified_from_def upd_wk_def)
  moreover have "cv_notify h v s = Inr s'"
    using own(1) Cons s'(1) by (simp add: cv_notify_def)
  ultimately show ?thesis
    by blast
qed

lemma notified_from_trans:
  "notified_from s s1 v ts \<Longrightarrow> notified_from s1 s' v ts' \<Longrightarrow> notified_from s s' v (ts @ ts')"
  by (simp add: notified_from_def)

lemma notify_loop_ok:
  assumes "minv P (Some h) s"
  shows "\<exists>s'. notify_loop n h v s = Inr s' \<and> minv P (Some h) s' \<and> notified_from s s' v (take n (cvs s v))"
  using assms
proof (induction n arbitrary: s)
  case 0
  then show ?case
    by (simp add: notified_from_def)
next
  case (Suc n)
  obtain s1 where s1: "cv_notify h v s = Inr s1" "minv P (Some h) s1" "notified_from s s1 v (take 1 (cvs s v))"
    using cv_notify_ok [OF Suc.prems] by blast
  obtain s' where s': "notify_loop n h v s1 = Inr s'" "minv P (Some h) s'" "notified_from s1 s' v (take n (cvs s1 v))"
    using Suc.IH [OF s1(2)] by blast
  have "take 1 (cvs s v) @ take n (cvs s1 v) = take (Suc n) (cvs s v)"
    using s1(3) by (cases "cvs s v") (auto simp: notified_from_def)
  then have "notified_from s s' v (take (Suc n) (cvs s v))"
    using notified_from_trans [OF s1(3) s'(3)] by simp
  then show ?case
    using s1(1) s'(1,2) Suc.prems by (cases "cvs s v") (auto simp: notified_from_def)
qed

lemma cv_notify_all_ok:
  assumes "minv P (Some h) s"
  shows "\<exists>s'. cv_notify_all h v s = Inr s' \<and> minv P (Some h) s' \<and> notified_from s s' v (cvs s v)"
  using notify_loop_ok [OF assms, of "length (cvs s v)" v] holder_owns [OF assms] by (simp add: cv_notify_all_def)

lemma do_notifies_ok:
  assumes "minv P (Some h) s"
  shows "\<exists>s'. do_notifies h ns s = Inr s' \<and> minv P (Some h) s' \<and> at s' = at s \<and> shared s' = shared s"
  using assms
proof (induction ns arbitrary: s)
  case (Cons n ns)
  obtain v b where n: "n = (v, b)"
    by (cases n)
  have "\<exists>s1. (if b then cv_notify_all h v s else cv_notify h v s) = Inr s1 \<and> minv P (Some h) s1 \<and> at s1 = at s \<and> shared s1 = shared s"
    using cv_notify_ok [OF Cons.prems, of v] cv_notify_all_ok [OF Cons.prems, of v] by (auto simp: notified_from_def)
  then show ?case
    using Cons.IH n by fastforce
qed simp


text \<open>All notifications of a function together only move tasks from condition variables behind the lock's queue.\<close>

lemma do_notifies_moves:
  assumes "minv P (Some h) s" "do_notifies h ns s = Inr s'"
  shows "at s' = at s" "w_f (wk s' u) = w_f (wk s u)"
    "\<exists>ts. aq (mlock s') = aq (mlock s) @ map (\<lambda>t. (t, WaitW)) ts \<and> (\<forall>u \<in> set ts. at s u = Off)"
proof -
  have "at s' = at s \<and> (\<forall>u. w_f (wk s' u) = w_f (wk s u)) \<and>
      (\<exists>ts. aq (mlock s') = aq (mlock s) @ map (\<lambda>t. (t, WaitW)) ts \<and> (\<forall>u \<in> set ts. at s u = Off))"
    using assms
  proof (induction ns arbitrary: s)
    case (Cons n ns)
    obtain v b where n: "n = (v, b)"
      by (cases n)
    obtain s1 ts where s1: "(if b then cv_notify_all h v s else cv_notify h v s) = Inr s1" "minv P (Some h) s1"
        "notified_from s s1 v ts"
      using cv_notify_ok [OF Cons.prems(1), of v] cv_notify_all_ok [OF Cons.prems(1), of v] by (cases b) auto
    have off: "\<forall>u \<in> set ts. at s u = Off"
    proof
      fix u
      assume "u \<in> set ts"
      then have "on_cv s u"
        using s1(3) unfolding on_cv_def notified_from_def by (metis Un_iff set_append)
      then show "at s u = Off"
        using own_task(2) [OF Cons.prems(1), of u] by blast
    qed
    have "do_notifies h ns s1 = Inr s'"
      using Cons.prems(2) n s1(1) by simp
    from Cons.IH [OF s1(2) this] obtain ts' where "at s' = at s1" "\<forall>u. w_f (wk s' u) = w_f (wk s1 u)"
        "aq (mlock s') = aq (mlock s1) @ map (\<lambda>t. (t, WaitW)) ts'" "\<forall>u \<in> set ts'. at s1 u = Off"
      by blast
    with s1(3) off have "at s' = at s \<and> (\<forall>u. w_f (wk s' u) = w_f (wk s u)) \<and>
        aq (mlock s') = aq (mlock s) @ map (\<lambda>t. (t, WaitW)) (ts @ ts') \<and> (\<forall>u \<in> set (ts @ ts'). at s u = Off)"
      by (auto simp: notified_from_def)
    then show ?case
      by blast
  qed auto
  then show "at s' = at s" "w_f (wk s' u) = w_f (wk s u)"
    "\<exists>ts. aq (mlock s') = aq (mlock s) @ map (\<lambda>t. (t, WaitW)) ts \<and> (\<forall>u \<in> set ts. at s u = Off)"
    by blast+
qed

section \<open>Steps of the holder\<close>

lemma holder_task:
  assumes inv: "minv P (holder s) s" and t: "hold_pos (at s t)"
  shows "holder s = Some t" "minv P (Some t) s"
proof -
  show "holder s = Some t"
    using own_task(1) [OF inv, of t] t by blast
  then show "minv P (Some t) s"
    using inv by simp
qed

lemma holding_move:
  assumes inv: "minv P (Some t) s" and s': "mlock s' = mlock s" "cvs s' = cvs s"
    "\<And>u. u \<noteq> t \<Longrightarrow> at s' u = at s u \<and> ak s' u = ak s u \<and> wk s' u = wk s u"
    and p: "hold_pos (at s' t)" "needs_wait (at s' t) \<Longrightarrow> p_wait (P t) \<noteq> None"
    and w: "w_f (wk s' t) = w_f (wk s t)" "waiting (wk s' t) = waiting (wk s t)"
  shows "minv P (Some t) s'"
proof -
  have "at s t \<noteq> Off"
    using own_task(1) [OF inv, of t] by auto
  then have "task_inv (P t) s' (Some t) t"
    using idle_wait [OF inv] s' p w by (intro task_inv_holding [OF inv]) auto
  then show ?thesis
    using own_move [OF inv s'] by blast
qed

lemma holding_ok:
  assumes "minv P (Some t) s'" "r = Inr s'"
  shows "mon_ok P r"
  using assms minvD(4) [OF assms(1) refl] by (intro mon_okI [OF assms(2)]) (auto simp: holder_def split: list.splits)

lemma drop_and_release:
  assumes inv: "minv P (Some t) s"
  shows "mon_ok P (lock_release (set_at t (AtDone c) s))"
proof -
  have h: "hold_pos (at s t)" "aq (mlock s) \<noteq> []"
    using holder_owns [OF inv] by auto
  then have "at s t \<noteq> Off"
    by auto
  then have "task_inv (P t) (set_at t (AtDone c) s) None t"
    using hold_not_off [OF inv h(1)] idle_wait [OF inv] unfolding task_inv_def by (simp add: set_at_def queued_def on_cv_def)
  then have "minv P None (set_at t (AtDone c) s)"
    by (intro own_move [OF inv]) (auto simp: set_at_def)
  from release_inv [OF this] h(2) show ?thesis
    by (auto simp: mon_ok_def set_at_def)
qed

lemma release_ok: "minv P None s \<Longrightarrow> aq (mlock s) \<noteq> [] \<Longrightarrow> mon_ok P (lock_release s)"
  using release_inv unfolding mon_ok_def by blast

lemma wait_enter_ok:
  assumes inv: "minv P (Some t) s" and p: "p_wait (P t) = Some (v, f)"
  shows "mon_ok P (wait_enter v f t c s)"
proof -
  let ?s1 = "upd_wk t (\<lambda>k. k\<lparr>notifiable := False, w_made := (if w_made k = None then Some (stream_call c) else w_made k)\<rparr>) s"
  note own = holder_owns [OF inv]
  have o: "owned_by t ?s1" "\<not> lock_available s"
    using own by (simp_all add: owned_by_def upd_wk_def lock_available_def)
  show ?thesis
  proof (cases "f (notified (wk ?s1 t)) (shared ?s1)")
    case True
    let ?s2 = "?s1\<lparr>cvs := (cvs ?s1)(v := cvs ?s1 v @ [t])\<rparr>"
    let ?s3 = "set_at t Off (upd_wk t (\<lambda>k. k\<lparr>notifiable := True, w_arg := call_arg c, w_ctx := Some t, w_f := Some c\<rparr>) ?s2)"
    have "minv P None ?s3"
      by (rule park [OF inv, where v = v]) (use p in \<open>auto simp: upd_defs\<close>)
    then have "mon_ok P (lock_release ?s3)"
      by (rule release_ok) (use own(2) in \<open>simp add: upd_defs\<close>)
    moreover have "wait_enter v f t c s = lock_release ?s3"
      using True o by (simp add: wait_enter_def cv_condition_def Let_def) (simp add: upd_wk_def)
    ultimately show ?thesis
      by simp
  next
    case False
    have "minv P (Some t) (set_at t (AtThen c) ?s1)"
      by (rule holding_move [OF inv]) (auto simp: upd_defs)
    moreover have "wait_enter v f t c s = Inr (set_at t (AtThen c) ?s1)"
      using False o by (simp add: wait_enter_def cv_condition_def Let_def)
    ultimately show ?thesis
      by (rule holding_ok)
  qed
qed

lemma wait_ok:
  assumes inv: "minv P (holder s) s" and t: "at s t = AtWait c"
  shows "mon_ok P (wait_call (P t) t c s)"
proof -
  have h: "minv P (Some t) s"
    using holder_task [OF inv] t by simp
  obtain v f where p: "p_wait (P t) = Some (v, f)"
    using own_task(7) [OF inv, of t] t by auto
  have fwd: "mon_ok P (Inr (set_at t (AtThen c') s))" for c'
    by (rule holding_ok [OF holding_move [OF h] refl]) (auto simp: set_at_def)
  have "wait_Ended t s = Inr (set_at t (AtThen Ended) s)"
    using idle_wait [OF h, of t] holder_owns [OF h] t by (simp add: wait_Ended_def lock_available_def)
  then show ?thesis
    using p fwd wait_enter_ok [OF h p] by (cases c) (simp_all add: wait_call_def)
qed

text \<open>A function under the lock changes the shared state and notifies; the invariant holds afterwards.\<close>

lemma section_ok:
  assumes "minv P (Some t) s"
  obtains s1 where "do_notifies t ns (s\<lparr>shared := sh\<rparr>) = Inr s1" "minv P (Some t) s1" "at s1 = at s"
proof -
  have "minv P (Some t) (s\<lparr>shared := sh\<rparr>)"
    by (rule holding_move [OF assms]) (use holder_owns [OF assms] own_task(7) [OF assms] in auto)
  then show thesis
    using that do_notifies_ok [of P t "s\<lparr>shared := sh\<rparr>" ns] by auto
qed

lemma then_ok:
  assumes inv: "minv P (holder s) s" and t: "at s t = AtThen c"
  shows "mon_ok P (then_call (P t) t c s) \<or>
    (\<exists>x e. call_arg c = Some x \<and> p_body (P t) (shared s) x = Inl e \<and> then_call (P t) t c s = Inl e)"
proof (cases "call_arg c")
  case None
  have h: "minv P (Some t) s"
    using holder_task [OF inv] t by simp
  have "mon_ok P (Inr (set_at t (AtRelease c) s))"
    by (rule holding_ok [OF holding_move [OF h] refl]) (auto simp: set_at_def)
  then show ?thesis
    using None by (simp add: then_call_def)
next
  case (Some x)
  have h: "minv P (Some t) s"
    using holder_task [OF inv] t by simp
  show ?thesis
  proof (cases "p_body (P t) (shared s) x")
    case (Inr r)
    then obtain sh ns v where r: "p_body (P t) (shared s) x = Inr (sh, ns, v)"
      by (cases r) auto
    obtain s1 where s1: "do_notifies t ns (s\<lparr>shared := sh\<rparr>) = Inr s1" "minv P (Some t) s1"
      using section_ok [OF h] by blast
    have "minv P (Some t) (set_at t (AtRelease (case c of Start _ \<Rightarrow> Start v | _ \<Rightarrow> Body v)) s1)"
      by (rule holding_move [OF s1(2)]) (auto simp: set_at_def)
    then show ?thesis
      using holding_ok r s1 Some by (auto simp: then_call_def)
  qed (use Some in \<open>simp add: then_call_def\<close>)
qed

lemma after_first_inv: "minv P (Some t) s \<Longrightarrow> minv P (Some t) (set_at t (after_first (P t) c) s)"
  by (rule holding_move) (auto simp: set_at_def after_first_def split: option.splits)

lemma first_ok:
  assumes inv: "minv P (holder s) s" and t: "at s t = AtFirst c"
  shows "mon_ok P (first_call (P t) t c s) \<or>
    (\<exists>x f e. call_arg c = Some x \<and> p_first (P t) = Some f \<and> f (shared s) x = Inl e \<and> first_call (P t) t c s = Inl e)"
proof -
  have h: "minv P (Some t) s"
    using holder_task [OF inv] t by simp
  show ?thesis
  proof (cases "call_arg c = None \<or> p_first (P t) = None")
    case True
    then show ?thesis
      using holding_ok [OF after_first_inv [OF h] refl] by (auto simp: first_call_def split: option.splits)
  next
    case False
    then obtain x f where xf: "call_arg c = Some x" "p_first (P t) = Some f"
      by auto
    show ?thesis
    proof (cases "f (shared s) x")
      case (Inr r)
      then obtain sh ns where r: "f (shared s) x = Inr (sh, ns)"
        by (cases r) auto
      obtain s1 where s1: "do_notifies t ns (s\<lparr>shared := sh\<rparr>) = Inr s1" "minv P (Some t) s1"
        using section_ok [OF h] by blast
      then show ?thesis
        using holding_ok [OF after_first_inv [OF s1(2)] refl] r xf by (simp add: first_call_def)
    qed (use xf in \<open>simp add: first_call_def\<close>)
  qed
qed

lemma mon_step_ok:
  assumes inv: "minv P (holder s) s"
  shows "mon_ok P (mon_step P t s) \<or>
    (\<exists>c x e. at s t = AtThen c \<and> call_arg c = Some x \<and> p_body (P t) (shared s) x = Inl e \<and> mon_step P t s = Inl e) \<or>
    (\<exists>c x f e. at s t = AtFirst c \<and> call_arg c = Some x \<and> p_first (P t) = Some f \<and> f (shared s) x = Inl e \<and> mon_step P t s = Inl e)"
proof (cases "at s t")
  case (RunAcquired c)
  then have h: "minv P (Some t) s"
    using holder_task(2) [OF inv, of t] by simp
  have "w_f (wk s t) = None" "\<not> waiting (wk s t)"
    using idle_wait [OF inv, of t] RunAcquired by simp_all
  then have "minv P (Some t) (acquire_unblocked (P t) t c s)"
    by (intro holding_move [OF h])
      (simp_all add: acquire_unblocked_def enter_section_def wait_k_init_def upd_defs after_acquire_def after_first_def split: option.splits)
  from holding_ok [OF this refl] show ?thesis
    using RunAcquired by (simp add: mon_step_def)
next
  case (RunNotified c)
  then have h: "minv P (Some t) s" and p: "p_wait (P t) \<noteq> None"
    using holder_task(2) [OF inv, of t] own_task(7) [OF inv, of t] by simp_all
  have "minv P (Some t) (wait_unblocked t c s)"
    by (rule holding_move [OF h]) (simp_all add: wait_unblocked_def upd_defs p)
  from holding_ok [OF this refl] show ?thesis
    using RunNotified by (simp add: mon_step_def)
next
  case (AtRelease c)
  then have h: "minv P (Some t) s"
    using holder_task [OF inv, of t] by simp
  show ?thesis
    using drop_and_release [OF h, of c] holder_owns(2) [OF h] AtRelease
    by (simp add: mon_step_def release_k_call_def lock_available_def)
next
  case (AtThen c)
  then show ?thesis
    using then_ok [OF inv AtThen] by (auto simp: mon_step_def)
next
  case (AtFirst c)
  then show ?thesis
    using first_ok [OF inv AtFirst] by (auto simp: mon_step_def)
next
  case (AtAcquire c)
  then show ?thesis
    using acquire_ok [OF inv AtAcquire] by (simp add: mon_step_def)
next
  case AtAcquireSlow
  then show ?thesis
    using acquire_slow_ok [OF inv AtAcquireSlow] by (simp add: mon_step_def)
next
  case (AtWait c)
  then show ?thesis
    using wait_ok [OF inv AtWait] by (simp add: mon_step_def)
qed (simp_all add: mon_step_def mon_ok_def inv)

lemma next_call_inv:
  assumes inv: "minv P (holder s) s" and t: "at s t = AtDone c" "next_call c'"
  shows "minv P (holder (set_at t (AtAcquire c') s)) (set_at t (AtAcquire c') s)"
proof -
  have "task_inv (P t) (set_at t (AtAcquire c') s) (holder s) t"
    by (rule task_inv_idle [OF inv]) (use t in \<open>auto simp: set_at_def\<close>)
  then have "minv P (holder s) (set_at t (AtAcquire c') s)"
    by (intro own_move [OF inv]) (auto simp: set_at_def)
  then show ?thesis
    by (simp add: holder_def set_at_def)
qed

lemma mon_reach_inv: "mon_reach P first sh s \<Longrightarrow> minv P (holder s) s"
proof (induction rule: mon_reach.induct)
  case (mon_move s t s')
  then show ?case
    using mon_step_ok [of P s t] by (auto simp: mon_ok_def)
qed (auto intro: minv_init next_call_inv)

end
