(* ===== verification/Monitor_Theorems.thy ===== *)
theory Monitor_Theorems
  imports Monitor_Invariant
begin

text \<open>
  Properties of every program of tasks over one lock, and the effect of a step as the clients see it.
\<close>

section \<open>Effects of a step\<close>

text \<open>
  Other tasks keep their position, except that a released lock resumes the next one, and nobody else's
  condition flag changes.
\<close>

definition others_kept :: "tid \<Rightarrow> 's mon \<Rightarrow> 's mon \<Rightarrow> bool" where
  "others_kept t s s' \<longleftrightarrow>
     (\<forall>u. u \<noteq> t \<longrightarrow> notified (wk s' u) = notified (wk s u) \<and>
        (at s' u = at s u \<or> (\<exists>c. w_f (wk s u) = Some c \<and> at s' u = RunNotified c) \<or>
         (\<exists>c. at s' u = RunAcquired c \<and> (u, AcquireW) \<in> set (aq (mlock s)))) \<and>
        (w_f (wk s' u) = w_f (wk s u) \<or> w_f (wk s' u) = None))"

inductive mon_effect :: "(tid \<Rightarrow> 's proc) \<Rightarrow> tid \<Rightarrow> 's mon \<Rightarrow> 's mon \<Rightarrow> bool" for P t s s' where
  quiet: "shared s' = shared s \<Longrightarrow> cvs s' = cvs s \<Longrightarrow> (\<And>u. u \<noteq> t \<Longrightarrow> at s' u = at s u \<and> wk s' u = wk s u) \<Longrightarrow>
    aq (mlock s') = aq (mlock s) \<or> aq (mlock s') = aq (mlock s) @ [(t, AcquireW)] \<and> \<not> hold_pos (at s t) \<Longrightarrow>
    (\<And>c. at s' t = AtThen c \<Longrightarrow> p_wait (P t) = None \<and> (at s t = RunAcquired c \<or> at s t = AtAcquire c \<or> at s t = AtFirst c) \<or>
      at s t = AtWait c \<and> (call_arg c = None \<or> (\<exists>v f. p_wait (P t) = Some (v, f) \<and> \<not> f (notified (wk s' t)) (shared s')))) \<Longrightarrow>
    (\<And>c. at s' t = AtRelease c \<Longrightarrow> at s t = AtThen c \<and> call_arg c = None) \<Longrightarrow>
    (\<And>c. at s' t = RunNotified c \<Longrightarrow> False) \<Longrightarrow> (\<And>c. at s' t = RunAcquired c \<Longrightarrow> at s t = AtAcquireSlow) \<Longrightarrow>
    (\<And>c. at s' t = AtWait c \<Longrightarrow> at s t = RunNotified c \<or> at s t = RunAcquired c \<or> at s t = AtAcquire c \<or> at s t = AtFirst c) \<Longrightarrow>
    (\<And>c. at s' t = AtFirst c \<Longrightarrow> at s t = RunAcquired c \<or> at s t = AtAcquire c) \<Longrightarrow>
    w_f (wk s' t) = w_f (wk s t) \<or> w_f (wk s' t) = None \<Longrightarrow> mon_effect P t s s'"
| park: "at s t = AtWait c \<Longrightarrow> call_arg c \<noteq> None \<Longrightarrow> p_wait (P t) = Some (v, f) \<Longrightarrow> f (notified (wk s t)) (shared s) \<Longrightarrow>
    shared s' = shared s \<Longrightarrow> cvs s' = (cvs s)(v := cvs s v @ [t]) \<Longrightarrow> aq (mlock s') = tl (aq (mlock s)) \<Longrightarrow>
    at s' t = Off \<Longrightarrow> w_f (wk s' t) = Some c \<Longrightarrow> others_kept t s s' \<Longrightarrow> mon_effect P t s s'"
| body: "at s t = AtThen c \<Longrightarrow> call_arg c = Some x \<Longrightarrow> p_body (P t) (shared s) x = Inr (sh, ns, r) \<Longrightarrow>
    do_notifies t ns (s\<lparr>shared := sh\<rparr>) = Inr s1 \<Longrightarrow> s' = set_at t (AtRelease c') s1 \<Longrightarrow> mon_effect P t s s'"
| first: "at s t = AtFirst c \<Longrightarrow> call_arg c = Some x \<Longrightarrow> p_first (P t) = Some f \<Longrightarrow> f (shared s) x = Inr (sh, ns) \<Longrightarrow>
    do_notifies t ns (s\<lparr>shared := sh\<rparr>) = Inr s1 \<Longrightarrow> s' = set_at t (after_first (P t) c) s1 \<Longrightarrow> mon_effect P t s s'"
| release: "at s t = AtRelease c \<Longrightarrow> shared s' = shared s \<Longrightarrow> cvs s' = cvs s \<Longrightarrow> aq (mlock s') = tl (aq (mlock s)) \<Longrightarrow>
    at s' t = AtDone c \<Longrightarrow> w_f (wk s' t) = w_f (wk s t) \<Longrightarrow> others_kept t s s' \<Longrightarrow> mon_effect P t s s'"

lemma release_others: "lock_release s = Inr s' \<Longrightarrow> others_kept t s s'"
  by (auto simp: others_kept_def lock_release_def acquire_f_def wait_f_def upd_defs Let_def
      split: list.splits wkind.splits option.splits if_splits)

lemma release_self:
  assumes "lock_release s = Inr s'" "t \<notin> queued s"
  shows "at s' t = at s t" "wk s' t = wk s t"
  using assms
  by (auto simp: lock_release_def acquire_f_def wait_f_def upd_defs queued_def Let_def split: list.splits wkind.splits option.splits)

lemma release_shape:
  assumes "lock_release s = Inr s'"
  shows "shared s' = shared s" "cvs s' = cvs s" "aq (mlock s') = tl (aq (mlock s))"
  using assms
  by (auto simp: lock_release_def acquire_f_def wait_f_def upd_defs Let_def split: list.splits wkind.splits option.splits)


lemma others_keptD:
  assumes "others_kept t s s'" "u \<noteq> t"
  shows "at s' u = at s u \<or> (\<exists>c. w_f (wk s u) = Some c \<and> at s' u = RunNotified c) \<or>
      (\<exists>c. at s' u = RunAcquired c \<and> (u, AcquireW) \<in> set (aq (mlock s)))"
    "w_f (wk s' u) = w_f (wk s u) \<or> w_f (wk s' u) = None"
    "notified (wk s' u) = notified (wk s u)"
  using assms(1) [unfolded others_kept_def, rule_format, OF assms(2)] by simp_all

lemma others_kept_before:
  assumes "others_kept t s1 s'" "\<And>u. u \<noteq> t \<Longrightarrow> at s1 u = at s u \<and> wk s1 u = wk s u" "mlock s1 = mlock s"
  shows "others_kept t s s'"
  unfolding others_kept_def
proof (intro allI impI)
  fix u
  assume u: "u \<noteq> t"
  have eq: "at s1 u = at s u" "wk s1 u = wk s u"
    using assms(2) [OF u] by blast+
  show "notified (wk s' u) = notified (wk s u) \<and>
      (at s' u = at s u \<or> (\<exists>c. w_f (wk s u) = Some c \<and> at s' u = RunNotified c) \<or>
       (\<exists>c. at s' u = RunAcquired c \<and> (u, AcquireW) \<in> set (aq (mlock s)))) \<and>
      (w_f (wk s' u) = w_f (wk s u) \<or> w_f (wk s' u) = None)"
    using others_keptD [OF assms(1) u] unfolding eq assms(3) by (intro conjI)
qed

lemma effect_acquire:
  assumes "at s t = AtAcquire c" "acquire_call (P t) t c s = Inr s'"
  shows "mon_effect P t s s'"
proof -
  have "mon_effect P t s (acquire_value_call (P t) t c s0)" if "s0 = s \<or> s0 = upd_ak t (\<lambda>k. k\<lparr>a_stream := x\<rparr>) s" for s0 x
    by (rule quiet) (use assms(1) that in \<open>auto simp: acquire_value_call_def acquire_fast_def enter_section_def after_acquire_def after_first_def
        wait_k_init_def upd_defs Let_def split: if_splits option.splits\<close>)
  then show ?thesis
    using assms(2) by (cases c) (auto simp: acquire_call_def acquire_stream_call_def)
qed

lemma effect_acquire_slow:
  assumes "at s t = AtAcquireSlow" "acquire_slow_call t s = Inr s'"
  shows "mon_effect P t s s'"
  by (rule quiet) (use assms in \<open>auto simp: acquire_slow_call_def acquire_slow_def acquire_f_def upd_defs
      split: if_splits option.splits\<close>)

lemma effect_wait_enter:
  assumes inv: "minv P (Some t) s" and w: "at s t = AtWait c" "call_arg c \<noteq> None" "p_wait (P t) = Some (v, f)"
    and step: "wait_enter v f t c s = Inr s'"
  shows "mon_effect P t s s'"
proof -
  let ?s1 = "upd_wk t (\<lambda>k. k\<lparr>notifiable := False, w_made := (if w_made k = None then Some (stream_call c) else w_made k)\<rparr>) s"
  let ?s3 = "set_at t Off (upd_wk t (\<lambda>k. k\<lparr>notifiable := True, w_arg := call_arg c, w_ctx := Some t, w_f := Some c\<rparr>)
      (?s1\<lparr>cvs := (cvs ?s1)(v := cvs ?s1 v @ [t])\<rparr>))"
  have o: "owned_by t ?s1" "\<not> lock_available s"
    using holder_owns [OF inv] by (simp_all add: owned_by_def upd_wk_def lock_available_def)
  show ?thesis
  proof (cases "f (notified (wk ?s1 t)) (shared ?s1)")
    case True
    have rel: "lock_release ?s3 = Inr s'"
      using True o step by (simp add: wait_enter_def cv_condition_def Let_def upd_wk_def)
    have q: "t \<notin> queued ?s3"
      using hold_not_off [OF inv, of t] w(1) by (simp add: queued_def upd_defs)
    have "others_kept t s s'"
      by (rule others_kept_before [OF release_others [OF rel]]) (auto simp: upd_defs)
    then show ?thesis
      using release_self [OF rel q] release_shape [OF rel] w True
      by (intro park [where P = P and t = t and c = c and v = v and f = f]) (auto simp: upd_defs)
  next
    case False
    then have "s' = set_at t (AtThen c) ?s1"
      using o step by (simp add: wait_enter_def cv_condition_def Let_def)
    then show ?thesis
      using w False by (intro quiet) (auto simp: upd_defs)
  qed
qed

lemma effect_forward:
  assumes "at s t = AtWait c" "call_arg c = None"
  shows "mon_effect P t s (set_at t (AtThen c) s)"
  by (rule quiet) (use assms in \<open>auto simp: set_at_def\<close>)

lemma effect_wait:
  assumes inv: "minv P (Some t) s" and w: "at s t = AtWait c" and step: "wait_call (P t) t c s = Inr s'"
  shows "mon_effect P t s s'"
proof (cases "call_arg c")
  case None
  then have "s' = set_at t (AtThen c) s"
    using step by (cases c) (auto simp: wait_call_def wait_Ended_def split: option.splits prod.splits if_splits)
  then show ?thesis
    using effect_forward [OF w None] by simp
next
  case (Some x)
  then obtain v f where "p_wait (P t) = Some (v, f)" "wait_enter v f t c s = Inr s'"
    using step by (cases c) (auto simp: wait_call_def split: option.splits)
  then show ?thesis
    using effect_wait_enter [OF inv w] Some by simp
qed

lemma effect_release:
  assumes inv: "minv P (Some t) s" and w: "at s t = AtRelease c" and step: "release_k_call t c s = Inr s'"
  shows "mon_effect P t s s'"
proof -
  have rel: "lock_release (set_at t (AtDone c) s) = Inr s'"
    using step by (simp add: release_k_call_def)
  have q: "t \<notin> queued (set_at t (AtDone c) s)"
    using hold_not_off [OF inv, of t] w by (simp add: queued_def set_at_def)
  have "others_kept t s s'"
    by (rule others_kept_before [OF release_others [OF rel]]) (auto simp: set_at_def)
  then show ?thesis
    using release_self [OF rel q] release_shape [OF rel] by (intro release [OF w]) (auto simp: set_at_def)
qed

lemma effect_then:
  assumes "at s t = AtThen c" "then_call (P t) t c s = Inr s'"
  shows "mon_effect P t s s'"
proof (cases "call_arg c")
  case None
  then show ?thesis
    using assms by (intro quiet) (auto simp: then_call_def set_at_def)
next
  case (Some x)
  then show ?thesis
    using assms by (auto simp: then_call_def intro: body)
qed

lemma effect_first:
  assumes "at s t = AtFirst c" "first_call (P t) t c s = Inr s'"
  shows "mon_effect P t s s'"
proof (cases "call_arg c = None \<or> p_first (P t) = None")
  case True
  then have "s' = set_at t (after_first (P t) c) s"
    using assms(2) by (auto simp: first_call_def split: option.splits)
  then show ?thesis
    using assms(1) by (intro quiet) (auto simp: set_at_def after_first_def split: option.splits)
next
  case False
  then show ?thesis
    using assms by (auto simp: first_call_def intro: first)
qed

lemma effect_stutter: "mon_effect P t s s" if "\<And>c. at s t \<noteq> AtRelease c" "\<And>c. at s t \<noteq> RunNotified c" "\<And>c. at s t \<noteq> AtWait c" "\<And>c. at s t \<noteq> AtThen c" "\<And>c. at s t \<noteq> RunAcquired c" "\<And>c. at s t \<noteq> AtFirst c"
  by (rule quiet) (use that in auto)

lemma step_effect:
  assumes inv: "minv P (holder s) s" and step: "mon_step P t s = Inr s'"
  shows "mon_effect P t s s'"
proof (cases "at s t")
  case (RunAcquired c)
  then show ?thesis
    using step by (intro quiet)
      (auto simp: mon_step_def acquire_unblocked_def enter_section_def after_acquire_def after_first_def wait_k_init_def upd_defs split: option.splits if_splits)
next
  case (RunNotified c)
  then show ?thesis
    using step by (intro quiet) (auto simp: mon_step_def wait_unblocked_def upd_defs)
next
  case (AtWait c)
  then show ?thesis
    using step effect_wait [OF holder_task(2) [OF inv]] by (simp add: mon_step_def)
next
  case (AtRelease c)
  then show ?thesis
    using step effect_release [OF holder_task(2) [OF inv]] by (simp add: mon_step_def)
next
  case (AtAcquire c)
  then show ?thesis
    using step effect_acquire by (simp add: mon_step_def)
next
  case AtAcquireSlow
  then show ?thesis
    using step effect_acquire_slow by (simp add: mon_step_def)
next
  case (AtThen c)
  then show ?thesis
    using step effect_then by (simp add: mon_step_def)
next
  case (AtFirst c)
  then show ?thesis
    using step effect_first by (simp add: mon_step_def)
qed (use step effect_stutter [of s t P] in \<open>simp_all add: mon_step_def\<close>)


section \<open>What Wait guarantees\<close>

text \<open>
  \<open>wait_done\<close>: a task that has a \<^verbatim>\<open>Wait\<close> and is about to run its function has seen its condition false, and it
  still is. \<open>wait_arg\<close>: a task that waited carries a value.
\<close>

definition wait_done :: "(tid \<Rightarrow> 's proc) \<Rightarrow> 's mon \<Rightarrow> bool" where
  "wait_done P s \<longleftrightarrow> (\<forall>t c x v f. at s t = AtThen c \<longrightarrow> call_arg c = Some x \<longrightarrow> p_wait (P t) = Some (v, f) \<longrightarrow>
     \<not> f (notified (wk s t)) (shared s))"

lemma wait_done_step:
  assumes inv: "minv P (holder s) s" and step: "mon_effect P t s s'" and g: "wait_done P s"
  shows "wait_done P s'"
  unfolding wait_done_def
proof (intro allI impI)
  fix u c x v f
  assume u: "at s' u = AtThen c" "call_arg c = Some x" "p_wait (P u) = Some (v, f)"
  show "\<not> f (notified (wk s' u)) (shared s')"
    using step
  proof cases
    case quiet
    show ?thesis
    proof (cases "u = t")
      case True
      then show ?thesis
        using quiet(5) [of c] u by auto
    next
      case False
      then show ?thesis
        using quiet(1) quiet(3) [OF False] g u unfolding wait_done_def by metis
    qed
  next
    case (park c' v' f')
    have "holder s = Some t"
      using holder_task(1) [OF inv, of t] park(1) by simp
    then have "\<not> hold_pos (at s u)" if "u \<noteq> t"
      using own_task(1) [OF inv, of u] that by simp
    then show ?thesis
      using u park unfolding others_kept_def by (cases "u = t") force+
  next
    case (release c')
    have "holder s = Some t"
      using holder_task(1) [OF inv, of t] release(1) by simp
    then have "\<not> hold_pos (at s u)" if "u \<noteq> t"
      using own_task(1) [OF inv, of u] that by simp
    then show ?thesis
      using u release unfolding others_kept_def by (cases "u = t") force+
  next
    case (body c' y sh ns r s1 c'')
    have h: "minv P (Some t) s" "holder s = Some t"
      using holder_task [OF inv, of t] body(1) by simp_all
    have "at s1 = at s"
      using section_ok [OF h(1), of ns sh] body(4) by auto
    moreover have "\<not> hold_pos (at s u)" if "u \<noteq> t"
      using own_task(1) [OF inv, of u] that h(2) by simp
    ultimately show ?thesis
      using u(1) body(5) by (cases "u = t") (force simp: set_at_def)+
  next
    case (first c' y f' sh ns s1)
    have h: "minv P (Some t) s" "holder s = Some t"
      using holder_task [OF inv, of t] first(1) by simp_all
    have "at s1 = at s"
      using section_ok [OF h(1), of ns sh] first(5) by auto
    moreover have "\<not> hold_pos (at s u)" if "u \<noteq> t"
      using own_task(1) [OF inv, of u] that h(2) by simp
    ultimately show ?thesis
      using u(1,3) first(6) by (cases "u = t") (force simp: set_at_def after_first_def)+
  qed
qed

lemma reach_wait_done: "mon_reach P first sh s \<Longrightarrow> wait_done P s"
proof (induction rule: mon_reach.induct)
  case mon_start
  then show ?case
    by (simp add: wait_done_def mon_init_def)
next
  case (mon_move s t s')
  then show ?case
    using wait_done_step [OF mon_reach_inv [OF mon_move(1)] step_effect [OF mon_reach_inv [OF mon_move(1)] mon_move(2)]] by blast
next
  case (mon_next s t c c')
  then show ?case
    by (auto simp: wait_done_def set_at_def)
qed

definition wait_arg :: "'s mon \<Rightarrow> bool" where
  "wait_arg s \<longleftrightarrow>
     (\<forall>t c. w_f (wk s t) = Some c \<or> at s t = RunNotified c \<longrightarrow> call_arg c \<noteq> None) \<and>
     (\<forall>t c. (t, WaitW) \<in> set (aq (mlock s)) \<longrightarrow> at s t = AtWait c \<or> at s t = AtThen c \<longrightarrow> call_arg c \<noteq> None) \<and>
     (\<forall>t c. at s t = RunAcquired c \<or> at s t = AtFirst c \<longrightarrow> (t, WaitW) \<notin> set (aq (mlock s)))"

lemma wait_argD:
  assumes "wait_arg s"
  shows "w_f (wk s t) = Some c \<or> at s t = RunNotified c \<Longrightarrow> call_arg c \<noteq> None"
    "(t, WaitW) \<in> set (aq (mlock s)) \<Longrightarrow> at s t = AtWait c \<or> at s t = AtThen c \<Longrightarrow> call_arg c \<noteq> None"
    "at s t = RunAcquired c \<or> at s t = AtFirst c \<Longrightarrow> (t, WaitW) \<notin> set (aq (mlock s))"
  using assms unfolding wait_arg_def by blast+

lemma in_queue_cases:
  assumes "minv P (holder s) s" "(t, k) \<in> set (aq (mlock s))"
  shows "at s t = Off \<or> hold_pos (at s t)"
proof (cases "aq (mlock s)")
  case (Cons w ws)
  then show ?thesis
    using assms(2) own_task(1,2) [OF assms(1), of t] by (force simp: holder_def queued_def)
qed (use assms in simp)

lemma one_kind: "minv P h s \<Longrightarrow> (t, k) \<in> set (aq (mlock s)) \<Longrightarrow> (t, k') \<in> set (aq (mlock s)) \<Longrightarrow> k = k'"
  using minvD(1) [of P h s] by (metis eq_key_imp_eq_value)

lemma wait_arg_released:
  assumes inv: "minv P (holder s) s" "wait_arg s" and t: "hold_pos (at s t)" "\<not> hold_pos (at s' t)"
    and k: "others_kept t s s'" "aq (mlock s') = tl (aq (mlock s))" "\<And>c. w_f (wk s' t) = Some c \<Longrightarrow> call_arg c \<noteq> None"
  shows "wait_arg s'"
proof -
  have h: "holder s = Some t"
    using holder_task(1) [OF inv(1) t(1)] .
  have nh: "\<not> hold_pos (at s u)" if "u \<noteq> t" for u
    using own_task(1) [OF inv(1), of u] that h by simp
  have sub: "x \<in> set (aq (mlock s')) \<Longrightarrow> x \<in> set (aq (mlock s))" for x
    using k(2) by (metis list.set_sel(2) tl_Nil)
  have "at s' u \<noteq> AtWait c" "at s' u \<noteq> AtThen c" "at s' u \<noteq> AtFirst c" for u c
    using t(2) nh [of u] others_keptD(1) [OF k(1), of u] by (cases "u = t"; auto)+
  moreover have "call_arg c \<noteq> None" if "w_f (wk s' u) = Some c \<or> at s' u = RunNotified c" for u c
  proof (cases "u = t")
    case True
    then show ?thesis
      using that t(2) k(3) by auto
  next
    case False
    then show ?thesis
      using that others_keptD(1,2) [OF k(1) False] wait_argD(1) [OF inv(2), of u c] by auto
  qed
  moreover have "(u, WaitW) \<notin> set (aq (mlock s'))" if r: "at s' u = RunAcquired c" for u c
  proof -
    have "at s u = RunAcquired c \<or> (u, AcquireW) \<in> set (aq (mlock s))" "u \<noteq> t"
      using r t(2) others_keptD(1) [OF k(1), of u] by (cases "u = t"; auto)+
    then have "(u, AcquireW) \<in> set (aq (mlock s))"
      using nh [of u] by auto
    then show ?thesis
      using one_kind [OF inv(1)] sub by blast
  qed
  ultimately show ?thesis
    unfolding wait_arg_def by blast
qed

lemma section_moves:
  assumes "minv P (Some t) s" "do_notifies t ns (s\<lparr>shared := sh\<rparr>) = Inr s1"
  shows "at s1 = at s" "w_f (wk s1 u) = w_f (wk s u)"
    "\<exists>ts. aq (mlock s1) = aq (mlock s) @ map (\<lambda>t. (t, WaitW)) ts \<and> (\<forall>u \<in> set ts. at s u = Off)"
proof -
  have "minv P (Some t) (s\<lparr>shared := sh\<rparr>)"
    by (rule holding_move [OF assms(1)]) (use holder_owns [OF assms(1)] own_task(7) [OF assms(1)] in auto)
  from do_notifies_moves [OF this assms(2)] show "at s1 = at s" "w_f (wk s1 u) = w_f (wk s u)"
    "\<exists>ts. aq (mlock s1) = aq (mlock s) @ map (\<lambda>t. (t, WaitW)) ts \<and> (\<forall>u \<in> set ts. at s u = Off)"
    by simp_all
qed

lemma wait_arg_step:
  assumes inv: "minv P (holder s) s" and step: "mon_effect P t s s'" and g: "wait_arg s"
  shows "wait_arg s'"
  using step
proof cases
  case quiet
  have aq: "(u, WaitW) \<in> set (aq (mlock s')) \<longleftrightarrow> (u, WaitW) \<in> set (aq (mlock s))" for u
    using quiet(4) by auto
  show ?thesis
    unfolding wait_arg_def
  proof (intro conjI allI impI)
    fix u c
    show "call_arg c \<noteq> None" if "w_f (wk s' u) = Some c \<or> at s' u = RunNotified c"
      using that quiet(3) [of u] quiet(7,11) wait_argD(1) [OF g, of u c] by (cases "u = t") auto
    show "(u, WaitW) \<notin> set (aq (mlock s'))" if r: "at s' u = RunAcquired c \<or> at s' u = AtFirst c"
    proof (cases "u = t")
      case True
      then have "at s t = AtAcquireSlow \<or> at s t = RunAcquired c \<or> at s t = AtAcquire c"
        using quiet(8) [of c] quiet(10) [of c] r by blast
      then show ?thesis
        using True aq in_queue_cases [OF inv, of t WaitW] wait_argD(3) [OF g, of t c] by auto
    next
      case False
      then show ?thesis
        using quiet(3) [OF False] r aq wait_argD(3) [OF g, of u c] by auto
    qed
  next
    fix u c
    assume q: "(u, WaitW) \<in> set (aq (mlock s'))" and a: "at s' u = AtWait c \<or> at s' u = AtThen c"
    show "call_arg c \<noteq> None"
    proof (cases "u = t")
      case True
      have q': "(t, WaitW) \<in> set (aq (mlock s))"
        using q aq True by blast
      have "at s t \<noteq> RunAcquired c" "at s t \<noteq> AtAcquire c" "at s t \<noteq> AtFirst c"
        using wait_argD(3) [OF g, of t c] in_queue_cases [OF inv q'] q' by auto
      then have "at s t = RunNotified c \<or> at s t = AtWait c"
        using a True quiet(5) [of c] quiet(9) [of c] by blast
      then show ?thesis
        using wait_argD(1) [OF g, of t c] wait_argD(2) [OF g q', of c] by blast
    next
      case False
      then show ?thesis
        using quiet(3) [OF False] a q aq wait_argD(2) [OF g, of u c] by auto
    qed
  qed
next
  case (park c v f)
  then show ?thesis
    by (intro wait_arg_released [OF inv g, of t]) auto
next
  case (release c)
  then show ?thesis
    using idle_wait [OF inv, of t] by (intro wait_arg_released [OF inv g, of t]) auto
next
  case (body c x sh ns r s1 c')
  have h: "minv P (Some t) s"
    using holder_task(2) [OF inv, of t] body(1) by simp
  show ?thesis
    using section_moves [OF h body(4)] g body(1,5) unfolding wait_arg_def by (auto simp: set_at_def split: if_splits)
next
  case (first c x f sh ns s1)
  have h: "minv P (Some t) s"
    using holder_task(2) [OF inv, of t] first(1) by simp
  note m = section_moves [OF h first(5)]
  have at': "at s' u = (if u = t then after_first (P t) c else at s u)" "mlock s' = mlock s1" "wk s' = wk s1" for u
    using first(6) m(1) by (simp_all add: set_at_def)
  have "(t, WaitW) \<notin> set (aq (mlock s1))"
    using wait_argD(3) [OF g, of t c] first(1) m(3) by auto
  then show ?thesis
    using m g first(1) unfolding wait_arg_def at' by (auto simp: after_first_def split: if_splits option.splits)
qed

lemma reach_wait_arg: "mon_reach P first sh s \<Longrightarrow> wait_arg s"
proof (induction rule: mon_reach.induct)
  case mon_start
  then show ?case
    by (simp add: wait_arg_def mon_init_def wait_k_init_def)
next
  case (mon_move s t s')
  then show ?case
    using wait_arg_step [OF mon_reach_inv [OF mon_move(1)] step_effect [OF mon_reach_inv [OF mon_move(1)] mon_move(2)]] by blast
next
  case (mon_next s t c c')
  then show ?case
    by (auto simp: wait_arg_def set_at_def)
qed

section \<open>An example program\<close>

text \<open>
  Task 1 waits until a counter is positive, then decrements it; every other task increments it and notifies; a counter that has
  reached 2 makes the function of task 0 fail. The witnesses below run schedules of these tasks.
\<close>

definition counter_proc :: "tid \<Rightarrow> nat proc" where
  "counter_proc t =
     (if t = 1 then \<lparr>p_wait = Some (0, \<lambda>_ n. n = 0), p_inner = False, p_first = None, p_body = (\<lambda>n x. Inr (n - 1, [], x))\<rparr>
      else \<lparr>p_wait = None, p_inner = False, p_first = None,
            p_body = (\<lambda>n x. check (n < 2) ''full'' (Inr (Suc n, [(0, False)], x)))\<rparr>)"

lemma mon_run_reach: "mon_reach P first sh s \<Longrightarrow> mon_run P ts s = Inr s' \<Longrightarrow> mon_reach P first sh s'"
  by (induction ts arbitrary: s) (auto intro: mon_move)

lemmas run_defs = mon_step_def mon_init_def counter_proc_def acquire_call_def acquire_value_call_def acquire_fast_def acquire_slow_def
  enter_section_def after_acquire_def after_first_def first_call_def acquire_slow_call_def acquire_unblocked_def acquire_f_def wait_f_def lock_release_def
  wait_call_def wait_enter_def cv_condition_def owned_by_def lock_available_def wait_unblocked_def then_call_def cv_notify_def
  cv_notify_all_def wait_notify_def wait_notify_value_def wait_notify_stream_def wait_notify_acquire_def release_k_call_def
  wait_k_init_def acquire_k_init_def upd_defs Let_def

lemma counter_waits:
  "\<exists>s. mon_run counter_proc [1, 1] (mon_init (\<lambda>_. Start VVoid) 0) = Inr s \<and> at s 1 = Off \<and> at s 0 = AtAcquire (Start VVoid)"
  by (simp add: run_defs)

lemma counter_resumes:
  "\<exists>s. mon_run counter_proc [1, 1, 0, 0, 0, 1, 1] (mon_init (\<lambda>_. Start VVoid) 0) = Inr s \<and> at s 1 = AtThen (Start VVoid)"
  by (simp add: run_defs)

lemma counter_full:
  "\<exists>s. mon_run counter_proc [0] (mon_init (\<lambda>_. Start VVoid) 2) = Inr s \<and> mon_step counter_proc 0 s = Inl (CheckFailed ''full'')"
  by (simp add: run_defs)

section \<open>Properties of every monitor\<close>

text \<open>
  C6. Mutual exclusion of synchronized sections: in every reachable state of any set of tasks over one lock, at
  most one is between its \<^verbatim>\<open>Acquire\<close> and its \<^verbatim>\<open>Release\<close> and not waiting, whatever the scheduler's order.
\<close>

theorem synchronized_exclusive:
  assumes "mon_reach P first sh s" and "hold_pos (at s t)" and "hold_pos (at s u)"
  shows "t = u"
  using own_task(1) [OF mon_reach_inv [OF assms(1)], of t] own_task(1) [OF mon_reach_inv [OF assms(1)], of u] assms(2,3)
  by simp

theorem synchronized_exclusive_witness:
  "\<exists>s. mon_reach counter_proc (\<lambda>_. Start VVoid) 0 s \<and> hold_pos (at s 1) \<and> \<not> hold_pos (at s 0)"
proof -
  obtain s where s: "mon_run counter_proc [1, 1, 0, 0, 0, 1, 1] (mon_init (\<lambda>_. Start VVoid) 0) = Inr s" "at s 1 = AtThen (Start VVoid)"
    using counter_resumes by blast
  have r: "mon_reach counter_proc (\<lambda>_. Start VVoid) 0 s"
    using mon_run_reach [OF mon_start s(1)] .
  then show ?thesis
    using s(2) synchronized_exclusive [OF r, of 1 0] by auto
qed

text \<open>
  No CHECK in \<^verbatim>\<open>Acquire\<close>, \<^verbatim>\<open>Release\<close>, \<^verbatim>\<open>Wait\<close>, \<^verbatim>\<open>Notify\<close> or \<^verbatim>\<open>NotifyAll\<close> can fail: a step aborts only when the
  function that runs under the lock aborts itself.
\<close>

theorem monitor_aborts_only_in_function:
  assumes "mon_reach P first sh s" and "mon_step P t s = Inl e"
  shows "\<exists>c x. call_arg c = Some x \<and>
    (at s t = AtThen c \<and> p_body (P t) (shared s) x = Inl e \<or>
     at s t = AtFirst c \<and> (\<exists>f. p_first (P t) = Some f \<and> f (shared s) x = Inl e))"
  using mon_step_ok [OF mon_reach_inv [OF assms(1)], of t] assms(2) by (auto simp: mon_ok_def)

theorem monitor_aborts_only_in_function_witness:
  "\<exists>s c x. mon_reach counter_proc (\<lambda>_. Start VVoid) 2 s \<and> mon_step counter_proc 0 s = Inl (CheckFailed ''full'') \<and>
     at s 0 = AtThen c \<and> call_arg c = Some x \<and> p_body (counter_proc 0) (shared s) x = Inl (CheckFailed ''full'')"
proof -
  obtain s where s: "mon_run counter_proc [0] (mon_init (\<lambda>_. Start VVoid) 2) = Inr s" "mon_step counter_proc 0 s = Inl (CheckFailed ''full'')"
    using counter_full by blast
  have r: "mon_reach counter_proc (\<lambda>_. Start VVoid) 2 s"
    using mon_run_reach [OF mon_start s(1)] .
  show ?thesis
    using r s(2) monitor_aborts_only_in_function [OF r s(2)] by (auto simp: counter_proc_def)
qed



text \<open>
  C5. Condition variables are used safely: when the function after a \<^verbatim>\<open>Wait\<close> runs, the lock is held and the wait condition is false,
  even though other tasks may have run between the notification and the resumption.
\<close>

theorem wait_condition_holds_after_wait:
  assumes "mon_reach P first sh s" and "at s t = AtThen c" and "call_arg c = Some x" and "p_wait (P t) = Some (v, f)"
  shows "aowner (mlock s) = Some t \<and> \<not> f (notified (wk s t)) (shared s)"
proof -
  have "minv P (Some t) s"
    using holder_task(2) [OF mon_reach_inv [OF assms(1)], of t] assms(2) by simp
  then show ?thesis
    using holder_owns(1) reach_wait_done [OF assms(1)] assms(2-4) unfolding wait_done_def owned_by_def by blast
qed

theorem wait_condition_holds_after_wait_witness:
  "\<exists>s. mon_reach counter_proc (\<lambda>_. Start VVoid) 0 s \<and> at s 1 = AtThen (Start VVoid) \<and> aowner (mlock s) = Some 1 \<and> shared s \<noteq> 0"
proof -
  obtain s where s: "mon_run counter_proc [1, 1, 0, 0, 0, 1, 1] (mon_init (\<lambda>_. Start VVoid) 0) = Inr s" "at s 1 = AtThen (Start VVoid)"
    using counter_resumes by blast
  have r: "mon_reach counter_proc (\<lambda>_. Start VVoid) 0 s"
    using mon_run_reach [OF mon_start s(1)] .
  show ?thesis
    using r s(2) wait_condition_holds_after_wait [OF r s(2), of VVoid 0 "\<lambda>_ n. n = 0"] by (auto simp: counter_proc_def)
qed

end
