(* ===== verification/Monitor_Clients.thy ===== *)
theory Monitor_Clients
  imports Monitor_Theorems
begin

text \<open>
  What the classes built on a lock rely on.

  \<^item> Atomicity: an execution of any tasks over one lock is, for the shared state, a sequential run of the
    functions under the lock in the order in which they run (\<open>seq_run\<close>), each with its wait condition false.
  \<^item> The locale \<open>monitor_object\<close>: an invariant of the shared state that the functions keep is kept by
    every execution, and no step aborts.
  \<^item> The locale \<open>wakeups\<close>: a discipline for notifying a condition variable under which no waiter is stranded.
    Consumers wait until an amount is positive or a flag is raised; whoever adds to the amount
    notifies once per unit, whoever raises the flag notifies all.
\<close>

section \<open>Traces\<close>

datatype event = FirstE tid val | ThenE tid val val

definition event_of :: "(tid \<Rightarrow> 's proc) \<Rightarrow> tid \<Rightarrow> 's mon \<Rightarrow> event list" where
  "event_of P t s =
     (case at s t of
        AtThen c \<Rightarrow>
          (case call_arg c of
             None \<Rightarrow> []
           | Some x \<Rightarrow> (case p_body (P t) (shared s) x of Inl _ \<Rightarrow> [] | Inr (sh, ns, r) \<Rightarrow> [ThenE t x r]))
      | AtFirst c \<Rightarrow>
          (case (call_arg c, p_first (P t)) of
             (Some x, Some f) \<Rightarrow> (case f (shared s) x of Inl _ \<Rightarrow> [] | Inr _ \<Rightarrow> [FirstE t x])
           | _ \<Rightarrow> [])
      | _ \<Rightarrow> [])"

inductive mon_trace :: "(tid \<Rightarrow> 's proc) \<Rightarrow> (tid \<Rightarrow> call) \<Rightarrow> 's \<Rightarrow> event list \<Rightarrow> 's mon \<Rightarrow> bool" for P first sh where
  trace_start: "mon_trace P first sh [] (mon_init first sh)"
| trace_move: "mon_trace P first sh tr s \<Longrightarrow> mon_step P t s = Inr s' \<Longrightarrow> mon_trace P first sh (tr @ event_of P t s) s'"
| trace_next: "mon_trace P first sh tr s \<Longrightarrow> at s t = AtDone c \<Longrightarrow> next_call c' \<Longrightarrow> mon_trace P first sh tr (set_at t (AtAcquire c') s)"

lemma trace_reach: "mon_trace P first sh tr s \<Longrightarrow> mon_reach P first sh s"
  by (induction rule: mon_trace.induct) (auto intro: mon_reach.intros)

lemma reach_trace: "mon_reach P first sh s \<Longrightarrow> \<exists>tr. mon_trace P first sh tr s"
  by (induction rule: mon_reach.induct) (blast intro: mon_trace.intros)+

definition may_run :: "'s proc \<Rightarrow> 's \<Rightarrow> bool" where
  "may_run p s \<longleftrightarrow> (\<forall>v f. p_wait p = Some (v, f) \<longrightarrow> (\<exists>b. \<not> f b s))"

inductive seq_event :: "(tid \<Rightarrow> 's proc) \<Rightarrow> event \<Rightarrow> 's \<Rightarrow> 's \<Rightarrow> bool" for P where
  seq_then: "may_run (P t) s \<Longrightarrow> p_body (P t) s x = Inr (s', ns, r) \<Longrightarrow> seq_event P (ThenE t x r) s s'"
| seq_first: "p_first (P t) = Some f \<Longrightarrow> f s x = Inr (s', ns) \<Longrightarrow> seq_event P (FirstE t x) s s'"

inductive_simps seq_event_simps: "seq_event P (ThenE t x r) s s'" "seq_event P (FirstE t x) s s'"

inductive seq_run :: "(tid \<Rightarrow> 's proc) \<Rightarrow> 's \<Rightarrow> event list \<Rightarrow> 's \<Rightarrow> bool" for P sh where
  seq_nil: "seq_run P sh [] sh"
| seq_snoc: "seq_run P sh tr s \<Longrightarrow> seq_event P e s s' \<Longrightarrow> seq_run P sh (tr @ [e]) s'"

lemma section_shared:
  assumes "minv P (Some t) s" "do_notifies t ns (s\<lparr>shared := sh\<rparr>) = Inr s1"
  shows "shared s1 = sh"
proof -
  have "minv P (Some t) (s\<lparr>shared := sh\<rparr>)"
    by (rule holding_move [OF assms(1)]) (use holder_owns [OF assms(1)] own_task(7) [OF assms(1)] in auto)
  from do_notifies_ok [OF this, of ns] show ?thesis
    using assms(2) by auto
qed

lemma quiet_event:
  assumes "\<forall>c. at s t = AtThen c \<longrightarrow> call_arg c = None" "\<forall>c. at s t = AtFirst c \<longrightarrow> call_arg c = None \<or> p_first (P t) = None"
  shows "event_of P t s = []"
  using assms by (auto simp: event_of_def split: pos.splits option.splits)

lemma step_event:
  assumes r: "mon_reach P first sh s" and step: "mon_step P t s = Inr s'"
  shows "event_of P t s = [] \<and> shared s' = shared s \<or> (\<exists>e. event_of P t s = [e] \<and> seq_event P e (shared s) (shared s'))"
proof -
  note inv = mon_reach_inv [OF r]
  note eff = step_effect [OF inv step]
  consider (th) c x where "at s t = AtThen c" "call_arg c = Some x" | (fi) c x f where "at s t = AtFirst c" "call_arg c = Some x" "p_first (P t) = Some f"
    | (other) "\<forall>c. at s t = AtThen c \<longrightarrow> call_arg c = None" "\<forall>c. at s t = AtFirst c \<longrightarrow> call_arg c = None \<or> p_first (P t) = None"
    by fastforce
  then show ?thesis
  proof cases
    case th
    have h: "minv P (Some t) s"
      using holder_task(2) [OF inv, of t] th(1) by simp
    obtain sh' ns v s1 where b: "p_body (P t) (shared s) x = Inr (sh', ns, v)" "do_notifies t ns (s\<lparr>shared := sh'\<rparr>) = Inr s1"
        "shared s' = shared s1"
      using step th by (auto simp: mon_step_def then_call_def set_at_def)
    have "may_run (P t) (shared s)"
      using reach_wait_done [OF r] th unfolding wait_done_def may_run_def by blast
    then have "seq_event P (ThenE t x v) (shared s) (shared s')"
      using b section_shared [OF h b(2)] by (auto intro: seq_then)
    then show ?thesis
      using th b by (simp add: event_of_def)
  next
    case fi
    have h: "minv P (Some t) s"
      using holder_task(2) [OF inv, of t] fi(1) by simp
    obtain sh' ns s1 where b: "f (shared s) x = Inr (sh', ns)" "do_notifies t ns (s\<lparr>shared := sh'\<rparr>) = Inr s1"
        "shared s' = shared s1"
      using step fi by (auto simp: mon_step_def first_call_def set_at_def)
    have "seq_event P (FirstE t x) (shared s) (shared s')"
      using b fi(3) section_shared [OF h b(2)] by (auto intro: seq_first)
    then show ?thesis
      using fi b by (simp add: event_of_def)
  next
    case other
    have "shared s' = shared s"
      using eff by cases (use other in auto)
    then show ?thesis
      using quiet_event [of s t P] other by simp
  qed
qed

lemma trace_seq_run: "mon_trace P first sh tr s \<Longrightarrow> seq_run P sh tr (shared s)"
proof (induction rule: mon_trace.induct)
  case trace_start
  then show ?case
    by (simp add: mon_init_def seq_nil)
next
  case (trace_move tr s t s')
  then show ?case
    using step_event [OF trace_reach [OF trace_move(1)] trace_move(2)] by (auto intro: seq_snoc)
next
  case (trace_next tr s t c c')
  then show ?case
    by (simp add: set_at_def)
qed

section \<open>Invariants of the shared state\<close>

locale monitor_object =
  fixes P :: "tid \<Rightarrow> 's proc" and I :: "'s \<Rightarrow> bool" and sh :: 's
  assumes init_ok: "I sh"
    and first_keeps: "I s \<Longrightarrow> p_first (P t) = Some f \<Longrightarrow> \<exists>s' ns. f s x = Inr (s', ns) \<and> I s'"
    and body_keeps: "I s \<Longrightarrow> may_run (P t) s \<Longrightarrow> \<exists>s' ns r. p_body (P t) s x = Inr (s', ns, r) \<and> I s'"
begin

lemma event_keeps:
  assumes "seq_event P e s s'" "I s"
  shows "I s'"
  using assms(1)
proof cases
  case (seq_then t x ns r)
  then show ?thesis
    using body_keeps [OF assms(2) seq_then(2), of x] by auto
next
  case (seq_first t f x ns)
  then show ?thesis
    using first_keeps [OF assms(2) seq_first(2), of x] by auto
qed

lemma run_keeps: "seq_run P sh tr s \<Longrightarrow> I s"
  by (induction rule: seq_run.induct) (use init_ok event_keeps in auto)

lemma reach_keeps:
  assumes "mon_reach P first sh s"
  shows "I (shared s)"
  using reach_trace [OF assms] trace_seq_run [of P first sh _ s] run_keeps [of _ "shared s"] by blast

lemma step_never_aborts:
  assumes r: "mon_reach P first sh s"
  shows "\<exists>s'. mon_step P t s = Inr s'"
proof -
  note I = reach_keeps [OF r]
  consider "mon_ok P (mon_step P t s)"
    | (th) c x e where "at s t = AtThen c" "call_arg c = Some x" "p_body (P t) (shared s) x = Inl e"
    | (fi) x f e where "p_first (P t) = Some f" "f (shared s) x = Inl e"
    using mon_step_ok [OF mon_reach_inv [OF r], of t] by metis
  then show ?thesis
  proof cases
    case th
    have "may_run (P t) (shared s)"
      using reach_wait_done [OF r] th unfolding wait_done_def may_run_def by blast
    then show ?thesis
      using body_keeps [OF I, of t x] th by auto
  next
    case fi
    then show ?thesis
      using first_keeps [OF I fi(1), of x] by auto
  qed (auto simp: mon_ok_def)
qed

end

section \<open>Notifications keep no waiter stranded\<close>

definition notify_count :: "cv \<Rightarrow> (cv \<times> bool) list \<Rightarrow> nat" where
  "notify_count v ns = length (filter (\<lambda>n. n = (v, False)) ns)"

lemma length_filter_mono: "(\<And>x. x \<in> set xs \<Longrightarrow> p x \<Longrightarrow> q x) \<Longrightarrow> length (filter p xs) \<le> length (filter q xs)"
  by (induction xs) auto

text \<open>
  Notifications take the first tasks of a list: if some are left, nobody notified all, and at least one was taken for
  each single notification.
\<close>

lemma do_notifies_cv:
  assumes "minv P (Some h) s" "do_notifies h ns s = Inr s'"
  shows "\<exists>us. aq (mlock s') = aq (mlock s) @ map (\<lambda>t. (t, WaitW)) us \<and> (\<forall>t. t \<in> set us \<longrightarrow> on_cv s t) \<and>
    set (cvs s' v) \<subseteq> set (cvs s v) \<and>
    (cvs s' v \<noteq> [] \<longrightarrow> (v, True) \<notin> set ns \<and> notify_count v ns \<le> length (filter (\<lambda>t. t \<in> set (cvs s v)) us))"
  using assms
proof (induction ns arbitrary: s)
  case Nil
  then show ?case
    by (simp add: notify_count_def)
next
  case (Cons n ns)
  obtain v' b where n: "n = (v', b)"
    by (cases n)
  obtain s1 ts where s1: "(if b then cv_notify_all h v' s else cv_notify h v' s) = Inr s1" "minv P (Some h) s1"
      "notified_from s s1 v' ts" "ts = (if b then cvs s v' else take 1 (cvs s v'))"
    using cv_notify_ok [OF Cons.prems(1), of v'] cv_notify_all_ok [OF Cons.prems(1), of v'] by (cases b) auto
  note nf = s1(3) [unfolded notified_from_def]
  have "do_notifies h ns s1 = Inr s'"
    using Cons.prems(2) n s1(1) by simp
  from Cons.IH [OF s1(2) this] obtain us where u: "aq (mlock s') = aq (mlock s1) @ map (\<lambda>t. (t, WaitW)) us"
      "\<forall>t. t \<in> set us \<longrightarrow> on_cv s1 t" "set (cvs s' v) \<subseteq> set (cvs s1 v)"
      "cvs s' v \<noteq> [] \<Longrightarrow> (v, True) \<notin> set ns \<and> notify_count v ns \<le> length (filter (\<lambda>t. t \<in> set (cvs s1 v)) us)"
    by blast
  have sub: "set (cvs s1 w) \<subseteq> set (cvs s w)" for w
    using nf by (cases "w = v'") auto
  have "aq (mlock s') = aq (mlock s) @ map (\<lambda>t. (t, WaitW)) (ts @ us)"
    using nf u(1) by simp
  moreover have "on_cv s t" if m: "t \<in> set (ts @ us)" for t
  proof (cases "t \<in> set ts")
    case True
    then have "t \<in> set (cvs s v')"
      using nf by simp
    then show ?thesis
      by (auto simp: on_cv_def)
  next
    case False
    then obtain w where "t \<in> set (cvs s1 w)"
      using m u(2) by (auto simp: on_cv_def)
    then show ?thesis
      using sub [of w] by (auto simp: on_cv_def)
  qed
  moreover have "(v, True) \<notin> set (n # ns) \<and> notify_count v (n # ns) \<le> length (filter (\<lambda>t. t \<in> set (cvs s v)) (ts @ us))"
    if left: "cvs s' v \<noteq> []"
  proof -
    have "notify_count v ns \<le> length (filter (\<lambda>t. t \<in> set (cvs s v)) us)"
      using u(4) [OF left] length_filter_mono [of us "\<lambda>t. t \<in> set (cvs s1 v)" "\<lambda>t. t \<in> set (cvs s v)"] sub [of v] by fastforce
    moreover have "\<not> b \<and> length (filter (\<lambda>t. t \<in> set (cvs s v)) ts) = 1" if "v' = v"
    proof -
      have "cvs s1 v \<noteq> []"
        using left u(3) by auto
      then show ?thesis
        using nf s1(4) that by (cases "cvs s v"; cases b) auto
    qed
    ultimately show ?thesis
      using u(4) [OF left] by (cases "v' = v") (auto simp: n notify_count_def)
  qed
  ultimately show ?case
    using u(3) sub [of v] by blast
qed

lemma section_cv:
  assumes "minv P (Some t) s" "do_notifies t ns (s\<lparr>shared := sh\<rparr>) = Inr s1"
  shows "\<exists>us. aq (mlock s1) = aq (mlock s) @ map (\<lambda>t. (t, WaitW)) us \<and> (\<forall>t. t \<in> set us \<longrightarrow> on_cv s t) \<and>
    set (cvs s1 v) \<subseteq> set (cvs s v) \<and>
    (cvs s1 v \<noteq> [] \<longrightarrow> (v, True) \<notin> set ns \<and> notify_count v ns \<le> length (filter (\<lambda>t. t \<in> set (cvs s v)) us))"
proof -
  have "minv P (Some t) (s\<lparr>shared := sh\<rparr>)"
    by (rule holding_move [OF assms(1)]) (use holder_owns [OF assms(1)] own_task(7) [OF assms(1)] in auto)
  from do_notifies_cv [OF this assms(2), of v] show ?thesis
    by (simp add: on_cv_def)
qed

definition waits_on :: "'s proc \<Rightarrow> cv \<Rightarrow> bool" where
  "waits_on p v \<longleftrightarrow> (\<exists>f. p_wait p = Some (v, f))"

text \<open>The tasks on the list of a condition variable have a \<^verbatim>\<open>Wait\<close> on it.\<close>

definition cv_members :: "(tid \<Rightarrow> 's proc) \<Rightarrow> 's mon \<Rightarrow> bool" where
  "cv_members P s \<longleftrightarrow> (\<forall>v t. t \<in> set (cvs s v) \<longrightarrow> waits_on (P t) v)"

lemma cv_members_step:
  assumes inv: "minv P (holder s) s" and step: "mon_effect P t s s'" and m: "cv_members P s"
  shows "cv_members P s'"
  using step
proof cases
  case quiet
  then show ?thesis
    using m by (simp add: cv_members_def)
next
  case (park c v f)
  then show ?thesis
    using m by (auto simp: cv_members_def waits_on_def split: if_splits)
next
  case (body c x sh ns r s1 c')
  have "set (cvs s' v) \<subseteq> set (cvs s v)" for v
    using section_cv [OF holder_task(2) [OF inv] body(4), of v] body(1,5) by (auto simp: set_at_def)
  then show ?thesis
    using m unfolding cv_members_def by blast
next
  case (first c x f sh ns s1)
  have "set (cvs s' v) \<subseteq> set (cvs s v)" for v
    using section_cv [OF holder_task(2) [OF inv] first(5), of v] first(1,6) by (auto simp: set_at_def)
  then show ?thesis
    using m unfolding cv_members_def by blast
next
  case (release c)
  then show ?thesis
    using m by (simp add: cv_members_def)
qed

lemma reach_cv_members: "mon_reach P first sh s \<Longrightarrow> cv_members P s"
proof (induction rule: mon_reach.induct)
  case mon_start
  then show ?case
    by (simp add: cv_members_def mon_init_def)
next
  case (mon_move s t s')
  then show ?case
    using cv_members_step [OF mon_reach_inv [OF mon_move(1)] step_effect [OF mon_reach_inv [OF mon_move(1)] mon_move(2)]] by blast
next
  case (mon_next s t c c')
  then show ?case
    by (simp add: cv_members_def set_at_def)
qed

text \<open>
  The woken waiters of a condition variable: notified, and not yet done with the function after the \<^verbatim>\<open>Wait\<close>.
\<close>

fun before_then :: "pos \<Rightarrow> bool" where
  "before_then Off = True"
| "before_then (RunNotified _) = True"
| "before_then (AtWait _) = True"
| "before_then (AtThen _) = True"
| "before_then _ = False"

definition is_woken :: "(tid \<Rightarrow> 's proc) \<Rightarrow> cv \<Rightarrow> (tid \<Rightarrow> pos) \<Rightarrow> tid \<times> wkind \<Rightarrow> bool" where
  "is_woken P v a w \<longleftrightarrow> snd w = WaitW \<and> waits_on (P (fst w)) v \<and> before_then (a (fst w))"

definition woken :: "(tid \<Rightarrow> 's proc) \<Rightarrow> cv \<Rightarrow> 's mon \<Rightarrow> nat" where
  "woken P v s = length (filter (is_woken P v (at s)) (aq (mlock s)))"

lemma woken_mono:
  assumes "aq (mlock s') = aq (mlock s) @ ws" "\<And>w. w \<in> set (aq (mlock s)) \<Longrightarrow> is_woken P v (at s) w \<Longrightarrow> is_woken P v (at s') w"
  shows "woken P v s \<le> woken P v s'"
  using length_filter_mono [of "aq (mlock s)" "is_woken P v (at s)" "is_woken P v (at s')"] assms by (simp add: woken_def)

lemma woken_own_move:
  assumes inv: "minv P (holder s) s" "minv P (holder s') s'" "wait_arg s"
    and others: "\<And>u. u \<noteq> t \<Longrightarrow> at s' u = at s u"
    and aq: "aq (mlock s') = aq (mlock s) \<or> aq (mlock s') = aq (mlock s) @ [(t, AcquireW)] \<and> \<not> hold_pos (at s t)"
    and p: "\<And>c. at s' t = AtRelease c \<Longrightarrow> at s t = AtThen c \<and> call_arg c = None" "\<And>c. at s' t = RunAcquired c \<Longrightarrow> at s t = AtAcquireSlow"
      "\<And>c. at s' t = AtFirst c \<Longrightarrow> at s t = RunAcquired c \<or> at s t = AtAcquire c"
  shows "woken P v s \<le> woken P v s'"
proof -
  obtain ws where ws: "aq (mlock s') = aq (mlock s) @ ws"
    using aq by auto
  show ?thesis
  proof (rule woken_mono [OF ws])
    fix w
    assume w: "w \<in> set (aq (mlock s))" "is_woken P v (at s) w"
    show "is_woken P v (at s') w"
    proof (cases "fst w = t")
      case True
      then have t: "(t, WaitW) \<in> set (aq (mlock s))" "before_then (at s t)"
        using w by (cases w; simp add: is_woken_def)+
      then have "at s' t = Off \<or> hold_pos (at s' t)"
        using in_queue_cases [OF inv(2), of t WaitW] ws by simp
      then have "before_then (at s' t)"
        using p t wait_argD(2) [OF inv(3) t(1)] by (cases "at s' t") auto
      then show ?thesis
        using w True by (simp add: is_woken_def)
    qed (use w others in \<open>simp add: is_woken_def\<close>)
  qed
qed

lemma woken_released:
  assumes inv: "minv P (holder s) s" and t: "hold_pos (at s t)" "\<not> waits_on (P t) v \<or> \<not> before_then (at s t)"
    and k: "others_kept t s s'" "aq (mlock s') = tl (aq (mlock s))"
  shows "woken P v s \<le> woken P v s'"
proof -
  note h = holder_task [OF inv t(1)]
  obtain kd ws where aq: "aq (mlock s) = (t, kd) # ws"
    using minvD(4) [OF h(2) refl] by (cases "aq (mlock s)") auto
  have "is_woken P v (at s') w" if w: "w \<in> set ws" "is_woken P v (at s) w" for w
  proof -
    obtain u ku where uk: "w = (u, ku)"
      by (cases w)
    have u: "w = (u, WaitW)" "before_then (at s u)" "u \<noteq> t"
      using w minvD(1) [OF inv] uk unfolding aq by (auto simp: is_woken_def rev_image_eqI)
    have "(u, AcquireW) \<notin> set (aq (mlock s))"
      using one_kind [OF inv, of u AcquireW WaitW] w(1) u(1) aq by auto
    then have "before_then (at s' u)"
      using others_keptD(1) [OF k(1) u(3)] u(2) by auto
    then show ?thesis
      using w(2) u(1) by (simp add: is_woken_def)
  qed
  then have "length (filter (is_woken P v (at s)) ws) \<le> length (filter (is_woken P v (at s')) ws)"
    by (rule length_filter_mono)
  moreover have "\<not> is_woken P v (at s) (t, kd)"
    using t(2) by (auto simp: is_woken_def)
  ultimately show ?thesis
    using aq k(2) by (simp add: woken_def)
qed

lemma woken_section:
  assumes inv: "minv P (Some t) s" and m: "cv_members P s" and others: "\<And>u. u \<noteq> t \<Longrightarrow> at s' u = at s u"
    and us: "aq (mlock s') = aq (mlock s) @ map (\<lambda>t. (t, WaitW)) us" "\<forall>t. t \<in> set us \<longrightarrow> on_cv s t"
  shows "woken P v s + length (filter (\<lambda>u. u \<in> set (cvs s v)) us) \<le>
    woken P v s' + (if waits_on (P t) v \<and> before_then (at s t) then 1 else 0)"
proof -
  obtain kd ws where aq: "aq (mlock s) = (t, kd) # ws"
    using minvD(4) [OF inv refl] by (cases "aq (mlock s)") auto
  have nt: "fst w \<noteq> t" if "w \<in> set ws" for w
    using minvD(1) [OF inv] that unfolding aq by (auto simp: rev_image_eqI)
  have "filter (is_woken P v (at s')) ws = filter (is_woken P v (at s)) ws"
    by (rule filter_cong) (use nt others in \<open>auto simp: is_woken_def\<close>)
  moreover have "length (filter (\<lambda>u. u \<in> set (cvs s v)) us) \<le> length (filter (is_woken P v (at s') \<circ> (\<lambda>t. (t, WaitW))) us)"
  proof (rule length_filter_mono)
    fix u
    assume u: "u \<in> set us" "u \<in> set (cvs s v)"
    have "at s u = Off"
      using own_task(2) [OF inv, of u] us(2) u(1) by blast
    moreover have "at s t \<noteq> Off"
      using holder_owns(3) [OF inv] by auto
    ultimately have "at s' u = Off"
      using others [of u] by auto
    then show "(is_woken P v (at s') \<circ> (\<lambda>t. (t, WaitW))) u"
      using m u(2) by (auto simp: is_woken_def cv_members_def)
  qed
  ultimately show ?thesis
    using aq us(1) by (auto simp: woken_def filter_map is_woken_def)
qed

locale wakeups =
  fixes P :: "tid \<Rightarrow> 's proc" and v :: cv and amount :: "'s \<Rightarrow> nat" and flag :: "'s \<Rightarrow> bool"
  assumes wait_condition: "p_wait (P t) = Some (v, f) \<Longrightarrow> f b s \<longleftrightarrow> amount s = 0 \<and> \<not> flag s"
    and consumes: "waits_on (P t) v \<Longrightarrow> p_body (P t) s x = Inr (s', ns, r) \<Longrightarrow>
      amount s' \<le> amount s - 1 \<and> (flag s' \<longrightarrow> flag s \<or> (v, True) \<in> set ns)"
    and produces: "\<not> waits_on (P t) v \<Longrightarrow> p_body (P t) s x = Inr (s', ns, r) \<Longrightarrow>
      (v, True) \<in> set ns \<or> amount s' \<le> amount s + notify_count v ns \<and> (flag s' \<longrightarrow> flag s)"
    and first_produces: "p_first (P t) = Some g \<Longrightarrow> g s x = Inr (s', ns) \<Longrightarrow>
      (v, True) \<in> set ns \<or> amount s' \<le> amount s + notify_count v ns \<and> (flag s' \<longrightarrow> flag s)"
begin

definition none_stranded :: "'s mon \<Rightarrow> bool" where
  "none_stranded s \<longleftrightarrow> (cvs s v \<noteq> [] \<longrightarrow> \<not> flag (shared s) \<and> amount (shared s) \<le> woken P v s)"

lemma stranded_kept:
  "none_stranded s \<Longrightarrow> shared s' = shared s \<Longrightarrow> cvs s' v = cvs s v \<Longrightarrow> woken P v s \<le> woken P v s' \<Longrightarrow> none_stranded s'"
  by (auto simp: none_stranded_def)

lemma stranded_step:
  assumes r: "mon_reach P first sh s" and step: "mon_step P t s = Inr s'" and n: "none_stranded s"
  shows "none_stranded s'"
proof -
  note inv = mon_reach_inv [OF r]
  note inv' = mon_reach_inv [OF mon_move [OF r step]]
  note m = reach_cv_members [OF r]
  from step_effect [OF inv step] show ?thesis
  proof cases
    case quiet
    then show ?thesis
      using woken_own_move [OF inv inv' reach_wait_arg [OF r] _ quiet(4,6,8,10)] by (intro stranded_kept [OF n]) auto
  next
    case (park c w f)
    show ?thesis
    proof (cases "w = v")
      case True
      then show ?thesis
        using park wait_condition [of t f "notified (wk s t)" "shared s"] by (simp add: none_stranded_def)
    next
      case False
      then have "\<not> waits_on (P t) v"
        using park(3) by (auto simp: waits_on_def)
      then show ?thesis
        using park False woken_released [OF inv, of t v s'] by (intro stranded_kept [OF n]) auto
    qed
  next
    case (release c)
    then show ?thesis
      using woken_released [OF inv, of t v s'] by (intro stranded_kept [OF n]) auto
  next
    case (first c x f sh' ns s1)
    have h: "minv P (Some t) s"
      using holder_task(2) [OF inv, of t] first(1) by simp
    obtain us where us: "aq (mlock s1) = aq (mlock s) @ map (\<lambda>t. (t, WaitW)) us" "\<forall>t. t \<in> set us \<longrightarrow> on_cv s t"
        "set (cvs s1 v) \<subseteq> set (cvs s v)"
        "cvs s1 v \<noteq> [] \<longrightarrow> (v, True) \<notin> set ns \<and> notify_count v ns \<le> length (filter (\<lambda>t. t \<in> set (cvs s v)) us)"
      using section_cv [OF h first(5), of v] by blast
    have s': "shared s' = sh'" "cvs s' = cvs s1" "mlock s' = mlock s1" "\<And>u. u \<noteq> t \<Longrightarrow> at s' u = at s u"
      using first(6) section_shared [OF h first(5)] section_moves(1) [OF h first(5)] by (auto simp: set_at_def)
    have "woken P v s + length (filter (\<lambda>u. u \<in> set (cvs s v)) us) \<le> woken P v s'"
      using woken_section [OF h m s'(4), of us v] us(1,2) s'(3) first(1) by simp
    then show ?thesis
      using n us(3,4) first_produces [OF first(3,4)] s'(1,2) by (auto simp: none_stranded_def)
  next
    case (body c x sh' ns b s1 c')
    have h: "minv P (Some t) s"
      using holder_task(2) [OF inv, of t] body(1) by simp
    obtain us where us: "aq (mlock s1) = aq (mlock s) @ map (\<lambda>t. (t, WaitW)) us" "\<forall>t. t \<in> set us \<longrightarrow> on_cv s t"
        "set (cvs s1 v) \<subseteq> set (cvs s v)"
        "cvs s1 v \<noteq> [] \<longrightarrow> (v, True) \<notin> set ns \<and> notify_count v ns \<le> length (filter (\<lambda>t. t \<in> set (cvs s v)) us)"
      using section_cv [OF h body(4), of v] by blast
    have s': "shared s' = sh'" "cvs s' = cvs s1" "mlock s' = mlock s1" "\<And>u. u \<noteq> t \<Longrightarrow> at s' u = at s u"
      using body(5) section_shared [OF h body(4)] section_moves(1) [OF h body(4)] by (auto simp: set_at_def)
    have w: "woken P v s + length (filter (\<lambda>u. u \<in> set (cvs s v)) us) \<le> woken P v s' + (if waits_on (P t) v then 1 else 0)"
      using woken_section [OF h m s'(4), of us v] us(1,2) s'(3) body(1) by simp
    show ?thesis
    proof (cases "waits_on (P t) v")
      case True
      then show ?thesis
        using n us(3,4) w consumes [OF True body(3)] s'(1,2) by (auto simp: none_stranded_def)
    next
      case False
      then show ?thesis
        using n us(3,4) w produces [OF False body(3)] s'(1,2) by (auto simp: none_stranded_def)
    qed
  qed
qed

lemma reach_none_stranded: "mon_reach P first sh s \<Longrightarrow> none_stranded s"
proof (induction rule: mon_reach.induct)
  case mon_start
  then show ?case
    by (simp add: none_stranded_def mon_init_def)
next
  case (mon_move s t s')
  then show ?case
    using stranded_step by blast
next
  case (mon_next s t c c')
  have "woken P v s \<le> woken P v (set_at t (AtAcquire c') s)"
    by (rule woken_own_move [OF mon_reach_inv [OF mon_next(1)] mon_reach_inv [OF mon_reach.mon_next [OF mon_next(1-3)]]
          reach_wait_arg [OF mon_next(1)]]) (auto simp: set_at_def)
  from stranded_kept [OF mon_next(4) _ _ this] show ?case
    by (simp add: set_at_def)
qed

lemma waiter_not_stranded:
  assumes r: "mon_reach P first sh s" and w: "t \<in> set (cvs s v)"
  shows "\<not> flag (shared s) \<and>
    (amount (shared s) = 0 \<or> (\<exists>u. (u, WaitW) \<in> set (aq (mlock s)) \<and> waits_on (P u) v \<and> before_then (at s u)))"
proof -
  have "\<not> flag (shared s)" "amount (shared s) \<le> woken P v s"
    using reach_none_stranded [OF r] w by (auto simp: none_stranded_def)
  moreover have "\<exists>u. (u, WaitW) \<in> set (aq (mlock s)) \<and> waits_on (P u) v \<and> before_then (at s u)" if "woken P v s \<noteq> 0"
  proof -
    obtain x where "x \<in> set (aq (mlock s))" "is_woken P v (at s) x"
      using \<open>woken P v s \<noteq> 0\<close> by (auto simp: woken_def filter_empty_conv)
    moreover obtain u k where "x = (u, k)"
      by (cases x)
    ultimately show ?thesis
      by (auto simp: is_woken_def)
  qed
  ultimately show ?thesis
    by fastforce
qed

end

text \<open>Nothing is under way: every task is suspended, has passed on its last call, or has not been called yet.\<close>

definition quiescent :: "'s mon \<Rightarrow> bool" where
  "quiescent s \<longleftrightarrow> (\<forall>t. at s t = Off \<or> (\<exists>c. at s t = AtDone c \<or> at s t = AtAcquire c))"

lemma quiescent_unlocked:
  assumes "mon_reach P first sh s" "quiescent s"
  shows "aq (mlock s) = []"
proof (rule ccontr)
  assume "aq (mlock s) \<noteq> []"
  then obtain h where h: "holder s = Some h"
    by (cases "holder s") (auto simp: holder_None)
  then have "hold_pos (at s h)"
    using own_task(1) [OF mon_reach_inv [OF assms(1)], of h] by simp
  then show False
    using assms(2) [unfolded quiescent_def, rule_format, of h] by auto
qed

end
