(* ===== verification/Channels.thy ===== *)
theory Channels
  imports Monitor_Clients
begin

text \<open>
  The classes built on a lock and condition variables: \<^verbatim>\<open>Notification\<close> (\<^verbatim>\<open>notification.h\<close>), \<^verbatim>\<open>Pipe\<close> (\<^verbatim>\<open>pipe.h\<close>) and
  \<^verbatim>\<open>RequestResponseChannel\<close> (\<^verbatim>\<open>request-response-channel.h\<close>).

  Each class is a record of its members and one \<open>proc\<close> per member function: the condition it waits for, what runs
  under the lock, and whom it notifies. The argument \<open>ops\<close> gives each task its operation, so the theorems are about any
  number of concurrent users of one object. The classes interpret \<open>monitor_object\<close> and \<open>wakeups\<close>; a task may
  be handed further calls when it is part of a stream.
\<close>

section \<open>Notification\<close>

datatype notification_op = NNotify | NWait

definition notification_cv :: cv where
  "notification_cv = 0"

definition notification_notify :: "bool \<Rightarrow> val \<Rightarrow> (bool \<times> (cv \<times> bool) list \<times> val) res" where
  "notification_notify ntfd _ =
     check (\<not> ntfd) ''Notification can not be notified more than once'' (Inr (True, [(notification_cv, True)], VVoid))"

definition notification_proc :: "notification_op \<Rightarrow> bool proc" where
  "notification_proc op =
     (case op of
        NNotify \<Rightarrow> \<lparr>p_wait = None, p_inner = False, p_first = None, p_body = notification_notify\<rparr>
      | NWait \<Rightarrow> \<lparr>p_wait = Some (notification_cv, \<lambda>_ ntfd. \<not> ntfd), p_inner = True, p_first = None,
                  p_body = (\<lambda>ntfd _. Inr (ntfd, [], VVoid))\<rparr>)"

section \<open>Pipe\<close>

record pipe =
  pipe_values :: "val list"
  is_closed :: bool

definition Pipe :: pipe where
  "Pipe = \<lparr>pipe_values = [], is_closed = False\<rparr>"

definition has_values_or_closed :: cv where
  "has_values_or_closed = 0"

definition closed_and_empty :: cv where
  "closed_and_empty = 1"

datatype pipe_op = PWrite val | PRead | PClose | PSize | PIsClosed | PWaitForClosedAndEmpty

definition pipe_write :: "val \<Rightarrow> pipe \<Rightarrow> val \<Rightarrow> (pipe \<times> (cv \<times> bool) list \<times> val) res" where
  "pipe_write value p _ =
     Inr (if \<not> is_closed p then (p\<lparr>pipe_values := pipe_values p @ [value]\<rparr>, [(has_values_or_closed, False)], VVoid)
          else (p, [], VVoid))"

definition pipe_read :: "pipe \<Rightarrow> val \<Rightarrow> (pipe \<times> (cv \<times> bool) list \<times> val) res" where
  "pipe_read p _ =
     (case pipe_values p of
        value # rest \<Rightarrow>
          Inr (p\<lparr>pipe_values := rest\<rparr>, if is_closed p \<and> rest = [] then [(closed_and_empty, True)] else [], VOpt (Some value))
      | [] \<Rightarrow> check (is_closed p) ''is_closed_'' (Inr (p, [], VOpt None)))"

definition pipe_close :: "pipe \<Rightarrow> val \<Rightarrow> (pipe \<times> (cv \<times> bool) list \<times> val) res" where
  "pipe_close p _ =
     Inr (p\<lparr>is_closed := True\<rparr>,
          (has_values_or_closed, True) # (if pipe_values p = [] then [(closed_and_empty, True)] else []), VVoid)"

definition pipe_size :: "pipe \<Rightarrow> val \<Rightarrow> (pipe \<times> (cv \<times> bool) list \<times> val) res" where
  "pipe_size p _ = Inr (p, [], VSize (of_nat (length (pipe_values p))))"

definition pipe_is_closed :: "pipe \<Rightarrow> val \<Rightarrow> (pipe \<times> (cv \<times> bool) list \<times> val) res" where
  "pipe_is_closed p _ = Inr (p, [], VBool (is_closed p))"

definition pipe_proc :: "pipe_op \<Rightarrow> pipe proc" where
  "pipe_proc op =
     (case op of
        PWrite value \<Rightarrow> \<lparr>p_wait = None, p_inner = False, p_first = None, p_body = pipe_write value\<rparr>
      | PRead \<Rightarrow> \<lparr>p_wait = Some (has_values_or_closed, \<lambda>_ p. pipe_values p = [] \<and> \<not> is_closed p), p_inner = True, p_first = None,
                   p_body = pipe_read\<rparr>
      | PClose \<Rightarrow> \<lparr>p_wait = None, p_inner = False, p_first = None, p_body = pipe_close\<rparr>
      | PSize \<Rightarrow> \<lparr>p_wait = None, p_inner = False, p_first = None, p_body = pipe_size\<rparr>
      | PIsClosed \<Rightarrow> \<lparr>p_wait = None, p_inner = False, p_first = None, p_body = pipe_is_closed\<rparr>
      | PWaitForClosedAndEmpty \<Rightarrow>
          \<lparr>p_wait = Some (closed_and_empty, \<lambda>_ p. pipe_values p \<noteq> [] \<or> \<not> is_closed p), p_inner = True, p_first = None,
           p_body = (\<lambda>p _. Inr (p, [], VVoid))\<rparr>)"

section \<open>RequestResponseChannel\<close>

record channel =
  requests :: "val list"
  responses :: "val list"
  shutdown :: bool

definition RequestResponseChannel :: channel where
  "RequestResponseChannel = \<lparr>requests = [], responses = [], shutdown = False\<rparr>"

definition has_requests_or_shutdown :: cv where
  "has_requests_or_shutdown = 0"

definition has_responses_or_shutdown :: cv where
  "has_responses_or_shutdown = 1"

datatype channel_op = CRequest val | CRespond val | CRespondBatch "val list" | CRead | CReadBatch | CShutdown

definition channel_request :: "val \<Rightarrow> channel \<Rightarrow> val \<Rightarrow> (channel \<times> (cv \<times> bool) list) res" where
  "channel_request request s _ =
     Inr (if \<not> shutdown s then (s\<lparr>requests := requests s @ [request]\<rparr>, [(has_requests_or_shutdown, False)]) else (s, []))"

definition channel_receive :: "channel \<Rightarrow> val \<Rightarrow> (channel \<times> (cv \<times> bool) list \<times> val) res" where
  "channel_receive s _ =
     (case responses s of
        response # rest \<Rightarrow> Inr (s\<lparr>responses := rest\<rparr>, [], VOpt (Some response))
      | [] \<Rightarrow> check (shutdown s) ''shutdown_'' (Inr (s, [], VOpt None)))"

definition channel_respond :: "val \<Rightarrow> channel \<Rightarrow> val \<Rightarrow> (channel \<times> (cv \<times> bool) list \<times> val) res" where
  "channel_respond response s _ =
     Inr (if \<not> shutdown s then (s\<lparr>responses := responses s @ [response]\<rparr>, [(has_responses_or_shutdown, False)], VVoid)
          else (s, [], VVoid))"

definition channel_respond_batch :: "val list \<Rightarrow> channel \<Rightarrow> val \<Rightarrow> (channel \<times> (cv \<times> bool) list \<times> val) res" where
  "channel_respond_batch batch s _ =
     Inr (if \<not> shutdown s then (s\<lparr>responses := responses s @ batch\<rparr>, [(has_responses_or_shutdown, True)], VVoid)
          else (s, [], VVoid))"

definition channel_read :: "channel \<Rightarrow> val \<Rightarrow> (channel \<times> (cv \<times> bool) list \<times> val) res" where
  "channel_read s _ =
     (case requests s of
        request # rest \<Rightarrow> Inr (s\<lparr>requests := rest\<rparr>, [], VOpt (Some request))
      | [] \<Rightarrow> check (shutdown s) ''shutdown_'' (Inr (s, [], VOpt None)))"

definition channel_read_batch :: "channel \<Rightarrow> val \<Rightarrow> (channel \<times> (cv \<times> bool) list \<times> val) res" where
  "channel_read_batch s _ =
     (if requests s \<noteq> [] then Inr (s\<lparr>requests := []\<rparr>, [], VOpt (Some (VVec (requests s))))
      else check (shutdown s) ''shutdown_'' (Inr (s, [], VOpt None)))"

definition channel_shutdown :: "channel \<Rightarrow> val \<Rightarrow> (channel \<times> (cv \<times> bool) list \<times> val) res" where
  "channel_shutdown s _ =
     Inr (s\<lparr>shutdown := True\<rparr>, [(has_requests_or_shutdown, True), (has_responses_or_shutdown, True)], VVoid)"

definition channel_proc :: "channel_op \<Rightarrow> channel proc" where
  "channel_proc op =
     (case op of
        CRequest request \<Rightarrow>
          \<lparr>p_wait = Some (has_responses_or_shutdown, \<lambda>_ s. responses s = [] \<and> \<not> shutdown s), p_inner = True,
           p_first = Some (channel_request request), p_body = channel_receive\<rparr>
      | CRespond response \<Rightarrow> \<lparr>p_wait = None, p_inner = False, p_first = None, p_body = channel_respond response\<rparr>
      | CRespondBatch batch \<Rightarrow> \<lparr>p_wait = None, p_inner = False, p_first = None, p_body = channel_respond_batch batch\<rparr>
      | CRead \<Rightarrow> \<lparr>p_wait = Some (has_requests_or_shutdown, \<lambda>_ s. requests s = [] \<and> \<not> shutdown s), p_inner = True, p_first = None,
                   p_body = channel_read\<rparr>
      | CReadBatch \<Rightarrow> \<lparr>p_wait = Some (has_requests_or_shutdown, \<lambda>_ s. requests s = [] \<and> \<not> shutdown s), p_inner = True,
                       p_first = None, p_body = channel_read_batch\<rparr>
      | CShutdown \<Rightarrow> \<lparr>p_wait = None, p_inner = False, p_first = None, p_body = channel_shutdown\<rparr>)"

lemmas channel_defs = pipe_write_def pipe_read_def pipe_close_def pipe_size_def pipe_is_closed_def
  notification_notify_def channel_request_def channel_receive_def channel_respond_def channel_respond_batch_def
  channel_read_def channel_read_batch_def channel_shutdown_def

lemmas cv_names = has_values_or_closed_def closed_and_empty_def has_requests_or_shutdown_def has_responses_or_shutdown_def
  notification_cv_def

section \<open>The interfaces\<close>

interpretation pipe: monitor_object "\<lambda>t. pipe_proc (ops t)" "\<lambda>_. True" Pipe for ops
  by unfold_locales
    (auto simp: pipe_proc_def channel_defs may_run_def split: pipe_op.splits list.splits if_splits)

interpretation channel: monitor_object "\<lambda>t. channel_proc (ops t)" "\<lambda>_. True" RequestResponseChannel for ops
  by unfold_locales
    (auto simp: channel_proc_def channel_defs may_run_def split: channel_op.splits list.splits if_splits)

interpretation pipe_readers: wakeups "\<lambda>t. pipe_proc (ops t)" has_values_or_closed "\<lambda>p. length (pipe_values p)" is_closed for ops
  by unfold_locales
    (auto simp: pipe_proc_def channel_defs cv_names waits_on_def notify_count_def split: pipe_op.splits list.splits if_splits)

interpretation pipe_drained: wakeups "\<lambda>t. pipe_proc (ops t)" closed_and_empty "\<lambda>_. 0" "\<lambda>p. is_closed p \<and> pipe_values p = []" for ops
  by unfold_locales
    (auto simp: pipe_proc_def channel_defs cv_names waits_on_def notify_count_def split: pipe_op.splits list.splits if_splits)

interpretation notification_waiters: wakeups "\<lambda>t. notification_proc (ops t)" notification_cv "\<lambda>_. 0" "\<lambda>ntfd. ntfd" for ops
  by unfold_locales
    (auto simp: notification_proc_def channel_defs cv_names waits_on_def notify_count_def split: notification_op.splits)

interpretation channel_readers: wakeups "\<lambda>t. channel_proc (ops t)" has_requests_or_shutdown "\<lambda>s. length (requests s)" shutdown for ops
  by unfold_locales
    (auto simp: channel_proc_def channel_defs cv_names waits_on_def notify_count_def split: channel_op.splits list.splits if_splits)

interpretation channel_requestors: wakeups "\<lambda>t. channel_proc (ops t)" has_responses_or_shutdown "\<lambda>s. length (responses s)" shutdown for ops
  by unfold_locales
    (auto simp: channel_proc_def channel_defs cv_names waits_on_def notify_count_def split: channel_op.splits list.splits if_splits)

end
