(* ===== verification/Channel_Theorems.thy ===== *)
theory Channel_Theorems
  imports Channels
begin

text \<open>
  Properties of synchronized sections as a whole and of the classes built on them.
\<close>

section \<open>Atomicity\<close>


fun mon_exec :: "(tid \<Rightarrow> 's proc) \<Rightarrow> tid list \<Rightarrow> event list \<times> 's mon \<Rightarrow> (event list \<times> 's mon) res" where
  "mon_exec P [] c = Inr c"
| "mon_exec P (t # ts) (tr, s) = rbind (mon_step P t s) (\<lambda>s'. mon_exec P ts (tr @ event_of P t s, s'))"

lemma mon_exec_trace: "mon_trace P first sh tr s \<Longrightarrow> mon_exec P ts (tr, s) = Inr (tr', s') \<Longrightarrow> mon_trace P first sh tr' s'"
  by (induction ts arbitrary: tr s) (auto intro: trace_move)

lemma counter_exec:
  "\<exists>s. mon_exec counter_proc [1, 1, 0, 0, 0, 1, 1] ([], mon_init (\<lambda>_. Start VVoid) 0) = Inr ([ThenE 0 VVoid VVoid], s) \<and>
     at s 1 = AtThen (Start VVoid)"
  by (simp add: run_defs event_of_def)


section \<open>Pipe\<close>

text \<open>The values that writes put into the pipe, and those that reads took out of it, in the order of the operations.\<close>

fun event_task :: "event \<Rightarrow> tid" where
  "event_task (FirstE t x) = t"
| "event_task (ThenE t x r) = t"

fun event_result :: "event \<Rightarrow> val option" where
  "event_result (FirstE t x) = None"
| "event_result (ThenE t x r) = Some r"

definition closes :: "(tid \<Rightarrow> pipe_op) \<Rightarrow> event list \<Rightarrow> bool" where
  "closes ops tr \<longleftrightarrow> (\<exists>e \<in> set tr. ops (event_task e) = PClose)"

fun accepted :: "(tid \<Rightarrow> pipe_op) \<Rightarrow> bool \<Rightarrow> event list \<Rightarrow> val list" where
  "accepted ops closed [] = []"
| "accepted ops closed (e # tr) =
     (case ops (event_task e) of
        PWrite v \<Rightarrow> (if closed then [] else [v]) @ accepted ops closed tr
      | PClose \<Rightarrow> accepted ops True tr
      | _ \<Rightarrow> accepted ops closed tr)"

definition delivered :: "(tid \<Rightarrow> pipe_op) \<Rightarrow> event list \<Rightarrow> val list" where
  "delivered ops tr =
     concat (map (\<lambda>e. case event_result e of Some (VOpt (Some v)) \<Rightarrow> if ops (event_task e) = PRead then [v] else [] | _ \<Rightarrow> []) tr)"

lemma accepted_snoc: "accepted ops closed (tr @ [e]) = accepted ops closed tr @ accepted ops (closed \<or> closes ops tr) [e]"
  by (induction tr arbitrary: closed) (auto simp: closes_def split: pipe_op.splits)

lemma delivered_snoc: "delivered ops (tr @ [e]) = delivered ops tr @ delivered ops [e]"
  by (simp add: delivered_def)

lemma closes_snoc: "closes ops (tr @ [e]) \<longleftrightarrow> closes ops tr \<or> ops (event_task e) = PClose"
  by (auto simp: closes_def)

lemma pipe_run_fifo:
  assumes "seq_run (\<lambda>t. pipe_proc (ops t)) Pipe tr p"
  shows "accepted ops False tr = delivered ops tr @ pipe_values p \<and> is_closed p = closes ops tr"
  using assms
proof (induction rule: seq_run.induct)
  case seq_nil
  then show ?case
    by (simp add: delivered_def closes_def Pipe_def)
next
  case (seq_snoc tr p e p')
  from seq_snoc(2) show ?case
  proof cases
    case (seq_then t x ns r)
    then show ?thesis
      using seq_snoc(3)
      by (cases "ops t")
        (auto simp: accepted_snoc delivered_snoc closes_snoc delivered_def pipe_proc_def channel_defs may_run_def
          split: list.splits if_splits)
  next
    case (seq_first t f x ns)
    then show ?thesis
      by (simp add: pipe_proc_def split: pipe_op.splits)
  qed
qed

text \<open>
  C4. A pipe is a FIFO queue: in every execution of any number of concurrent writers, readers and closers the values
  written before the pipe was closed are exactly the values read so far followed by those still in the pipe, in this order; nothing is
  lost, duplicated or reordered, and writes after the close are dropped.
\<close>

theorem pipe_is_fifo:
  assumes "mon_trace (\<lambda>t. pipe_proc (ops t)) first Pipe tr s"
  shows "accepted ops False tr = delivered ops tr @ pipe_values (shared s) \<and> is_closed (shared s) = closes ops tr"
  using pipe_run_fifo [OF trace_seq_run [OF assms]] .

text \<open>A writer, a reader and a closer.\<close>

definition pipe_users :: "tid \<Rightarrow> pipe_op" where
  "pipe_users t = (if t = 0 then PWrite (VInt 7) else if t = 1 then PRead else PClose)"

lemmas pipe_run_defs = run_defs pipe_proc_def pipe_users_def channel_defs cv_names Pipe_def

lemma pipe_users_exec:
  "\<exists>s. mon_exec (\<lambda>t. pipe_proc (pipe_users t)) [1, 1, 0, 0, 0, 1, 1, 1] ([], mon_init (\<lambda>_. Start VVoid) Pipe) =
     Inr ([ThenE 0 VVoid VVoid, ThenE 1 VVoid (VOpt (Some (VInt 7)))], s)"
  by (simp add: pipe_run_defs event_of_def)

lemma pipe_reader_waits:
  "\<exists>s. mon_run (\<lambda>t. pipe_proc (pipe_users t)) [1, 1] (mon_init (\<lambda>_. Start VVoid) Pipe) = Inr s \<and> at s 1 = Off"
  by (simp add: pipe_run_defs)

theorem pipe_is_fifo_witness:
  "\<exists>s :: pipe mon. accepted pipe_users False [ThenE 0 VVoid VVoid, ThenE 1 VVoid (VOpt (Some (VInt 7)))] = [VInt 7] @ pipe_values (shared s) \<and>
     \<not> is_closed (shared s)"
proof -
  obtain s where s: "mon_exec (\<lambda>t. pipe_proc (pipe_users t)) [1, 1, 0, 0, 0, 1, 1, 1] ([], mon_init (\<lambda>_. Start VVoid) Pipe) =
     Inr ([ThenE 0 VVoid VVoid, ThenE 1 VVoid (VOpt (Some (VInt 7)))], s)"
    using pipe_users_exec by blast
  show ?thesis
    using pipe_is_fifo [OF mon_exec_trace [OF trace_start s]] by (auto simp: delivered_def pipe_users_def closes_def)
qed

text \<open>
  No operation on a pipe aborts, for any users and any interleaving: in particular a reader that finds no value after its wait
  finds the pipe closed.
\<close>

theorem pipe_never_aborts:
  assumes "mon_reach (\<lambda>t. pipe_proc (ops t)) first Pipe s"
  shows "\<exists>s'. mon_step (\<lambda>t. pipe_proc (ops t)) t s = Inr s'"
  using pipe.step_never_aborts [OF assms] .

theorem pipe_never_aborts_witness:
  "\<exists>s s'. mon_reach (\<lambda>t. pipe_proc (pipe_users t)) (\<lambda>_. Start VVoid) Pipe s \<and> at s 1 = Off \<and>
     mon_step (\<lambda>t. pipe_proc (pipe_users t)) 2 s = Inr s'"
proof -
  obtain s where s: "mon_run (\<lambda>t. pipe_proc (pipe_users t)) [1, 1] (mon_init (\<lambda>_. Start VVoid) Pipe) = Inr s" "at s 1 = Off"
    using pipe_reader_waits by blast
  have r: "mon_reach (\<lambda>t. pipe_proc (pipe_users t)) (\<lambda>_. Start VVoid) Pipe s"
    using mon_run_reach [OF mon_start s(1)] .
  then show ?thesis
    using s(2) pipe_never_aborts [OF r, of 2] by blast
qed

lemma suspended_on:
  assumes r: "mon_reach P first sh s" and q: "quiescent s" and t: "at s t = Off"
  obtains v where "t \<in> set (cvs s v)" "waits_on (P t) v"
proof -
  have "on_cv s t"
    using own_task(2) [OF mon_reach_inv [OF r], of t] t quiescent_unlocked [OF r q] by (simp add: queued_def)
  then show thesis
    using that reach_cv_members [OF r] by (auto simp: on_cv_def cv_members_def)
qed

text \<open>
  No user of a pipe is left waiting without reason: when nothing is under way, a suspended reader means an open and empty
  pipe, a suspended \<^verbatim>\<open>WaitForClosedAndEmpty\<close> means a pipe that is open or still has values, and no other operation is suspended.
  So every write and the close wake up enough readers, although a write notifies only one of them.
\<close>

theorem pipe_waiters_have_reason:
  assumes r: "mon_reach (\<lambda>t. pipe_proc (ops t)) first Pipe s" and q: "quiescent s" and t: "at s t = Off"
  shows "ops t = PRead \<and> pipe_values (shared s) = [] \<and> \<not> is_closed (shared s) \<or>
    ops t = PWaitForClosedAndEmpty \<and> (pipe_values (shared s) \<noteq> [] \<or> \<not> is_closed (shared s))"
proof -
  obtain v where v: "t \<in> set (cvs s v)" "waits_on (pipe_proc (ops t)) v"
    using suspended_on [OF r q t] by blast
  have none: "aq (mlock s) = []"
    using quiescent_unlocked [OF r q] .
  consider "ops t = PRead" "v = has_values_or_closed" | "ops t = PWaitForClosedAndEmpty" "v = closed_and_empty"
    using v(2) by (auto simp: waits_on_def pipe_proc_def split: pipe_op.splits)
  then show ?thesis
  proof cases
    case 1
    then show ?thesis
      using pipe_readers.waiter_not_stranded [OF r] v(1) none by auto
  next
    case 2
    then show ?thesis
      using pipe_drained.waiter_not_stranded [OF r] v(1) none by auto
  qed
qed

lemma pipe_reader_quiescent:
  "\<exists>s. mon_run (\<lambda>t. pipe_proc (pipe_users t)) [1, 1] (mon_init (\<lambda>_. Start VVoid) Pipe) = Inr s \<and> at s 1 = Off \<and> quiescent s"
  by (simp add: pipe_run_defs quiescent_def)

theorem pipe_waiters_have_reason_witness:
  "\<exists>s. mon_reach (\<lambda>t. pipe_proc (pipe_users t)) (\<lambda>_. Start VVoid) Pipe s \<and> quiescent s \<and> at s 1 = Off \<and>
     pipe_values (shared s) = [] \<and> \<not> is_closed (shared s)"
proof -
  obtain s where s: "mon_run (\<lambda>t. pipe_proc (pipe_users t)) [1, 1] (mon_init (\<lambda>_. Start VVoid) Pipe) = Inr s" "at s 1 = Off" "quiescent s"
    using pipe_reader_quiescent by blast
  have r: "mon_reach (\<lambda>t. pipe_proc (pipe_users t)) (\<lambda>_. Start VVoid) Pipe s"
    using mon_run_reach [OF mon_start s(1)] .
  show ?thesis
    using r s(2,3) pipe_waiters_have_reason [OF r s(3,2)] by (auto simp: pipe_users_def)
qed

lemma drained_forever:
  assumes "seq_run (\<lambda>t. pipe_proc (ops t)) Pipe tr p" "e \<in> set tr" "ops (event_task e) = PWaitForClosedAndEmpty"
  shows "pipe_values p = [] \<and> is_closed p"
  using assms
proof (induction rule: seq_run.induct)
  case (seq_snoc tr p e' p')
  from seq_snoc(2) show ?case
  proof cases
    case (seq_then t x ns r)
    then show ?thesis
      using seq_snoc(3,4,5)
      by (cases "ops t"; cases "e \<in> set tr") (auto simp: pipe_proc_def channel_defs may_run_def split: list.splits if_splits)
  next
    case (seq_first t f x ns)
    then show ?thesis
      by (simp add: pipe_proc_def split: pipe_op.splits)
  qed
qed simp

text \<open>
  The documented postcondition of \<^verbatim>\<open>WaitForClosedAndEmpty\<close>: once it has returned to any caller, the pipe is closed and empty,
  and stays so whatever the other users do.
\<close>

theorem pipe_closed_and_empty_is_final:
  assumes "mon_trace (\<lambda>t. pipe_proc (ops t)) first Pipe tr s"
    and "e \<in> set tr" and "ops (event_task e) = PWaitForClosedAndEmpty"
  shows "pipe_values (shared s) = [] \<and> is_closed (shared s)"
  using drained_forever [OF trace_seq_run [OF assms(1)] assms(2,3)] .

definition drain_users :: "tid \<Rightarrow> pipe_op" where
  "drain_users t = (if t = 0 then PClose else PWaitForClosedAndEmpty)"

lemma drain_exec:
  "\<exists>s. mon_exec (\<lambda>t. pipe_proc (drain_users t)) [1, 1, 0, 0, 0, 1, 1, 1] ([], mon_init (\<lambda>_. Start VVoid) Pipe) =
     Inr ([ThenE 0 VVoid VVoid, ThenE 1 VVoid VVoid], s)"
  by (simp add: pipe_run_defs drain_users_def event_of_def)

theorem pipe_closed_and_empty_is_final_witness:
  "\<exists>s. mon_reach (\<lambda>t. pipe_proc (drain_users t)) (\<lambda>_. Start VVoid) Pipe s \<and> pipe_values (shared s) = [] \<and> is_closed (shared s)"
proof -
  obtain s where s: "mon_exec (\<lambda>t. pipe_proc (drain_users t)) [1, 1, 0, 0, 0, 1, 1, 1] ([], mon_init (\<lambda>_. Start VVoid) Pipe) =
     Inr ([ThenE 0 VVoid VVoid, ThenE 1 VVoid VVoid], s)"
    using drain_exec by blast
  note tr = mon_exec_trace [OF trace_start s]
  show ?thesis
    using trace_reach [OF tr] pipe_closed_and_empty_is_final [OF tr, of "ThenE 1 VVoid VVoid"] by (auto simp: drain_users_def)
qed

section \<open>Notification\<close>

lemma notification_run:
  assumes "seq_run (\<lambda>t. notification_proc (ops t)) False tr n"
  shows "tr = [] \<and> \<not> n \<or> (\<exists>e tr'. tr = e # tr' \<and> ops (event_task e) = NNotify \<and> (\<forall>e' \<in> set tr'. ops (event_task e') = NWait) \<and> n)"
  using assms
proof (induction rule: seq_run.induct)
  case (seq_snoc tr n e n')
  from seq_snoc(2) show ?case
  proof cases
    case (seq_then t x ns r)
    then show ?thesis
      using seq_snoc(3)
      by (cases "ops t") (auto simp: notification_proc_def channel_defs may_run_def)
  next
    case (seq_first t f x ns)
    then show ?thesis
      by (simp add: notification_proc_def split: notification_op.splits)
  qed
qed simp

text \<open>
  A notification happens at most once and before every wait returns: in each execution either nothing has completed and the
  notification is unset, or the first completed operation is a \<^verbatim>\<open>Notify\<close>, all later ones are returns of
  \<^verbatim>\<open>WaitForNotification\<close>, and it is set.
\<close>

theorem notification_fires_once:
  assumes "mon_trace (\<lambda>t. notification_proc (ops t)) first False tr s"
  shows "tr = [] \<and> \<not> shared s \<or>
    (\<exists>e tr'. tr = e # tr' \<and> ops (event_task e) = NNotify \<and> (\<forall>e' \<in> set tr'. ops (event_task e') = NWait) \<and> shared s)"
  using notification_run [OF trace_seq_run [OF assms]] .

definition notification_users :: "tid \<Rightarrow> notification_op" where
  "notification_users t = (if t = 1 then NWait else NNotify)"

lemmas notification_run_defs = run_defs notification_proc_def notification_users_def channel_defs cv_names

lemma notification_exec:
  "\<exists>s. mon_exec (\<lambda>t. notification_proc (notification_users t)) [1, 1, 0, 0, 0, 1, 1, 1] ([], mon_init (\<lambda>_. Start VVoid) False) =
     Inr ([ThenE 0 VVoid VVoid, ThenE 1 VVoid VVoid], s)"
  by (simp add: notification_run_defs event_of_def)

theorem notification_fires_once_witness:
  "\<exists>s. mon_reach (\<lambda>t. notification_proc (notification_users t)) (\<lambda>_. Start VVoid) False s \<and> shared s"
proof -
  obtain s where s: "mon_exec (\<lambda>t. notification_proc (notification_users t)) [1, 1, 0, 0, 0, 1, 1, 1] ([], mon_init (\<lambda>_. Start VVoid) False) =
     Inr ([ThenE 0 VVoid VVoid, ThenE 1 VVoid VVoid], s)"
    using notification_exec by blast
  note tr = mon_exec_trace [OF trace_start s]
  show ?thesis
    using trace_reach [OF tr] notification_fires_once [OF tr] by auto
qed

text \<open>
  Notifying twice aborts: a step of a notification's user fails exactly when it is a \<^verbatim>\<open>Notify\<close> that runs after the notification was
  set, and then with the message of its CHECK.
\<close>

theorem second_notify_aborts:
  assumes r: "mon_reach (\<lambda>t. notification_proc (ops t)) first False s" and t: "at s t = AtThen c" "call_arg c = Some x"
  shows "mon_step (\<lambda>t. notification_proc (ops t)) t s = Inl e \<longleftrightarrow>
    ops t = NNotify \<and> shared s \<and> e = CheckFailed ''Notification can not be notified more than once''"
proof
  assume "mon_step (\<lambda>t. notification_proc (ops t)) t s = Inl e"
  then have "p_body (notification_proc (ops t)) (shared s) x = Inl e"
    using mon_step_ok [OF mon_reach_inv [OF r], of t] t by (auto simp: mon_ok_def)
  then show "ops t = NNotify \<and> shared s \<and> e = CheckFailed ''Notification can not be notified more than once''"
    by (auto simp: notification_proc_def notification_notify_def check_def split: notification_op.splits if_splits)
qed (use t in \<open>auto simp: mon_step_def then_call_def notification_proc_def notification_notify_def\<close>)

lemma notified_twice:
  "\<exists>s. mon_run (\<lambda>t. notification_proc (notification_users t)) [0, 0, 0, 2] (mon_init (\<lambda>_. Start VVoid) False) = Inr s \<and>
     at s 2 = AtThen (Start VVoid) \<and> shared s"
  by (simp add: notification_run_defs)

theorem second_notify_aborts_witness:
  "\<exists>s. mon_reach (\<lambda>t. notification_proc (notification_users t)) (\<lambda>_. Start VVoid) False s \<and>
     mon_step (\<lambda>t. notification_proc (notification_users t)) 2 s = Inl (CheckFailed ''Notification can not be notified more than once'')"
proof -
  obtain s where s: "mon_run (\<lambda>t. notification_proc (notification_users t)) [0, 0, 0, 2] (mon_init (\<lambda>_. Start VVoid) False) = Inr s"
      "at s 2 = AtThen (Start VVoid)" "shared s"
    using notified_twice by blast
  have r: "mon_reach (\<lambda>t. notification_proc (notification_users t)) (\<lambda>_. Start VVoid) False s"
    using mon_run_reach [OF mon_start s(1)] .
  show ?thesis
    using r s(3) second_notify_aborts [OF r s(2), of VVoid] by (auto simp: notification_users_def)
qed

section \<open>RequestResponseChannel\<close>

text \<open>What was put into and taken out of the two queues of a channel, in order.\<close>

fun channel_shut :: "(tid \<Rightarrow> channel_op) \<Rightarrow> event list \<Rightarrow> bool" where
  "channel_shut ops tr \<longleftrightarrow> (\<exists>e \<in> set tr. ops (event_task e) = CShutdown)"

fun requested :: "(tid \<Rightarrow> channel_op) \<Rightarrow> bool \<Rightarrow> event list \<Rightarrow> val list" where
  "requested ops shut [] = []"
| "requested ops shut (e # tr) =
     (case ops (event_task e) of
        CRequest v \<Rightarrow> (if shut \<or> event_result e \<noteq> None then [] else [v]) @ requested ops shut tr
      | CShutdown \<Rightarrow> requested ops True tr
      | _ \<Rightarrow> requested ops shut tr)"

fun responded :: "(tid \<Rightarrow> channel_op) \<Rightarrow> bool \<Rightarrow> event list \<Rightarrow> val list" where
  "responded ops shut [] = []"
| "responded ops shut (e # tr) =
     (case ops (event_task e) of
        CRespond v \<Rightarrow> (if shut then [] else [v]) @ responded ops shut tr
      | CRespondBatch vs \<Rightarrow> (if shut then [] else vs) @ responded ops shut tr
      | CShutdown \<Rightarrow> responded ops True tr
      | _ \<Rightarrow> responded ops shut tr)"

definition taken :: "event \<Rightarrow> val list" where
  "taken e = (case event_result e of Some (VOpt (Some v)) \<Rightarrow> [v] | _ \<Rightarrow> [])"

definition taken_batch :: "event \<Rightarrow> val list" where
  "taken_batch e = (case event_result e of Some (VOpt (Some (VVec vs))) \<Rightarrow> vs | _ \<Rightarrow> [])"

definition channel_reads :: "(tid \<Rightarrow> channel_op) \<Rightarrow> event list \<Rightarrow> val list" where
  "channel_reads ops tr =
     concat (map (\<lambda>e. case ops (event_task e) of CRead \<Rightarrow> taken e | CReadBatch \<Rightarrow> taken_batch e | _ \<Rightarrow> []) tr)"

definition channel_receives :: "(tid \<Rightarrow> channel_op) \<Rightarrow> event list \<Rightarrow> val list" where
  "channel_receives ops tr = concat (map (\<lambda>e. case ops (event_task e) of CRequest _ \<Rightarrow> taken e | _ \<Rightarrow> []) tr)"

lemma requested_snoc: "requested ops shut (tr @ [e]) = requested ops shut tr @ requested ops (shut \<or> channel_shut ops tr) [e]"
  by (induction tr arbitrary: shut) (auto split: channel_op.splits)

lemma responded_snoc: "responded ops shut (tr @ [e]) = responded ops shut tr @ responded ops (shut \<or> channel_shut ops tr) [e]"
  by (induction tr arbitrary: shut) (auto split: channel_op.splits)

lemma channel_taken_snoc:
  "channel_reads ops (tr @ [e]) = channel_reads ops tr @ channel_reads ops [e]"
  "channel_receives ops (tr @ [e]) = channel_receives ops tr @ channel_receives ops [e]"
  by (simp_all add: channel_reads_def channel_receives_def)

lemma channel_run_fifo:
  assumes "seq_run (\<lambda>t. channel_proc (ops t)) RequestResponseChannel tr s"
  shows "requested ops False tr = channel_reads ops tr @ requests s \<and>
    responded ops False tr = channel_receives ops tr @ responses s \<and> shutdown s = channel_shut ops tr"
  using assms
proof (induction rule: seq_run.induct)
  case seq_nil
  then show ?case
    by (simp add: channel_reads_def channel_receives_def RequestResponseChannel_def)
next
  case (seq_snoc tr s e s')
  from seq_snoc(2) show ?case
  proof cases
    case (seq_then t x ns r)
    then show ?thesis
      using seq_snoc(3)
      by (cases "ops t")
        (auto simp: requested_snoc responded_snoc channel_taken_snoc channel_reads_def channel_receives_def taken_def taken_batch_def
          channel_proc_def channel_defs may_run_def split: list.splits if_splits)
  next
    case (seq_first t f x ns)
    then show ?thesis
      using seq_snoc(3)
      by (cases "ops t")
        (auto simp: requested_snoc responded_snoc channel_taken_snoc channel_reads_def channel_receives_def taken_def taken_batch_def
          channel_proc_def channel_defs split: list.splits if_splits)
  qed
qed

text \<open>
  Both directions of a channel are FIFO: in every execution the requests made before the shutdown are those read so far (one by
  one or in batches) followed by the queued ones, and the responses given before it are those received so far followed by the queued
  ones.
\<close>

theorem channel_is_fifo:
  assumes "mon_trace (\<lambda>t. channel_proc (ops t)) first RequestResponseChannel tr s"
  shows "requested ops False tr = channel_reads ops tr @ requests (shared s) \<and>
    responded ops False tr = channel_receives ops tr @ responses (shared s)"
  using channel_run_fifo [OF trace_seq_run [OF assms]] by blast

text \<open>Two requestors (1 and 2), a reader (3) and a responder (0).\<close>

definition channel_users :: "tid \<Rightarrow> channel_op" where
  "channel_users t =
     (if t = 0 then CRespond (VStr ''response to a'') else if t = 1 then CRequest (VStr ''a'')
      else if t = 2 then CRequest (VStr ''b'') else CRead)"

lemmas channel_run_defs = run_defs channel_proc_def channel_users_def channel_defs cv_names RequestResponseChannel_def

lemma channel_exec:
  "\<exists>s. mon_exec (\<lambda>t. channel_proc (channel_users t)) [1, 1, 1, 3, 3, 3, 3, 0, 2, 2, 0, 0, 2, 2, 2, 2]
     ([], mon_init (\<lambda>_. Start VVoid) RequestResponseChannel) =
     Inr ([FirstE 1 VVoid, ThenE 3 VVoid (VOpt (Some (VStr ''a''))), ThenE 0 VVoid VVoid,
           FirstE 2 VVoid, ThenE 2 VVoid (VOpt (Some (VStr ''response to a'')))], s)"
  by (simp add: channel_run_defs event_of_def)

theorem channel_is_fifo_witness:
  "\<exists>s :: channel mon. [VStr ''a'', VStr ''b''] = [VStr ''a''] @ requests (shared s) \<and> responses (shared s) = []"
proof -
  obtain s where s: "mon_exec (\<lambda>t. channel_proc (channel_users t)) [1, 1, 1, 3, 3, 3, 3, 0, 2, 2, 0, 0, 2, 2, 2, 2]
     ([], mon_init (\<lambda>_. Start VVoid) RequestResponseChannel) =
     Inr ([FirstE 1 VVoid, ThenE 3 VVoid (VOpt (Some (VStr ''a''))), ThenE 0 VVoid VVoid,
           FirstE 2 VVoid, ThenE 2 VVoid (VOpt (Some (VStr ''response to a'')))], s)"
    using channel_exec by blast
  show ?thesis
    using channel_is_fifo [OF mon_exec_trace [OF trace_start s]]
    by (auto simp: channel_reads_def channel_receives_def taken_def channel_users_def)
qed

text \<open>
  A response can reach the wrong requestor: there is an execution in which the only request that was read is the one of task 1,
  the responder answers it, and task 2, whose request arrived while the responder held the lock and has not been read, receives
  that response instead of the task 1 that has been waiting for it. The requestor queued on the lock runs before the notified one and does not wait
  because a response is there.
\<close>

theorem response_reaches_later_requestor:
  "\<exists>s. mon_trace (\<lambda>t. channel_proc (channel_users t)) (\<lambda>_. Start VVoid) RequestResponseChannel
     [FirstE 1 VVoid, ThenE 3 VVoid (VOpt (Some (VStr ''a''))), ThenE 0 VVoid VVoid,
      FirstE 2 VVoid, ThenE 2 VVoid (VOpt (Some (VStr ''response to a'')))] s"
  using channel_exec [THEN exE] mon_exec_trace [OF trace_start] by metis

end
