(* ===== verification/Interrupt.thy ===== *)
theory Interrupt
  imports Eventuals_Prelude
begin

text \<open>
  Interrupts and their handlers (\<^verbatim>\<open>interrupt.h\<close>) at the level of their atomic actions.

  The word \<^verbatim>\<open>handler_\<close> points to the placeholder (nothing installed), to the installed handler, or is null once the
  interrupt has been triggered. Each handler has a callback and a state, kept in a \<^verbatim>\<open>stout::StatefulTally\<close>: a
  library outside the repository, so its two operations are the argument \<open>T\<close> of the definitions, with \<open>tally_ok\<close> as
  the hypothesis that \<^verbatim>\<open>Update(from, to)\<close> compares the state with \<open>from\<close>, and sets it if they are equal.
  Its \<^verbatim>\<open>from\<close> is passed by reference; the model leaves open what a failed update writes to it.

  A process runs one member function at a time, one atomic action per step; when it is idle it may start any function on
  any handler. \<^verbatim>\<open>compare_exchange_weak\<close> fails spuriously when the flag of a step is set. \<open>invoked\<close> records the callbacks that ran,
  and whether it was \<^verbatim>\<open>Trigger\<close> that ran them.
\<close>

section \<open>State\<close>

datatype hstate = UNINSTALLED | INSTALLED | UNINSTALLING | EXECUTED

datatype href = Placeholder | Hnd nat

record 't tally_ops =
  t_state :: "'t \<Rightarrow> hstate"
  t_update :: "'t \<Rightarrow> hstate \<Rightarrow> hstate \<Rightarrow> bool \<times> hstate \<times> 't"

definition tally_ok :: "'t tally_ops \<Rightarrow> bool" where
  "tally_ok T \<longleftrightarrow>
     (\<forall>t f to. t_state T t = f \<longrightarrow> fst (t_update T t f to) \<and> t_state T (snd (snd (t_update T t f to))) = to) \<and>
     (\<forall>t f to. t_state T t \<noteq> f \<longrightarrow> \<not> fst (t_update T t f to) \<and> snd (snd (t_update T t f to)) = t)"

record 't imem =
  handler :: "href option"
  tally :: "href \<Rightarrow> 't"
  callback :: "href \<Rightarrow> bool"
  invoked :: "(href \<times> bool) list"

datatype ipc =
    Ready
  | InsLoad bool href
  | InsState bool href href
  | InsCas bool href href hstate
  | InsUpdate bool href "href option" bool hstate
  | InsOld bool href href bool
  | InsOldUpdate bool href href bool hstate
  | InsDone bool href bool
  | ExeCheck href | ExeInvoke href
  | UniState href
  | UniUpdate href hstate
  | UniCas href
  | UniCheck href
  | UniClear href hstate
  | UniBack href
  | UniWait href
  | TriExchange
  | TriState href
  | TriUpdate href hstate
  | TriInvoke href
  | DesLoad
  | DesCas href
  | DesSpin href hstate
  | DesCheck

datatype iop = Install href | InstallOrExecuteIfTriggered href | Uninstall href | Trigger | Destruct

section \<open>The member functions\<close>

definition set_tally :: "href \<Rightarrow> 't \<Rightarrow> 't imem \<Rightarrow> 't imem" where
  "set_tally h t m = m\<lparr>tally := (tally m)(h := t)\<rparr>"

definition begin_op :: "iop \<Rightarrow> 't imem \<Rightarrow> 't imem \<times> ipc" where
  "begin_op op m =
     (case op of
        Install h \<Rightarrow> (m\<lparr>callback := (callback m)(h := True)\<rparr>, InsLoad False h)
      | InstallOrExecuteIfTriggered h \<Rightarrow> (m\<lparr>callback := (callback m)(h := True)\<rparr>, InsLoad True h)
      | Uninstall h \<Rightarrow> (m, UniState h)
      | Trigger \<Rightarrow> (m, TriExchange)
      | Destruct \<Rightarrow> (m, DesLoad))"

definition install_load :: "bool \<Rightarrow> href \<Rightarrow> 't imem \<Rightarrow> 't imem \<times> ipc" where
  "install_load exe h m =
     (case handler m of
        None \<Rightarrow> (m, InsDone exe h False)
      | Some stored \<Rightarrow> if stored = h then (m, InsDone exe h True) else (m, InsState exe h stored))"

definition install_state :: "'t tally_ops \<Rightarrow> bool \<Rightarrow> href \<Rightarrow> href \<Rightarrow> 't imem \<Rightarrow> ('t imem \<times> ipc) res" where
  "install_state T exe h stored m =
     (let state = t_state T (tally m h)
      in check (state = UNINSTALLED) ''state == UNINSTALLED'' (Inr (m, InsCas exe h stored state)))"

definition install_cas :: "bool \<Rightarrow> bool \<Rightarrow> href \<Rightarrow> href \<Rightarrow> hstate \<Rightarrow> 't imem \<Rightarrow> ('t imem \<times> ipc) res" where
  "install_cas spurious exe h stored state m =
     (let installed = (handler m = Some stored \<and> \<not> spurious);
          stored' = (if installed then Some stored else handler m);
          m' = (if installed then m\<lparr>handler := Some h\<rparr> else m)
      in check (installed \<or> stored' = None) ''installed || stored == nullptr'' (Inr (m', InsUpdate exe h stored' installed state)))"

definition install_update :: "'t tally_ops \<Rightarrow> bool \<Rightarrow> href \<Rightarrow> href option \<Rightarrow> bool \<Rightarrow> hstate \<Rightarrow> 't imem \<Rightarrow> ('t imem \<times> ipc) res" where
  "install_update T exe h stored installed state m =
     (let (updated, _, t) = t_update T (tally m h) state INSTALLED
      in check updated ''handler->state_.Update(state, INSTALLED)''
           (Inr (set_tally h t m,
                 case stored of None \<Rightarrow> InsDone exe h installed | Some old \<Rightarrow> InsOld exe h old installed)))"

definition install_old_update :: "'t tally_ops \<Rightarrow> bool \<Rightarrow> href \<Rightarrow> href \<Rightarrow> bool \<Rightarrow> hstate \<Rightarrow> 't imem \<Rightarrow> 't imem \<times> ipc" where
  "install_old_update T exe h old installed state m =
     (let (updated, state', t) = t_update T (tally m old) state UNINSTALLED
      in (set_tally old t m, if updated then InsDone exe h installed else InsOldUpdate exe h old installed state'))"

definition install_done :: "bool \<Rightarrow> href \<Rightarrow> bool \<Rightarrow> 't imem \<Rightarrow> 't imem \<times> ipc" where
  "install_done exe h installed m = (m, if exe \<and> \<not> installed then ExeCheck h else Ready)"

definition execute_check :: "'t tally_ops \<Rightarrow> href \<Rightarrow> 't imem \<Rightarrow> ('t imem \<times> ipc) res" where
  "execute_check T h m = check (t_state T (tally m h) = UNINSTALLED) ''state_.state() == UNINSTALLED'' (Inr (m, ExeInvoke h))"

definition Invoke :: "bool \<Rightarrow> href \<Rightarrow> 't imem \<Rightarrow> ('t imem \<times> ipc) res" where
  "Invoke by_trigger h m =
     check (callback m h) ''callback_''
       (Inr (m\<lparr>callback := (callback m)(h := False), invoked := invoked m @ [(h, by_trigger)]\<rparr>, Ready))"

definition uninstall_state :: "'t tally_ops \<Rightarrow> href \<Rightarrow> 't imem \<Rightarrow> 't imem \<times> ipc" where
  "uninstall_state T h m =
     (let state = t_state T (tally m h) in (m, if state = INSTALLED then UniUpdate h state else UniWait h))"

definition uninstall_update :: "'t tally_ops \<Rightarrow> href \<Rightarrow> hstate \<Rightarrow> 't imem \<Rightarrow> 't imem \<times> ipc" where
  "uninstall_update T h state m =
     (let (updated, _, t) = t_update T (tally m h) state UNINSTALLING
      in (set_tally h t m, if updated then UniCas h else UniWait h))"

definition uninstall_cas :: "bool \<Rightarrow> href \<Rightarrow> 't imem \<Rightarrow> 't imem \<times> ipc" where
  "uninstall_cas spurious h m =
     (if handler m = Some h \<and> \<not> spurious then (m\<lparr>handler := Some Placeholder\<rparr>, UniCheck h) else (m, UniBack h))"

definition uninstall_check :: "'t tally_ops \<Rightarrow> href \<Rightarrow> 't imem \<Rightarrow> ('t imem \<times> ipc) res" where
  "uninstall_check T h m =
     (let state = t_state T (tally m h)
      in check (state = UNINSTALLING) ''state == UNINSTALLING'' (Inr (m, UniClear h state)))"

definition uninstall_clear :: "'t tally_ops \<Rightarrow> href \<Rightarrow> hstate \<Rightarrow> 't imem \<Rightarrow> ('t imem \<times> ipc) res" where
  "uninstall_clear T h state m =
     (let (updated, _, t) = t_update T (tally m h) state UNINSTALLED
      in check updated ''handler->state_.Update(state, UNINSTALLED)'' (Inr (set_tally h t m, UniWait h)))"

definition uninstall_back :: "'t tally_ops \<Rightarrow> href \<Rightarrow> 't imem \<Rightarrow> ('t imem \<times> ipc) res" where
  "uninstall_back T h m =
     (let (updated, _, t) = t_update T (tally m h) UNINSTALLING INSTALLED
      in check updated ''state_.Update(state, INSTALLED)'' (Inr (set_tally h t m, UniWait h)))"

definition uninstall_wait :: "'t tally_ops \<Rightarrow> href \<Rightarrow> 't imem \<Rightarrow> 't imem \<times> ipc" where
  "uninstall_wait T h m = (m, if t_state T (tally m h) = UNINSTALLED then Ready else UniWait h)"

definition trigger_exchange :: "'t imem \<Rightarrow> 't imem \<times> ipc" where
  "trigger_exchange m =
     (m\<lparr>handler := None\<rparr>,
      case handler m of None \<Rightarrow> Ready | Some Placeholder \<Rightarrow> Ready | Some h \<Rightarrow> TriState h)"

definition trigger_state :: "'t tally_ops \<Rightarrow> href \<Rightarrow> 't imem \<Rightarrow> ('t imem \<times> ipc) res" where
  "trigger_state T h m =
     (let state = t_state T (tally m h)
      in check (state = INSTALLED) ''state == INSTALLED'' (Inr (m, TriUpdate h state)))"

definition trigger_update :: "'t tally_ops \<Rightarrow> href \<Rightarrow> hstate \<Rightarrow> 't imem \<Rightarrow> ('t imem \<times> ipc) res" where
  "trigger_update T h state m =
     (let (updated, _, t) = t_update T (tally m h) state UNINSTALLED
      in check updated ''handler->state_.Update(state, UNINSTALLED)'' (Inr (set_tally h t m, TriInvoke h)))"

definition Triggered :: "'t imem \<Rightarrow> bool" where
  "Triggered m = (handler m = None)"

definition destruct_load :: "'t imem \<Rightarrow> 't imem \<times> ipc" where
  "destruct_load m = (m, case handler m of Some (Hnd n) \<Rightarrow> DesCas (Hnd n) | _ \<Rightarrow> Ready)"

definition destruct_cas :: "bool \<Rightarrow> href \<Rightarrow> 't imem \<Rightarrow> 't imem \<times> ipc" where
  "destruct_cas spurious h m =
     (if handler m = Some h \<and> \<not> spurious then (m\<lparr>handler := None\<rparr>, DesSpin h INSTALLED) else (m, DesCheck))"

definition destruct_spin :: "'t tally_ops \<Rightarrow> href \<Rightarrow> hstate \<Rightarrow> 't imem \<Rightarrow> 't imem \<times> ipc" where
  "destruct_spin T h state m =
     (let (updated, state', t) = t_update T (tally m h) state UNINSTALLED
      in (set_tally h t m, if updated then Ready else DesSpin h state'))"

definition destruct_check :: "'t imem \<Rightarrow> ('t imem \<times> ipc) res" where
  "destruct_check m =
     check (handler m = None \<or> handler m = Some Placeholder) ''Interrupt is being used while destructing!'' (Inr (m, Ready))"

section \<open>Steps\<close>

record 't isys =
  imem :: "'t imem"
  ipcs :: "nat \<Rightarrow> ipc"

definition act :: "'t tally_ops \<Rightarrow> iop \<Rightarrow> bool \<Rightarrow> ipc \<Rightarrow> 't imem \<Rightarrow> ('t imem \<times> ipc) res" where
  "act T op spurious pc m =
     (case pc of
        Ready \<Rightarrow> Inr (begin_op op m)
      | InsLoad exe h \<Rightarrow> Inr (install_load exe h m)
      | InsState exe h stored \<Rightarrow> install_state T exe h stored m
      | InsCas exe h stored state \<Rightarrow> install_cas spurious exe h stored state m
      | InsUpdate exe h stored installed state \<Rightarrow> install_update T exe h stored installed state m
      | InsOld exe h old installed \<Rightarrow> Inr (m, InsOldUpdate exe h old installed (t_state T (tally m old)))
      | InsOldUpdate exe h old installed state \<Rightarrow> Inr (install_old_update T exe h old installed state m)
      | InsDone exe h installed \<Rightarrow> Inr (install_done exe h installed m)
      | ExeCheck h \<Rightarrow> execute_check T h m
      | ExeInvoke h \<Rightarrow> Invoke False h m
      | UniState h \<Rightarrow> Inr (uninstall_state T h m)
      | UniUpdate h state \<Rightarrow> Inr (uninstall_update T h state m)
      | UniCas h \<Rightarrow> Inr (uninstall_cas spurious h m)
      | UniCheck h \<Rightarrow> uninstall_check T h m
      | UniClear h state \<Rightarrow> uninstall_clear T h state m
      | UniBack h \<Rightarrow> uninstall_back T h m
      | UniWait h \<Rightarrow> Inr (uninstall_wait T h m)
      | TriExchange \<Rightarrow> Inr (trigger_exchange m)
      | TriState h \<Rightarrow> trigger_state T h m
      | TriUpdate h state \<Rightarrow> trigger_update T h state m
      | TriInvoke h \<Rightarrow> Invoke True h m
      | DesLoad \<Rightarrow> Inr (destruct_load m)
      | DesCas h \<Rightarrow> Inr (destruct_cas spurious h m)
      | DesSpin h state \<Rightarrow> Inr (destruct_spin T h state m)
      | DesCheck \<Rightarrow> destruct_check m)"

definition interrupt_step :: "'t tally_ops \<Rightarrow> iop \<Rightarrow> bool \<Rightarrow> nat \<Rightarrow> 't isys \<Rightarrow> 't isys res" where
  "interrupt_step T op spurious p s =
     map_sum id (\<lambda>(m, pc). s\<lparr>imem := m, ipcs := (ipcs s)(p := pc)\<rparr>) (act T op spurious (ipcs s p) (imem s))"

definition interrupt_init :: "'t \<Rightarrow> 't isys" where
  "interrupt_init t0 =
     \<lparr>imem = \<lparr>handler = Some Placeholder, tally = (\<lambda>_. t0), callback = (\<lambda>h. h = Placeholder), invoked = []\<rparr>, ipcs = (\<lambda>_. Ready)\<rparr>"

inductive interrupt_reach :: "'t tally_ops \<Rightarrow> 't \<Rightarrow> 't isys \<Rightarrow> bool" for T t0 where
  intr_init: "interrupt_reach T t0 (interrupt_init t0)"
| intr_step: "interrupt_reach T t0 s \<Longrightarrow> interrupt_step T op spurious p s = Inr s' \<Longrightarrow> interrupt_reach T t0 s'"

fun interrupt_run :: "'t tally_ops \<Rightarrow> (iop \<times> nat) list \<Rightarrow> 't isys \<Rightarrow> 't isys res" where
  "interrupt_run T [] s = Inr s"
| "interrupt_run T ((op, p) # sched) s = rbind (interrupt_step T op False p s) (interrupt_run T sched)"

lemma interrupt_run_reach:
  "interrupt_reach T t0 s \<Longrightarrow> interrupt_run T sched s = Inr s' \<Longrightarrow> interrupt_reach T t0 s'"
proof (induction sched arbitrary: s)
  case (Cons a sched)
  then show ?case
    by (cases a) (auto intro: intr_step)
qed simp

end
