(* ===== verification/Interrupt_Theorems.thy ===== *)
theory Interrupt_Theorems
  imports Interrupt
begin

text \<open>
  Properties of interrupts: for every interleaving, that callbacks run only after the trigger and \<^verbatim>\<open>Trigger\<close> runs at most one; for
  calls that do not overlap, that the detailed steps implement a three-state specification; and two races in which a CHECK aborts.
\<close>

lemma tally_okD:
  assumes "tally_ok T"
  shows "t_state T t = f \<Longrightarrow> fst (t_update T t f to)" "t_state T t = f \<Longrightarrow> t_state T (snd (snd (t_update T t f to))) = to"
    "t_state T t \<noteq> f \<Longrightarrow> \<not> fst (t_update T t f to)" "t_state T t \<noteq> f \<Longrightarrow> snd (snd (t_update T t f to)) = t"
  using assms unfolding tally_ok_def by blast+

lemmas member_defs = begin_op_def install_load_def install_state_def install_cas_def install_update_def install_old_update_def
  install_done_def execute_check_def Invoke_def uninstall_state_def uninstall_update_def uninstall_cas_def uninstall_check_def
  uninstall_clear_def uninstall_back_def uninstall_wait_def trigger_exchange_def trigger_state_def trigger_update_def
  destruct_load_def destruct_cas_def destruct_spin_def destruct_check_def set_tally_def

section \<open>Every interleaving\<close>

fun firing :: "ipc \<Rightarrow> bool" where
  "firing (TriState _) = True"
| "firing (TriUpdate _ _) = True"
| "firing (TriInvoke _) = True"
| "firing _ = False"

fun too_late :: "ipc \<Rightarrow> bool" where
  "too_late (InsUpdate _ _ _ installed _) = (\<not> installed)"
| "too_late (InsOld _ _ _ installed) = (\<not> installed)"
| "too_late (InsOldUpdate _ _ _ installed _) = (\<not> installed)"
| "too_late (InsDone _ _ installed) = (\<not> installed)"
| "too_late (ExeCheck _) = True"
| "too_late (ExeInvoke _) = True"
| "too_late _ = False"

definition fired :: "'t imem \<Rightarrow> (href \<times> bool) list" where
  "fired m = filter snd (invoked m)"

text \<open>What one action may do to the word \<^verbatim>\<open>handler_\<close>, to the log and to the position of its process.\<close>

lemma act_effect:
  assumes "act T op spurious pc m = Inr (m', pc')"
  shows "handler m = None \<Longrightarrow> handler m' = None" "too_late pc' \<Longrightarrow> too_late pc \<or> handler m' = None"
    "invoked m' = invoked m \<or> (too_late pc \<and> fired m' = fired m) \<or> (firing pc \<and> \<not> firing pc' \<and> length (fired m') = Suc (length (fired m)))"
    "firing pc' \<Longrightarrow> firing pc \<and> invoked m' = invoked m \<or> handler m \<noteq> None \<and> handler m' = None \<and> invoked m' = invoked m"
  using assms
  by (cases pc; auto simp: act_def member_defs fired_def Let_def split: iop.splits option.splits href.splits prod.splits if_splits)+

definition intr_inv :: "'t isys \<Rightarrow> bool" where
  "intr_inv s \<longleftrightarrow>
     (\<forall>p. too_late (ipcs s p) \<longrightarrow> handler (imem s) = None) \<and>
     (\<forall>p. firing (ipcs s p) \<longrightarrow> handler (imem s) = None \<and> fired (imem s) = []) \<and>
     (\<forall>p q. firing (ipcs s p) \<longrightarrow> firing (ipcs s q) \<longrightarrow> p = q) \<and>
     (invoked (imem s) \<noteq> [] \<longrightarrow> handler (imem s) = None) \<and>
     length (fired (imem s)) \<le> 1"

lemma intr_invD:
  assumes "intr_inv s"
  shows "too_late (ipcs s p) \<Longrightarrow> handler (imem s) = None" "firing (ipcs s p) \<Longrightarrow> handler (imem s) = None"
    "firing (ipcs s p) \<Longrightarrow> fired (imem s) = []" "firing (ipcs s p) \<Longrightarrow> firing (ipcs s q) \<Longrightarrow> p = q"
    "invoked (imem s) \<noteq> [] \<Longrightarrow> handler (imem s) = None" "length (fired (imem s)) \<le> 1"
  using assms unfolding intr_inv_def by auto

lemma intr_inv_step:
  assumes inv: "intr_inv s" and step: "interrupt_step T op spurious p s = Inr s'"
  shows "intr_inv s'"
proof -
  obtain m' pc' where a: "act T op spurious (ipcs s p) (imem s) = Inr (m', pc')"
    and s': "s' = s\<lparr>imem := m', ipcs := (ipcs s)(p := pc')\<rparr>"
    using step by (cases "act T op spurious (ipcs s p) (imem s)") (auto simp: interrupt_step_def)
  note e = act_effect [OF a]
  note i = intr_invD [OF inv]
  have late: "handler m' = None" if "too_late (ipcs s' q)" for q
  proof (cases "q = p")
    case True
    then show ?thesis
      using that s' e(1,2) i(1) [of p] by auto
  next
    case False
    then show ?thesis
      using that s' e(1) i(1) [of q] by auto
  qed
  have fire: "handler m' = None \<and> fired m' = []" if f: "firing (ipcs s' q)" for q
  proof (cases "q = p")
    case True
    then consider "firing (ipcs s p)" "invoked m' = invoked (imem s)"
      | "handler (imem s) \<noteq> None" "handler m' = None" "invoked m' = invoked (imem s)"
      using f e(4) s' by auto
    then show ?thesis
    proof cases
      case 1
      then show ?thesis
        using i(2,3) [of p] e(1) by (simp add: fired_def)
    next
      case 2
      then show ?thesis
        using i(5) by (cases "invoked (imem s)") (auto simp: fired_def)
    qed
  next
    case False
    then have q: "firing (ipcs s q)"
      using f s' by simp
    then have "\<not> firing (ipcs s p)"
      using i(4) [of q p] False by auto
    then show ?thesis
      using e(1,3) i(2,3) [OF q] by (auto simp: fired_def)
  qed
  have one: "q = r" if f: "firing (ipcs s' q)" "firing (ipcs s' r)" for q r
  proof (rule ccontr)
    assume n: "q \<noteq> r"
    then obtain o' where o': "o' \<noteq> p" "firing (ipcs s o')" "firing pc'"
      using f s' i(4) [of q r] by (cases "q = p"; cases "r = p") auto
    then show False
      using e(4) i(2) [OF o'(2)] i(4) [of o' p] by auto
  qed
  have log: "handler m' = None" if "invoked m' \<noteq> []"
    using that e(1,3) i(1,2) [of p] i(5) by (cases "invoked m' = invoked (imem s)") auto
  have len: "length (fired m') \<le> 1"
    using e(3) i(3) [of p] i(6) by (auto simp: fired_def)
  have m: "imem s' = m'"
    using s' by simp
  show ?thesis
    unfolding intr_inv_def m
    by (intro conjI allI impI; (erule late | erule (1) one | erule log | rule len | erule conjunct1 [OF fire] | erule conjunct2 [OF fire]))
qed

lemma reach_intr_inv: "interrupt_reach T t0 s \<Longrightarrow> intr_inv s"
proof (induction rule: interrupt_reach.induct)
  case intr_init
  then show ?case
    by (simp add: intr_inv_def interrupt_init_def fired_def)
qed (rule intr_inv_step)

text \<open>
  C11. An interrupt fires at most once: whatever functions any number of threads call on it and however they are interleaved, no callback
  of a handler runs before the interrupt has been triggered, the trigger is final, and all calls of \<^verbatim>\<open>Trigger()\<close>
  together run at most one callback.
\<close>

theorem interrupt_fires_at_most_once:
  assumes "interrupt_reach T t0 s"
  shows "length (filter snd (invoked (imem s))) \<le> 1 \<and> (invoked (imem s) = [] \<or> Triggered (imem s))"
  using reach_intr_inv [OF assms] by (auto simp: intr_inv_def fired_def Triggered_def)

section \<open>Calls that do not overlap\<close>

datatype astate = Free | Installed href | Fired

fun spec_op :: "iop \<Rightarrow> astate \<Rightarrow> astate" where
  "spec_op (Install h) a = (if a = Fired then Fired else Installed h)"
| "spec_op (InstallOrExecuteIfTriggered h) a = (if a = Fired then Fired else Installed h)"
| "spec_op (Uninstall h) a = (if a = Installed h then Free else a)"
| "spec_op Trigger a = Fired"
| "spec_op Destruct a = (if a = Free then Free else Fired)"

fun spec_log :: "iop \<Rightarrow> astate \<Rightarrow> (href \<times> bool) list" where
  "spec_log (InstallOrExecuteIfTriggered h) Fired = [(h, False)]"
| "spec_log Trigger (Installed h) = [(h, True)]"
| "spec_log _ _ = []"

fun real_op :: "iop \<Rightarrow> bool" where
  "real_op (Install h) = (h \<noteq> Placeholder)"
| "real_op (InstallOrExecuteIfTriggered h) = (h \<noteq> Placeholder)"
| "real_op (Uninstall h) = (h \<noteq> Placeholder)"
| "real_op _ = True"

definition represents :: "'t tally_ops \<Rightarrow> 't imem \<Rightarrow> astate \<Rightarrow> bool" where
  "represents T m a \<longleftrightarrow>
     handler m = (case a of Free \<Rightarrow> Some Placeholder | Installed h \<Rightarrow> Some h | Fired \<Rightarrow> None) \<and>
     (\<forall>h. t_state T (tally m h) = (if a = Installed h then INSTALLED else UNINSTALLED)) \<and>
     (\<forall>h. a = Installed h \<longrightarrow> h \<noteq> Placeholder \<and> callback m h)"

fun drive :: "'t tally_ops \<Rightarrow> nat \<Rightarrow> 't imem \<times> ipc \<Rightarrow> ('t imem \<times> ipc) res" where
  "drive T 0 c = Inr c"
| "drive T (Suc n) (m, pc) = rbind (act T Trigger False pc m) (drive T n)"

lemmas drive_defs = act_def member_defs Let_def split_def represents_def numeral_eq_Suc

lemma trigger_call:
  assumes T: "tally_ok T" and r: "represents T m a"
  shows "\<exists>n m'. drive T n (m, TriExchange) = Inr (m', Ready) \<and> represents T m' Fired \<and> invoked m' = invoked m @ spec_log Trigger a"
proof (cases a)
  case (Installed h)
  then show ?thesis
    using r tally_okD [OF T] by (cases h) (auto simp: drive_defs intro!: exI [of _ 4])
qed (use r in \<open>auto simp: drive_defs intro!: exI [of _ 1]\<close>)

lemma uninstall_call:
  assumes T: "tally_ok T" and r: "represents T m a" and h: "h \<noteq> Placeholder"
  shows "\<exists>n m'. drive T n (m, UniState h) = Inr (m', Ready) \<and> represents T m' (spec_op (Uninstall h) a) \<and> invoked m' = invoked m"
proof (cases "a = Installed h")
  case True
  then show ?thesis
    using r h tally_okD [OF T] by (auto simp: drive_defs intro!: exI [of _ 6])
qed (use r in \<open>auto simp: drive_defs intro!: exI [of _ 2]\<close>)

lemma destruct_call:
  assumes T: "tally_ok T" and r: "represents T m a"
  shows "\<exists>n m'. drive T n (m, DesLoad) = Inr (m', Ready) \<and> represents T m' (spec_op Destruct a) \<and> invoked m' = invoked m"
proof (cases a)
  case (Installed h)
  then show ?thesis
    using r tally_okD [OF T] by (cases h) (auto simp: drive_defs intro!: exI [of _ 3])
qed (use r in \<open>auto simp: drive_defs intro!: exI [of _ 1]\<close>)

lemma install_call:
  assumes T: "tally_ok T" and r: "represents T m a" and h: "h \<noteq> Placeholder"
  shows "\<exists>n m'. drive T n (m\<lparr>callback := (callback m)(h := True)\<rparr>, InsLoad exe h) = Inr (m', Ready) \<and>
    represents T m' (if a = Fired then Fired else Installed h) \<and>
    invoked m' = invoked m @ (if exe \<and> a = Fired then [(h, False)] else [])"
proof -
  consider "a = Fired" "exe" | "a = Fired" "\<not> exe" | "a = Installed h" | "a = Free" | g where "a = Installed g" "g \<noteq> h"
    by (cases a) auto
  then show ?thesis
  proof cases
    case 1
    then show ?thesis
      using r by (auto simp: drive_defs intro!: exI [of _ 4])
  next
    case 2
    then show ?thesis
      using r by (auto simp: drive_defs intro!: exI [of _ 2])
  next
    case 3
    then show ?thesis
      using r by (auto simp: drive_defs intro!: exI [of _ 2])
  next
    case 4
    then show ?thesis
      using r h tally_okD [OF T] by (auto simp: drive_defs intro!: exI [of _ 7])
  next
    case 5
    then show ?thesis
      using r h tally_okD [OF T] by (auto simp: drive_defs intro!: exI [of _ 7])
  qed
qed

text \<open>
  Calls on an interrupt that do not overlap with others terminate, abort no process and behave as a specification with three states says: free, a
  handler installed, or triggered. Installing replaces the installed handler, uninstalling removes only the handler itself,
  \<^verbatim>\<open>Trigger\<close> runs the installed callback, and installing after the trigger is refused, in which case \<^verbatim>\<open>InstallOrExecuteIfTriggered\<close> runs the callback.
\<close>

theorem interrupt_call_refines_spec:
  assumes "tally_ok T" and "represents T m a" and "real_op op"
  shows "\<exists>n m'. drive T n (begin_op op m) = Inr (m', Ready) \<and> represents T m' (spec_op op a) \<and> invoked m' = invoked m @ spec_log op a"
proof (cases op)
  case (Install h)
  then show ?thesis
    using install_call [OF assms(1,2), of h False] assms(3) by (auto simp: begin_op_def)
next
  case (InstallOrExecuteIfTriggered h)
  then show ?thesis
    using install_call [OF assms(1,2), of h True] assms(3) by (cases a) (simp_all add: begin_op_def)
next
  case (Uninstall h)
  then show ?thesis
    using uninstall_call [OF assms(1,2)] assms(3) by (simp add: begin_op_def)
next
  case Trigger
  then show ?thesis
    using trigger_call [OF assms(1,2)] by (simp add: begin_op_def)
next
  case Destruct
  then show ?thesis
    using destruct_call [OF assms(1,2)] by (simp add: begin_op_def)
qed

text \<open>A tally that keeps the state only; a failed update reports the current state.\<close>

definition plain_tally :: "hstate tally_ops" where
  "plain_tally = \<lparr>t_state = (\<lambda>t. t), t_update = (\<lambda>t f to. if t = f then (True, f, to) else (False, t, t))\<rparr>"

lemma plain_tally_ok: "tally_ok plain_tally"
  by (auto simp: tally_ok_def plain_tally_def)

lemma represents_init: "t_state T t0 = UNINSTALLED \<Longrightarrow> represents T (imem (interrupt_init t0)) Free"
  by (simp add: represents_def interrupt_init_def)

theorem interrupt_call_refines_spec_witness:
  "\<exists>n m'. drive plain_tally n (begin_op (Install (Hnd 0)) (imem (interrupt_init UNINSTALLED))) = Inr (m', Ready) \<and>
     represents plain_tally m' (Installed (Hnd 0)) \<and> invoked m' = []"
  using interrupt_call_refines_spec [OF plain_tally_ok represents_init, of UNINSTALLED "Install (Hnd 0)"]
  by (simp add: plain_tally_def interrupt_init_def)

theorem interrupt_fires_at_most_once_witness:
  "\<exists>s. interrupt_reach plain_tally UNINSTALLED s \<and> invoked (imem s) = [(Hnd 0, True)] \<and> Triggered (imem s)"
proof -
  let ?sched = "replicate 8 (Install (Hnd 0), 0) @ replicate 5 (Trigger, 1)"
  obtain s where s: "interrupt_run plain_tally ?sched (interrupt_init UNINSTALLED) = Inr s" "invoked (imem s) = [(Hnd 0, True)]"
    by (simp add: interrupt_step_def act_def member_defs interrupt_init_def plain_tally_def numeral_eq_Suc Let_def)
  have r: "interrupt_reach plain_tally UNINSTALLED s"
    using interrupt_run_reach [OF intr_init s(1)] .
  show ?thesis
    using r s(2) interrupt_fires_at_most_once [OF r] by auto
qed

section \<open>Two races\<close>

text \<open>
  A trigger that races with the destruction or uninstallation of a handler aborts: when the uninstalling thread has set the state to
  \<^verbatim>\<open>UNINSTALLING\<close> but not yet swapped \<^verbatim>\<open>handler_\<close>, \<^verbatim>\<open>Trigger()\<close> takes the handler and its CHECK for
  \<^verbatim>\<open>INSTALLED\<close> fails, although \<^verbatim>\<open>Uninstall\<close> is written to hand the handler over to the triggering thread in this case.
\<close>

theorem trigger_during_uninstall_aborts:
  assumes "tally_ok T" and "t_state T t0 = UNINSTALLED"
  shows "interrupt_run T (replicate 8 (Install (Hnd 0), 0) @ replicate 3 (Uninstall (Hnd 0), 0) @ replicate 3 (Trigger, 1))
    (interrupt_init t0) = Inl (CheckFailed ''state == INSTALLED'')"
  using tally_okD [OF assms(1)] assms(2)
  by (simp add: interrupt_step_def act_def member_defs interrupt_init_def numeral_eq_Suc Let_def split_def)

theorem trigger_during_uninstall_aborts_witness:
  "interrupt_run plain_tally (replicate 8 (Install (Hnd 0), 0) @ replicate 3 (Uninstall (Hnd 0), 0) @ replicate 3 (Trigger, 1))
    (interrupt_init UNINSTALLED) = Inl (CheckFailed ''state == INSTALLED'')"
  by (rule trigger_during_uninstall_aborts [OF plain_tally_ok]) (simp add: plain_tally_def)

text \<open>
  An installation that loses the race against a trigger aborts: \<^verbatim>\<open>Install\<close> then returns false but has set the handler's state to
  \<^verbatim>\<open>INSTALLED\<close>, and the CHECK for \<^verbatim>\<open>UNINSTALLED\<close> in \<^verbatim>\<open>InstallOrExecuteIfTriggered\<close> fails before the callback can be run.
\<close>

theorem install_losing_to_trigger_aborts:
  assumes "tally_ok T" and "t_state T t0 = UNINSTALLED"
  shows "interrupt_run T (replicate 3 (InstallOrExecuteIfTriggered (Hnd 0), 0) @ replicate 2 (Trigger, 1) @
      replicate 4 (InstallOrExecuteIfTriggered (Hnd 0), 0))
    (interrupt_init t0) = Inl (CheckFailed ''state_.state() == UNINSTALLED'')"
  using tally_okD [OF assms(1)] assms(2)
  by (simp add: interrupt_step_def act_def member_defs interrupt_init_def numeral_eq_Suc Let_def split_def)

theorem install_losing_to_trigger_aborts_witness:
  "interrupt_run plain_tally (replicate 3 (InstallOrExecuteIfTriggered (Hnd 0), 0) @ replicate 2 (Trigger, 1) @
      replicate 4 (InstallOrExecuteIfTriggered (Hnd 0), 0))
    (interrupt_init UNINSTALLED) = Inl (CheckFailed ''state_.state() == UNINSTALLED'')"
  by (rule install_losing_to_trigger_aborts [OF plain_tally_ok]) (simp add: plain_tally_def)

end
