(* ===== verification/Fibers.thy ===== *)
theory Fibers
  imports Eventuals_Prelude
begin

text \<open>
  The combinators that run several eventuals at once and join them: \<^verbatim>\<open>DoAll\<close> (\<^verbatim>\<open>do-all.h\<close>) and \<^verbatim>\<open>ForkJoin\<close>
  (\<^verbatim>\<open>fork-join.h\<close>).

  Each eventual runs as a fiber with a scheduler context and an interrupt of its own. The \<^verbatim>\<open>Adaptor\<close> has a slot per fiber and
  an atomic counter; the terminal of a fiber stores the fiber's result in its slot, decrements the counter, and if it was the last one
  calls the continuation \<^verbatim>\<open>k_\<close>, otherwise, on a failure or stop, it interrupts all fibers.

  The fibers, the thread that calls \<^verbatim>\<open>Start\<close>, and the interrupt handler of \<^verbatim>\<open>Register\<close> are processes that interleave at
  every access to the shared members. The eventual of a fiber is not fixed: it completes at any time with any signal. A fiber that
  completes inside the \<^verbatim>\<open>Submit\<close> or \<^verbatim>\<open>Trigger\<close> that made it run is one of the interleavings. A tuple
  of values is a \<open>VVec\<close>, and \<open>VVoid\<close> is also the \<^verbatim>\<open>std::monostate\<close> stored for an eventual without a value.
\<close>

section \<open>Slots and what the continuation is given\<close>

datatype stopped_or_error = SStopped | SError err

datatype slot = Undefined | ValueOrVoid val | StoppedOrError stopped_or_error

definition extract_stopped_or_error :: "slot \<Rightarrow> stopped_or_error option \<Rightarrow> stopped_or_error option" where
  "extract_stopped_or_error value stopped_or_error =
     (case value of
        StoppedOrError x \<Rightarrow>
          (if stopped_or_error = None \<or> stopped_or_error \<noteq> Some SStopped then Some x else stopped_or_error)
      | _ \<Rightarrow> stopped_or_error)"

definition do_all_GetStoppedOrErrorIfExists :: "slot list \<Rightarrow> stopped_or_error option" where
  "do_all_GetStoppedOrErrorIfExists slots = fold extract_stopped_or_error slots None"

definition is_value :: "slot \<Rightarrow> bool" where
  "is_value value = (case value of ValueOrVoid _ \<Rightarrow> True | _ \<Rightarrow> False)"

definition get_value :: "slot \<Rightarrow> val" where
  "get_value value = (case value of ValueOrVoid v \<Rightarrow> v | _ \<Rightarrow> VVoid)"

definition GetTupleOfValues :: "slot list \<Rightarrow> val list res" where
  "GetTupleOfValues slots = check (list_all is_value slots) ''value.index() == 1'' (Inr (map get_value slots))"

fun fork_join_scan :: "slot list \<Rightarrow> stopped_or_error option \<Rightarrow> stopped_or_error option" where
  "fork_join_scan [] stopped_or_error = stopped_or_error"
| "fork_join_scan (value # rest) stopped_or_error =
     (case value of
        StoppedOrError x \<Rightarrow>
          (if stopped_or_error = None \<or> stopped_or_error \<noteq> Some SStopped then fork_join_scan rest (Some x)
           else if stopped_or_error \<noteq> None \<and> stopped_or_error = Some SStopped then stopped_or_error
           else fork_join_scan rest stopped_or_error)
      | _ \<Rightarrow> fork_join_scan rest stopped_or_error)"

definition fork_join_GetStoppedOrErrorIfExists :: "slot list \<Rightarrow> stopped_or_error option" where
  "fork_join_GetStoppedOrErrorIfExists slots = fork_join_scan slots None"

fun get_vector_loop :: "slot list \<Rightarrow> val list \<Rightarrow> val list res" where
  "get_vector_loop [] acc = Inr acc"
| "get_vector_loop (value # rest) acc =
     check (is_value value) ''value.index() == 1'' (get_vector_loop rest (acc @ [get_value value]))"

definition GetVectorOfValues :: "slot list \<Rightarrow> val list res" where
  "GetVectorOfValues slots = get_vector_loop slots []"

section \<open>The state of a join\<close>

datatype fiber_pc =
    FIdle
  | FRun
  | FStore signal
  | FSub signal
  | FLast signal
  | FTrigger nat nat
  | FDone

datatype main_pc = MInstall | MAdaptor | MFibers | MBuild nat | MSubmit nat | MDone

datatype handler_pc = HNone | HInstalled | HTrigger nat nat | HDone

record join =
  slots :: "slot list"
  counter :: size_t
  fibers :: "nat option"
  interrupts :: "nat \<Rightarrow> bool"
  fiber_at :: "nat \<Rightarrow> fiber_pc"
  main_at :: main_pc
  handler_at :: handler_pc
  k_calls :: "signal list"
  outcome :: "nat \<Rightarrow> signal option"

text \<open>What differs between the two classes: how the slots are read, and the steps of \<^verbatim>\<open>Start\<close>.\<close>

record join_ops =
  get_stopped_or_error :: "slot list \<Rightarrow> stopped_or_error option"
  get_values :: "slot list \<Rightarrow> val list res"
  start_step :: "nat \<Rightarrow> bool option \<Rightarrow> join \<Rightarrow> join"
  fibers_init :: "nat option"

definition fiber_goto :: "nat \<Rightarrow> fiber_pc \<Rightarrow> join \<Rightarrow> join" where
  "fiber_goto i pc s = s\<lparr>fiber_at := (fiber_at s)(i := pc)\<rparr>"

definition call_k :: "signal \<Rightarrow> join \<Rightarrow> join" where
  "call_k sg s = s\<lparr>k_calls := k_calls s @ [sg]\<rparr>"

fun visit_stopped_or_error :: "stopped_or_error \<Rightarrow> signal" where
  "visit_stopped_or_error SStopped = Stopped"
| "visit_stopped_or_error (SError e) = Failed e"

section \<open>The terminal of a fiber\<close>

definition terminal_store :: "nat \<Rightarrow> signal \<Rightarrow> join \<Rightarrow> join" where
  "terminal_store index sg s =
     fiber_goto index (FSub sg)
       (s\<lparr>slots := (slots s)[index :=
          (case sg of
             Started v \<Rightarrow> ValueOrVoid v
           | Failed e \<Rightarrow> StoppedOrError (SError e)
           | Stopped \<Rightarrow> StoppedOrError SStopped)]\<rparr>)"

definition interrupter :: "join \<Rightarrow> nat res" where
  "interrupter s = (case fibers s of None \<Rightarrow> Inl (Exception ''bad_optional_access'') | Some n \<Rightarrow> Inr n)"

definition terminal_sub :: "nat \<Rightarrow> signal \<Rightarrow> join \<Rightarrow> join res" where
  "terminal_sub index sg s =
     (let s' = s\<lparr>counter := counter s - 1\<rparr>
      in if counter s = 1 then Inr (fiber_goto index (FLast sg) s')
         else case sg of
                Started _ \<Rightarrow> Inr (fiber_goto index FDone s')
              | _ \<Rightarrow> map_sum id (\<lambda>n. fiber_goto index (FTrigger 0 n) s') (interrupter s'))"

definition terminal_last :: "join_ops \<Rightarrow> nat \<Rightarrow> signal \<Rightarrow> join \<Rightarrow> join res" where
  "terminal_last ops index sg s =
     (let stopped_or_error = get_stopped_or_error ops (slots s); done = fiber_goto index FDone s
      in case sg of
           Started _ \<Rightarrow>
             (case stopped_or_error of
                Some x \<Rightarrow> Inr (call_k (visit_stopped_or_error x) done)
              | None \<Rightarrow> map_sum id (\<lambda>vs. call_k (Started (VVec vs)) done) (get_values ops (slots s)))
         | _ \<Rightarrow>
             (case stopped_or_error of
                Some x \<Rightarrow> Inr (call_k (visit_stopped_or_error x) done)
              | None \<Rightarrow> Inl (CheckFailed ''stopped_or_error'')))"

definition trigger_fiber :: "nat \<Rightarrow> join \<Rightarrow> join" where
  "trigger_fiber j s = s\<lparr>interrupts := (interrupts s)(j := True)\<rparr>"

definition fiber_step :: "join_ops \<Rightarrow> signal \<Rightarrow> nat \<Rightarrow> join \<Rightarrow> join res" where
  "fiber_step ops result i s =
     (case fiber_at s i of
        FIdle \<Rightarrow> Inr s
      | FRun \<Rightarrow> Inr (fiber_goto i (FStore result) (s\<lparr>outcome := (outcome s)(i := Some result)\<rparr>))
      | FStore sg \<Rightarrow> Inr (terminal_store i sg s)
      | FSub sg \<Rightarrow> terminal_sub i sg s
      | FLast sg \<Rightarrow> terminal_last ops i sg s
      | FTrigger j n \<Rightarrow> Inr (if j < n then fiber_goto i (FTrigger (j + 1) n) (trigger_fiber j s) else fiber_goto i FDone s)
      | FDone \<Rightarrow> Inr s)"

section \<open>Start and the interrupt handler\<close>

text \<open>
  \<^verbatim>\<open>Start\<close> first installs the handler: \<open>None\<close> when \<^verbatim>\<open>Register\<close> was not called, otherwise the result of \<^verbatim>\<open>Install\<close>.
\<close>

definition start_install :: "bool option \<Rightarrow> join \<Rightarrow> join" where
  "start_install installed s =
     (case installed of
        None \<Rightarrow> s\<lparr>main_at := MAdaptor\<rparr>
      | Some True \<Rightarrow> s\<lparr>main_at := MAdaptor, handler_at := HInstalled\<rparr>
      | Some False \<Rightarrow> call_k Stopped (s\<lparr>main_at := MDone\<rparr>))"

definition start_adaptor :: "nat \<Rightarrow> join \<Rightarrow> join" where
  "start_adaptor n s = s\<lparr>slots := replicate n Undefined, counter := of_nat n\<rparr>"

definition submit_fiber :: "nat \<Rightarrow> join \<Rightarrow> join" where
  "submit_fiber i s = fiber_goto i FRun s"

definition do_all_start_step :: "nat \<Rightarrow> bool option \<Rightarrow> join \<Rightarrow> join" where
  "do_all_start_step n installed s =
     (case main_at s of
        MInstall \<Rightarrow> start_install installed s
      | MAdaptor \<Rightarrow> (start_adaptor n s)\<lparr>main_at := MFibers\<rparr>
      | MFibers \<Rightarrow> s\<lparr>fibers := Some n, main_at := MSubmit 0\<rparr>
      | MSubmit i \<Rightarrow>
          (if i < n then (submit_fiber i s)\<lparr>main_at := MSubmit (i + 1)\<rparr> else s\<lparr>main_at := MDone\<rparr>)
      | _ \<Rightarrow> s)"

definition fork_join_start_step :: "nat \<Rightarrow> bool option \<Rightarrow> join \<Rightarrow> join" where
  "fork_join_start_step n installed s =
     (case main_at s of
        MInstall \<Rightarrow> start_install installed s
      | MAdaptor \<Rightarrow> (start_adaptor n s)\<lparr>main_at := MBuild 0\<rparr>
      | MBuild i \<Rightarrow>
          (if i < n then s\<lparr>fibers := Some (i + 1), main_at := MSubmit i\<rparr> else s\<lparr>main_at := MDone\<rparr>)
      | MSubmit i \<Rightarrow> (submit_fiber i s)\<lparr>main_at := MBuild (i + 1)\<rparr>
      | _ \<Rightarrow> s)"

definition handler_step :: "join \<Rightarrow> join res" where
  "handler_step s =
     (case handler_at s of
        HInstalled \<Rightarrow> map_sum id (\<lambda>n. s\<lparr>handler_at := HTrigger 0 n\<rparr>) (interrupter s)
      | HTrigger j n \<Rightarrow>
          Inr (if j < n then (trigger_fiber j s)\<lparr>handler_at := HTrigger (j + 1) n\<rparr> else s\<lparr>handler_at := HDone\<rparr>)
      | _ \<Rightarrow> Inr s)"

section \<open>Steps and executions\<close>

definition DoAll :: join_ops where
  "DoAll =
     \<lparr>get_stopped_or_error = do_all_GetStoppedOrErrorIfExists, get_values = GetTupleOfValues,
      start_step = do_all_start_step, fibers_init = None\<rparr>"

definition ForkJoin :: join_ops where
  "ForkJoin =
     \<lparr>get_stopped_or_error = fork_join_GetStoppedOrErrorIfExists, get_values = GetVectorOfValues,
      start_step = fork_join_start_step, fibers_init = Some 0\<rparr>"

datatype join_act = StartStep "bool option" | FiberStep nat signal | HandlerStep

fun join_step :: "join_ops \<Rightarrow> nat \<Rightarrow> join_act \<Rightarrow> join \<Rightarrow> join res" where
  "join_step ops n (StartStep installed) s = Inr (start_step ops n installed s)"
| "join_step ops n (FiberStep i result) s = fiber_step ops result i s"
| "join_step ops n HandlerStep s = handler_step s"

definition join_init :: "join_ops \<Rightarrow> join" where
  "join_init ops =
     \<lparr>slots = [], counter = 0, fibers = fibers_init ops, interrupts = (\<lambda>_. False), fiber_at = (\<lambda>_. FIdle),
      main_at = MInstall, handler_at = HNone, k_calls = [], outcome = (\<lambda>_. None)\<rparr>"

inductive join_reach :: "join_ops \<Rightarrow> nat \<Rightarrow> join \<Rightarrow> bool" for ops n where
  join_start: "join_reach ops n (join_init ops)"
| join_next: "join_reach ops n s \<Longrightarrow> join_step ops n a s = Inr s' \<Longrightarrow> join_reach ops n s'"

fun join_run :: "join_ops \<Rightarrow> nat \<Rightarrow> join_act list \<Rightarrow> join \<Rightarrow> join res" where
  "join_run ops n [] s = Inr s"
| "join_run ops n (a # as) s = rbind (join_step ops n a s) (join_run ops n as)"

lemma join_run_reach: "join_reach ops n s \<Longrightarrow> join_run ops n as s = Inr s' \<Longrightarrow> join_reach ops n s'"
  by (induction as arbitrary: s) (auto intro: join_next)

end
