(* ===== verification/Fiber_Theorems.thy ===== *)
theory Fiber_Theorems
  imports Fibers
begin

text \<open>
  Properties of \<^verbatim>\<open>DoAll\<close> and \<^verbatim>\<open>ForkJoin\<close>, for any results of the fibers and any interleaving. The locale \<open>joiner\<close> states what
  the shared proofs use of the two classes: that the slots are read as a specification over the fibers' signals says, and that
  \<^verbatim>\<open>Start\<close> does nothing but install, prepare and submit. Both classes interpret it.
\<close>

lemma map_sum_Inr_iff: "map_sum id f r = Inr b \<longleftrightarrow> (\<exists>a. r = Inr a \<and> f a = b)"
  by (cases r) auto

section \<open>Specification\<close>

fun slot_of :: "signal \<Rightarrow> slot" where
  "slot_of (Started v) = ValueOrVoid v"
| "slot_of (Failed e) = StoppedOrError (SError e)"
| "slot_of Stopped = StoppedOrError SStopped"

fun failures :: "signal list \<Rightarrow> err list" where
  "failures [] = []"
| "failures (Failed e # sgs) = e # failures sgs"
| "failures (_ # sgs) = failures sgs"

fun started_values :: "signal list \<Rightarrow> val list" where
  "started_values [] = []"
| "started_values (Started v # sgs) = v # started_values sgs"
| "started_values (_ # sgs) = started_values sgs"

definition stopped_or_last_failure :: "signal list \<Rightarrow> stopped_or_error option" where
  "stopped_or_last_failure sgs =
     (if Stopped \<in> set sgs then Some SStopped
      else if failures sgs = [] then None else Some (SError (last (failures sgs))))"

definition join_result :: "signal list \<Rightarrow> signal" where
  "join_result sgs =
     (case stopped_or_last_failure sgs of Some x \<Rightarrow> visit_stopped_or_error x | None \<Rightarrow> Started (VVec (started_values sgs)))"

lemma failures_Nil_iff: "failures sgs = [] \<longleftrightarrow> (\<forall>e. Failed e \<notin> set sgs)"
  by (induction sgs rule: failures.induct) auto

lemma stopped_or_last_failure_Cons:
  "stopped_or_last_failure (sg # sgs) =
     (case sg of
        Started _ \<Rightarrow> stopped_or_last_failure sgs
      | Stopped \<Rightarrow> Some SStopped
      | Failed e \<Rightarrow> (case stopped_or_last_failure sgs of None \<Rightarrow> Some (SError e) | Some x \<Rightarrow> Some x))"
  by (cases sg) (auto simp: stopped_or_last_failure_def)

lemma stopped_or_last_failure_None: "stopped_or_last_failure sgs = None \<longleftrightarrow> (\<forall>sg\<in>set sgs. \<exists>v. sg = Started v)"
proof (induction sgs)
  case (Cons sg sgs)
  then show ?case
    by (cases sg) (auto simp: stopped_or_last_failure_Cons split: option.splits)
qed (simp add: stopped_or_last_failure_def)

lemma do_all_fold:
  "fold extract_stopped_or_error (map slot_of sgs) acc =
     (if acc = Some SStopped then acc else case stopped_or_last_failure sgs of None \<Rightarrow> acc | Some x \<Rightarrow> Some x)"
proof (induction sgs arbitrary: acc)
  case (Cons sg sgs)
  then show ?case
    by (cases sg) (auto simp: extract_stopped_or_error_def stopped_or_last_failure_Cons split: option.splits)
qed (simp add: stopped_or_last_failure_def)

lemma fork_join_fold:
  "fork_join_scan (map slot_of sgs) acc =
     (if acc = Some SStopped then acc else case stopped_or_last_failure sgs of None \<Rightarrow> acc | Some x \<Rightarrow> Some x)"
proof (induction sgs arbitrary: acc)
  case (Cons sg sgs)
  then show ?case
    by (cases sg) (auto simp: stopped_or_last_failure_Cons split: option.splits)
qed (simp add: stopped_or_last_failure_def)

lemma values_of_started:
  assumes "stopped_or_last_failure sgs = None"
  shows "list_all is_value (map slot_of sgs)" "map get_value (map slot_of sgs) = started_values sgs"
proof -
  have "list_all is_value (map slot_of sgs) \<and> map get_value (map slot_of sgs) = started_values sgs"
    using assms unfolding stopped_or_last_failure_None
    by (induction sgs) (auto simp: is_value_def get_value_def)
  then show "list_all is_value (map slot_of sgs)" "map get_value (map slot_of sgs) = started_values sgs"
    by auto
qed

lemma get_vector_loop_values:
  "list_all is_value vs \<Longrightarrow> get_vector_loop vs acc = Inr (acc @ map get_value vs)"
  by (induction vs arbitrary: acc) auto

section \<open>What Start does\<close>

fun submitted :: "nat \<Rightarrow> main_pc \<Rightarrow> nat" where
  "submitted n (MBuild i) = i"
| "submitted n (MSubmit i) = i"
| "submitted n MDone = n"
| "submitted n _ = 0"

fun preparing :: "main_pc \<Rightarrow> bool" where
  "preparing MInstall = True"
| "preparing MAdaptor = True"
| "preparing _ = False"

inductive start_rel :: "nat \<Rightarrow> join \<Rightarrow> join \<Rightarrow> bool" for n where
  start_rel_install: "main_at s = MInstall \<Longrightarrow> start_rel n s (start_install installed s)"
| start_rel_adaptor:
    "main_at s = MAdaptor \<Longrightarrow> \<not> preparing m \<Longrightarrow> submitted n m = 0 \<Longrightarrow> m \<noteq> MDone \<Longrightarrow> m \<noteq> MSubmit 0 \<Longrightarrow>
     start_rel n s ((start_adaptor n s)\<lparr>main_at := m\<rparr>)"
| start_rel_emplace:
    "\<not> preparing (main_at s) \<Longrightarrow> main_at s \<noteq> MDone \<Longrightarrow> submitted n (main_at s) = i \<Longrightarrow> i \<le> n \<Longrightarrow> i < b \<or> i = n \<Longrightarrow>
     start_rel n s (s\<lparr>fibers := Some b, main_at := MSubmit i\<rparr>)"
| start_rel_submit:
    "main_at s = MSubmit i \<Longrightarrow> i < n \<Longrightarrow> m = MSubmit (i + 1) \<or> m = MBuild (i + 1) \<Longrightarrow>
     start_rel n s ((submit_fiber i s)\<lparr>main_at := m\<rparr>)"
| start_rel_finish:
    "\<not> preparing (main_at s) \<Longrightarrow> submitted n (main_at s) = n \<Longrightarrow> start_rel n s (s\<lparr>main_at := MDone\<rparr>)"
| start_rel_idle: "start_rel n s s"

section \<open>The invariant\<close>

fun stored :: "fiber_pc \<Rightarrow> bool" where
  "stored FIdle = False"
| "stored FRun = False"
| "stored (FStore _) = False"
| "stored _ = True"

fun subbed :: "fiber_pc \<Rightarrow> bool" where
  "subbed (FLast _) = True"
| "subbed (FTrigger _ _) = True"
| "subbed FDone = True"
| "subbed _ = False"

fun is_last :: "fiber_pc \<Rightarrow> bool" where
  "is_last (FLast _) = True"
| "is_last _ = False"

fun carried :: "fiber_pc \<Rightarrow> signal option" where
  "carried (FStore sg) = Some sg"
| "carried (FSub sg) = Some sg"
| "carried (FLast sg) = Some sg"
| "carried _ = None"

definition waiting :: "nat \<Rightarrow> join \<Rightarrow> nat set" where
  "waiting n s = {i. i < n \<and> \<not> subbed (fiber_at s i)}"

definition outcomes :: "nat \<Rightarrow> join \<Rightarrow> signal list" where
  "outcomes n s = map (the \<circ> outcome s) [0..<n]"

definition fiber_ok :: "nat \<Rightarrow> join \<Rightarrow> nat \<Rightarrow> bool" where
  "fiber_ok n s i \<longleftrightarrow>
     (fiber_at s i = FIdle \<longleftrightarrow> submitted n (main_at s) \<le> i) \<and>
     (outcome s i = None \<longleftrightarrow> fiber_at s i = FIdle \<or> fiber_at s i = FRun) \<and>
     (carried (fiber_at s i) \<noteq> None \<longrightarrow> outcome s i = carried (fiber_at s i)) \<and>
     (i < n \<longrightarrow> slots s ! i = (if stored (fiber_at s i) then slot_of (the (outcome s i)) else Undefined))"

definition k_ok :: "nat \<Rightarrow> join \<Rightarrow> bool" where
  "k_ok n s \<longleftrightarrow>
     (if waiting n s \<noteq> {} then k_calls s = [] \<and> (\<forall>i. \<not> is_last (fiber_at s i))
      else n = 0 \<and> k_calls s = [] \<and> (\<forall>i. \<not> is_last (fiber_at s i)) \<or>
           k_calls s = [] \<and> (\<exists>i. is_last (fiber_at s i) \<and> (\<forall>j. is_last (fiber_at s j) \<longrightarrow> j = i)) \<or>
           n \<noteq> 0 \<and> k_calls s = [join_result (outcomes n s)] \<and> (\<forall>i. \<not> is_last (fiber_at s i)))"

definition run_inv :: "nat \<Rightarrow> join \<Rightarrow> bool" where
  "run_inv n s \<longleftrightarrow>
     \<not> preparing (main_at s) \<and> submitted n (main_at s) \<le> n \<and> length (slots s) = n \<and>
     (\<forall>i. fiber_ok n s i) \<and> counter s = of_nat (card (waiting n s)) \<and>
     ((\<exists>i. main_at s = MSubmit i) \<or> 0 < submitted n (main_at s) \<longrightarrow> fibers s \<noteq> None) \<and> k_ok n s"

definition fresh :: "join \<Rightarrow> bool" where
  "fresh s \<longleftrightarrow> preparing (main_at s) \<and> fiber_at s = (\<lambda>_. FIdle) \<and> outcome s = (\<lambda>_. None) \<and> k_calls s = [] \<and>
     (main_at s = MInstall \<longrightarrow> handler_at s = HNone)"

definition cancelled :: "join \<Rightarrow> bool" where
  "cancelled s \<longleftrightarrow>
     main_at s = MDone \<and> fiber_at s = (\<lambda>_. FIdle) \<and> outcome s = (\<lambda>_. None) \<and> k_calls s = [Stopped] \<and> handler_at s = HNone"

definition join_inv :: "nat \<Rightarrow> join \<Rightarrow> bool" where
  "join_inv n s \<longleftrightarrow> cancelled s \<or> fresh s \<or> run_inv n s"

lemma waiting_finite [simp]: "finite (waiting n s)"
  by (simp add: waiting_def)

lemma card_waiting_le: "card (waiting n s) \<le> n"
proof -
  have "waiting n s \<subseteq> {..<n}" by (auto simp: waiting_def)
  then have "card (waiting n s) \<le> card {..<n}" by (intro card_mono) auto
  then show ?thesis by simp
qed

lemma of_nat_size_eq_1:
  assumes "m < 2 ^ 64"
  shows "(of_nat m :: size_t) = 1 \<longleftrightarrow> m = 1"
proof -
  have "(of_nat m :: size_t) = 1 \<longleftrightarrow> unat (of_nat m :: size_t) = unat (1 :: size_t)"
    by (metis word_unat_eq_iff)
  then show ?thesis
    using assms by (simp add: unat_of_nat)
qed

lemma run_invD:
  assumes "run_inv n s"
  shows "fiber_ok n s i" "length (slots s) = n" "counter s = of_nat (card (waiting n s))" "k_ok n s"
    "\<not> preparing (main_at s)" "submitted n (main_at s) \<le> n"
    "(\<exists>i. main_at s = MSubmit i) \<or> 0 < submitted n (main_at s) \<Longrightarrow> fibers s \<noteq> None"
  using assms unfolding run_inv_def by blast+

lemma run_invI:
  assumes "\<not> preparing (main_at s)" "submitted n (main_at s) \<le> n" "length (slots s) = n" "\<And>i. fiber_ok n s i"
    "counter s = of_nat (card (waiting n s))" "(\<exists>i. main_at s = MSubmit i) \<or> 0 < submitted n (main_at s) \<Longrightarrow> fibers s \<noteq> None"
    "k_ok n s"
  shows "run_inv n s"
  using assms unfolding run_inv_def by blast

lemma fiber_at_bound:
  assumes "run_inv n s" and "fiber_at s i \<noteq> FIdle"
  shows "i < submitted n (main_at s)" "i < n"
proof -
  show *: "i < submitted n (main_at s)"
    using assms run_invD(1)[OF assms(1), of i] unfolding fiber_ok_def by (meson leI)
  then show "i < n"
    using run_invD(6)[OF assms(1)] by simp
qed

text \<open>A step of a fiber that neither subtracts from the counter nor calls the continuation.\<close>

lemma run_inv_quiet:
  assumes "run_inv n s" and "fiber_at s i \<noteq> FIdle"
    and "fiber_at s' = (fiber_at s)(i := pc)" "subbed pc = subbed (fiber_at s i)" "is_last pc = is_last (fiber_at s i)"
    and "fiber_ok n s' i" "\<And>j. j \<noteq> i \<Longrightarrow> outcome s' j = outcome s j \<and> slots s' ! j = slots s ! j"
    and "length (slots s') = length (slots s)" "counter s' = counter s" "fibers s' = fibers s"
    and "main_at s' = main_at s" "k_calls s' = k_calls s" "k_calls s \<noteq> [] \<Longrightarrow> outcome s' = outcome s"
  shows "run_inv n s'"
proof -
  have w: "waiting n s' = waiting n s"
    using assms(3,4) by (auto simp: waiting_def)
  have l: "is_last (fiber_at s' j) = is_last (fiber_at s j)" for j
    using assms(3,5) by auto
  have ok: "fiber_ok n s' j" for j
  proof (cases "j = i")
    case True
    then show ?thesis using assms(6) by simp
  next
    case False
    then show ?thesis
      using run_invD(1)[OF assms(1), of j] assms(3,7,11) by (simp add: fiber_ok_def)
  qed
  have o: "k_calls s \<noteq> [] \<Longrightarrow> outcomes n s' = outcomes n s"
    using assms(13) by (simp add: outcomes_def)
  have "k_ok n s'"
    using run_invD(4)[OF assms(1)] o unfolding k_ok_def w l assms(12) by (cases "k_calls s = []") (simp_all split: if_splits)
  then show ?thesis
    using assms(1,8,9,10,11) ok w unfolding run_inv_def by auto
qed

lemma k_ok_cong:
  assumes "k_ok n s" and "waiting n s' = waiting n s" "k_calls s' = k_calls s" "outcome s' = outcome s"
    "\<And>j. is_last (fiber_at s' j) = is_last (fiber_at s j)"
  shows "k_ok n s'"
proof -
  have o: "outcomes n s' = outcomes n s" by (simp add: outcomes_def assms(4))
  show ?thesis using assms(1) unfolding k_ok_def assms(2,3,5) o .
qed

lemma waiting_no_call:
  assumes "run_inv n s" and "i \<in> waiting n s"
  shows "k_calls s = []" "\<not> is_last (fiber_at s j)"
proof -
  have "waiting n s \<noteq> {}" using assms(2) by auto
  then show "k_calls s = []" "\<not> is_last (fiber_at s j)"
    using run_invD(4)[OF assms(1)] by (auto simp: k_ok_def)
qed

lemma run_inv_sub:
  assumes "run_inv n s" and "n < 2 ^ 64" and "fiber_at s i = FSub sg"
  shows "\<exists>s'. terminal_sub i sg s = Inr s' \<and> run_inv n s'"
proof -
  have i: "i \<in> waiting n s" and f: "fibers s \<noteq> None"
    using fiber_at_bound[OF assms(1), of i] run_invD(7)[OF assms(1)] assms(3) by (auto simp: waiting_def)
  note nocall = waiting_no_call[OF assms(1) i]
  have card: "card (waiting n s) \<noteq> 0" using i by auto
  have lt: "card (waiting n s) < 2 ^ 64" using card_waiting_le[of n s] assms(2) by simp
  have main: "run_inv n (fiber_goto i pc (s\<lparr>counter := counter s - 1\<rparr>))"
    if pc: "subbed pc" "is_last pc \<longleftrightarrow> card (waiting n s) = 1" "stored pc" "carried pc \<noteq> None \<longrightarrow> carried pc = Some sg" for pc
  proof -
    let ?s = "fiber_goto i pc (s\<lparr>counter := counter s - 1\<rparr>)"
    have w: "waiting n ?s = waiting n s - {i}"
      using pc(1) by (auto simp: waiting_def fiber_goto_def)
    have "card (waiting n s) = Suc (card (waiting n s - {i}))"
      using card_Suc_Diff1[OF waiting_finite i] by simp
    then have c: "counter ?s = of_nat (card (waiting n ?s))"
      using run_invD(3)[OF assms(1)] unfolding w by (simp add: fiber_goto_def)
    have "fiber_ok n ?s j" for j
      using run_invD(1)[OF assms(1), of j] assms(3) pc
      by (cases "j = i") (auto simp: fiber_ok_def fiber_goto_def)
    moreover have "k_ok n ?s"
    proof (cases "card (waiting n s) = 1")
      case True
      then have "waiting n s = {i}" using i by (metis card_1_singletonE singletonD)
      then show ?thesis
        using True nocall pc(2) unfolding k_ok_def w by (auto simp: fiber_goto_def)
    next
      case False
      then have "waiting n s - {i} \<noteq> {}"
        using card i by (metis One_nat_def card.empty card_Suc_Diff1 waiting_finite)
      then show ?thesis
        using False nocall pc(2) unfolding k_ok_def w by (auto simp: fiber_goto_def)
    qed
    ultimately show ?thesis
      using run_invD(2,5,6,7)[OF assms(1)] c by (intro run_invI) (simp_all add: fiber_goto_def)
  qed
  have one: "counter s = 1 \<longleftrightarrow> card (waiting n s) = 1"
    using run_invD(3)[OF assms(1)] of_nat_size_eq_1[OF lt] by simp
  show ?thesis
  proof (cases "counter s = 1")
    case True
    then show ?thesis using one main[of "FLast sg"] by (simp add: terminal_sub_def Let_def)
  next
    case False
    then show ?thesis
      using one main[of FDone] main[of "FTrigger 0 (the (fibers s))"] f
      by (cases sg) (auto simp: terminal_sub_def Let_def interrupter_def)
  qed
qed

lemma run_inv_started:
  assumes "fresh s" and "\<not> preparing m" "submitted n m = 0" "m \<noteq> MDone" "m \<noteq> MSubmit 0"
  shows "run_inv n ((start_adaptor n s)\<lparr>main_at := m\<rparr>)" (is "run_inv n ?s")
proof (rule run_invI)
  have w: "waiting n ?s = {..<n}"
    using assms(1) by (auto simp: waiting_def start_adaptor_def fresh_def)
  show "counter ?s = of_nat (card (waiting n ?s))" unfolding w by (simp add: start_adaptor_def)
  show "k_ok n ?s" using assms(1) unfolding k_ok_def w by (auto simp: start_adaptor_def fresh_def)
  show "fiber_ok n ?s i" for i using assms by (simp add: fiber_ok_def start_adaptor_def fresh_def)
  show "(\<exists>i. main_at ?s = MSubmit i) \<or> 0 < submitted n (main_at ?s) \<Longrightarrow> fibers ?s \<noteq> None"
    using assms by (cases m) auto
qed (use assms in \<open>simp_all add: start_adaptor_def\<close>)

lemma run_inv_main:
  assumes "run_inv n s" and "\<not> preparing m" "submitted n m = submitted n (main_at s)"
    and "(\<exists>i. m = MSubmit i) \<or> 0 < submitted n m \<Longrightarrow> b \<noteq> None"
  shows "run_inv n (s\<lparr>fibers := b, main_at := m\<rparr>)" (is "run_inv n ?s")
proof (rule run_invI)
  have w: "waiting n ?s = waiting n s" by (simp add: waiting_def)
  show "counter ?s = of_nat (card (waiting n ?s))" unfolding w using run_invD(3)[OF assms(1)] by simp
  show "k_ok n ?s" by (rule k_ok_cong[OF run_invD(4)[OF assms(1)] w]) simp_all
  show "fiber_ok n ?s i" for i using run_invD(1)[OF assms(1), of i] assms(3) by (simp add: fiber_ok_def)
qed (use run_invD(2,6)[OF assms(1)] assms(2-4) in simp_all)

lemma run_inv_submit:
  assumes "run_inv n s" and "main_at s = MSubmit i" "i < n" "m = MSubmit (i + 1) \<or> m = MBuild (i + 1)"
  shows "run_inv n ((submit_fiber i s)\<lparr>main_at := m\<rparr>)" (is "run_inv n ?s")
proof (rule run_invI)
  have idle: "fiber_at s i = FIdle"
    using run_invD(1)[OF assms(1), of i] assms(2) by (simp add: fiber_ok_def)
  have w: "waiting n ?s = waiting n s"
    using idle by (auto simp: waiting_def submit_fiber_def fiber_goto_def)
  have l: "is_last (fiber_at ?s j) = is_last (fiber_at s j)" for j
    using idle by (simp add: submit_fiber_def fiber_goto_def)
  show "counter ?s = of_nat (card (waiting n ?s))"
    unfolding w using run_invD(3)[OF assms(1)] by (simp add: submit_fiber_def fiber_goto_def)
  show "k_ok n ?s"
    by (rule k_ok_cong[OF run_invD(4)[OF assms(1)] w _ _ l]) (simp_all add: submit_fiber_def fiber_goto_def)
  show "fiber_ok n ?s j" for j
    using run_invD(1)[OF assms(1), of j] assms(2-4) idle
    by (auto simp: fiber_ok_def submit_fiber_def fiber_goto_def)
  show "(\<exists>i. main_at ?s = MSubmit i) \<or> 0 < submitted n (main_at ?s) \<Longrightarrow> fibers ?s \<noteq> None"
    using run_invD(7)[OF assms(1)] assms(2) by (simp add: submit_fiber_def fiber_goto_def)
qed (use run_invD(2)[OF assms(1)] assms(3,4) in \<open>auto simp: submit_fiber_def fiber_goto_def\<close>)

lemma run_inv_handler:
  assumes "run_inv n s" and "s' = s\<lparr>interrupts := is, handler_at := h\<rparr>"
  shows "run_inv n s'"
proof (rule run_invI)
  have w: "waiting n s' = waiting n s" by (simp add: waiting_def assms(2))
  show "counter s' = of_nat (card (waiting n s'))" unfolding w using run_invD(3)[OF assms(1)] assms(2) by simp
  show "k_ok n s'" by (rule k_ok_cong[OF run_invD(4)[OF assms(1)] w]) (simp_all add: assms(2))
  show "fiber_ok n s' i" for i using run_invD(1)[OF assms(1), of i] by (simp add: fiber_ok_def assms(2))
qed (use run_invD(2,5,6,7)[OF assms(1)] assms(2) in simp_all)

section \<open>The contract of the two classes\<close>

locale joiner =
  fixes ops :: join_ops and n :: nat and main_ok :: "main_pc \<Rightarrow> bool"
  assumes forks_fit: "n < 2 ^ 64"
    and stopped_or_error_law: "get_stopped_or_error ops (map slot_of sgs) = stopped_or_last_failure sgs"
    and values_law: "stopped_or_last_failure sgs = None \<Longrightarrow> get_values ops (map slot_of sgs) = Inr (started_values sgs)"
    and main_ok_init: "main_ok MInstall"
    and start_law: "main_ok (main_at s) \<Longrightarrow>
      start_rel n s (start_step ops n installed s) \<and> main_ok (main_at (start_step ops n installed s))"
begin

lemma last_inv:
  assumes "run_inv n s" and "fiber_at s i = FLast sg"
  shows "\<exists>s'. terminal_last ops i sg s = Inr s' \<and> run_inv n s'"
proof -
  have wait: "waiting n s = {}"
    using waiting_no_call(2)[OF assms(1), of _ i] assms(2) by auto
  have i: "i < n" using fiber_at_bound[OF assms(1), of i] assms(2) by simp
  have stored: "stored (fiber_at s j)" if "j < n" for j
  proof -
    have "subbed (fiber_at s j)" using wait that by (auto simp: waiting_def)
    then show ?thesis by (cases "fiber_at s j") auto
  qed
  have slots: "slots s = map slot_of (outcomes n s)"
    using run_invD(1,2)[OF assms(1)] stored by (auto simp: outcomes_def fiber_ok_def intro!: nth_equalityI)
  have "outcome s i = Some sg"
    using run_invD(1)[OF assms(1), of i] assms(2) by (simp add: fiber_ok_def)
  then have sg: "sg \<in> set (outcomes n s)" using i by (force simp: outcomes_def)
  have last: "is_last (fiber_at s i)" using assms(2) by simp
  then have k: "k_calls s = []" "\<And>j. is_last (fiber_at s j) \<Longrightarrow> j = i"
    using run_invD(4)[OF assms(1)] wait by (auto simp: k_ok_def)
  have inv: "run_inv n (call_k (join_result (outcomes n s)) (fiber_goto i FDone s))" (is "run_inv n ?s")
  proof -
    have w: "waiting n ?s = waiting n s"
      using assms(2) by (auto simp: waiting_def fiber_goto_def call_k_def)
    have "fiber_ok n ?s j" for j
      using run_invD(1)[OF assms(1), of j] assms(2)
      by (cases "j = i") (auto simp: fiber_ok_def fiber_goto_def call_k_def)
    moreover have "k_ok n ?s"
      using wait k i unfolding k_ok_def w by (auto simp: fiber_goto_def call_k_def outcomes_def)
    ultimately show ?thesis
      using run_invD(2,3,5,6,7)[OF assms(1)] w by (intro run_invI) (simp_all add: fiber_goto_def call_k_def)
  qed
  show ?thesis
  proof (cases "stopped_or_last_failure (outcomes n s)")
    case None
    then have "\<exists>v. sg = Started v" using sg stopped_or_last_failure_None by blast
    then show ?thesis
      using None inv by (auto simp: terminal_last_def slots stopped_or_error_law values_law join_result_def)
  next
    case (Some x)
    then show ?thesis
      using inv by (cases sg) (auto simp: terminal_last_def slots stopped_or_error_law join_result_def)
  qed
qed

lemma fiber_inv:
  assumes "run_inv n s"
  shows "\<exists>s'. fiber_step ops result i s = Inr s' \<and> run_inv n s'"
proof (cases "fiber_at s i")
  case FRun
  have "i \<in> waiting n s" using fiber_at_bound[OF assms, of i] FRun by (simp add: waiting_def)
  then have k: "k_calls s = []" by (rule waiting_no_call(1)[OF assms])
  show ?thesis
    using run_invD(1)[OF assms, of i] FRun k
    by (auto simp: fiber_step_def fiber_goto_def fiber_ok_def intro!: run_inv_quiet[OF assms, of i])
next
  case (FStore sg)
  have i: "i < length (slots s)" using fiber_at_bound(2)[OF assms, of i] run_invD(2)[OF assms] FStore by simp
  have "fiber_ok n (terminal_store i sg s) i"
    using run_invD(1)[OF assms, of i] FStore i
    by (cases sg) (simp_all add: fiber_ok_def terminal_store_def fiber_goto_def)
  then have "run_inv n (terminal_store i sg s)"
    by (rule run_inv_quiet[OF assms, of i _ "FSub sg", rotated 4]) (simp_all add: FStore terminal_store_def fiber_goto_def)
  then show ?thesis using FStore by (simp add: fiber_step_def)
next
  case (FSub sg)
  then show ?thesis using run_inv_sub[OF assms forks_fit] by (simp add: fiber_step_def)
next
  case (FLast sg)
  then show ?thesis using last_inv[OF assms] by (simp add: fiber_step_def)
next
  case (FTrigger j b)
  show ?thesis
    using run_invD(1)[OF assms, of i] FTrigger
    by (auto simp: fiber_step_def fiber_goto_def trigger_fiber_def fiber_ok_def intro!: run_inv_quiet[OF assms, of i])
qed (use assms in \<open>simp_all add: fiber_step_def\<close>)

lemma start_inv:
  assumes "join_inv n s" and "main_ok (main_at s)"
  shows "join_inv n (start_step ops n installed s)"
proof -
  have "start_rel n s (start_step ops n installed s)" using start_law[OF assms(2)] by blast
  then show ?thesis
  proof cases
    case (start_rel_install i)
    then have "fresh s" using assms(1) run_invD(5)[of n s] by (auto simp: join_inv_def cancelled_def)
    then show ?thesis
      using start_rel_install
      by (auto simp: join_inv_def start_install_def fresh_def cancelled_def call_k_def split: option.splits bool.splits)
  next
    case (start_rel_adaptor m)
    then have "fresh s" using assms(1) run_invD(5)[of n s] by (auto simp: join_inv_def cancelled_def)
    then show ?thesis using start_rel_adaptor by (simp add: join_inv_def run_inv_started)
  next
    case (start_rel_emplace i b)
    then have "run_inv n s" using assms(1) by (auto simp: join_inv_def cancelled_def fresh_def)
    then show ?thesis using start_rel_emplace by (simp add: join_inv_def run_inv_main)
  next
    case (start_rel_submit i m)
    then have "run_inv n s" using assms(1) by (auto simp: join_inv_def cancelled_def fresh_def)
    then show ?thesis using start_rel_submit by (simp add: join_inv_def run_inv_submit)
  next
    case start_rel_finish
    then consider "cancelled s" | "run_inv n s" using assms(1) by (auto simp: join_inv_def fresh_def)
    then show ?thesis
    proof cases
      case 1
      then show ?thesis using start_rel_finish by (simp add: join_inv_def cancelled_def)
    next
      case 2
      then have "run_inv n (s\<lparr>fibers := fibers s, main_at := MDone\<rparr>)"
        using start_rel_finish run_invD(7)[OF 2] by (intro run_inv_main) auto
      then show ?thesis using start_rel_finish by (simp add: join_inv_def)
    qed
  next
    case start_rel_idle
    then show ?thesis using assms(1) by simp
  qed
qed

lemma handler_inv:
  assumes "join_inv n s" and "handler_step s = Inr s'"
  shows "join_inv n s'"
proof -
  have s': "\<exists>is h. s' = s\<lparr>interrupts := is, handler_at := h\<rparr> \<and> (handler_at s = HNone \<longrightarrow> h = HNone)"
  proof (cases "handler_at s")
    case HInstalled
    then show ?thesis
      using assms(2) by (cases "fibers s") (auto simp: handler_step_def interrupter_def intro!: exI[of _ "interrupts s"] exI[of _ "handler_at s'"])
  next
    case (HTrigger j m)
    then show ?thesis
      using assms(2)
      by (auto simp: handler_step_def trigger_fiber_def split: if_splits intro!: exI[of _ "interrupts s'"] exI[of _ "handler_at s'"])
  qed (use assms(2) in \<open>auto simp: handler_step_def intro!: exI[of _ "interrupts s"] exI[of _ "handler_at s"]\<close>)
  then obtain "is" h where *: "s' = s\<lparr>interrupts := is, handler_at := h\<rparr>" "handler_at s = HNone \<longrightarrow> h = HNone" by blast
  show ?thesis
    using assms(1) *(2) run_inv_handler[OF _ *(1), of n] unfolding join_inv_def
    by (auto simp: *(1) cancelled_def fresh_def)
qed

lemma fiber_inv_any:
  assumes "join_inv n s"
  shows "\<exists>s'. fiber_step ops result i s = Inr s' \<and> join_inv n s'"
  using assms fiber_inv[of s result i] unfolding join_inv_def cancelled_def fresh_def
  by (auto simp: fiber_step_def)

theorem join_reach_inv: "join_reach ops n s \<Longrightarrow> join_inv n s \<and> main_ok (main_at s)"
proof (induction rule: join_reach.induct)
  case join_start
  then show ?case by (simp add: join_init_def join_inv_def fresh_def main_ok_init)
next
  case (join_next s a s')
  then show ?case
  proof (cases a)
    case (StartStep installed)
    then show ?thesis using join_next start_inv start_law by auto
  next
    case (FiberStep i result)
    have "main_at s' = main_at s" if "fiber_step ops result i s = Inr s'"
      using that by (auto simp: fiber_step_def terminal_store_def terminal_sub_def terminal_last_def fiber_goto_def
        call_k_def trigger_fiber_def interrupter_def Let_def map_sum_Inr_iff split: fiber_pc.splits if_splits signal.splits option.splits
        sum.splits)
    then show ?thesis using join_next FiberStep fiber_inv_any[of s result i] by auto
  next
    case HandlerStep
    have "main_at s' = main_at s" if "handler_step s = Inr s'"
      using that by (auto simp: handler_step_def trigger_fiber_def interrupter_def split: handler_pc.splits if_splits option.splits)
    then show ?thesis using join_next HandlerStep handler_inv by auto
  qed
qed

lemma k_called_once:
  assumes "join_reach ops n s"
  shows "k_calls s = [] \<or> k_calls s = [Stopped] \<and> outcome s = (\<lambda>_. None) \<or>
         k_calls s = [join_result (outcomes n s)] \<and> (\<forall>i<n. outcome s i \<noteq> None)"
proof -
  consider "cancelled s" | "fresh s" | "run_inv n s" using join_reach_inv[OF assms] by (auto simp: join_inv_def)
  then show ?thesis
  proof cases
    case 3
    have "outcome s i \<noteq> None" if "k_calls s \<noteq> []" "i < n" for i
    proof -
      have "subbed (fiber_at s i)" using waiting_no_call(1)[OF 3, of i] that by (auto simp: waiting_def)
      then show ?thesis using run_invD(1)[OF 3, of i] by (auto simp: fiber_ok_def)
    qed
    then show ?thesis using run_invD(4)[OF 3] by (auto simp: k_ok_def split: if_splits)
  qed (auto simp: cancelled_def fresh_def)
qed

lemma k_called_eventually:
  assumes "join_reach ops n s" and "0 < n" and "main_at s = MDone" and "\<forall>i. fiber_at s i = FIdle \<or> fiber_at s i = FDone"
  shows "k_calls s \<noteq> []"
proof -
  consider "cancelled s" | "run_inv n s" using join_reach_inv[OF assms(1)] assms(3) by (auto simp: join_inv_def fresh_def)
  then show ?thesis
  proof cases
    case 2
    have "fiber_at s i = FDone" if "i < n" for i
      using run_invD(1)[OF 2, of i] assms(3,4) that by (auto simp: fiber_ok_def)
    then have w: "waiting n s = {}" by (auto simp: waiting_def)
    have "\<not> is_last (fiber_at s i)" for i using assms(4) by (metis is_last.simps(2,7))
    then show ?thesis using run_invD(4)[OF 2] w assms(2) by (auto simp: k_ok_def)
  qed (auto simp: cancelled_def)
qed

lemma fibers_never_abort:
  assumes "join_reach ops n s"
  shows "\<exists>s'. join_step ops n (FiberStep i sg) s = Inr s'"
  using join_reach_inv[OF assms] fiber_inv_any[of s sg i] by auto

end

section \<open>The two classes keep the contract\<close>

fun fork_join_main_ok :: "nat \<Rightarrow> main_pc \<Rightarrow> bool" where
  "fork_join_main_ok n (MSubmit i) = (i < n)"
| "fork_join_main_ok n (MBuild i) = (i \<le> n)"
| "fork_join_main_ok n MFibers = False"
| "fork_join_main_ok n _ = True"

fun do_all_main_ok :: "nat \<Rightarrow> main_pc \<Rightarrow> bool" where
  "do_all_main_ok n (MSubmit i) = (i \<le> n)"
| "do_all_main_ok n (MBuild i) = False"
| "do_all_main_ok n _ = True"

lemma start_install_ok:
  assumes "main_at s = MInstall"
  shows "start_rel n s (start_install installed s)" "main_at (start_install installed s) \<in> {MAdaptor, MDone}"
  using start_rel_install[OF assms] by (auto simp: start_install_def call_k_def split: option.splits bool.splits)

lemma do_all_start_law:
  assumes "do_all_main_ok n (main_at s)"
  shows "start_rel n s (do_all_start_step n installed s) \<and> do_all_main_ok n (main_at (do_all_start_step n installed s))"
proof (cases "main_at s")
  case MInstall
  then show ?thesis using start_install_ok(1)[OF MInstall] start_install_ok(2)[OF MInstall, of installed] by (auto simp: do_all_start_step_def)
next
  case MAdaptor
  then show ?thesis using start_rel_adaptor[of s MFibers n] by (simp add: do_all_start_step_def)
next
  case MFibers
  then show ?thesis using start_rel_emplace[of s n 0 n] by (auto simp: do_all_start_step_def)
next
  case (MSubmit i)
  then show ?thesis
    using assms start_rel_submit[of s i n "MSubmit (i + 1)"] start_rel_finish[of s n]
    by (auto simp: do_all_start_step_def submit_fiber_def)
qed (use start_rel_idle assms in \<open>auto simp: do_all_start_step_def\<close>)

lemma fork_join_start_law:
  assumes "fork_join_main_ok n (main_at s)"
  shows "start_rel n s (fork_join_start_step n installed s) \<and> fork_join_main_ok n (main_at (fork_join_start_step n installed s))"
proof (cases "main_at s")
  case MInstall
  then show ?thesis using start_install_ok(1)[OF MInstall] start_install_ok(2)[OF MInstall, of installed] by (auto simp: fork_join_start_step_def)
next
  case MAdaptor
  then show ?thesis using start_rel_adaptor[of s "MBuild 0" n] by (simp add: fork_join_start_step_def)
next
  case (MBuild i)
  then show ?thesis
    using assms start_rel_emplace[of s n i "i + 1"] start_rel_finish[of s n] by (auto simp: fork_join_start_step_def)
next
  case (MSubmit i)
  then show ?thesis
    using assms start_rel_submit[of s i n "MBuild (i + 1)"] by (auto simp: fork_join_start_step_def submit_fiber_def)
qed (use start_rel_idle assms in \<open>auto simp: fork_join_start_step_def\<close>)

lemma size_t_bound: "unat (n :: size_t) < 2 ^ 64"
proof -
  have "unat n < 2 ^ LENGTH(64)" by (rule unsigned_less)
  then show ?thesis by simp
qed

lemma unsigned_bound: "unat (n :: 32 word) < 2 ^ 32"
proof -
  have "unat n < 2 ^ LENGTH(32)" by (rule unsigned_less)
  then show ?thesis by simp
qed

interpretation do_all: joiner DoAll "unat n" "do_all_main_ok (unat n)" for n :: size_t
proof
  show "get_stopped_or_error DoAll (map slot_of sgs) = stopped_or_last_failure sgs" for sgs
    by (simp add: DoAll_def do_all_GetStoppedOrErrorIfExists_def do_all_fold split: option.splits)
  show "get_values DoAll (map slot_of sgs) = Inr (started_values sgs)" if "stopped_or_last_failure sgs = None" for sgs
    using values_of_started[OF that] by (simp add: DoAll_def GetTupleOfValues_def)
  show "unat n < 2 ^ 64" by (rule size_t_bound)
qed (use do_all_start_law in \<open>simp_all add: DoAll_def\<close>)

interpretation fork_join: joiner ForkJoin "unat n" "fork_join_main_ok (unat n)" for n :: "32 word"
proof
  show "get_stopped_or_error ForkJoin (map slot_of sgs) = stopped_or_last_failure sgs" for sgs
    by (simp add: ForkJoin_def fork_join_GetStoppedOrErrorIfExists_def fork_join_fold split: option.splits)
  show "get_values ForkJoin (map slot_of sgs) = Inr (started_values sgs)" if "stopped_or_last_failure sgs = None" for sgs
    using values_of_started[OF that] by (simp add: ForkJoin_def GetVectorOfValues_def get_vector_loop_values)
  show "unat n < 2 ^ 64" using unsigned_bound[of n] by simp
qed (use fork_join_start_law in \<open>simp_all add: ForkJoin_def\<close>)

section \<open>Properties\<close>


definition two_fibers :: "signal \<Rightarrow> signal \<Rightarrow> join_act list" where
  "two_fibers a b =
     (let m = StartStep None; f = FiberStep 0 a; g = FiberStep 1 b
      in [m, m, m, m, m, m, m, g, g, g, f, f, f, f, g, g, g, g])"

lemma replicate_two: "replicate 2 x = [x, x]"
  by (simp add: numeral_eq_Suc)

lemmas join_eval = replicate_two two_fibers_def join_init_def DoAll_def ForkJoin_def do_all_start_step_def fork_join_start_step_def start_install_def
  start_adaptor_def submit_fiber_def fiber_goto_def fiber_step_def terminal_store_def terminal_sub_def terminal_last_def
  interrupter_def trigger_fiber_def call_k_def handler_step_def do_all_GetStoppedOrErrorIfExists_def
  fork_join_GetStoppedOrErrorIfExists_def extract_stopped_or_error_def GetTupleOfValues_def GetVectorOfValues_def
  is_value_def get_value_def Let_def





section \<open>Interrupting the other fibers\<close>

definition told_all :: "nat \<Rightarrow> join \<Rightarrow> nat \<Rightarrow> bool" where
  "told_all n s i \<longleftrightarrow>
     (\<forall>j m. fiber_at s i = FTrigger j m \<longrightarrow> m = n \<and> (\<forall>l<j. interrupts s l)) \<and>
     (fiber_at s i = FDone \<and> k_calls s = [] \<and> (\<forall>v. outcome s i \<noteq> Some (Started v)) \<longrightarrow> (\<forall>l<n. interrupts s l))"

lemmas step_defs = DoAll_def do_all_start_step_def start_install_def start_adaptor_def submit_fiber_def fiber_goto_def
  call_k_def handler_step_def trigger_fiber_def fiber_step_def terminal_store_def terminal_sub_def terminal_last_def
  interrupter_def Let_def map_sum_Inr_iff

lemma do_all_fibers: "join_reach DoAll n s \<Longrightarrow> fibers s = None \<or> fibers s = Some n"
proof (induction rule: join_reach.induct)
  case join_start
  then show ?case by (simp add: join_init_def DoAll_def)
next
  case (join_next s a s')
  then show ?case
    by (cases a) (auto simp: step_defs
      split: main_pc.splits option.splits bool.splits if_splits handler_pc.splits fiber_pc.splits signal.splits)
qed

lemma told_all_mono:
  assumes "told_all n s i" and "fiber_at s' i = fiber_at s i" "outcome s' i = outcome s i"
    and "\<And>l. interrupts s l \<Longrightarrow> interrupts s' l" and "k_calls s' = [] \<Longrightarrow> k_calls s = []"
  shows "told_all n s' i"
  using assms unfolding told_all_def by metis

lemma other_fibers:
  assumes "join_step ops n a s = Inr s'" and "a = FiberStep i sg \<or> a = HandlerStep" and "a \<noteq> HandlerStep \<Longrightarrow> j \<noteq> i"
  shows "fiber_at s' j = fiber_at s j" "outcome s' j = outcome s j" "interrupts s l \<Longrightarrow> interrupts s' l"
    "k_calls s' = [] \<Longrightarrow> k_calls s = []"
  using assms
  by (auto simp: step_defs split: if_splits handler_pc.splits fiber_pc.splits signal.splits option.splits)

lemma do_all_start_told:
  assumes "told_all n s j" and "join_step DoAll n (StartStep b) s = Inr s'"
  shows "told_all n s' j"
  using assms by (auto simp: told_all_def step_defs split: main_pc.splits if_splits option.splits bool.splits)

lemma do_all_fiber_told:
  assumes "told_all n s i" "fibers s = None \<or> fibers s = Some n"
    and "carried (fiber_at s i) \<noteq> None \<longrightarrow> outcome s i = carried (fiber_at s i)"
    and "join_step DoAll n (FiberStep i sg) s = Inr s'"
  shows "told_all n s' i"
proof (cases "fiber_at s i")
  case (FSub r)
  then show ?thesis
    using assms by (auto simp: told_all_def step_defs split: if_splits signal.splits option.splits)
next
  case (FTrigger j m)
  then have "m = n" "\<forall>l<j. interrupts s l" using assms(1) by (auto simp: told_all_def)
  then show ?thesis
    using FTrigger assms(4) by (auto simp: told_all_def step_defs less_Suc_eq split: if_splits)
qed (use assms in \<open>auto simp: told_all_def step_defs split: if_splits signal.splits option.splits\<close>)

lemma join_inv_carried: "join_inv n s \<Longrightarrow> carried (fiber_at s i) \<noteq> None \<longrightarrow> outcome s i = carried (fiber_at s i)"
  using run_invD(1)[of n s i] by (auto simp: join_inv_def cancelled_def fresh_def fiber_ok_def)

lemma do_all_told: "join_reach DoAll (unat (n :: size_t)) s \<Longrightarrow> told_all (unat n) s i"
proof (induction arbitrary: i rule: join_reach.induct)
  case join_start
  then show ?case by (simp add: told_all_def join_init_def)
next
  case (join_next s a s' i)
  show ?case
  proof (cases a)
    case (StartStep b)
    then show ?thesis using join_next do_all_start_told by blast
  next
    case (FiberStep j sg)
    have c: "carried (fiber_at s i) \<noteq> None \<longrightarrow> outcome s i = carried (fiber_at s i)"
      using do_all.join_reach_inv[OF join_next(1)] join_inv_carried by blast
    show ?thesis
    proof (cases "i = j")
      case True
      show ?thesis
        using do_all_fiber_told[OF join_next(3)[of i] do_all_fibers[OF join_next(1)] c] join_next(2) FiberStep True by blast
    next
      case False
      then show ?thesis
        using told_all_mono[OF join_next(3)[of i]] other_fibers[OF join_next(2), of j sg] FiberStep by blast
    qed
  next
    case HandlerStep
    show ?thesis
      by (rule told_all_mono[OF join_next(3)[of i]])
        (use other_fibers[OF join_next(2), of 0 Stopped i] HandlerStep in auto)
  qed
qed

text \<open>
  In \<^verbatim>\<open>DoAll\<close> a failure interrupts the remaining fibers: as long as the continuation has not been called, a fiber whose eventual failed
  or stopped and whose terminal has returned has triggered the interrupt of every fiber, also of those not started yet.
\<close>

theorem do_all_failure_interrupts_all:
  assumes "join_reach DoAll (unat (n :: size_t)) s" and "fiber_at s i = FDone"
    and "outcome s i = Some Stopped \<or> outcome s i = Some (Failed e)" and "k_calls s = []" and "l < unat n"
  shows "interrupts s l"
  using do_all_told[OF assms(1), of i] assms(2-5) unfolding told_all_def by fastforce

definition fail_first :: "signal \<Rightarrow> join_act list" where
  "fail_first a = (let m = StartStep None; f = FiberStep 0 a in [m, m, m, m, f, f, f, f, f, f])"

theorem do_all_failure_interrupts_all_witness:
  "\<exists>s. join_run DoAll (unat (2 :: size_t)) (fail_first Stopped) (join_init DoAll) = Inr s \<and>
       fiber_at s 1 = FIdle \<and> interrupts s 1"
proof -
  obtain s where s: "join_run DoAll (unat (2 :: size_t)) (fail_first Stopped) (join_init DoAll) = Inr s" "fiber_at s 1 = FIdle"
    "fiber_at s 0 = FDone" "outcome s 0 = Some Stopped" "k_calls s = []"
    by (simp add: join_eval fail_first_def)
  have "join_reach DoAll (unat (2 :: size_t)) s" by (rule join_run_reach[OF join_start s(1)])
  from do_all_failure_interrupts_all[OF this, of 0 _ 1] s show ?thesis by auto
qed

text \<open>
  The loop of \<^verbatim>\<open>ForkJoin\<close> submits each fiber before it builds the next one, and the interrupter goes over the fibers built so far. A fiber
  that fails meanwhile, as it does under a scheduler that runs a submitted callback at once, has interrupted only itself and the
  fibers before it when its terminal returns; the next fiber is started without its interrupt triggered.
\<close>

lemma fork_join_failure_misses_later_fibers:
  "\<exists>s. join_reach ForkJoin 2 s \<and> fiber_at s 0 = FDone \<and> outcome s 0 = Some Stopped \<and> k_calls s = [] \<and>
       fiber_at s 1 = FRun \<and> \<not> interrupts s 1"
proof -
  obtain s where "join_run ForkJoin 2 (fail_first Stopped @ [StartStep None, StartStep None]) (join_init ForkJoin) = Inr s"
    "fiber_at s 0 = FDone" "outcome s 0 = Some Stopped" "k_calls s = []" "fiber_at s 1 = FRun" "\<not> interrupts s 1"
    by (simp add: join_eval fail_first_def)
  then show ?thesis using join_run_reach[OF join_start] by blast
qed

text \<open>
  A fiber that is not the last one and did not succeed goes over the fibers after it gave up its count, so the last fiber may have called the
  continuation by then: \<^verbatim>\<open>interrupter_\<close> and the fibers' interrupts are used although the continuation may have destructed them.
\<close>

lemma interrupter_runs_after_continuation:
  "\<exists>s. join_reach DoAll 2 s \<and> k_calls s = [Stopped] \<and> fiber_at s 1 = FTrigger 0 2"
proof -
  have "\<exists>s. join_run DoAll 2 (take 14 (two_fibers (Started VVoid) Stopped)) (join_init DoAll) = Inr s \<and>
      k_calls s = [Stopped] \<and> fiber_at s 1 = FTrigger 0 2"
    by (simp add: join_eval)
  then show ?thesis using join_run_reach[OF join_start] by blast
qed

text \<open>
  The handler is installed before \<^verbatim>\<open>fibers_\<close> has a value: a trigger in between makes \<^verbatim>\<open>fibers_.value()\<close> throw inside the
  interrupt's callback.
\<close>

lemma interrupt_while_starting_throws:
  "\<exists>s. join_reach DoAll n s \<and> join_step DoAll n HandlerStep s = Inl (Exception ''bad_optional_access'')"
proof -
  have "join_run DoAll n [StartStep (Some True)] (join_init DoAll) =
      Inr (start_install (Some True) (join_init DoAll))"
    by (simp add: DoAll_def do_all_start_step_def join_init_def)
  then have "join_reach DoAll n (start_install (Some True) (join_init DoAll))" using join_run_reach[OF join_start] by blast
  moreover have "join_step DoAll n HandlerStep (start_install (Some True) (join_init DoAll)) = Inl (Exception ''bad_optional_access'')"
    by (simp add: step_defs join_init_def)
  ultimately show ?thesis by blast
qed

text \<open>With no forks \<^verbatim>\<open>ForkJoin\<close> never calls its continuation, unless the interrupt was triggered before.\<close>

lemma fork_join_of_none_never_continues:
  assumes "join_reach ForkJoin 0 s" and "main_at s = MDone"
  shows "k_calls s = [] \<or> k_calls s = [Stopped] \<and> handler_at s = HNone"
proof -
  have "join_inv 0 s" using fork_join.join_reach_inv[of "0 :: 32 word" s] assms(1) by simp
  then consider "cancelled s" | "run_inv 0 s" using assms(2) by (auto simp: join_inv_def fresh_def)
  then show ?thesis
  proof cases
    case 2
    have "\<not> is_last (fiber_at s i)" for i using fiber_at_bound(2)[OF 2, of i] by (cases "fiber_at s i") auto
    then show ?thesis using run_invD(4)[OF 2] by (auto simp: k_ok_def waiting_def)
  qed (simp add: cancelled_def)
qed

end
