(* ===== verification/Tasks.thy ===== *)
theory Tasks
  imports Type_Lists Value_Theorems
begin

text \<open>
  Type-erased eventuals (\<^verbatim>\<open>task.h\<close>).

  A \<^verbatim>\<open>Task\<close> holds either a value (\<^verbatim>\<open>Task::Success\<close>) or a callback that dispatches an action to a \<^verbatim>\<open>HeapTask\<close>, which is the
  eventual that the caller's function returns, built on an adaptor that calls back into the continuation. The task has
  compile-time lists of the errors it catches; whether it has an argument type is the argument \<open>from_void\<close>. A continuation of
  a value gets one signal, so the heap task is always created by the call that uses it.

  A task is also a continuation that can be run by itself: \<open>task\<close> is the part of \<^verbatim>\<open>_Task\<close> that \<^verbatim>\<open>Start\<close>, \<^verbatim>\<open>Fail\<close>, \<^verbatim>\<open>Stop\<close> and
  the blocking \<^verbatim>\<open>operator*\<close> use. A \<^verbatim>\<open>std::promise\<close> is the second component of the user state.
\<close>

section \<open>HeapTask\<close>

primcorec HeapTaskAdaptor :: "(val \<Rightarrow> 'u action) \<Rightarrow> (err \<Rightarrow> 'u action) \<Rightarrow> 'u action \<Rightarrow> 'u kont" where
  "invoke (HeapTaskAdaptor start fail stop) =
     (\<lambda>s. case s of Started v \<Rightarrow> start v | Failed e \<Rightarrow> fail e | Stopped \<Rightarrow> stop)"
| "register (HeapTaskAdaptor start fail stop) = (\<lambda>_. Inr (HeapTaskAdaptor start fail stop))"

definition HeapTask_Start ::
  "'u eventual \<Rightarrow> val \<Rightarrow> intr \<Rightarrow> (val \<Rightarrow> 'u action) \<Rightarrow> (err \<Rightarrow> 'u action) \<Rightarrow> 'u action \<Rightarrow> 'u action" where
  "HeapTask_Start e arg interrupt start fail stop w =
     rbind (register (e (HeapTaskAdaptor start fail stop)) interrupt) (\<lambda>adapted. invoke adapted (Started arg) w)"

definition HeapTask_Fail ::
  "'u eventual \<Rightarrow> intr \<Rightarrow> err \<Rightarrow> (val \<Rightarrow> 'u action) \<Rightarrow> (err \<Rightarrow> 'u action) \<Rightarrow> 'u action \<Rightarrow> 'u action" where
  "HeapTask_Fail e interrupt error start fail stop w =
     rbind (register (e (HeapTaskAdaptor start fail stop)) interrupt) (\<lambda>adapted. invoke adapted (Failed error) w)"

definition HeapTask_Stop ::
  "'u eventual \<Rightarrow> intr \<Rightarrow> (val \<Rightarrow> 'u action) \<Rightarrow> (err \<Rightarrow> 'u action) \<Rightarrow> 'u action \<Rightarrow> 'u action" where
  "HeapTask_Stop e interrupt start fail stop w =
     rbind (register (e (HeapTaskAdaptor start fail stop)) interrupt) (\<lambda>adapted. invoke adapted Stopped w)"

section \<open>The continuation of a task\<close>

datatype task_action = ActionStart | ActionStop | ActionFail

datatype 'u value_or_dispatch = TaskValue val | TaskDispatch "val list \<Rightarrow> 'u \<Rightarrow> ('u eventual \<times> 'u) res"

definition dispatch_callback ::
  "cls list \<Rightarrow> (val list \<Rightarrow> 'u \<Rightarrow> ('u eventual \<times> 'u) res) \<Rightarrow> task_action \<Rightarrow> err option \<Rightarrow> val list \<Rightarrow> val option \<Rightarrow> intr \<Rightarrow>
   (val \<Rightarrow> 'u action) \<Rightarrow> (err \<Rightarrow> 'u action) \<Rightarrow> 'u action \<Rightarrow> 'u action" where
  "dispatch_callback catches_list f action error args arg interrupt start fail stop w =
     rbind (on_user (f args) w) (\<lambda>(e, w').
       case action of
         ActionStart \<Rightarrow>
           (case arg of None \<Rightarrow> Inl (CheckFailed ''arg'') | Some a \<Rightarrow> HeapTask_Start e a interrupt start fail stop w')
       | ActionFail \<Rightarrow>
           (if catches_list \<noteq> []
            then case error of None \<Rightarrow> Inl (CheckFailed ''error'') | Some x \<Rightarrow> HeapTask_Fail e interrupt x start fail stop w'
            else Inr w')
       | ActionStop \<Rightarrow> HeapTask_Stop e interrupt start fail stop w')"

definition task_Dispatch ::
  "cls list \<Rightarrow> 'u value_or_dispatch \<Rightarrow> val list \<Rightarrow> intr option \<Rightarrow> 'u kont \<Rightarrow> task_action \<Rightarrow> val option \<Rightarrow> err option \<Rightarrow> 'u action" where
  "task_Dispatch catches_list vd args interrupt k action arg error w =
     (case vd of
        TaskValue _ \<Rightarrow> Inl (CheckFailed ''value_or_dispatch_.index() == 1'')
      | TaskDispatch f \<Rightarrow>
          deref interrupt ''interrupt_'' (\<lambda>i.
            dispatch_callback catches_list f action error args arg i
              (\<lambda>v. invoke k (Started v)) (\<lambda>e. invoke k (Failed e)) (invoke k Stopped) w))"

primcorec TaskK ::
  "cls list \<Rightarrow> bool \<Rightarrow> 'u value_or_dispatch \<Rightarrow> val list \<Rightarrow> intr option \<Rightarrow> 'u kont \<Rightarrow> 'u kont" where
  "invoke (TaskK catches_list from_void vd args interrupt k) =
     (\<lambda>s w. case s of
        Started v \<Rightarrow>
          (case vd of
             TaskValue t \<Rightarrow> invoke k (Started t) w
           | TaskDispatch _ \<Rightarrow>
               task_Dispatch catches_list vd args interrupt k ActionStart (Some (if from_void then VVoid else v)) None w)
      | Failed e \<Rightarrow>
          (if tuple_contains_exact_type (err_type e) catches_list
           then task_Dispatch catches_list vd args interrupt k ActionFail None (Some e) w
           else invoke k (Failed e) w)
      | Stopped \<Rightarrow> task_Dispatch catches_list vd args interrupt k ActionStop None None w)"
| "register (TaskK catches_list from_void vd args interrupt k) =
     (\<lambda>i. map_sum id (TaskK catches_list from_void vd args (Some i)) (register k i))"

definition Task :: "cls list \<Rightarrow> bool \<Rightarrow> (val list \<Rightarrow> 'u \<Rightarrow> ('u eventual \<times> 'u) res) \<Rightarrow> val list \<Rightarrow> 'u eventual" where
  "Task catches_list from_void f args k = TaskK catches_list from_void (TaskDispatch f) args None k"

definition Task_Success :: "cls list \<Rightarrow> val \<Rightarrow> 'u eventual" where
  "Task_Success catches_list t k = TaskK catches_list True (TaskValue t) [] None k"

definition Task_Failure :: "(sid \<Rightarrow> 'u vtable) \<Rightarrow> cls list \<Rightarrow> err \<Rightarrow> 'u eventual" where
  "Task_Failure vt catches_list error =
     Task catches_list True (\<lambda>_ u. Inr (Eventual vt (Eventual_start (\<lambda>k _. invoke k (Failed error))), u)) []"

section \<open>Running a task\<close>

record 'u task =
  task_e :: "'u eventual"
  task_context :: "ctx option"

definition task_run ::
  "(sid \<Rightarrow> 'u vtable) \<Rightarrow> ctx \<Rightarrow> intr \<Rightarrow> string \<Rightarrow> 'u terminal_builder \<Rightarrow> signal \<Rightarrow> 'u task \<Rightarrow> 'u world \<Rightarrow> ('u task \<times> 'u world) res" where
  "task_run vt c i name b s t w =
     check (task_context t = None) ''Task already started''
       (let w' = w\<lparr>contexts := (contexts w)(c := Context 0 name None)\<rparr>;
            k = compose (Reschedule vt c) (task_e t) (TerminalK b)
        in map_sum id (Pair (t\<lparr>task_context := Some c\<rparr>))
             (rbind (register k i) (\<lambda>k'. invoke k' s w')))"

definition Task_Start ::
  "(sid \<Rightarrow> 'u vtable) \<Rightarrow> ctx \<Rightarrow> intr \<Rightarrow> string \<Rightarrow> 'u terminal_builder \<Rightarrow> 'u task \<Rightarrow> 'u world \<Rightarrow> ('u task \<times> 'u world) res" where
  "Task_Start vt c i name b = task_run vt c i name b (Started VVoid)"

definition Task_Fail ::
  "(sid \<Rightarrow> 'u vtable) \<Rightarrow> ctx \<Rightarrow> intr \<Rightarrow> string \<Rightarrow> err \<Rightarrow> 'u terminal_builder \<Rightarrow> 'u task \<Rightarrow> 'u world \<Rightarrow> ('u task \<times> 'u world) res" where
  "Task_Fail vt c i name error b = task_run vt c i name b (Failed error)"

definition Task_Stop ::
  "(sid \<Rightarrow> 'u vtable) \<Rightarrow> ctx \<Rightarrow> intr \<Rightarrow> string \<Rightarrow> 'u terminal_builder \<Rightarrow> 'u task \<Rightarrow> 'u world \<Rightarrow> ('u task \<times> 'u world) res" where
  "Task_Stop vt c i name b = task_run vt c i name b Stopped"

type_synonym 'v promised = "'v \<times> (err + val) option"

definition set_promise :: "err + val \<Rightarrow> 'v promised \<Rightarrow> 'v promised res" where
  "set_promise r u = (case snd u of None \<Rightarrow> Inr (fst u, Some r) | Some _ \<Rightarrow> Inl (Exception ''promise_already_satisfied''))"

definition promise_terminal :: "'v promised terminal_builder" where
  "promise_terminal =
     \<lparr>term_start = Some (\<lambda>v. set_promise (Inr v)), term_fail = Some (\<lambda>e. set_promise (Inl e)),
      term_stop = Some (set_promise (Inl StoppedError))\<rparr>"

definition Task_Start_future ::
  "(sid \<Rightarrow> 'v promised vtable) \<Rightarrow> ctx \<Rightarrow> intr \<Rightarrow> string \<Rightarrow> 'v promised task \<Rightarrow> 'v promised world \<Rightarrow>
   ('v promised task \<times> 'v promised world) res" where
  "Task_Start_future vt c i name t w = Task_Start vt c i name promise_terminal t (set_user w (fst (user w), None))"

text \<open>The result of \<^verbatim>\<open>operator*\<close>: the value, the exception it throws, or \<open>None\<close> if \<^verbatim>\<open>future.get()\<close> blocks for ever.\<close>

definition Task_deref ::
  "(sid \<Rightarrow> 'v promised vtable) \<Rightarrow> ctx \<Rightarrow> intr \<Rightarrow> string \<Rightarrow> 'v promised task \<Rightarrow> 'v promised world \<Rightarrow> (err + val) option res" where
  "Task_deref vt c i thread t w =
     map_sum id (\<lambda>(_, w'). snd (user w'))
       (Task_Start_future vt c i (''[thread '' @ thread @ '' blocking on dereference]'') t w)"

section \<open>The contract of a task\<close>

definition sem_task :: "cls list \<Rightarrow> bool \<Rightarrow> (val list \<Rightarrow> 'u \<Rightarrow> ('u sem \<times> 'u) res) \<Rightarrow> val list \<Rightarrow> 'u sem" where
  "sem_task catches_list from_void F args i c s u =
     (case s of
        Failed e \<Rightarrow>
          if tuple_contains_exact_type (err_type e) catches_list
          then deref i ''interrupt_'' (\<lambda>j. rbind (F args u) (\<lambda>(d, u'). d (Some j) c s u'))
          else Inr (c, s, u)
      | Started v \<Rightarrow>
          deref i ''interrupt_'' (\<lambda>j. rbind (F args u) (\<lambda>(d, u'). d (Some j) c (Started (if from_void then VVoid else v)) u'))
      | Stopped \<Rightarrow> deref i ''interrupt_'' (\<lambda>j. rbind (F args u) (\<lambda>(d, u'). d (Some j) c s u')))"

definition rel_dispatch :: "(val list \<Rightarrow> 'u \<Rightarrow> ('u eventual \<times> 'u) res) \<Rightarrow> (val list \<Rightarrow> 'u \<Rightarrow> ('u sem \<times> 'u) res) \<Rightarrow> bool" where
  "rel_dispatch f F \<longleftrightarrow> (\<forall>args u. rel_sum (=) (rel_prod eventual_contract (=)) (f args u) (F args u))"

abbreviation heap_adaptor :: "'u kont \<Rightarrow> 'u kont" where
  "heap_adaptor k \<equiv> HeapTaskAdaptor (\<lambda>v. invoke k (Started v)) (\<lambda>e. invoke k (Failed e)) (invoke k Stopped)"

lemma invoke_heap_adaptor: "invoke (heap_adaptor k) s = invoke k s"
  by (cases s) simp_all

lemma heap_adaptor_runs:
  assumes "eventual_contract e d" "implements k g" "wf_world w"
  shows "rbind (register (e (heap_adaptor k)) j) (\<lambda>adapted. invoke adapted s w) =
    map_sum id (set_user w) (after (d (Some j)) g (current w) s (user w))"
proof -
  have "implements (heap_adaptor k) g" using assms(2) unfolding implements_def invoke_heap_adaptor .
  then show ?thesis
    using eventual_contract.starts [OF assms(1), of "heap_adaptor k" "Some j" "heap_adaptor k" g w s] assms(3)
    by (simp add: invoke_registered_def)
qed

lemmas heap_task_defs = HeapTask_Start_def HeapTask_Fail_def HeapTask_Stop_def

lemma created_runs:
  assumes "rel_dispatch f F" "implements k g" "wf_world w"
  shows "rbind (on_user (f args) w) (\<lambda>(e, w'). rbind (register (e (heap_adaptor k)) j) (\<lambda>adapted. invoke adapted s w')) =
    map_sum id (set_user w) (rbind (F args (user w)) (\<lambda>(d, u). after (d (Some j)) g (current w) s u))"
proof -
  have r: "rel_sum (=) (rel_prod eventual_contract (=)) (f args (user w)) (F args (user w))"
    using assms(1) by (simp add: rel_dispatch_def)
  show ?thesis
  proof (cases "f args (user w)")
    case (Inl x)
    then show ?thesis using r by (cases "F args (user w)") (auto simp: on_user_simps)
  next
    case (Inr p)
    then obtain d u where R: "F args (user w) = Inr (d, u)" "eventual_contract (fst p) d" "snd p = u"
      using r by (cases "F args (user w)") (auto simp: rel_prod_sel)
    then show ?thesis
      using Inr heap_adaptor_runs [OF R(2) assms(2), of "set_user w u" j s] assms(3)
      by (cases p) (simp add: on_user_simps)
  qed
qed

lemma contract_task:
  assumes "rel_dispatch f F"
  shows "eventual_contract (Task catches_list from_void f args) (sem_task catches_list from_void F args)"
proof (rule contractI [where obj = "\<lambda>i k k'. TaskK catches_list from_void (TaskDispatch f) args i k'"])
  fix k k' :: "'a kont" and i assume "registered k i = Inr k'"
  then show "registered (Task catches_list from_void f args k) i = Inr (TaskK catches_list from_void (TaskDispatch f) args i k')"
    by (cases i) (auto simp: Task_def)
next
  fix k k' :: "'a kont" and i g s and w :: "'a world"
  assume k: "implements k' g" "wf_world w"
  note run = created_runs [OF assms k, unfolded split_def]
  have ne: "catches_list \<noteq> []" if "tuple_contains_exact_type t catches_list" for t using that by auto
  show "invoke (TaskK catches_list from_void (TaskDispatch f) args i k') s w =
      map_sum id (set_user w) (after (sem_task catches_list from_void F args i) g (current w) s (user w))"
  proof (cases i)
    case None
    then show ?thesis
      using k by (auto simp: task_Dispatch_def sem_task_def after_def implementsD split: signal.split)
  next
    case (Some j)
    then show ?thesis
      using k by (auto simp: task_Dispatch_def dispatch_callback_def heap_task_defs sem_task_def after_def implementsD run ne
          map_res_rbind rbind_assoc split_def split: signal.split)
  qed
qed

section \<open>Properties\<close>

lemma rel_dispatch_build:
  "rel_dispatch (\<lambda>args u. Inr (build DefaultScheduler base_of (e args), u)) (\<lambda>args u. Inr (denote base_of (e args), u))"
  by (simp add: rel_dispatch_def default.contract_build)

definition task_of :: "(string \<Rightarrow> string \<Rightarrow> bool) \<Rightarrow> cls list \<Rightarrow> bool \<Rightarrow> (val list \<Rightarrow> 'u ev) \<Rightarrow> val list \<Rightarrow> 'u eventual" where
  "task_of base_of catches_list from_void e args =
     Task catches_list from_void (\<lambda>args u. Inr (build DefaultScheduler base_of (e args), u)) args"

text \<open>What a task hands to the eventual it erases: nothing for a failure it does not catch.\<close>

fun task_hands_over :: "cls list \<Rightarrow> bool \<Rightarrow> signal \<Rightarrow> signal option" where
  "task_hands_over catches_list from_void (Started v) = Some (Started (if from_void then VVoid else v))"
| "task_hands_over catches_list from_void (Failed e) =
     (if tuple_contains_exact_type (err_type e) catches_list then Some (Failed e) else None)"
| "task_hands_over catches_list from_void Stopped = Some Stopped"



text \<open>
  A task that was made with \<^verbatim>\<open>Task::Success\<close> has no callback to dispatch to: a stop that reaches it, or a failure of a class it
  catches, aborts the process instead of going on to the continuation.
\<close>

lemma success_task_aborts_when_stopped:
  "invoke (Task_Success catches_list t k) Stopped w = Inl (CheckFailed ''value_or_dispatch_.index() == 1'')"
  "tuple_contains_exact_type (err_type e) catches_list \<Longrightarrow>
   invoke (Task_Success catches_list t k) (Failed e) w = Inl (CheckFailed ''value_or_dispatch_.index() == 1'')"
  by (simp_all add: Task_Success_def task_Dispatch_def)

text \<open>A task whose continuation was not registered dereferences a null pointer when it is started.\<close>

lemma unregistered_task_faults:
  "invoke (Task catches_list from_void f args k) (Started v) w = Inl (NullDeref ''interrupt_'')"
  by (simp add: Task_def task_Dispatch_def)

text \<open>
  The comment at \<^verbatim>\<open>Start\<close> says that the callbacks are \<^emph>\<open>not\<close> invoked in the task's context but in the one \<^verbatim>\<open>Start\<close> was called in. The
  pipeline that \<^verbatim>\<open>Start\<close> builds does not go back to that context: its terminal is called in the task's.
\<close>

lemma callbacks_run_in_the_tasks_context:
  assumes "wf_world w" and "implements k g"
  shows "invoke (compose (Reschedule DefaultScheduler c) (build DefaultScheduler base_of (Ev_Just v)) k) (Started VVoid) w =
    map_sum id (set_user w) (g c (Started v) (user w))"
  using pipeline_runs [OF assms, of base_of "Ev_Seq (Ev_Reschedule c) (Ev_Just v)" "Started VVoid"]
  by (simp add: after_def sem_seq_def sem_reschedule_def sem_just_def sem_on_start_def)

lemma promise_terminal_run:
  "terminal_run promise_terminal s (v, None) =
     Inr (v, Some (case s of Started x \<Rightarrow> Inr x | Failed e \<Rightarrow> Inl e | Stopped \<Rightarrow> Inl StoppedError))"
  by (cases s) (simp_all add: terminal_run_def promise_terminal_def set_promise_def)

lemma wf_new_context [simp]: "wf_world w \<Longrightarrow> wf_world (w\<lparr>contexts := (contexts w)(c := Context 0 name None)\<rparr>)"
  by (simp add: wf_world_def Context_def)

lemma map_res_comp: "map_sum id f (map_sum id g r) = map_sum id (\<lambda>x. f (g x)) r"
  by (cases r) simp_all

lemma task_run_eq:
  assumes "wf_world w" and "eventual_contract (task_e t) d"
  shows "task_run DefaultScheduler c i name b s t w =
    check (task_context t = None) ''Task already started''
      (map_sum id (\<lambda>u. (t\<lparr>task_context := Some c\<rparr>, set_user (w\<lparr>contexts := (contexts w)(c := Context 0 name None)\<rparr>) u))
        (rbind (d (Some i) c s (user w)) (\<lambda>(_, s', u). terminal_run b s' u)))"
proof -
  let ?w = "w\<lparr>contexts := (contexts w)(c := Context 0 name None)\<rparr>"
  let ?r = "rbind (d (Some i) c s (user w)) (\<lambda>(_, s', u). terminal_run b s' u)"
  have run: "rbind (register (compose (Reschedule DefaultScheduler c) (task_e t) (TerminalK b)) i) (\<lambda>k'. invoke k' s ?w) =
      map_sum id (set_user ?w) ?r"
    using eventual_contract.starts [OF contract_compose [OF default.contract_reschedule [of c] assms(2)], of "TerminalK b" "Some i"
        "TerminalK b" "\<lambda>_. terminal_run b" ?w s] implements_terminal [of b] assms(1)
    by (simp add: invoke_registered_def after_def sem_seq_def sem_reschedule_def)
  show ?thesis
    unfolding task_run_def Let_def run by (simp only: map_res_comp)
qed

text \<open>
  Dereferencing a task returns what its eventual delivers: the value of a start, or it throws the error of a failure or
  \<^verbatim>\<open>Stopped\<close>; it never blocks for ever, if the eventual completes and leaves the task's promise alone. A second start of the
  task aborts.
\<close>

theorem task_deref_returns:
  assumes "wf_world w" and "task_e t = build DefaultScheduler base_of e" and "task_context t = None"
    and "denote base_of e (Some i) c (Started VVoid) (fst (user w), None) = Inr (c', s', (v', None))"
  shows "Task_deref DefaultScheduler c i thread t w =
           Inr (Some (case s' of Started x \<Rightarrow> Inr x | Failed err \<Rightarrow> Inl err | Stopped \<Rightarrow> Inl StoppedError)) \<and>
         (\<exists>t' w'. Task_Start_future DefaultScheduler c i name t w = Inr (t', w') \<and>
           Task_Start_future DefaultScheduler c i name t' w' = Inl (CheckFailed ''Task already started''))"
proof -
  have e: "eventual_contract (task_e t) (denote base_of e)" using default.contract_build assms(2) by simp
  note run = task_run_eq [OF _ e, of "set_user w (fst (user w), None)"]
  have *: "Task_Start_future DefaultScheduler c i name t w =
      Inr (t\<lparr>task_context := Some c\<rparr>, set_user (w\<lparr>contexts := (contexts w)(c := Context 0 name None)\<rparr>)
        (v', Some (case s' of Started x \<Rightarrow> Inr x | Failed err \<Rightarrow> Inl err | Stopped \<Rightarrow> Inl StoppedError)))" for name
    using assms(1,3,4) by (simp add: Task_Start_future_def Task_Start_def run promise_terminal_run)
  show ?thesis
    by (simp add: Task_deref_def * ) (simp add: Task_Start_future_def Task_Start_def task_run_def)
qed

theorem task_deref_returns_witness:
  "Task_deref DefaultScheduler 3 0 ''main'' \<lparr>task_e = build DefaultScheduler (=) (Ev_Just (VInt 42)), task_context = None\<rparr>
     (start_world ((), None)) = Inr (Some (Inr (VInt 42)))"
  using task_deref_returns [of "start_world ((), None)" "\<lparr>task_e = build DefaultScheduler (=) (Ev_Just (VInt 42)), task_context = None\<rparr>"
      "(=)" "Ev_Just (VInt 42)" 0 3 3 "Started (VInt 42)" "()" "''main''"]
  by (simp add: sem_just_def sem_on_start_def)

end
