(* ===== verification/Promisify.thy ===== *)
theory Promisify
  imports Tasks
begin

text \<open>
  Running an eventual to its end on the current thread (\<^verbatim>\<open>promisify.h\<close>): \<^verbatim>\<open>Promisify\<close> puts the eventual between a \<^verbatim>\<open>Closure\<close> that reschedules to a context of its own, made when the closure runs, and
  a terminal that satisfies a promise; \<^verbatim>\<open>Run\<close>, which is also \<^verbatim>\<open>operator*\<close>, starts it and waits. The event loop that may have to be woken is given by what its \<^verbatim>\<open>Interrupt()\<close> does to the user state. As in \<open>Tasks\<close>, a
  \<^verbatim>\<open>std::promise\<close> is the second component of the user state.
\<close>

section \<open>Definitions\<close>

definition interrupt_loop :: "('v \<Rightarrow> 'v) option \<Rightarrow> 'v promised res \<Rightarrow> 'v promised res" where
  "interrupt_loop loop r = map_sum id (\<lambda>(v, p). (case loop of None \<Rightarrow> v | Some Interrupt \<Rightarrow> Interrupt v, p)) r"

definition promisify_start :: "('v \<Rightarrow> 'v) option \<Rightarrow> val \<Rightarrow> 'v promised \<Rightarrow> 'v promised res" where
  "promisify_start loop v u = interrupt_loop loop (set_promise (Inr v) u)"

definition promisify_fail :: "('v \<Rightarrow> 'v) option \<Rightarrow> err \<Rightarrow> 'v promised \<Rightarrow> 'v promised res" where
  "promisify_fail loop e u = interrupt_loop loop (set_promise (Inl e) u)"

definition promisify_stop :: "('v \<Rightarrow> 'v) option \<Rightarrow> 'v promised \<Rightarrow> 'v promised res" where
  "promisify_stop loop u = interrupt_loop loop (set_promise (Inl StoppedError) u)"

definition promisify_terminal :: "('v \<Rightarrow> 'v) option \<Rightarrow> 'v promised terminal_builder" where
  "promisify_terminal loop =
     \<lparr>term_start = Some (promisify_start loop), term_fail = Some (promisify_fail loop), term_stop = Some (promisify_stop loop)\<rparr>"

definition promisify_reschedule :: "(sid \<Rightarrow> 'u vtable) \<Rightarrow> ctx \<Rightarrow> string \<Rightarrow> 'u eventual" where
  "promisify_reschedule vt c name = Closure (\<lambda>w. Inr (Reschedule vt c, w\<lparr>contexts := (contexts w)(c := Context 0 name None)\<rparr>))"

definition Promisify :: "(sid \<Rightarrow> 'v promised vtable) \<Rightarrow> ctx \<Rightarrow> string \<Rightarrow> 'v promised eventual \<Rightarrow> ('v \<Rightarrow> 'v) option \<Rightarrow> 'v promised kont" where
  "Promisify vt c name e loop = compose (promisify_reschedule vt c name) e (TerminalK (promisify_terminal loop))"

text \<open>The result of \<^verbatim>\<open>Run\<close>: the value, the exception it throws, or \<open>None\<close> while the promise is not satisfied.\<close>

definition Run :: "(sid \<Rightarrow> 'v promised vtable) \<Rightarrow> ctx \<Rightarrow> string \<Rightarrow> 'v promised eventual \<Rightarrow> ('v \<Rightarrow> 'v) option \<Rightarrow> 'v promised world \<Rightarrow> ((err + val) option \<times> 'v promised world) res" where
  "Run vt c thread e default_loop w =
     map_sum id (\<lambda>w'. (snd (user w'), w'))
       (invoke (Promisify vt c (''[thread '' @ thread @ '' blocking on dereference]'') e default_loop) (Started VVoid) (set_user w (fst (user w), None)))"

section \<open>Properties\<close>

lemma promisify_terminal_run:
  "terminal_run (promisify_terminal loop) s (v, None) =
     Inr (case loop of None \<Rightarrow> v | Some f \<Rightarrow> f v, Some (case s of Started x \<Rightarrow> Inr x | Failed e \<Rightarrow> Inl e | Stopped \<Rightarrow> Inl StoppedError))"
  by (cases s) (simp_all add: terminal_run_def promisify_terminal_def promisify_start_def promisify_fail_def promisify_stop_def interrupt_loop_def set_promise_def)

lemma promisify_invoke:
  assumes "wf_world w" "eventual_contract e d"
  shows "invoke (Promisify DefaultScheduler c name e loop) s w =
    map_sum id (set_user (w\<lparr>contexts := (contexts w)(c := Context 0 name None)\<rparr>))
      (rbind (d None c s (user w)) (\<lambda>(_, s', u). terminal_run (promisify_terminal loop) s' u))"
  using eventual_contract.starts [OF contract_compose [OF default.contract_reschedule [of c] assms(2)], of "TerminalK (promisify_terminal loop)" None
      "TerminalK (promisify_terminal loop)" "\<lambda>_. terminal_run (promisify_terminal loop)" "w\<lparr>contexts := (contexts w)(c := Context 0 name None)\<rparr>" s]
    implements_terminal [of "promisify_terminal loop"] assms(1)
  by (simp add: Promisify_def promisify_reschedule_def Closure_def compose_def invoke_registered_def after_def sem_seq_def sem_reschedule_def)

text \<open>
  C28. Dereferencing a pipeline returns: \<^verbatim>\<open>Run\<close> gives the value that the pipeline delivers or throws its error or \<^verbatim>\<open>Stopped\<close>, and never blocks, if the pipeline completes and leaves the
  promise alone; the pipeline runs in a context of its own, without an interrupt, and the thread is afterwards in the context it was in, with the default event loop woken if there is one.
\<close>

theorem run_returns:
  assumes "wf_world w"
    and "denote base_of e None c (Started VVoid) (fst (user w), None) = Inr (c', s', (v', None))"
  shows "\<exists>w'. Run DefaultScheduler c thread (build DefaultScheduler base_of e) loop w =
      Inr (Some (case s' of Started x \<Rightarrow> Inr x | Failed err \<Rightarrow> Inl err | Stopped \<Rightarrow> Inl StoppedError), w') \<and>
    current w' = current w \<and> fst (user w') = (case loop of None \<Rightarrow> v' | Some Interrupt \<Rightarrow> Interrupt v')"
proof -
  have "wf_world (set_user w (fst (user w), None))" using assms(1) by simp
  from promisify_invoke [OF this default.contract_build] show ?thesis using assms(2) by (simp add: Run_def promisify_terminal_run)
qed

theorem run_returns_witness:
  "\<exists>w'. Run DefaultScheduler 3 ''main'' (build DefaultScheduler (=) (Ev_Just (VInt 42))) (Some Suc) (start_world (0, None)) = Inr (Some (Inr (VInt 42)), w') \<and>
     current w' = current (start_world (0 :: nat, None)) \<and> fst (user w') = 1"
  using run_returns [of "start_world (0, None)" "(=)" "Ev_Just (VInt 42)" 3 3 "Started (VInt 42)" 0 "''main''" "Some Suc"]
  by (simp add: sem_just_def sem_on_start_def)

text \<open>
  \<^verbatim>\<open>Run\<close> starts the continuation without registering an interrupt, which a task dereferences.
\<close>

lemma run_of_task_faults:
  assumes "wf_world w"
  shows "Run DefaultScheduler c thread (task_of base_of catches_list from_void e args) loop w = Inl (NullDeref ''interrupt_'')"
proof -
  have "wf_world (set_user w (fst (user w), None))" using assms by simp
  from promisify_invoke [OF this contract_task [OF rel_dispatch_build, of catches_list from_void base_of e args, folded task_of_def]] show ?thesis
    by (simp add: Run_def sem_task_def)
qed

end
