(* ===== verification/Erased_Streams.thy ===== *)
theory Erased_Streams
  imports Stream_Machine
begin

text \<open>
  Type erasure of streams: \<^verbatim>\<open>Generator\<close> (\<^verbatim>\<open>generator.h\<close>), whose callable returns a whole stream, and \<^verbatim>\<open>Transformer\<close> (\<^verbatim>\<open>transformer.h\<close>), whose callable
  returns a stage that stands between two parts of a pipeline.

  Both hold the pipeline their callable returns on the heap, behind a \<^verbatim>\<open>dispatch_\<close> callback; the pipeline's continuation is an adaptor that calls
  one of five callbacks, and those call \<^verbatim>\<open>k_\<close>. A configuration has the stages before the erased one, its state, the stages after it, and the token of the machine of
  \<open>Stream_Machine\<close>, extended by two places: at the erased continuation and at the adaptor. The stages of the erased pipeline have the addresses after those of the stages before it.

  The machine takes as an argument whether assertions are compiled into the program. Registering an interrupt is only modelled for what it asserts.
\<close>

section \<open>State\<close>

record 's erased =
  er_catches :: "string list"
  er_f :: "'s list"
  er_e :: "'s list option"
  er_interrupt :: bool
  er_registered :: bool

definition Erased :: "string list \<Rightarrow> bool \<Rightarrow> 's list \<Rightarrow> 's erased" where
  "Erased catches interrupt f = \<lparr>er_catches = catches, er_f = f, er_e = None, er_interrupt = interrupt, er_registered = False\<rparr>"

text \<open>The pipeline of the heap object, also before the first dispatch makes it.\<close>

definition er_pipeline :: "'s erased \<Rightarrow> 's list" where
  "er_pipeline n = (case er_e n of None \<Rightarrow> er_f n | Some e \<Rightarrow> e)"

text \<open>The stages whose \<^verbatim>\<open>Register\<close> asserts that no interrupt was registered before.\<close>

fun asserts_unregistered :: "('c, 'd, 'i) stage \<Rightarrow> bool" where
  "asserts_unregistered (MapS s) = True"
| "asserts_unregistered (FlatMapS s) = True"
| "asserts_unregistered (UntilES s) = True"
| "asserts_unregistered _ = False"

datatype etoken = AtNode call | AtAdaptor call | AtStage token

type_synonym ('c, 'd, 'i) econfig =
  "('c, 'd, 'i) stage list \<times> ('c, 'd, 'i) stage erased \<times> ('c, 'd, 'i) stage list \<times> ctx \<times> etoken"

section \<open>The erased continuations\<close>

text \<open>
  \<open>heap_call\<close> is a member function of the heap object: it registers the interrupt and passes the call to the first stage, at the address \<open>u\<close>. \<open>erased_dispatch_callback\<close> is the callback \<^verbatim>\<open>dispatch_\<close>,
  which makes the heap object unless there is one, and \<open>dispatch\<close> is \<^verbatim>\<open>Dispatch()\<close>, which dereferences \<^verbatim>\<open>interrupt_\<close>.
\<close>

definition heap_call :: "bool \<Rightarrow> nat \<Rightarrow> call \<Rightarrow> ('c, 'd, 'i) stage erased \<Rightarrow> (('c, 'd, 'i) stage erased \<times> etoken) res" where
  "heap_call asserts u c n =
     check (asserts \<longrightarrow> \<not> (er_registered n \<and> list_ex asserts_unregistered (er_pipeline n))) ''interrupt_ == nullptr''
       (Inr (n\<lparr>er_registered := True\<rparr>, AtStage (Down u c)))"

definition erased_dispatch_callback :: "bool \<Rightarrow> nat \<Rightarrow> call \<Rightarrow> ('c, 'd, 'i) stage erased \<Rightarrow> (('c, 'd, 'i) stage erased \<times> etoken) res" where
  "erased_dispatch_callback asserts u c n =
     (case er_e n of
        None \<Rightarrow> heap_call asserts u c (n\<lparr>er_e := Some (er_f n)\<rparr>)
      | Some e \<Rightarrow> heap_call asserts u c n)"

definition dispatch :: "bool \<Rightarrow> nat \<Rightarrow> call \<Rightarrow> ('c, 'd, 'i) stage erased \<Rightarrow> (('c, 'd, 'i) stage erased \<times> etoken) res" where
  "dispatch asserts u c n = (if \<not> er_interrupt n then Inl (NullDeref ''interrupt_'') else erased_dispatch_callback asserts u c n)"

definition to_k :: "nat \<Rightarrow> call \<Rightarrow> ('c, 'd, 'i) stage erased \<Rightarrow> (('c, 'd, 'i) stage erased \<times> etoken) res" where
  "to_k u c n = Inr (n, AtStage (Down (u + length (er_pipeline n)) c))"

fun generator_node :: "bool \<Rightarrow> nat \<Rightarrow> call \<Rightarrow> ('c, 'd, 'i) stage erased \<Rightarrow> (('c, 'd, 'i) stage erased \<times> etoken) res" where
  "generator_node asserts u (Start v) n = dispatch asserts u (Start v) n"
| "generator_node asserts u (Fail e) n = (if err_type e \<in> set (er_catches n) then dispatch asserts u (Fail e) n else to_k u (Fail e) n)"
| "generator_node asserts u Stop n = dispatch asserts u Stop n"
| "generator_node asserts u c n = Inl NoSuchMethod"

fun transformer_node :: "bool \<Rightarrow> nat \<Rightarrow> call \<Rightarrow> ('c, 'd, 'i) stage erased \<Rightarrow> (('c, 'd, 'i) stage erased \<times> etoken) res" where
  "transformer_node asserts u (Begin p) n = to_k u (Begin p) n"
| "transformer_node asserts u (Fail e) n = (if err_type e \<in> set (er_catches n) then dispatch asserts u (Fail e) n else to_k u (Fail e) n)"
| "transformer_node asserts u Stop n = dispatch asserts u Stop n"
| "transformer_node asserts u (Body v) n = dispatch asserts u (Body v) n"
| "transformer_node asserts u Ended n = to_k u Ended n"
| "transformer_node asserts u (Start v) n = Inl NoSuchMethod"

fun erased_adaptor :: "nat \<Rightarrow> call \<Rightarrow> ('c, 'd, 'i) stage erased \<Rightarrow> (('c, 'd, 'i) stage erased \<times> etoken) res" where
  "erased_adaptor u (Start v) n = Inl NoSuchMethod"
| "erased_adaptor u c n = to_k u c n"

section \<open>The machine\<close>

fun place :: "nat \<Rightarrow> nat \<Rightarrow> nat \<Rightarrow> token \<Rightarrow> etoken" where
  "place u m i (Down j c) = (if j = Suc i \<and> j = u then AtNode c else if j = Suc i \<and> j = u + m then AtAdaptor c else AtStage (Down j c))"
| "place u m i (Up p r) = AtStage (Up p r)"

definition erased_stages :: "('c, 'd, 'i) stage list \<Rightarrow> ('c, 'd, 'i) stage erased \<Rightarrow> ('c, 'd, 'i) stage list \<Rightarrow> ('c, 'd, 'i) stage list" where
  "erased_stages up n down = up @ er_pipeline n @ down"

definition split_stages ::
    "nat \<Rightarrow> ('c, 'd, 'i) stage erased \<Rightarrow> ('c, 'd, 'i) stage list \<Rightarrow> ('c, 'd, 'i) stage list \<times> ('c, 'd, 'i) stage erased \<times> ('c, 'd, 'i) stage list" where
  "split_stages u n ss =
     (let m = length (er_pipeline n)
      in (take u ss, case er_e n of None \<Rightarrow> n | Some _ \<Rightarrow> n\<lparr>er_e := Some (take m (drop u ss))\<rparr>, drop (u + m) ss))"

definition erased_fire :: "('c, 'd, 'i) stage list \<Rightarrow> ('c, 'd, 'i) stage erased \<Rightarrow> ('c, 'd, 'i) stage list \<Rightarrow> ctx \<Rightarrow> nat \<Rightarrow> input \<Rightarrow> ('c, 'd, 'i) econfig res" where
  "erased_fire up n down cur i x =
     rbind (fire (erased_stages up n down) cur i x) (\<lambda>(ss, cur', t).
       case split_stages (length up) n ss of (up', n', down') \<Rightarrow> Inr (up', n', down', cur', place (length up) (length (er_pipeline n)) i t))"

fun erased_step ::
    "(nat \<Rightarrow> call \<Rightarrow> ('c, 'd, 'i) stage erased \<Rightarrow> (('c, 'd, 'i) stage erased \<times> etoken) res) \<Rightarrow> ('c, 'd, 'i) econfig \<Rightarrow> ('c, 'd, 'i) econfig res option" where
  "erased_step node (up, n, down, cur, AtNode c) = Some (rbind (node (length up) c n) (\<lambda>(n', t). Inr (up, n', down, cur, t)))"
| "erased_step node (up, n, down, cur, AtAdaptor c) = Some (rbind (erased_adaptor (length up) c n) (\<lambda>(n', t). Inr (up, n', down, cur, t)))"
| "erased_step node (up, n, down, cur, AtStage (Down i c)) =
     (if i < length (erased_stages up n down) then Some (erased_fire up n down cur i (Call c)) else None)"
| "erased_step node (up, n, down, cur, AtStage (Up p r)) =
     (if p < length (erased_stages up n down) then Some (erased_fire up n down cur p (Req r)) else None)"

text \<open>The configuration of the pipeline without erasure, in which the stages of the heap object stand in line.\<close>

fun erased_token :: "nat \<Rightarrow> nat \<Rightarrow> etoken \<Rightarrow> token" where
  "erased_token u m (AtNode c) = Down u c"
| "erased_token u m (AtAdaptor c) = Down (u + m) c"
| "erased_token u m (AtStage t) = t"

fun flat :: "('c, 'd, 'i) econfig \<Rightarrow> ('c, 'd, 'i) config" where
  "flat (up, n, down, cur, t) = (erased_stages up n down, cur, erased_token (length up) (length (er_pipeline n)) t)"

fun erased_run :: "(nat \<Rightarrow> call \<Rightarrow> ('c, 'd, 'i) stage erased \<Rightarrow> (('c, 'd, 'i) stage erased \<times> etoken) res) \<Rightarrow> nat \<Rightarrow> ('c, 'd, 'i) econfig \<Rightarrow> ('c, 'd, 'i) outcome" where
  "erased_run node 0 x = OutOfFuel"
| "erased_run node (Suc k) x =
     (case erased_step node x of None \<Rightarrow> Delivered (flat x) | Some (Inl f) \<Rightarrow> Faulted f | Some (Inr y) \<Rightarrow> erased_run node k y)"

end
