(* ===== verification/Erased_Theorems.thy ===== *)
theory Erased_Theorems
  imports Erased_Streams
begin

text \<open>
  Type erasure of streams is transparent: a generator behaves as the pipeline its callable returns, and so does a transformer of maps in a program without assertions. The locale \<open>stuttering\<close> states when an erased
  pipeline simulates the one without erasure, up to steps that only pass a call on; the generator and the transformer interpret it.
\<close>

section \<open>Simulation\<close>

locale stuttering =
  fixes node :: "nat \<Rightarrow> call \<Rightarrow> ('c, 'd, 'i) stage erased \<Rightarrow> (('c, 'd, 'i) stage erased \<times> etoken) res"
    and sim :: "('c, 'd, 'i) econfig \<Rightarrow> ('c, 'd, 'i) config \<Rightarrow> bool"
  assumes sim_step: "sim x y \<Longrightarrow> pipe_step y = Some (Inr y') \<Longrightarrow> \<exists>x'. star (\<lambda>a b. erased_step node a = Some (Inr b)) x x' \<and> sim x' y'"
    and sim_fault: "sim x y \<Longrightarrow> pipe_step y = Some (Inl f) \<Longrightarrow> \<exists>x'. star (\<lambda>a b. erased_step node a = Some (Inr b)) x x' \<and> erased_step node x' = Some (Inl f)"
    and sim_end: "sim x y \<Longrightarrow> pipe_step y = None \<Longrightarrow> \<exists>x'. star (\<lambda>a b. erased_step node a = Some (Inr b)) x x' \<and> erased_step node x' = None \<and> flat x' = y"
begin

lemma run_star:
  assumes "star (\<lambda>a b. erased_step node a = Some (Inr b)) x x'" "\<exists>k. erased_run node k x' = r"
  shows "\<exists>k. erased_run node k x = r"
  using assms
proof (induction rule: star.induct)
  case (star_step x y z)
  then obtain k where "erased_run node k y = r" by blast
  with star_step.hyps(1) have "erased_run node (Suc k) x = r" by simp
  then show ?case by blast
qed blast

lemma simulates: "pipe_run k y = r \<Longrightarrow> r \<noteq> OutOfFuel \<Longrightarrow> sim x y \<Longrightarrow> \<exists>k. erased_run node k x = r"
proof (induction k arbitrary: x y)
  case (Suc k)
  show ?case
  proof (cases "pipe_step y")
    case None
    then obtain x' where x': "star (\<lambda>a b. erased_step node a = Some (Inr b)) x x'" "erased_step node x' = None" "flat x' = y" using sim_end [OF Suc.prems(3)] by blast
    have "erased_run node (Suc 0) x' = r" using x'(2,3) None Suc.prems(1) by simp
    then show ?thesis using run_star [OF x'(1)] by blast
  next
    case (Some z)
    show ?thesis
    proof (cases z)
      case (Inl f)
      with Some obtain x' where x': "star (\<lambda>a b. erased_step node a = Some (Inr b)) x x'" "erased_step node x' = Some (Inl f)" using sim_fault [OF Suc.prems(3)] by blast
      have "erased_run node (Suc 0) x' = r" using x'(2) Some Inl Suc.prems(1) by simp
      then show ?thesis using run_star [OF x'(1)] by blast
    next
      case (Inr y')
      with Some obtain x' where x': "star (\<lambda>a b. erased_step node a = Some (Inr b)) x x'" "sim x' y'" using sim_step [OF Suc.prems(3)] by blast
      have "\<exists>k. erased_run node k x' = r" using Suc.IH [OF _ Suc.prems(2) x'(2)] Some Inr Suc.prems(1) by simp
      then show ?thesis by (rule run_star [OF x'(1)])
    qed
  qed
qed simp

end

section \<open>One step of a stage\<close>

lemma dispatch_simps:
  "dispatch asserts u c n =
     (if \<not> er_interrupt n then Inl (NullDeref ''interrupt_'')
      else check (asserts \<longrightarrow> \<not> (er_registered n \<and> list_ex asserts_unregistered (er_pipeline n))) ''interrupt_ == nullptr''
             (Inr (n\<lparr>er_e := Some (er_pipeline n), er_registered := True\<rparr>, AtStage (Down u c))))"
  by (cases n) (simp add: dispatch_def erased_dispatch_callback_def heap_call_def er_pipeline_def split: option.splits)

lemma length_pipeline_update: "length e = length (er_pipeline n) \<Longrightarrow> length (er_pipeline (n\<lparr>er_e := Some e\<rparr>)) = length (er_pipeline n)"
  by (simp add: er_pipeline_def)

lemma erased_token_place [simp]: "erased_token u m (place u m i t) = t"
  by (cases t) auto

lemma take_take_drop: "take u ss @ take m (drop u ss) @ drop (u + m) ss = ss"
  by (metis append_take_drop_id drop_drop add.commute)

lemma split_join:
  assumes "length ss = u + length (er_pipeline n) + l" "er_e n \<noteq> None \<or> take (length (er_pipeline n)) (drop u ss) = er_pipeline n"
    and "split_stages u n ss = (up, n', down)"
  shows "erased_stages up n' down = ss" "length up = u" "length (er_pipeline n') = length (er_pipeline n)" "length down = l"
    "er_pipeline n' = take (length (er_pipeline n)) (drop u ss)" "er_e n' = None \<longleftrightarrow> er_e n = None" "er_interrupt n' = er_interrupt n" "er_catches n' = er_catches n"
proof -
  have f: "up = take u ss" "down = drop (u + length (er_pipeline n)) ss" "n' = (case er_e n of None \<Rightarrow> n | Some _ \<Rightarrow> n\<lparr>er_e := Some (take (length (er_pipeline n)) (drop u ss))\<rparr>)"
    using assms(3) by (auto simp: split_stages_def Let_def)
  show e: "er_pipeline n' = take (length (er_pipeline n)) (drop u ss)" using assms(2) by (cases "er_e n") (simp_all add: f er_pipeline_def)
  show "erased_stages up n' down = ss" using take_take_drop [of u ss] by (simp add: erased_stages_def e f(1,2))
  show "length up = u" "length (er_pipeline n') = length (er_pipeline n)" "length down = l" using assms(1) by (simp_all add: e f(1,2))
  show "er_e n' = None \<longleftrightarrow> er_e n = None" "er_interrupt n' = er_interrupt n" "er_catches n' = er_catches n" by (simp_all add: f(3) split: option.splits)
qed

lemma fire_fields:
  assumes "fire ss cur i x = Inr (ss', cur', t)"
  obtains s w where "stage_handle i cur (ss ! i) x = Inr (s, w)" "ss' = ss[i := s]" "(cur', t) = enter cur i w" "length ss' = length ss"
  using assms by (auto simp: fire_def)

lemma erased_fire_flat:
  assumes "fire (erased_stages up n down) cur i x = Inr (ss', cur', t)"
    and "er_e n \<noteq> None \<or> i < length up \<or> length up + length (er_pipeline n) \<le> i"
  shows "\<exists>up' n' down'. erased_fire up n down cur i x = Inr (up', n', down', cur', place (length up) (length (er_pipeline n)) i t) \<and>
    flat (up', n', down', cur', place (length up) (length (er_pipeline n)) i t) = (ss', cur', t) \<and>
    length up' = length up \<and> length down' = length down \<and> er_pipeline n' = take (length (er_pipeline n)) (drop (length up) ss') \<and>
    (er_e n' = None \<longleftrightarrow> er_e n = None) \<and> er_interrupt n' = er_interrupt n \<and> er_catches n' = er_catches n"
proof -
  obtain s where ss': "ss' = (erased_stages up n down)[i := s]" "length ss' = length (erased_stages up n down)" by (rule fire_fields [OF assms(1)])
  obtain up' n' down' where sp: "split_stages (length up) n ss' = (up', n', down')" by (metis prod_cases3)
  have l: "length ss' = length up + length (er_pipeline n) + length down" using ss'(2) by (simp add: erased_stages_def)
  have "take (length (er_pipeline n)) (drop (length up) ss') = er_pipeline n" if "i < length up \<or> length up + length (er_pipeline n) \<le> i"
    using that by (auto simp: ss'(1) erased_stages_def drop_update_swap list_update_append take_update_cancel)
  with assms(2) have "er_e n \<noteq> None \<or> take (length (er_pipeline n)) (drop (length up) ss') = er_pipeline n" by blast
  note j = split_join [OF l this sp]
  show ?thesis
    by (intro exI [of _ up'] exI [of _ n'] exI [of _ down'])
      (simp add: erased_fire_def assms(1) sp j(1,2,3,4,6,7,8), use j(5) in simp)
qed

lemma erased_fire_fault: "fire (erased_stages up n down) cur i x = Inl f \<Longrightarrow> erased_fire up n down cur i x = Inl f"
  by (simp add: erased_fire_def)

section \<open>Generators\<close>

text \<open>A stream stage never starts its continuation: it gives a stream.\<close>

fun stream_stage :: "('c, 'd, 'i) stage \<Rightarrow> bool" where
  "stream_stage (HeadS s) = False"
| "stream_stage (ReduceS s) = False"
| "stream_stage (LoopS s) = False"
| "stream_stage _ = True"

lemma stage_handle_stream_stage: "stage_handle i cur s x = Inr (s', w) \<Longrightarrow> stream_stage s' = stream_stage s"
  by (cases s) (auto simp: lift_stage_def split: sum.splits)

lemma stream_adaptor_not_start [simp]: "stream_adaptor this a \<noteq> Start v"
  by (cases a) simp_all

lemma stream_emit_not_start: "stream_emit this s r = Inr (s', w) \<Longrightarrow> out_dest w \<noteq> ToK (Start v)"
  by (auto simp: stream_emit_def split: option.splits sum.splits)

lemma stream_handle_not_start: "stream_handle this cur s x = Inr (s', w) \<Longrightarrow> out_dest w \<noteq> ToK (Start v)"
  by (induction this cur s x rule: stream_handle.induct) (auto simp: Let_def dest: stream_emit_not_start split: option.splits)

lemma flat_map_deliver_not_start: "flat_map_deliver s c = Inr (s', d) \<Longrightarrow> d \<noteq> ToK (Start v)"
  by (cases c) (auto split: option.splits if_splits)

lemma flat_map_inner_not_start: "flat_map_inner f s = Inr (s', d) \<Longrightarrow> d \<noteq> ToK (Start v)"
  by (auto simp: flat_map_inner_def dest: flat_map_deliver_not_start split: option.splits sum.splits)

lemma flat_map_adaptor_not_start: "flat_map_adaptor s c = Inr (s', d) \<Longrightarrow> d \<noteq> ToK (Start v)"
  by (cases c) (auto dest: flat_map_deliver_not_start flat_map_inner_not_start split: if_splits)

lemma flat_map_handle_not_start: "flat_map_handle this cur s x = Inr (s', w) \<Longrightarrow> out_dest w \<noteq> ToK (Start v)"
  by (induction this cur s x rule: flat_map_handle.induct)
    (auto simp: via_def Let_def dest: flat_map_inner_not_start flat_map_adaptor_not_start split: if_splits)

lemma range_handle_not_start: "range_handle this cur s x = Inr (s', w) \<Longrightarrow> out_dest w \<noteq> ToK (Start v)"
  by (induction this cur s x rule: range_handle.induct) (auto split: if_splits)

lemma repeat_handle_not_start: "repeat_handle this cur s x = Inr (s', w) \<Longrightarrow> out_dest w \<noteq> ToK (Start v)"
  by (induction this cur s x rule: repeat_handle.induct) auto

lemma map_handle_not_start: "map_handle s x = Inr (s', w) \<Longrightarrow> out_dest w \<noteq> ToK (Start v)"
proof (induction s x rule: map_handle.induct)
  case (4 s u)
  then show ?case by (cases "m_e s u") auto
qed auto

lemma filter_handle_not_start: "filter_handle s x = Inr (s', w) \<Longrightarrow> out_dest w \<noteq> ToK (Start v)"
  by (induction s x rule: filter_handle.induct) (auto split: if_splits)

lemma take_last_handle_not_start: "take_last_handle this cur s x = Inr (s', w) \<Longrightarrow> out_dest w \<noteq> ToK (Start v)"
  by (induction this cur s x rule: take_last_handle.induct) (auto split: if_splits list.splits)

lemma take_range_handle_not_start: "take_range_handle this cur s x = Inr (s', w) \<Longrightarrow> out_dest w \<noteq> ToK (Start v)"
  by (induction this cur s x rule: take_range_handle.induct) (auto split: if_splits)

lemma until_handle_not_start: "until_handle s x = Inr (s', w) \<Longrightarrow> out_dest w \<noteq> ToK (Start v)"
  by (induction s x rule: until_handle.induct) (auto split: if_splits)

lemma until_adaptor_not_start: "until_adaptor a p g = Inr d \<Longrightarrow> d \<noteq> ToK (Start v)"
  by (induction a p g rule: until_adaptor.induct) (auto split: if_splits)

lemma until_e_handle_not_start: "until_e_handle s x = Inr (s', w) \<Longrightarrow> out_dest w \<noteq> ToK (Start v)"
  by (induction s x rule: until_e_handle.induct) (auto dest: until_adaptor_not_start)

lemma on_begin_handle_not_start: "on_begin_handle s x = Inr (s', w) \<Longrightarrow> out_dest w \<noteq> ToK (Start v)"
  by (induction s x rule: on_begin_handle.induct) (auto split: if_splits)

lemma on_ended_handle_not_start: "on_ended_handle cur s x = Inr (s', w) \<Longrightarrow> out_dest w \<noteq> ToK (Start v)"
  by (induction cur s x rule: on_ended_handle.induct) (auto split: if_splits)

lemmas not_start = on_begin_handle_not_start on_ended_handle_not_start stream_handle_not_start range_handle_not_start repeat_handle_not_start map_handle_not_start filter_handle_not_start
  take_last_handle_not_start take_range_handle_not_start until_handle_not_start until_e_handle_not_start flat_map_handle_not_start

lemma stream_stage_not_start: "stream_stage s \<Longrightarrow> stage_handle i cur s x = Inr (s', w) \<Longrightarrow> out_dest w \<noteq> ToK (Start v)"
  by (cases s) (auto simp: lift_stage_def dest: not_start)

text \<open>
  A configuration of a generator after its first call simulates the pipeline without erasure: the call is at the same place, or at the adaptor, one step before.
\<close>

fun not_start_call :: "call \<Rightarrow> bool" where
  "not_start_call (Start v) = False"
| "not_start_call _ = True"

fun gen_token :: "etoken \<Rightarrow> bool" where
  "gen_token (AtNode c) = False"
| "gen_token (AtAdaptor c) = not_start_call c"
| "gen_token (AtStage t) = True"

fun gen_sim :: "('c, 'd, 'i) econfig \<Rightarrow> ('c, 'd, 'i) config \<Rightarrow> bool" where
  "gen_sim (up, n, down, cur, t) y \<longleftrightarrow>
     flat (up, n, down, cur, t) = y \<and> up = [] \<and> er_e n \<noteq> None \<and> er_pipeline n \<noteq> [] \<and> stream_stage (last (er_pipeline n)) \<and> gen_token t"

lemma gen_settle:
  assumes "gen_sim x y"
  shows "\<exists>n down cur t. star (\<lambda>a b. erased_step node a = Some (Inr b)) x ([], n, down, cur, AtStage t) \<and> gen_sim ([], n, down, cur, AtStage t) y"
proof -
  obtain up n down cur t where x: "x = (up, n, down, cur, t)" by (cases x) auto
  show ?thesis
  proof (cases t)
    case (AtStage t')
    with assms x show ?thesis by (intro exI [of _ n] exI [of _ down] exI [of _ cur] exI [of _ t']) (auto intro: star_refl)
  next
    case (AtAdaptor c)
    with assms x have "erased_step node x = Some (Inr (up, n, down, cur, AtStage (Down (length up + length (er_pipeline n)) c)))"
      by (cases c) (auto simp: to_k_def)
    moreover have "gen_sim (up, n, down, cur, AtStage (Down (length up + length (er_pipeline n)) c)) y" using assms x AtAdaptor by auto
    ultimately show ?thesis using assms x by (fastforce intro: star_one)
  qed (use assms x in simp)
qed

lemma gen_fire:
  assumes "fire (erased_stages [] n down) cur i x = Inr (ss', cur', t')" "i < length (erased_stages [] n down)"
    and "er_e n \<noteq> None" "er_pipeline n \<noteq> []" "stream_stage (last (er_pipeline n))"
  shows "\<exists>x'. erased_fire [] n down cur i x = Inr x' \<and> gen_sim x' (ss', cur', t')"
proof -
  let ?m = "length (er_pipeline n)"
  obtain s w where sw: "stage_handle i cur (erased_stages [] n down ! i) x = Inr (s, w)" "ss' = (erased_stages [] n down)[i := s]" "(cur', t') = enter cur i w"
    by (rule fire_fields [OF assms(1)])
  from erased_fire_flat [of "[]" n down cur i x ss' cur' t'] assms(1,3) obtain n' down' where
    f: "erased_fire [] n down cur i x = Inr ([], n', down', cur', place 0 ?m i t')" "flat ([], n', down', cur', place 0 ?m i t') = (ss', cur', t')"
    "er_pipeline n' = take ?m ss'" "er_e n' \<noteq> None" by auto
  have e: "er_pipeline n' \<noteq> []" using f(3) sw(2) assms(4) by (simp add: erased_stages_def)
  have m: "erased_stages [] n down ! (?m - 1) = last (er_pipeline n)" using assms(4) by (simp add: erased_stages_def nth_append last_conv_nth)
  have "last (er_pipeline n') = ss' ! (?m - 1)" using assms(4) e sw(2) by (simp add: f(3) last_conv_nth erased_stages_def min_def)
  also have "stream_stage (ss' ! (?m - 1)) \<longleftrightarrow> stream_stage (last (er_pipeline n))"
    using sw(1,2) m assms(2) by (cases "i = ?m - 1") (auto dest: stage_handle_stream_stage)
  finally have l: "stream_stage (last (er_pipeline n'))" using assms(5) by blast
  have t: "t' = route i (out_dest w)" using sw(3) by (metis snd_conv snd_enter)
  have "gen_token (place 0 ?m i t')"
  proof (cases "out_dest w")
    case (ToK c)
    have "not_start_call c" if "Suc i = ?m"
    proof -
      have "i = ?m - 1" using that by simp
      then have "stage_handle i cur (last (er_pipeline n)) x = Inr (s, w)" using sw(1) m by simp
      then show ?thesis using stream_stage_not_start [OF assms(5)] ToK by (cases c) fastforce+
    qed
    then show ?thesis using ToK by (simp add: t)
  qed (simp add: t)
  then show ?thesis using f(1,2,4) e l by (intro exI [of _ "([], n', down', cur', place 0 ?m i t')"]) simp
qed

lemma gen_stage_step:
  assumes "gen_sim ([], n, down, cur, AtStage t) y"
  shows "pipe_step y = Some (Inr y') \<Longrightarrow> \<exists>x'. erased_step node ([], n, down, cur, AtStage t) = Some (Inr x') \<and> gen_sim x' y'"
    and "pipe_step y = Some (Inl f) \<Longrightarrow> erased_step node ([], n, down, cur, AtStage t) = Some (Inl f)"
    and "pipe_step y = None \<Longrightarrow> erased_step node ([], n, down, cur, AtStage t) = None"
proof -
  have y: "y = (erased_stages [] n down, cur, t)" using assms by simp
  show "\<exists>x'. erased_step node ([], n, down, cur, AtStage t) = Some (Inr x') \<and> gen_sim x' y'" if "pipe_step y = Some (Inr y')"
    using that assms y by (cases t; cases y') (auto dest!: gen_fire split: if_splits)
  show "erased_step node ([], n, down, cur, AtStage t) = Some (Inl f)" if "pipe_step y = Some (Inl f)"
    using that y by (cases t) (auto simp: erased_fire_fault split: if_splits)
  show "erased_step node ([], n, down, cur, AtStage t) = None" if "pipe_step y = None"
    using that y by (cases t) (auto split: if_splits)
qed

text \<open>Nothing calls the erased continuation of a generator again, so this holds of any.\<close>

lemma gen_laws:
  assumes "gen_sim x y"
  shows "pipe_step y = Some (Inr y') \<Longrightarrow> \<exists>x'. star (\<lambda>a b. erased_step node a = Some (Inr b)) x x' \<and> gen_sim x' y'"
    and "pipe_step y = Some (Inl f) \<Longrightarrow> \<exists>x'. star (\<lambda>a b. erased_step node a = Some (Inr b)) x x' \<and> erased_step node x' = Some (Inl f)"
    and "pipe_step y = None \<Longrightarrow> \<exists>x'. star (\<lambda>a b. erased_step node a = Some (Inr b)) x x' \<and> erased_step node x' = None \<and> flat x' = y"
proof -
  from gen_settle [OF assms, of node] obtain n down cur t where
    s: "star (\<lambda>a b. erased_step node a = Some (Inr b)) x ([], n, down, cur, AtStage t)" "gen_sim ([], n, down, cur, AtStage t) y" by blast
  show "\<exists>x'. star (\<lambda>a b. erased_step node a = Some (Inr b)) x x' \<and> gen_sim x' y'" if p: "pipe_step y = Some (Inr y')"
    using gen_stage_step(1) [OF s(2) p, of node] s(1) star_one [of "\<lambda>a b. erased_step node a = Some (Inr b)"] by (meson star_trans)
  show "\<exists>x'. star (\<lambda>a b. erased_step node a = Some (Inr b)) x x' \<and> erased_step node x' = Some (Inl f)" if p: "pipe_step y = Some (Inl f)"
    using gen_stage_step(2) [OF s(2) p] s(1) by blast
  show "\<exists>x'. star (\<lambda>a b. erased_step node a = Some (Inr b)) x x' \<and> erased_step node x' = None \<and> flat x' = y" if p: "pipe_step y = None"
    using gen_stage_step(3) [OF s(2) p] s by (metis gen_sim.simps)
qed

interpretation gen: stuttering "generator_node asserts" gen_sim for asserts
  by unfold_locales (rule gen_laws; assumption)+

lemma generator_starts:
  assumes "e \<noteq> []" "stream_stage (last e)"
  shows "\<exists>x. erased_step (generator_node asserts) ([], Erased catches True e, down, cur, AtNode (Start v)) = Some (Inr x) \<and> gen_sim x (e @ down, cur, Down 0 (Start v))"
  using assms by (simp add: dispatch_simps Erased_def er_pipeline_def erased_stages_def)



section \<open>Transformers\<close>

fun is_map :: "('c, 'd, 'i) stage \<Rightarrow> bool" where
  "is_map (MapS s) = True"
| "is_map _ = False"

lemma is_map_handles:
  assumes "is_map s" "stage_handle i cur s x = Inr (s', w)"
  shows "is_map s'" "out_dest w \<noteq> ToK (Start v)" "\<exists>c. x = Call c"
  using assms by (cases s; cases x; auto simp: lift_stage_def dest: map_handle_not_start)+

text \<open>The calls that a map and the erased continuation both pass on.\<close>

fun passes :: "call \<Rightarrow> bool" where
  "passes (Begin p) = True"
| "passes Ended = True"
| "passes (Fail e) = True"
| "passes c = False"

lemma map_passes: "is_map s \<Longrightarrow> passes c \<Longrightarrow> stage_handle i cur s (Call c) = Inr (s, Now (ToK c))"
  by (cases s; cases c) auto

text \<open>
  A configuration of a transformer of maps simulates the pipeline without erasure: the call is at the same place, or it was passed to the stage after the transformer while the pipeline
  without erasure still passes it through its maps.
\<close>

fun tr_token :: "nat \<Rightarrow> nat \<Rightarrow> bool \<Rightarrow> etoken \<Rightarrow> token \<Rightarrow> bool" where
  "tr_token u m made (AtNode c) t \<longleftrightarrow> t = Down u c"
| "tr_token u m made (AtAdaptor c) t \<longleftrightarrow> t = Down (u + m) c \<and> not_start_call c"
| "tr_token u m made (AtStage (Up p r)) t \<longleftrightarrow> t = Up p r"
| "tr_token u m made (AtStage (Down i c)) t \<longleftrightarrow>
     t = Down i c \<and> (u \<le> i \<and> i < u + m \<longrightarrow> made) \<or> i = u + m \<and> passes c \<and> (\<exists>j < m. t = Down (u + j) c)"

fun tr_sim :: "('c, 'd, 'i) econfig \<Rightarrow> ('c, 'd, 'i) config \<Rightarrow> bool" where
  "tr_sim (up, n, down, cur, t) y \<longleftrightarrow>
     (\<exists>t'. y = (erased_stages up n down, cur, t') \<and> tr_token (length up) (length (er_pipeline n)) (er_e n \<noteq> None) t t') \<and>
     er_interrupt n \<and> er_pipeline n \<noteq> [] \<and> list_all is_map (er_pipeline n)"

lemma tr_settle:
  assumes "tr_sim (up, n, down, cur, t) y"
  shows "(\<exists>v. t = AtNode (Start v)) \<or>
    (\<exists>n' t'. star (\<lambda>a b. erased_step (transformer_node False) a = Some (Inr b)) (up, n, down, cur, t) (up, n', down, cur, AtStage t') \<and>
       tr_sim (up, n', down, cur, AtStage t') y)"
proof (cases t)
  case (AtStage t')
  with assms show ?thesis by (blast intro: star_refl)
next
  case (AtAdaptor c)
  with assms have "erased_step (transformer_node False) (up, n, down, cur, t) = Some (Inr (up, n, down, cur, AtStage (Down (length up + length (er_pipeline n)) c)))"
    by (cases c) (auto simp: to_k_def)
  moreover have "tr_sim (up, n, down, cur, AtStage (Down (length up + length (er_pipeline n)) c)) y" using assms AtAdaptor by auto
  ultimately show ?thesis by (blast intro: star_one)
next
  case (AtNode c)
  let ?d = "n\<lparr>er_e := Some (er_pipeline n), er_registered := True\<rparr>"
  have d: "dispatch False (length up) c n = Inr (?d, AtStage (Down (length up) c))" "to_k (length up) c n = Inr (n, AtStage (Down (length up + length (er_pipeline n)) c))"
    using assms by (simp_all add: dispatch_simps to_k_def Let_def)
  have a: "tr_sim (up, ?d, down, cur, AtStage (Down (length up) c)) y" using assms AtNode by (auto simp: er_pipeline_def erased_stages_def)
  have b: "tr_sim (up, n, down, cur, AtStage (Down (length up + length (er_pipeline n)) c)) y" if "passes c" using assms AtNode that by (auto intro: exI [of _ 0])
  consider (start) v where "c = Start v" | (dispatched) "transformer_node False (length up) c n = dispatch False (length up) c n"
    | (passed) "transformer_node False (length up) c n = to_k (length up) c n" "passes c"
    by (cases c) (fastforce split: if_splits)+
  then show ?thesis
  proof cases
    case dispatched
    then have "erased_step (transformer_node False) (up, n, down, cur, t) = Some (Inr (up, ?d, down, cur, AtStage (Down (length up) c)))" using AtNode d(1) by simp
    then show ?thesis using a by (blast intro: star_one)
  next
    case passed
    then have "erased_step (transformer_node False) (up, n, down, cur, t) = Some (Inr (up, n, down, cur, AtStage (Down (length up + length (er_pipeline n)) c)))"
      using AtNode d(2) by simp
    then show ?thesis using b passed(2) by (blast intro: star_one)
  qed (use AtNode in blast)
qed

lemma pipeline_nth: "i < length (er_pipeline n) \<Longrightarrow> erased_stages up n down ! (length up + i) = er_pipeline n ! i"
  by (simp add: erased_stages_def nth_append)

lemma pipeline_is_map:
  assumes "list_all is_map (er_pipeline n)" "length up \<le> i" "i < length up + length (er_pipeline n)"
  shows "is_map (erased_stages up n down ! i)"
  using assms pipeline_nth [of "i - length up" n up down] by (simp add: list_all_length)

lemma tr_fire:
  assumes "fire (erased_stages up n down) cur i x = Inr (ss', cur', t')" "i < length (erased_stages up n down)"
    and "er_interrupt n" "er_pipeline n \<noteq> []" "list_all is_map (er_pipeline n)"
    and made: "\<And>c. x = Call c \<Longrightarrow> length up \<le> i \<Longrightarrow> i < length up + length (er_pipeline n) \<Longrightarrow> er_e n \<noteq> None"
  shows "\<exists>x'. erased_fire up n down cur i x = Inr x' \<and> tr_sim x' (ss', cur', t')"
proof -
  let ?m = "length (er_pipeline n)" and ?u = "length up"
  obtain s w where sw: "stage_handle i cur (erased_stages up n down ! i) x = Inr (s, w)" "ss' = (erased_stages up n down)[i := s]" "(cur', t') = enter cur i w"
    by (rule fire_fields [OF assms(1)])
  have im: "is_map s" "out_dest w \<noteq> ToK (Start v)" "er_e n \<noteq> None" if "?u \<le> i" "i < ?u + ?m" for v
    using is_map_handles [OF pipeline_is_map [OF assms(5) that] sw(1)] made that by blast+
  from erased_fire_flat [OF assms(1)] im(3) obtain up' n' down' where
    f: "erased_fire up n down cur i x = Inr (up', n', down', cur', place ?u ?m i t')" "flat (up', n', down', cur', place ?u ?m i t') = (ss', cur', t')"
    "length up' = ?u" "er_pipeline n' = take ?m (drop ?u ss')" "er_e n' = None \<longleftrightarrow> er_e n = None" "er_interrupt n' = er_interrupt n" by (metis not_le)
  have m: "length (er_pipeline n') = ?m" using f(4) sw(2) by (simp add: erased_stages_def)
  have maps: "list_all is_map (er_pipeline n')"
    unfolding list_all_length
  proof (intro allI impI)
    fix j assume "j < length (er_pipeline n')"
    with m have j: "j < ?m" by simp
    then have "er_pipeline n' ! j = ss' ! (?u + j)" by (simp add: f(4) sw(2) erased_stages_def)
    then show "is_map (er_pipeline n' ! j)"
      using j im(1) assms(2,5) pipeline_nth [OF j, of up down] by (cases "i = ?u + j") (auto simp: sw(2) list_all_length)
  qed
  have t: "t' = route i (out_dest w)" using sw(3) by (metis snd_conv snd_enter)
  have "tr_token ?u ?m (er_e n' \<noteq> None) (place ?u ?m i t') t'"
  proof (cases "out_dest w")
    case (ToK c)
    have "not_start_call c" if i: "Suc i = ?u + ?m"
    proof -
      have "0 < ?m" using assms(4) by simp
      with i have "?u \<le> i" "i < ?u + ?m" by linarith+
      then show ?thesis using im(2) ToK by (cases c) auto
    qed
    then show ?thesis using ToK im(3) by (auto simp: t f(5))
  qed (simp add: t)
  then show ?thesis using f assms(3,4) maps m by (intro exI [of _ "(up', n', down', cur', place ?u ?m i t')"]) auto
qed

text \<open>A call on its way through the maps of the pipeline without erasure.\<close>

lemma tr_transit:
  assumes "list_all is_map (er_pipeline n)" "passes c" "j < length (er_pipeline n)"
  shows "pipe_step (erased_stages up n down, cur, Down (length up + j) c) = Some (Inr (erased_stages up n down, cur, Down (length up + Suc j) c))"
proof -
  have "is_map (erased_stages up n down ! (length up + j))" using pipeline_is_map [OF assms(1), of up "length up + j" down] assms(3) by simp
  moreover have "length up + j < length (erased_stages up n down)" using assms(3) by (simp add: erased_stages_def)
  ultimately show ?thesis using assms(2) by (simp add: fire_def map_passes)
qed

lemma tr_stage_step:
  assumes "tr_sim (up, n, down, cur, AtStage t) y"
  shows "pipe_step y = Some (Inr y') \<Longrightarrow> \<exists>x'. star (\<lambda>a b. erased_step node a = Some (Inr b)) (up, n, down, cur, AtStage t) x' \<and> tr_sim x' y'"
    and "pipe_step y = Some (Inl f) \<Longrightarrow> erased_step node (up, n, down, cur, AtStage t) = Some (Inl f)"
    and "pipe_step y = None \<Longrightarrow> erased_step node (up, n, down, cur, AtStage t) = None \<and> flat (up, n, down, cur, AtStage t) = y"
proof -
  let ?x = "(up, n, down, cur, AtStage t)"
  have b: "er_interrupt n" "er_pipeline n \<noteq> []" "list_all is_map (er_pipeline n)" using assms by auto
  obtain t' where y: "y = (erased_stages up n down, cur, t')" and tt: "tr_token (length up) (length (er_pipeline n)) (er_e n \<noteq> None) (AtStage t) t'"
    using assms by auto
  consider (same) "t' = t" "\<And>i c. t = Down i c \<Longrightarrow> length up \<le> i \<Longrightarrow> i < length up + length (er_pipeline n) \<Longrightarrow> er_e n \<noteq> None"
    | (transit) c j where "t = Down (length up + length (er_pipeline n)) c" "passes c" "j < length (er_pipeline n)" "t' = Down (length up + j) c"
    using tt by (cases t) auto
  note cs = this
  show "\<exists>x'. star (\<lambda>a b. erased_step node a = Some (Inr b)) ?x x' \<and> tr_sim x' y'" if p: "pipe_step y = Some (Inr y')"
    using cs
  proof cases
    case same
    have "\<exists>x'. erased_step node ?x = Some (Inr x') \<and> tr_sim x' y'"
      using p same b y by (cases t; cases y') (auto split: if_splits dest!: tr_fire simp del: tr_sim.simps)
    then show ?thesis by (blast intro: star_one)
  next
    case transit
    have "y' = (erased_stages up n down, cur, Down (length up + Suc j) c)" using p tr_transit [OF b(3) transit(2,3), of up down cur] by (simp add: y transit(4))
    then have "tr_sim ?x y'" using transit b by (cases "Suc j = length (er_pipeline n)") auto
    then show ?thesis by (blast intro: star_refl)
  qed
  show "erased_step node ?x = Some (Inl f)" if p: "pipe_step y = Some (Inl f)"
    using cs
  proof cases
    case same
    then show ?thesis using p y by (cases t) (auto simp: erased_fire_fault split: if_splits)
  qed (use p tr_transit [OF b(3), of _ _ up down cur] y in auto)
  show "erased_step node ?x = None \<and> flat ?x = y" if p: "pipe_step y = None"
    using cs
  proof cases
    case same
    then show ?thesis using p y by (cases t) (auto split: if_splits)
  qed (use p tr_transit [OF b(3), of _ _ up down cur] y in auto)
qed

lemma tr_start_faults: "tr_sim (up, n, down, cur, AtNode (Start v)) y \<Longrightarrow> pipe_step y = Some (Inl NoSuchMethod)"
proof -
  assume a: "tr_sim (up, n, down, cur, AtNode (Start v)) y"
  then have "is_map (erased_stages up n down ! length up)" "length up < length (erased_stages up n down)"
    using pipeline_is_map [of n up "length up" down] by (auto simp: erased_stages_def)
  then show ?thesis using a by (cases "erased_stages up n down ! length up") (auto simp: fire_def)
qed

lemma tr_laws:
  assumes "tr_sim x y"
  shows "pipe_step y = Some (Inr y') \<Longrightarrow> \<exists>x'. star (\<lambda>a b. erased_step (transformer_node False) a = Some (Inr b)) x x' \<and> tr_sim x' y'"
    and "pipe_step y = Some (Inl f) \<Longrightarrow>
      \<exists>x'. star (\<lambda>a b. erased_step (transformer_node False) a = Some (Inr b)) x x' \<and> erased_step (transformer_node False) x' = Some (Inl f)"
    and "pipe_step y = None \<Longrightarrow>
      \<exists>x'. star (\<lambda>a b. erased_step (transformer_node False) a = Some (Inr b)) x x' \<and> erased_step (transformer_node False) x' = None \<and> flat x' = y"
proof -
  let ?R = "\<lambda>a b. erased_step (transformer_node False) a = Some (Inr b)"
  obtain up n down cur t where x: "x = (up, n, down, cur, t)" by (cases x) auto
  consider (start) v where "t = AtNode (Start v)" "pipe_step y = Some (Inl NoSuchMethod)"
    | (stage) n' t' where "star ?R x (up, n', down, cur, AtStage t')" "tr_sim (up, n', down, cur, AtStage t') y"
    using tr_settle [of up n down cur t y] tr_start_faults [of up n down cur _ y] assms x by blast
  note cs = this
  show "\<exists>x'. star ?R x x' \<and> tr_sim x' y'" if p: "pipe_step y = Some (Inr y')"
    using cs
  proof cases
    case stage
    then show ?thesis using tr_stage_step(1) [OF stage(2) p, of "transformer_node False"] by (meson star_trans)
  qed (use p in simp)
  show "\<exists>x'. star ?R x x' \<and> erased_step (transformer_node False) x' = Some (Inl f)" if p: "pipe_step y = Some (Inl f)"
    using cs
  proof cases
    case start
    then have "erased_step (transformer_node False) x = Some (Inl f)" using p x by simp
    then show ?thesis by (blast intro: star_refl)
  next
    case stage
    then show ?thesis using tr_stage_step(2) [OF stage(2) p] by blast
  qed
  show "\<exists>x'. star ?R x x' \<and> erased_step (transformer_node False) x' = None \<and> flat x' = y" if p: "pipe_step y = None"
    using cs
  proof cases
    case stage
    then show ?thesis using tr_stage_step(3) [OF stage(2) p] by blast
  qed (use p in simp)
qed

interpretation tr: stuttering "transformer_node False" tr_sim
  by unfold_locales (rule tr_laws; assumption)+



section \<open>Where erasure shows\<close>

text \<open>
  \<^verbatim>\<open>HeapTransformer::Body\<close> registers the interrupt with every value, and the \<^verbatim>\<open>Register\<close> of a map, of a flat map and of an \<^verbatim>\<open>Until\<close> over an eventual
  asserts that none was registered before: with assertions, the second value that reaches such a transformer aborts the program.
\<close>

lemma transformer_second_value_asserts:
  assumes "er_interrupt n" "list_ex asserts_unregistered (er_pipeline n)" "er_registered n"
  shows "transformer_node True u (Body v) n = Inl (CheckFailed ''interrupt_ == nullptr'')"
  using assms by (simp add: dispatch_simps Let_def)

lemma transformer_first_value_registers:
  "transformer_node asserts u (Body v) (Erased catches True f) = Inr (\<lparr>er_catches = catches, er_f = f, er_e = Some f, er_interrupt = True, er_registered = True\<rparr>, AtStage (Down u (Body v)))"
  by (simp add: dispatch_simps Erased_def er_pipeline_def Let_def)

text \<open>
  The transformer answers \<^verbatim>\<open>Begin\<close> itself, so its pipeline is never given a stream: a filter in it that drops a value follows the null \<^verbatim>\<open>stream_\<close>.
\<close>

lemma transformer_begin_skips_pipeline: "transformer_node asserts u (Begin p) n = Inr (n, AtStage (Down (u + length (er_pipeline n)) (Begin p)))"
  by (simp add: to_k_def)

lemma transformer_filter_drops:
  assumes "\<not> f v"
  shows "erased_run (transformer_node asserts) 2 (up, Erased catches True [FilterS (Filter f)], down, cur, AtNode (Body v)) = Faulted (NullDeref ''stream_'')"
  using assms by (simp add: eval_nat_numeral dispatch_simps Erased_def er_pipeline_def erased_stages_def erased_fire_def fire_def Filter_def Let_def)

text \<open>Without a registered interrupt \<^verbatim>\<open>Dispatch\<close> dereferences a null pointer.\<close>

lemma generator_unregistered: "generator_node asserts u (Start v) (Erased catches False e) = Inl (NullDeref ''interrupt_'')"
  by (simp add: dispatch_simps Erased_def)

end
