(* ===== verification/Concurrent.thy ===== *)
theory Concurrent
  imports Eventuals_Prelude "HOL-Library.Multiset"
begin

text \<open>
  \<^verbatim>\<open>Concurrent(f)\<close> (\<^verbatim>\<open>concurrent.h\<close>): every value of the upstream stream is handled by a fiber of its own that runs
  \<^verbatim>\<open>Iterate({arg}) >> f()\<close>, and what the fibers emit goes downstream.

  All members of the adaptor are used in \<^verbatim>\<open>Synchronized\<close> sections only, so a step of the model is one section (\<open>Channel_Theorems\<close> shows
  that sections are atomic) or one action between two sections: what the upstream stream answers, the start of a fiber, the end of its
  eventual, the return of its context, a call of downstream. The steps of ingress, egress, the fibers, the waiting for done
  and the interrupt handler interleave freely.

  The behaviour of \<^verbatim>\<open>f()\<close> is the argument \<open>f\<close>: the values its stream emits for an argument and how it completes; a fiber whose interrupt was
  triggered may stop at any time. The callbacks \<^verbatim>\<open>notify_egress_\<close> and \<^verbatim>\<open>notify_done_\<close> wake a \<^verbatim>\<open>Wait\<close> that waits and do
  nothing otherwise; calling one before it was stored is a fault.
\<close>

section \<open>State\<close>

datatype fiber_phase =
    FCreated
  | FRunning "val list" signal
  | FEpilogue signal
  | FLeaving
  | FFree

record cfiber =
  fdone :: bool
  ftriggered :: bool
  fphase :: fiber_phase

datatype ingress_pc = IIdle | IWant | IBody val | IStart nat val | IUpDone | IEpilogue signal | IEnd

datatype egress_pc = EIdle | EWaiting | ECheck | EEnding | EDone | EFinished

datatype wait_pc = WWaiting | WCheck | WFinished

datatype chandler = CNone | CReady | CEarly | CInstalled | CInvoked | CRan

datatype down = DownEnded | DownFail err | DownStop

record conc =
  cvalues :: "val list"
  cfibers :: "cfiber list"
  upstream_done :: bool
  downstream_done :: bool
  fibers_done :: bool
  interrupted :: bool
  stopped_or_error :: "signal option"
  egress_saved :: bool
  next_flag :: bool
  done_flag :: bool
  ingress :: ingress_pc
  egress :: egress_pc
  wait_for_done :: wait_pc
  handler :: chandler
  finished :: "down option"
  pushed :: "val list"
  delivered :: "val list"
  received :: "val list"
  handled :: "val list"
  dropped :: bool
  drained :: bool
  cut_short :: bool

text \<open>The last seven fields record the history and are not read by the steps.\<close>

definition conc_init :: conc where
  "conc_init =
     \<lparr>cvalues = [], cfibers = [], upstream_done = False, downstream_done = False, fibers_done = False, interrupted = False,
      stopped_or_error = None, egress_saved = False, next_flag = False, done_flag = False, ingress = IIdle, egress = EIdle,
      wait_for_done = WWaiting, handler = CNone, finished = None, pushed = [], delivered = [], received = [], handled = [],
      dropped = False, drained = False, cut_short = False\<rparr>"

section \<open>TypeErasedAdaptor\<close>

fun FibersDone :: "cfiber list \<Rightarrow> bool" where
  "FibersDone [] = True"
| "FibersDone (fiber # rest) = (if \<not> fdone fiber then False else FibersDone rest)"

fun InterruptFibers :: "cfiber list \<Rightarrow> cfiber list \<times> bool" where
  "InterruptFibers [] = ([], False)"
| "InterruptFibers (fiber # rest) =
     (let (rest', interrupted) = InterruptFibers rest
      in if \<not> fdone fiber then (fiber\<lparr>ftriggered := True\<rparr> # rest', True) else (fiber # rest', interrupted))"

definition Reuse :: "cfiber \<Rightarrow> cfiber option" where
  "Reuse fiber =
     (if \<not> fdone fiber then None
      else if fphase fiber \<noteq> FFree then None
      else Some \<lparr>fdone = False, ftriggered = False, fphase = FCreated\<rparr>)"

definition CreateFiber :: cfiber where
  "CreateFiber = \<lparr>fdone = False, ftriggered = False, fphase = FCreated\<rparr>"

fun create_or_reuse :: "cfiber list \<Rightarrow> cfiber list \<times> nat" where
  "create_or_reuse [] = ([CreateFiber], 0)"
| "create_or_reuse (fiber # rest) =
     (case Reuse fiber of
        Some fiber' \<Rightarrow> (fiber' # rest, 0)
      | None \<Rightarrow> (let (rest', i) = create_or_reuse rest in (fiber # rest', Suc i)))"

definition notify_egress :: "conc \<Rightarrow> conc res" where
  "notify_egress s =
     (if \<not> egress_saved s then Inl (NullDeref ''notify_egress_'')
      else Inr (if egress s = EWaiting then s\<lparr>egress := ECheck\<rparr> else s))"

definition notify_done :: "conc \<Rightarrow> conc res" where
  "notify_done s = Inr (if wait_for_done s = WWaiting then s\<lparr>wait_for_done := WCheck\<rparr> else s)"

definition notify_both_if :: "bool \<Rightarrow> conc \<Rightarrow> conc res" where
  "notify_both_if b s = (if b then rbind (notify_egress s) notify_done else Inr s)"

definition CreateOrReuseFiber :: "val \<Rightarrow> conc \<Rightarrow> conc" where
  "CreateOrReuseFiber arg s =
     (if \<not> (downstream_done s \<or> interrupted s \<or> stopped_or_error s \<noteq> None)
      then let (fs, i) = create_or_reuse (cfibers s)
           in s\<lparr>cfibers := fs, fibers_done := False, ingress := IStart i arg, handled := handled s @ [arg]\<rparr>
      else s\<lparr>ingress := IUpDone, dropped := True\<rparr>)"

definition record_error :: "signal \<Rightarrow> conc \<Rightarrow> conc" where
  "record_error sg s =
     (case sg of
        Started _ \<Rightarrow> s
      | _ \<Rightarrow> if stopped_or_error s = None then s\<lparr>stopped_or_error := Some sg\<rparr> else s)"

definition IngressEpilogue :: "signal \<Rightarrow> conc \<Rightarrow> conc res" where
  "IngressEpilogue sg s =
     (let s1 = record_error sg (s\<lparr>upstream_done := True, ingress := IEnd\<rparr>);
          s2 = s1\<lparr>fibers_done := FibersDone (cfibers s1)\<rparr>
      in notify_both_if (fibers_done s2) s2)"

definition set_fiber :: "nat \<Rightarrow> (cfiber \<Rightarrow> cfiber) \<Rightarrow> conc \<Rightarrow> conc" where
  "set_fiber i g s = s\<lparr>cfibers := (cfibers s)[i := g (cfibers s ! i)]\<rparr>"

definition interrupt_fibers :: "conc \<Rightarrow> conc" where
  "interrupt_fibers s = (let (fs, i) = InterruptFibers (cfibers s) in s\<lparr>cfibers := fs, fibers_done := \<not> i\<rparr>)"

definition FiberEpilogue :: "nat \<Rightarrow> signal \<Rightarrow> conc \<Rightarrow> conc res" where
  "FiberEpilogue i sg s =
     (let s1 = record_error sg (set_fiber i (\<lambda>fiber. fiber\<lparr>fdone := True, fphase := FLeaving\<rparr>) s);
          s2 = (case sg of
                  Started _ \<Rightarrow> s1\<lparr>fibers_done := FibersDone (cfibers s1)\<rparr>
                | _ \<Rightarrow> interrupt_fibers s1)
      in notify_both_if (upstream_done s2 \<and> fibers_done s2) s2)"

definition adaptor_Interrupt :: "conc \<Rightarrow> conc res" where
  "adaptor_Interrupt s = (let s1 = interrupt_fibers (s\<lparr>interrupted := True\<rparr>) in notify_both_if (upstream_done s1 \<and> fibers_done s1) s1)"

definition WaitForDone :: "conc \<Rightarrow> conc" where
  "WaitForDone s =
     (if \<not> downstream_done s \<or> \<not> upstream_done s \<or> \<not> fibers_done s then s\<lparr>wait_for_done := WWaiting\<rparr>
      else s\<lparr>wait_for_done := WFinished, finished := Some DownEnded\<rparr>)"

definition adaptor_Done :: "conc \<Rightarrow> conc res" where
  "adaptor_Done s =
     (let s1 = interrupt_fibers (s\<lparr>downstream_done := True\<rparr>)
      in if upstream_done s1 \<and> fibers_done s1 then notify_done s1 else Inr s1)"

section \<open>Adaptor\<close>

definition push_value :: "nat \<Rightarrow> val \<Rightarrow> conc \<Rightarrow> conc res" where
  "push_value i v s = notify_egress (s\<lparr>cvalues := cvalues s @ [v], pushed := pushed s @ [v]\<rparr>)"

definition StartFiber :: "(val \<Rightarrow> val list \<times> signal) \<Rightarrow> nat \<Rightarrow> val \<Rightarrow> conc \<Rightarrow> conc" where
  "StartFiber f i arg s =
     (set_fiber i (\<lambda>fiber. fiber\<lparr>fphase := (case f arg of (vs, sg) \<Rightarrow> FRunning vs sg)\<rparr>) s)\<lparr>ingress := IWant\<rparr>"

definition egress_deliver :: "conc \<Rightarrow> conc res" where
  "egress_deliver s =
     (if stopped_or_error s \<noteq> None \<and> upstream_done s \<and> fibers_done s
      then Inr (s\<lparr>egress := EFinished,
                  finished := Some (case stopped_or_error s of Some (Failed e) \<Rightarrow> DownFail e | _ \<Rightarrow> DownStop)\<rparr>)
      else case cvalues s of
             value # rest \<Rightarrow> Inr (s\<lparr>cvalues := rest, delivered := delivered s @ [value], egress := EIdle\<rparr>)
           | [] \<Rightarrow> check (upstream_done s \<and> fibers_done s) ''upstream_done_ && fibers_done_''
                     (Inr (s\<lparr>egress := EEnding, drained := True\<rparr>)))"

definition Egress :: "conc \<Rightarrow> conc res" where
  "Egress s =
     (let s1 = s\<lparr>egress_saved := True\<rparr>
      in if (if cvalues s1 = [] then \<not> (upstream_done s1 \<and> fibers_done s1) else False)
         then Inr (s1\<lparr>egress := EWaiting\<rparr>) else egress_deliver s1)"

section \<open>Continuation and the other parties\<close>

definition conc_Next :: "conc \<Rightarrow> conc res" where
  "conc_Next s =
     rbind (Egress s) (\<lambda>s1.
       Inr (if \<not> next_flag s1 then s1\<lparr>next_flag := True, ingress := IWant\<rparr> else s1))"

definition conc_Done :: "conc \<Rightarrow> conc res" where
  "conc_Done s = check (\<not> done_flag s) ''!done_'' (adaptor_Done (s\<lparr>done_flag := True, egress := EDone\<rparr>))"

text \<open>
  \<^verbatim>\<open>Register\<close> creates the interrupt handler, and the first \<^verbatim>\<open>Body\<close> installs it, or executes it when the interrupt has been triggered before. The
  handler's callback is moved out when it is invoked, and \<^verbatim>\<open>InstallOrExecuteIfTriggered\<close> checks that it is there. The state that call returns is
  compared as a boolean, so that the value always goes to ingress.
\<close>

definition conc_Register :: "conc \<Rightarrow> conc" where
  "conc_Register s = (if handler s = CNone then s\<lparr>handler := CReady\<rparr> else s)"

definition conc_trigger :: "conc \<Rightarrow> conc" where
  "conc_trigger s =
     s\<lparr>handler := (case handler s of CReady \<Rightarrow> CEarly | CInstalled \<Rightarrow> CInvoked | h \<Rightarrow> h)\<rparr>"

definition InstallOrExecuteIfTriggered :: "conc \<Rightarrow> conc res" where
  "InstallOrExecuteIfTriggered s =
     check (handler s \<noteq> CInvoked \<and> handler s \<noteq> CRan) ''callback_''
       (Inr (s\<lparr>handler := (case handler s of CReady \<Rightarrow> CInstalled | CEarly \<Rightarrow> CInvoked | h \<Rightarrow> h)\<rparr>))"

definition conc_Body :: "val \<Rightarrow> conc \<Rightarrow> conc res" where
  "conc_Body v s =
     rbind (if handler s = CNone then Inr s else InstallOrExecuteIfTriggered s)
       (\<lambda>s1. Inr (s1\<lparr>ingress := IBody v, received := received s1 @ [v]\<rparr>))"

datatype cact =
    DownNext | DownDone | EgressStep | WaitStep
  | UpBody val | UpEnd signal
  | IngressStep
  | FiberPush nat | FiberEnd nat | FiberStopped nat | FiberStep nat | FiberLeave nat
  | RegisterStep | TriggerStep | InterruptStep

definition ingress_step :: "(val \<Rightarrow> val list \<times> signal) \<Rightarrow> conc \<Rightarrow> conc res" where
  "ingress_step f s =
     (case ingress s of
        IBody arg \<Rightarrow> Inr (CreateOrReuseFiber arg s)
      | IStart i arg \<Rightarrow> Inr (StartFiber f i arg s)
      | IEpilogue sg \<Rightarrow> IngressEpilogue sg s
      | _ \<Rightarrow> Inr s)"

definition fiber_push :: "nat \<Rightarrow> conc \<Rightarrow> conc res" where
  "fiber_push i s =
     (case fphase (cfibers s ! i) of
        FRunning (v # vs) sg \<Rightarrow> push_value i v (set_fiber i (\<lambda>fiber. fiber\<lparr>fphase := FRunning vs sg\<rparr>) s)
      | _ \<Rightarrow> Inr s)"

definition fiber_end :: "nat \<Rightarrow> conc \<Rightarrow> conc" where
  "fiber_end i s =
     (case fphase (cfibers s ! i) of
        FRunning [] sg \<Rightarrow> set_fiber i (\<lambda>fiber. fiber\<lparr>fphase := FEpilogue sg\<rparr>) s
      | _ \<Rightarrow> s)"

definition fiber_stopped :: "nat \<Rightarrow> conc \<Rightarrow> conc" where
  "fiber_stopped i s =
     (case fphase (cfibers s ! i) of
        FRunning vs sg \<Rightarrow>
          (if ftriggered (cfibers s ! i)
           then (set_fiber i (\<lambda>fiber. fiber\<lparr>fphase := FEpilogue Stopped\<rparr>) s)\<lparr>cut_short := True\<rparr> else s)
      | _ \<Rightarrow> s)"

definition fiber_epilogue_step :: "nat \<Rightarrow> conc \<Rightarrow> conc res" where
  "fiber_epilogue_step i s = (case fphase (cfibers s ! i) of FEpilogue sg \<Rightarrow> FiberEpilogue i sg s | _ \<Rightarrow> Inr s)"

definition fiber_leave :: "nat \<Rightarrow> conc \<Rightarrow> conc" where
  "fiber_leave i s =
     (if fphase (cfibers s ! i) = FLeaving then set_fiber i (\<lambda>fiber. fiber\<lparr>fphase := FFree\<rparr>) s else s)"

definition up_end :: "signal \<Rightarrow> conc \<Rightarrow> conc" where
  "up_end sg s = (if ingress s = IWant \<or> ingress s = IUpDone then s\<lparr>ingress := IEpilogue sg\<rparr> else s)"

fun conc_step :: "(val \<Rightarrow> val list \<times> signal) \<Rightarrow> cact \<Rightarrow> conc \<Rightarrow> conc res" where
  "conc_step f DownNext s = (if egress s = EIdle then conc_Next s else Inr s)"
| "conc_step f DownDone s = (if egress s = EIdle \<or> egress s = EEnding then conc_Done s else Inr s)"
| "conc_step f EgressStep s = (if egress s = ECheck then Egress s else Inr s)"
| "conc_step f WaitStep s = Inr (if wait_for_done s = WCheck then WaitForDone s else s)"
| "conc_step f (UpBody v) s = (if ingress s = IWant then conc_Body v s else Inr s)"
| "conc_step f (UpEnd sg) s = Inr (up_end sg s)"
| "conc_step f IngressStep s = ingress_step f s"
| "conc_step f (FiberPush i) s = (if i < length (cfibers s) then fiber_push i s else Inr s)"
| "conc_step f (FiberEnd i) s = Inr (if i < length (cfibers s) then fiber_end i s else s)"
| "conc_step f (FiberStopped i) s = Inr (if i < length (cfibers s) then fiber_stopped i s else s)"
| "conc_step f (FiberStep i) s = (if i < length (cfibers s) then fiber_epilogue_step i s else Inr s)"
| "conc_step f (FiberLeave i) s = Inr (if i < length (cfibers s) then fiber_leave i s else s)"
| "conc_step f RegisterStep s = Inr (if ingress s = IIdle then conc_Register s else s)"
| "conc_step f TriggerStep s = Inr (conc_trigger s)"
| "conc_step f InterruptStep s = (if handler s = CInvoked then adaptor_Interrupt (s\<lparr>handler := CRan\<rparr>) else Inr s)"

inductive conc_reach :: "(val \<Rightarrow> val list \<times> signal) \<Rightarrow> conc \<Rightarrow> bool" for f where
  conc_start: "conc_reach f conc_init"
| conc_next: "conc_reach f s \<Longrightarrow> conc_step f a s = Inr s' \<Longrightarrow> conc_reach f s'"

fun conc_run :: "(val \<Rightarrow> val list \<times> signal) \<Rightarrow> cact list \<Rightarrow> conc \<Rightarrow> conc res" where
  "conc_run f [] s = Inr s"
| "conc_run f (a # as) s = rbind (conc_step f a s) (conc_run f as)"

lemma conc_run_reach: "conc_reach f s \<Longrightarrow> conc_run f as s = Inr s' \<Longrightarrow> conc_reach f s'"
  by (induction as arbitrary: s) (auto intro: conc_next)

end
