(* ===== verification/Concurrent_Theorems.thy ===== *)
theory Concurrent_Theorems
  imports Concurrent
begin

text \<open>
  Properties of \<^verbatim>\<open>Concurrent\<close>: in every interleaving the values of the fibers reach downstream once each, the stream ends or
  fails only when everything is finished, no wakeup is lost, and no assertion fails.
\<close>

section \<open>The adaptor's loops\<close>

lemma FibersDone_iff: "FibersDone fs \<longleftrightarrow> (\<forall>fb\<in>set fs. fdone fb)"
  by (induction fs) auto

definition triggered :: "cfiber \<Rightarrow> cfiber" where
  "triggered fb = (if fdone fb then fb else fb\<lparr>ftriggered := True\<rparr>)"

lemma triggered_simps [simp]: "fdone (triggered fb) = fdone fb" "fphase (triggered fb) = fphase fb"
  by (simp_all add: triggered_def)

lemma InterruptFibers_eq: "InterruptFibers fs = (map triggered fs, \<not> FibersDone fs)"
  by (induction fs) (auto simp: triggered_def split: prod.splits)

lemma interrupt_fibers_eq:
  "interrupt_fibers s = s\<lparr>cfibers := map triggered (cfibers s), fibers_done := FibersDone (cfibers s)\<rparr>"
  by (simp add: interrupt_fibers_def InterruptFibers_eq)

lemma create_or_reuse_cases:
  assumes "create_or_reuse fs = (fs', i)"
  shows "i < length fs \<and> fs' = fs[i := CreateFiber] \<and> fdone (fs ! i) \<and> fphase (fs ! i) = FFree \<or>
         i = length fs \<and> fs' = fs @ [CreateFiber]"
  using assms
proof (induction fs arbitrary: fs' i)
  case (Cons fb fs)
  then show ?case
    by (auto simp: Reuse_def CreateFiber_def split: option.splits prod.splits if_splits)
qed simp

section \<open>Values a fiber has yet to emit\<close>

fun phase_todo :: "fiber_phase \<Rightarrow> val multiset" where
  "phase_todo (FRunning vs sg) = mset vs"
| "phase_todo _ = {#}"

definition fibers_todo :: "cfiber list \<Rightarrow> val multiset" where
  "fibers_todo fs = sum_list (map (phase_todo \<circ> fphase) fs)"

lemma fibers_todo_simps [simp]:
  "fibers_todo [] = {#}" "fibers_todo (fb # fs) = phase_todo (fphase fb) + fibers_todo fs"
  "fibers_todo (fs @ gs) = fibers_todo fs + fibers_todo gs" "fibers_todo (map triggered fs) = fibers_todo fs"
  by (simp_all add: fibers_todo_def comp_def)

lemma fibers_todo_done:
  "(\<And>fb. fb \<in> set fs \<Longrightarrow> fphase fb = FLeaving \<or> fphase fb = FFree) \<Longrightarrow> fibers_todo fs = {#}"
proof (induction fs)
  case (Cons fb fs)
  have "phase_todo (fphase fb) = {#}" using Cons.prems[of fb] by auto
  moreover have "fibers_todo fs = {#}" using Cons.prems by (intro Cons.IH) simp
  ultimately show ?case by simp
qed simp

lemma fibers_todo_update:
  "i < length fs \<Longrightarrow> fibers_todo (fs[i := fb]) + phase_todo (fphase (fs ! i)) = fibers_todo fs + phase_todo (fphase fb)"
proof (induction fs arbitrary: i)
  case (Cons a fs)
  then show ?case by (cases i) (auto simp: ac_simps)
qed simp

section \<open>Waking\<close>

definition wake :: "bool \<Rightarrow> conc \<Rightarrow> conc" where
  "wake b s =
     (if b then s\<lparr>egress := (if egress s = EWaiting then ECheck else egress s),
                 wait_for_done := (if wait_for_done s = WWaiting then WCheck else wait_for_done s)\<rparr> else s)"

lemma notify_both_if_eq: "b \<longrightarrow> egress_saved s \<Longrightarrow> notify_both_if b s = Inr (wake b s)"
  by (auto simp: notify_both_if_def notify_egress_def notify_done_def wake_def)

section \<open>The invariant\<close>

definition fiber_inv :: "cfiber \<Rightarrow> bool" where
  "fiber_inv fb \<longleftrightarrow> (fdone fb \<longleftrightarrow> fphase fb = FLeaving \<or> fphase fb = FFree)"

definition flags_inv :: "conc \<Rightarrow> bool" where
  "flags_inv s \<longleftrightarrow>
     (\<forall>fb\<in>set (cfibers s). fiber_inv fb) \<and>
     (upstream_done s \<longleftrightarrow> ingress s = IEnd) \<and> (fibers_done s \<longrightarrow> FibersDone (cfibers s)) \<and>
     (upstream_done s \<longrightarrow> (fibers_done s \<longleftrightarrow> FibersDone (cfibers s))) \<and>
     (next_flag s \<longleftrightarrow> ingress s \<noteq> IIdle) \<and> (ingress s \<noteq> IIdle \<longrightarrow> egress_saved s) \<and> (cfibers s \<noteq> [] \<longrightarrow> ingress s \<noteq> IIdle) \<and>
     (\<forall>i arg. ingress s = IStart i arg \<longrightarrow> i < length (cfibers s) \<and> fphase (cfibers s ! i) = FCreated) \<and>
     (done_flag s \<longrightarrow> egress s = EDone) \<and> (downstream_done s \<longrightarrow> egress s = EDone)"

definition waits_inv :: "conc \<Rightarrow> bool" where
  "waits_inv s \<longleftrightarrow>
     (egress s = EWaiting \<longrightarrow> cvalues s = [] \<and> \<not> (upstream_done s \<and> fibers_done s)) \<and>
     (wait_for_done s = WWaiting \<longrightarrow> \<not> downstream_done s \<or> \<not> upstream_done s \<or> \<not> fibers_done s)"

fun starting :: "(val \<Rightarrow> val list \<times> signal) \<Rightarrow> ingress_pc \<Rightarrow> val multiset" where
  "starting f (IStart i arg) = mset (fst (f arg))"
| "starting f _ = {#}"

definition values_inv :: "(val \<Rightarrow> val list \<times> signal) \<Rightarrow> conc \<Rightarrow> bool" where
  "values_inv f s \<longleftrightarrow>
     delivered s @ cvalues s = pushed s \<and>
     (dropped s \<or> received s = handled s @ (case ingress s of IBody v \<Rightarrow> [v] | _ \<Rightarrow> [])) \<and>
     (cut_short s \<or>
        mset (pushed s) + fibers_todo (cfibers s) + starting f (ingress s) =
        mset (concat (map (fst \<circ> f) (handled s))))"

fun finish_ok :: "down option \<Rightarrow> signal option \<Rightarrow> bool \<Rightarrow> bool \<Rightarrow> bool" where
  "finish_ok None soe cancelled all_done = True"
| "finish_ok (Some DownEnded) soe cancelled all_done = (cancelled \<and> all_done)"
| "finish_ok (Some (DownFail e)) soe cancelled all_done = (soe = Some (Failed e) \<and> all_done)"
| "finish_ok (Some DownStop) soe cancelled all_done = (soe = Some Stopped \<and> all_done)"

lemma finish_ok_running: "finish_ok fin soe c False \<longleftrightarrow> fin = None"
  by (cases fin rule: option.exhaust[case_names None Some]) (simp, rename_tac d, case_tac d, simp_all)

definition ends_inv :: "conc \<Rightarrow> bool" where
  "ends_inv s \<longleftrightarrow>
     (\<forall>v. stopped_or_error s \<noteq> Some (Started v)) \<and>
     (cut_short s \<longrightarrow> stopped_or_error s \<noteq> None \<or> (\<exists>fb\<in>set (cfibers s). fphase fb = FEpilogue Stopped)) \<and>
     (dropped s \<longrightarrow> interrupted s \<or> stopped_or_error s \<noteq> None \<or> downstream_done s \<and> \<not> drained s) \<and>
     (drained s \<longrightarrow> stopped_or_error s = None \<and> upstream_done s \<and> fibers_done s \<and> cvalues s = []) \<and>
     finish_ok (finished s) (stopped_or_error s) (downstream_done s) (upstream_done s \<and> fibers_done s)"

definition conc_inv :: "(val \<Rightarrow> val list \<times> signal) \<Rightarrow> conc \<Rightarrow> bool" where
  "conc_inv f s \<longleftrightarrow> flags_inv s \<and> waits_inv s \<and> values_inv f s \<and> ends_inv s"

lemmas inv_defs = conc_inv_def flags_inv_def waits_inv_def values_inv_def ends_inv_def

lemma conc_invD: "conc_inv f s \<Longrightarrow> flags_inv s" "conc_inv f s \<Longrightarrow> waits_inv s" "conc_inv f s \<Longrightarrow> values_inv f s" "conc_inv f s \<Longrightarrow> ends_inv s"
  by (simp_all add: conc_inv_def)

lemma conc_inv_init: "conc_inv f conc_init"
  by (simp add: inv_defs conc_init_def)

section \<open>Steps of a fiber\<close>

lemma FibersDone_update:
  assumes "i < length fs" "fdone fb = fdone (fs ! i)"
  shows "FibersDone (fs[i := fb]) = FibersDone fs"
  using assms by (induction fs arbitrary: i) (auto split: nat.splits)

lemma FibersDone_triggered [simp]: "FibersDone (map triggered fs) = FibersDone fs"
  by (simp add: FibersDone_iff)

lemma fiber_not_done:
  assumes "flags_inv s" "i < length (cfibers s)" "fphase (cfibers s ! i) \<noteq> FLeaving" "fphase (cfibers s ! i) \<noteq> FFree"
  shows "\<not> fdone (cfibers s ! i)" "\<not> FibersDone (cfibers s)" "\<not> fibers_done s" "egress_saved s"
proof -
  have i: "cfibers s ! i \<in> set (cfibers s)" using assms(2) by simp
  then show d: "\<not> fdone (cfibers s ! i)" using assms(1,3,4) by (auto simp: flags_inv_def fiber_inv_def)
  then show "\<not> FibersDone (cfibers s)" using i by (auto simp: FibersDone_iff)
  then show "\<not> fibers_done s" using assms(1) by (auto simp: flags_inv_def)
  show "egress_saved s" using assms(1) i by (auto simp: flags_inv_def)
qed

lemma flags_inv_phase:
  assumes "flags_inv s" "i < length (cfibers s)" "fphase (cfibers s ! i) \<noteq> FCreated"
    and "fdone fb = fdone (cfibers s ! i)" "fiber_inv fb"
  shows "flags_inv (s\<lparr>cfibers := (cfibers s)[i := fb]\<rparr>)"
proof -
  have "fiber_inv x" if "x \<in> set ((cfibers s)[i := fb])" for x
    using that assms(1,5) set_update_subset_insert[of "cfibers s" i fb] by (auto simp: flags_inv_def)
  moreover have "fphase ((cfibers s)[i := fb] ! j) = FCreated" if "ingress s = IStart j arg" for j arg
    using assms(1,3) that by (cases "i = j") (auto simp: flags_inv_def)
  ultimately show ?thesis
    using assms by (simp add: flags_inv_def FibersDone_update)
qed

lemma inv_fiber_push:
  assumes "conc_inv f s" "i < length (cfibers s)"
  shows "\<exists>s'. fiber_push i s = Inr s' \<and> conc_inv f s'"
proof (cases "fphase (cfibers s ! i)")
  case (FRunning vs sg)
  show ?thesis
  proof (cases vs)
    case Nil
    then show ?thesis using FRunning assms by (simp add: fiber_push_def)
  next
    case (Cons v rest)
    let ?fb = "(cfibers s ! i)\<lparr>fphase := FRunning rest sg\<rparr>"
    let ?s = "s\<lparr>cfibers := (cfibers s)[i := ?fb]\<rparr>"
    let ?r = "?s\<lparr>cvalues := cvalues s @ [v], pushed := pushed s @ [v], egress := (if egress s = EWaiting then ECheck else egress s)\<rparr>"
    have fl: "flags_inv s" using assms(1) by (simp add: conc_inv_def)
    note nd = fiber_not_done[OF fl assms(2)]
    have "fiber_push i s = Inr ?r"
      using FRunning Cons nd(4) by (simp add: fiber_push_def push_value_def notify_egress_def set_fiber_def)
    moreover have "flags_inv ?s"
      using FRunning nd(1) by (intro flags_inv_phase[OF fl assms(2)]) (auto simp: fiber_inv_def)
    then have "flags_inv ?r" by (auto simp: flags_inv_def)
    moreover have "waits_inv ?r" using assms(1) by (auto simp: inv_defs)
    moreover have "values_inv f ?r"
    proof -
      have "fibers_todo (cfibers s) = add_mset v (fibers_todo ((cfibers s)[i := ?fb]))"
        using fibers_todo_update[OF assms(2), of ?fb] FRunning Cons by simp
      then show ?thesis using assms(1) by (simp add: conc_inv_def values_inv_def)
    qed
    moreover have "ends_inv ?r"
    proof -
      have "fphase fb = FEpilogue Stopped \<Longrightarrow> fb \<in> set (cfibers s) \<Longrightarrow> fb \<in> set ((cfibers s)[i := ?fb])" for fb
        using FRunning by (metis in_set_conv_nth length_list_update nth_list_update_neq fiber_phase.distinct(9))
      then show ?thesis
        using assms(1) nd(3) FRunning by (auto simp: conc_inv_def ends_inv_def)
    qed
    ultimately show ?thesis by (simp add: conc_inv_def)
  qed
qed (use assms in \<open>simp_all add: fiber_push_def\<close>)

lemma epilogue_kept:
  "fphase (fs ! i) \<noteq> FEpilogue Stopped \<Longrightarrow> \<exists>fb\<in>set fs. fphase fb = FEpilogue Stopped \<Longrightarrow>
   \<exists>fb\<in>set (fs[i := x]). fphase fb = FEpilogue Stopped"
  by (metis in_set_conv_nth length_list_update nth_list_update_neq)

lemma inv_fiber_end:
  assumes "conc_inv f s" "i < length (cfibers s)"
  shows "conc_inv f (fiber_end i s)"
proof (cases "\<exists>sg. fphase (cfibers s ! i) = FRunning [] sg")
  case True
  then obtain sg where p: "fphase (cfibers s ! i) = FRunning [] sg" by blast
  let ?fb = "(cfibers s ! i)\<lparr>fphase := FEpilogue sg\<rparr>"
  let ?s = "s\<lparr>cfibers := (cfibers s)[i := ?fb]\<rparr>"
  have fl: "flags_inv s" using assms(1) by (simp add: conc_inv_def)
  note nd = fiber_not_done[OF fl assms(2)]
  have "flags_inv ?s" using p nd(1) by (intro flags_inv_phase[OF fl assms(2)]) (auto simp: fiber_inv_def)
  moreover have "values_inv f ?s"
    using assms(1) fibers_todo_update[OF assms(2), of ?fb] p by (simp add: conc_inv_def values_inv_def)
  moreover have "ends_inv ?s"
    using assms(1) epilogue_kept[of "cfibers s" i ?fb] p by (auto simp: conc_inv_def ends_inv_def)
  moreover have "waits_inv ?s" using assms(1) by (simp add: conc_inv_def waits_inv_def)
  ultimately show ?thesis using p by (simp add: fiber_end_def set_fiber_def conc_inv_def)
next
  case False
  then have "fiber_end i s = s" by (auto simp: fiber_end_def split: fiber_phase.splits list.splits)
  then show ?thesis using assms(1) by simp
qed

lemma inv_fiber_stopped:
  assumes "conc_inv f s" "i < length (cfibers s)"
  shows "conc_inv f (fiber_stopped i s)"
proof (cases "\<exists>vs sg. fphase (cfibers s ! i) = FRunning vs sg \<and> ftriggered (cfibers s ! i)")
  case True
  then obtain vs sg where p: "fphase (cfibers s ! i) = FRunning vs sg" "ftriggered (cfibers s ! i)" by blast
  let ?fb = "(cfibers s ! i)\<lparr>fphase := FEpilogue Stopped\<rparr>"
  let ?s = "s\<lparr>cfibers := (cfibers s)[i := ?fb]\<rparr>"
  have fl: "flags_inv s" using assms(1) by (simp add: conc_inv_def)
  note nd = fiber_not_done[OF fl assms(2)]
  have "flags_inv ?s" using p nd(1) by (intro flags_inv_phase[OF fl assms(2)]) (auto simp: fiber_inv_def)
  then have "flags_inv (?s\<lparr>cut_short := True\<rparr>)" by (simp add: flags_inv_def)
  moreover have "?fb \<in> set ((cfibers s)[i := ?fb])" using assms(2) by (rule set_update_memI)
  then have "\<exists>fb\<in>set ((cfibers s)[i := ?fb]). fphase fb = FEpilogue Stopped" by (rule rev_bexI) simp
  then have "ends_inv (?s\<lparr>cut_short := True\<rparr>)" using assms(1) by (simp add: conc_inv_def ends_inv_def)
  ultimately show ?thesis
    using p assms(1) by (simp add: fiber_stopped_def set_fiber_def conc_inv_def waits_inv_def values_inv_def)
next
  case False
  then have "fiber_stopped i s = s" by (auto simp: fiber_stopped_def split: fiber_phase.splits)
  then show ?thesis using assms(1) by simp
qed

lemma inv_fiber_leave:
  assumes "conc_inv f s" "i < length (cfibers s)"
  shows "conc_inv f (fiber_leave i s)"
proof (cases "fphase (cfibers s ! i) = FLeaving")
  case True
  let ?fb = "(cfibers s ! i)\<lparr>fphase := FFree\<rparr>"
  let ?s = "s\<lparr>cfibers := (cfibers s)[i := ?fb]\<rparr>"
  have fl: "flags_inv s" using assms(1) by (simp add: conc_inv_def)
  have "fdone (cfibers s ! i)" using fl assms(2) True by (auto simp: flags_inv_def fiber_inv_def)
  then have "flags_inv ?s" using True by (intro flags_inv_phase[OF fl assms(2)]) (auto simp: fiber_inv_def)
  moreover have "values_inv f ?s"
    using assms(1) fibers_todo_update[OF assms(2), of ?fb] True by (simp add: conc_inv_def values_inv_def)
  moreover have "ends_inv ?s"
    using assms(1) epilogue_kept[of "cfibers s" i ?fb] True by (auto simp: conc_inv_def ends_inv_def)
  moreover have "waits_inv ?s" using assms(1) by (simp add: conc_inv_def waits_inv_def)
  ultimately show ?thesis using True by (simp add: fiber_leave_def set_fiber_def conc_inv_def)
qed (use assms in \<open>simp add: fiber_leave_def\<close>)

text \<open>The end of a section that has recomputed \<^verbatim>\<open>fibers_done_\<close> and notifies both waiters when everything is done.\<close>

lemma inv_wake:
  assumes "flags_inv s" "values_inv f s" "ends_inv s" "egress s = EWaiting \<Longrightarrow> cvalues s = []"
  shows "\<exists>s'. notify_both_if (upstream_done s \<and> fibers_done s) s = Inr s' \<and> conc_inv f s'"
proof -
  have "upstream_done s \<and> fibers_done s \<longrightarrow> egress_saved s" using assms(1) by (auto simp: flags_inv_def)
  note eq = notify_both_if_eq[OF this]
  let ?s = "wake (upstream_done s \<and> fibers_done s) s"
  have "flags_inv ?s" using assms(1) by (auto simp: wake_def flags_inv_def)
  moreover have "values_inv f ?s" using assms(2) by (simp add: wake_def values_inv_def)
  moreover have "ends_inv ?s" using assms(3) by (auto simp: wake_def ends_inv_def)
  moreover have "waits_inv ?s" using assms(4) by (auto simp: wake_def waits_inv_def)
  ultimately show ?thesis using eq by (simp add: conc_inv_def)
qed

lemma record_error_simps [simp]:
  "cfibers (record_error sg s) = cfibers s" "upstream_done (record_error sg s) = upstream_done s"
  "downstream_done (record_error sg s) = downstream_done s" "fibers_done (record_error sg s) = fibers_done s"
  "interrupted (record_error sg s) = interrupted s" "cvalues (record_error sg s) = cvalues s"
  "egress_saved (record_error sg s) = egress_saved s" "next_flag (record_error sg s) = next_flag s"
  "done_flag (record_error sg s) = done_flag s" "ingress (record_error sg s) = ingress s" "egress (record_error sg s) = egress s"
  "wait_for_done (record_error sg s) = wait_for_done s" "finished (record_error sg s) = finished s"
  "pushed (record_error sg s) = pushed s" "delivered (record_error sg s) = delivered s" "handled (record_error sg s) = handled s"
  "received (record_error sg s) = received s" "dropped (record_error sg s) = dropped s" "drained (record_error sg s) = drained s" "cut_short (record_error sg s) = cut_short s"
  by (cases sg; simp add: record_error_def)+

lemma record_error_soe:
  "stopped_or_error (record_error sg s) =
     (case stopped_or_error s of Some x \<Rightarrow> Some x | None \<Rightarrow> (case sg of Started _ \<Rightarrow> None | _ \<Rightarrow> Some sg))"
  by (cases sg; cases "stopped_or_error s") (simp_all add: record_error_def)

lemma inv_fiber_epilogue:
  assumes "conc_inv f s" "i < length (cfibers s)" "fphase (cfibers s ! i) = FEpilogue sg"
  shows "\<exists>s'. FiberEpilogue i sg s = Inr s' \<and> conc_inv f s'"
proof -
  let ?fb = "(cfibers s ! i)\<lparr>fdone := True, fphase := FLeaving\<rparr>"
  let ?fs = "(cfibers s)[i := ?fb]"
  define fs where "fs = (case sg of Started _ \<Rightarrow> ?fs | _ \<Rightarrow> map triggered ?fs)"
  define s2 where "s2 = (record_error sg (s\<lparr>cfibers := ?fs\<rparr>))\<lparr>cfibers := fs, fibers_done := FibersDone fs\<rparr>"
  have eq: "FiberEpilogue i sg s = notify_both_if (upstream_done s2 \<and> fibers_done s2) s2"
    by (cases sg) (simp_all add: FiberEpilogue_def set_fiber_def s2_def fs_def Let_def interrupt_fibers_eq record_error_def)
  have fl: "flags_inv s" and v: "values_inv f s" and e: "ends_inv s" and w: "waits_inv s"
    using assms(1) by (simp_all add: conc_inv_def)
  note nd = fiber_not_done[OF fl assms(2)]
  have fsx: "\<exists>y\<in>set ?fs. fphase x = fphase y \<and> fdone x = fdone y" if "x \<in> set fs" for x
    using that by (cases sg) (auto simp: fs_def)
  have "fiber_inv x" if x: "x \<in> set fs" for x
  proof -
    obtain y where y: "y \<in> set ?fs" "fphase x = fphase y" "fdone x = fdone y" using fsx[OF x] by blast
    then have "fiber_inv y"
      using fl set_update_subset_insert[of "cfibers s" i ?fb] by (auto simp: flags_inv_def fiber_inv_def)
    then show ?thesis using y by (simp add: fiber_inv_def)
  qed
  moreover have "length fs = length (cfibers s)" by (cases sg) (simp_all add: fs_def)
  moreover have "fphase (fs ! j) = FCreated" if "ingress s = IStart j arg" for j arg
  proof -
    have j: "j < length (cfibers s)" "fphase (cfibers s ! j) = FCreated" using fl that by (auto simp: flags_inv_def)
    then have "j \<noteq> i" using assms(3) by auto
    then have "fphase (?fs ! j) = FCreated" using j by simp
    then show ?thesis using j by (cases sg) (simp_all add: fs_def)
  qed
  moreover have "cfibers s \<noteq> []" using assms(2) by auto
  ultimately have "flags_inv s2"
    using fl by (auto simp: flags_inv_def s2_def)
  moreover have "fibers_todo fs = fibers_todo (cfibers s)"
  proof -
    have "fibers_todo ?fs = fibers_todo (cfibers s)"
      using fibers_todo_update[OF assms(2), of ?fb] assms(3) by simp
    then show ?thesis by (cases sg) (simp_all add: fs_def)
  qed
  then have "values_inv f s2" using v by (simp add: values_inv_def s2_def)
  moreover have "ends_inv s2"
  proof -
    have k: "\<exists>x\<in>set fs. fphase x = FEpilogue Stopped" if "\<exists>x\<in>set (cfibers s). fphase x = FEpilogue Stopped" "sg \<noteq> Stopped"
    proof -
      have "\<exists>x\<in>set ?fs. fphase x = FEpilogue Stopped"
        using epilogue_kept[of "cfibers s" i ?fb] that assms(3) by simp
      then show ?thesis by (cases sg) (auto simp: fs_def)
    qed
    have "\<not> drained s" "finished s = None" using e nd(3) assms(3) by (auto simp: ends_inv_def finish_ok_running)
    then show ?thesis
      using e k by (cases sg; cases "stopped_or_error s") (auto simp: ends_inv_def s2_def record_error_soe)
  qed
  moreover have "egress s2 = EWaiting \<Longrightarrow> cvalues s2 = []" using w by (simp add: waits_inv_def s2_def)
  ultimately show ?thesis unfolding eq by (rule inv_wake)
qed

section \<open>Ingress\<close>

lemma inv_create:
  assumes "conc_inv f s" "ingress s = IBody arg"
  shows "conc_inv f (CreateOrReuseFiber arg s)"
proof -
  have fl: "flags_inv s" and v: "values_inv f s" and e: "ends_inv s" and w: "waits_inv s"
    using assms(1) by (simp_all add: conc_inv_def)
  have up: "\<not> upstream_done s" using fl assms(2) by (simp add: flags_inv_def)
  show ?thesis
  proof (cases "downstream_done s \<or> interrupted s \<or> stopped_or_error s \<noteq> None")
    case True
    then show ?thesis
      using fl v e w assms(2) up
      by (auto simp: CreateOrReuseFiber_def conc_inv_def flags_inv_def values_inv_def ends_inv_def waits_inv_def)
  next
    case False
    obtain fs i where c: "create_or_reuse (cfibers s) = (fs, i)" by (cases "create_or_reuse (cfibers s)")
    let ?s = "s\<lparr>cfibers := fs, fibers_done := False, ingress := IStart i arg, handled := handled s @ [arg]\<rparr>"
    note cases = create_or_reuse_cases[OF c]
    have i: "i < length fs" "fs ! i = CreateFiber" "fibers_todo fs = fibers_todo (cfibers s)"
      using cases fibers_todo_update[of i "cfibers s" CreateFiber] by (auto simp: CreateFiber_def)
    have "set fs \<subseteq> insert CreateFiber (set (cfibers s))"
      using cases set_update_subset_insert[of "cfibers s" i CreateFiber] by auto
    then have "\<forall>fb\<in>set fs. fiber_inv fb" using fl by (auto simp: flags_inv_def fiber_inv_def CreateFiber_def)
    then have "flags_inv ?s" using fl assms(2) i up by (auto simp: flags_inv_def CreateFiber_def)
    moreover have "values_inv f ?s" using v assms(2) i(3) by (auto simp: values_inv_def ac_simps)
    moreover have "\<exists>fb\<in>set fs. fphase fb = FEpilogue Stopped" if "\<exists>fb\<in>set (cfibers s). fphase fb = FEpilogue Stopped"
      using cases epilogue_kept[of "cfibers s" i CreateFiber] that by auto
    then have "ends_inv ?s" using e up by (auto simp: ends_inv_def finish_ok_running)
    moreover have "waits_inv ?s" using w up by (simp add: waits_inv_def)
    ultimately show ?thesis using False c by (simp add: CreateOrReuseFiber_def conc_inv_def)
  qed
qed

lemma inv_start:
  assumes "conc_inv f s" "ingress s = IStart i arg"
  shows "conc_inv f (StartFiber f i arg s)"
proof -
  have fl: "flags_inv s" and v: "values_inv f s" and e: "ends_inv s" and w: "waits_inv s"
    using assms(1) by (simp_all add: conc_inv_def)
  have i: "i < length (cfibers s)" "fphase (cfibers s ! i) = FCreated" and up: "\<not> upstream_done s"
    using fl assms(2) by (auto simp: flags_inv_def)
  note nd = fiber_not_done[OF fl i(1)]
  obtain vs sg where f: "f arg = (vs, sg)" by (cases "f arg")
  let ?fb = "(cfibers s ! i)\<lparr>fphase := FRunning vs sg\<rparr>"
  let ?s = "s\<lparr>cfibers := (cfibers s)[i := ?fb], ingress := IWant\<rparr>"
  have "flags_inv ?s"
  proof -
    have "\<forall>fb\<in>set ((cfibers s)[i := ?fb]). fiber_inv fb"
      using fl nd(1) i set_update_subset_insert[of "cfibers s" i ?fb] by (auto simp: flags_inv_def fiber_inv_def)
    then show ?thesis using fl i up assms(2) by (simp add: flags_inv_def FibersDone_update)
  qed
  moreover have "values_inv f ?s"
  proof -
    have "fibers_todo ((cfibers s)[i := ?fb]) = fibers_todo (cfibers s) + mset vs"
      using fibers_todo_update[OF i(1), of ?fb] i(2) by simp
    then show ?thesis using v assms(2) f by (simp add: values_inv_def ac_simps)
  qed
  moreover have "ends_inv ?s"
    using e epilogue_kept[of "cfibers s" i ?fb] i(2) by (auto simp: ends_inv_def)
  moreover have "waits_inv ?s" using w by (simp add: waits_inv_def)
  ultimately show ?thesis by (simp add: StartFiber_def set_fiber_def f conc_inv_def)
qed

lemma inv_ingress_epilogue:
  assumes "conc_inv f s" "ingress s = IEpilogue sg"
  shows "\<exists>s'. IngressEpilogue sg s = Inr s' \<and> conc_inv f s'"
proof -
  have fl: "flags_inv s" and v: "values_inv f s" and e: "ends_inv s" and w: "waits_inv s"
    using assms(1) by (simp_all add: conc_inv_def)
  have up: "\<not> upstream_done s" using fl assms(2) by (simp add: flags_inv_def)
  let ?s = "(record_error sg (s\<lparr>upstream_done := True, ingress := IEnd\<rparr>))\<lparr>fibers_done := FibersDone (cfibers s)\<rparr>"
  have eq: "IngressEpilogue sg s = notify_both_if (upstream_done ?s \<and> fibers_done ?s) ?s"
    by (simp add: IngressEpilogue_def Let_def)
  have "flags_inv ?s" using fl assms(2) by (auto simp: flags_inv_def)
  moreover have "values_inv f ?s" using v assms(2) by (simp add: values_inv_def)
  moreover have "\<not> drained s" "finished s = None" using e up by (auto simp: ends_inv_def finish_ok_running)
  then have "ends_inv ?s"
    using e by (cases sg; cases "stopped_or_error s") (auto simp: ends_inv_def record_error_soe)
  moreover have "egress ?s = EWaiting \<Longrightarrow> cvalues ?s = []" using w by (simp add: waits_inv_def)
  ultimately show ?thesis unfolding eq by (rule inv_wake)
qed

section \<open>Interrupt, downstream and the waiters\<close>

lemma inv_interrupt_fibers:
  assumes "flags_inv s" "values_inv f s" "ends_inv s"
  shows "flags_inv (interrupt_fibers s)" "values_inv f (interrupt_fibers s)" "ends_inv (interrupt_fibers s)"
proof -
  show "flags_inv (interrupt_fibers s)"
    using assms(1) by (auto simp: interrupt_fibers_eq flags_inv_def fiber_inv_def)
  show "values_inv f (interrupt_fibers s)"
    using assms(2) by (simp add: interrupt_fibers_eq values_inv_def)
  have *: "fibers_done s \<Longrightarrow> FibersDone (cfibers s)" "upstream_done s \<Longrightarrow> fibers_done s = FibersDone (cfibers s)"
    using assms(1) by (auto simp: flags_inv_def)
  then have "(upstream_done s \<and> FibersDone (cfibers s)) = (upstream_done s \<and> fibers_done s)" by blast
  then show "ends_inv (interrupt_fibers s)"
    using assms(3) * by (auto simp: interrupt_fibers_eq ends_inv_def)
qed

lemma inv_interrupt:
  assumes "conc_inv f s"
  shows "\<exists>s'. adaptor_Interrupt s = Inr s' \<and> conc_inv f s'"
proof -
  let ?s = "s\<lparr>interrupted := True\<rparr>"
  have "flags_inv ?s" using conc_invD(1)[OF assms] by (simp add: flags_inv_def)
  moreover have "values_inv f ?s" using conc_invD(3)[OF assms] by (simp add: values_inv_def)
  moreover have "ends_inv ?s" using conc_invD(4)[OF assms] by (simp add: ends_inv_def)
  ultimately have i: "flags_inv (interrupt_fibers ?s)" "values_inv f (interrupt_fibers ?s)" "ends_inv (interrupt_fibers ?s)"
    by (rule inv_interrupt_fibers)+
  have "egress (interrupt_fibers ?s) = EWaiting \<Longrightarrow> cvalues (interrupt_fibers ?s) = []"
    using assms by (simp add: conc_inv_def waits_inv_def interrupt_fibers_eq)
  from inv_wake[OF i this] show ?thesis by (simp add: adaptor_Interrupt_def Let_def)
qed

lemma inv_done:
  assumes "conc_inv f s" "egress s = EIdle \<or> egress s = EEnding"
  shows "\<exists>s'. conc_Done s = Inr s' \<and> conc_inv f s'"
proof -
  let ?s = "s\<lparr>done_flag := True, egress := EDone, downstream_done := True\<rparr>"
  let ?r = "interrupt_fibers ?s"
  have pre: "flags_inv ?s" "values_inv f ?s" "ends_inv ?s"
  proof -
    show "flags_inv ?s" using conc_invD(1)[OF assms(1)] by (simp add: flags_inv_def)
    show "values_inv f ?s" using conc_invD(3)[OF assms(1)] by (simp add: values_inv_def)
    show "ends_inv ?s" using conc_invD(4)[OF assms(1)] by (auto simp: ends_inv_def elim!: finish_ok.elims)
  qed
  note i = inv_interrupt_fibers[OF pre]
  have d: "\<not> done_flag s" using assms by (auto simp: conc_inv_def flags_inv_def)
  let ?b = "upstream_done ?r \<and> fibers_done ?r"
  let ?t = "?r\<lparr>wait_for_done := (if ?b \<and> wait_for_done ?r = WWaiting then WCheck else wait_for_done ?r)\<rparr>"
  have "conc_Done s = Inr ?t"
    using d by (simp add: conc_Done_def adaptor_Done_def notify_done_def Let_def)
  moreover have "flags_inv ?t" "values_inv f ?t" "ends_inv ?t"
    using i by (simp_all add: flags_inv_def values_inv_def ends_inv_def)
  moreover have "waits_inv ?t" by (auto simp: waits_inv_def interrupt_fibers_eq)
  ultimately show ?thesis by (simp add: conc_inv_def)
qed

lemma inv_egress:
  assumes "conc_inv f s" "egress s = EIdle \<or> egress s = ECheck"
  shows "\<exists>s'. Egress s = Inr s' \<and> conc_inv f s' \<and> next_flag s' = next_flag s \<and> ingress s' = ingress s \<and> egress_saved s'"
proof -
  let ?s = "s\<lparr>egress_saved := True\<rparr>"
  have fl: "flags_inv ?s" using conc_invD(1)[OF assms(1)] by (simp add: flags_inv_def)
  have v: "values_inv f ?s" using conc_invD(3)[OF assms(1)] by (simp add: values_inv_def)
  have e: "ends_inv ?s" using conc_invD(4)[OF assms(1)] by (simp add: ends_inv_def)
  have w: "waits_inv ?s" using conc_invD(2)[OF assms(1)] by (simp add: waits_inv_def)
  have nd: "\<not> downstream_done s" "\<not> done_flag s" using assms by (auto simp: conc_inv_def flags_inv_def)
  consider (wait) "cvalues s = []" "\<not> (upstream_done s \<and> fibers_done s)"
    | (error) "stopped_or_error s \<noteq> None" "upstream_done s" "fibers_done s"
    | (got) x xs where "cvalues s = x # xs" "\<not> (stopped_or_error s \<noteq> None \<and> upstream_done s \<and> fibers_done s)"
    | (ended) "cvalues s = []" "stopped_or_error s = None" "upstream_done s" "fibers_done s"
    by (cases "cvalues s"; cases "stopped_or_error s"; cases "upstream_done s \<and> fibers_done s") auto
  then show ?thesis
  proof cases
    case wait
    then have "Egress s = Inr (?s\<lparr>egress := EWaiting\<rparr>)" by (simp add: Egress_def Let_def)
    moreover have "flags_inv (?s\<lparr>egress := EWaiting\<rparr>)" using fl nd by (simp add: flags_inv_def)
    moreover have "values_inv f (?s\<lparr>egress := EWaiting\<rparr>)" using v by (simp add: values_inv_def)
    moreover have "ends_inv (?s\<lparr>egress := EWaiting\<rparr>)" using e by (simp add: ends_inv_def)
    moreover have "waits_inv (?s\<lparr>egress := EWaiting\<rparr>)" using w wait by (simp add: waits_inv_def)
    ultimately show ?thesis by (simp add: conc_inv_def)
  next
    case error
    let ?t = "?s\<lparr>egress := EFinished, finished := Some (case stopped_or_error s of Some (Failed x) \<Rightarrow> DownFail x | _ \<Rightarrow> DownStop)\<rparr>"
    have "Egress s = Inr ?t" using error by (auto simp: Egress_def egress_deliver_def Let_def)
    moreover have "ends_inv ?t"
    proof -
      obtain x where x: "stopped_or_error s = Some x" using error by blast
      moreover have "\<not> drained s" using e error by (auto simp: ends_inv_def)
      ultimately show ?thesis using e error by (cases x) (auto simp: ends_inv_def)
    qed
    moreover have "flags_inv ?t" using fl nd by (simp add: flags_inv_def)
    moreover have "values_inv f ?t" using v by (simp add: values_inv_def)
    moreover have "waits_inv ?t" using w by (simp add: waits_inv_def)
    ultimately show ?thesis by (simp add: conc_inv_def)
  next
    case got
    let ?t = "?s\<lparr>cvalues := xs, delivered := delivered s @ [x], egress := EIdle\<rparr>"
    have "Egress s = Inr ?t" using got by (auto simp: Egress_def egress_deliver_def Let_def)
    moreover have "flags_inv ?t" using fl nd by (simp add: flags_inv_def)
    moreover have "values_inv f ?t" using v got by (simp add: values_inv_def)
    moreover have "ends_inv ?t" using e got by (auto simp: ends_inv_def)
    moreover have "waits_inv ?t" using w by (simp add: waits_inv_def)
    ultimately show ?thesis by (simp add: conc_inv_def)
  next
    case ended
    let ?t = "?s\<lparr>egress := EEnding, drained := True\<rparr>"
    have "Egress s = Inr ?t" using ended by (auto simp: Egress_def egress_deliver_def Let_def)
    moreover have "flags_inv ?t" using fl nd by (simp add: flags_inv_def)
    moreover have "values_inv f ?t" using v by (simp add: values_inv_def)
    moreover have "ends_inv ?t" using e ended nd by (simp add: ends_inv_def)
    moreover have "waits_inv ?t" using w by (simp add: waits_inv_def)
    ultimately show ?thesis by (simp add: conc_inv_def)
  qed
qed

lemma inv_next:
  assumes "conc_inv f s" "egress s = EIdle"
  shows "\<exists>s'. conc_Next s = Inr s' \<and> conc_inv f s'"
proof -
  obtain s1 where s1: "Egress s = Inr s1" "conc_inv f s1" "egress_saved s1"
    using inv_egress[OF assms(1)] assms(2) by blast
  have "conc_inv f (s1\<lparr>next_flag := True, ingress := IWant\<rparr>)" if "\<not> next_flag s1"
  proof -
    have i: "ingress s1 = IIdle" "cfibers s1 = []" "\<not> upstream_done s1" using that s1(2) by (auto simp: conc_inv_def flags_inv_def)
    let ?t = "s1\<lparr>next_flag := True, ingress := IWant\<rparr>"
    have "flags_inv ?t" using conc_invD(1)[OF s1(2)] i s1(3) by (simp add: flags_inv_def)
    moreover have "values_inv f ?t" using conc_invD(3)[OF s1(2)] i(1) by (simp add: values_inv_def)
    moreover have "ends_inv ?t" using conc_invD(4)[OF s1(2)] by (simp add: ends_inv_def)
    moreover have "waits_inv ?t" using conc_invD(2)[OF s1(2)] by (simp add: waits_inv_def)
    ultimately show ?thesis by (simp add: conc_inv_def)
  qed
  then show ?thesis using s1 by (simp add: conc_Next_def)
qed

lemma inv_wait:
  assumes "conc_inv f s"
  shows "conc_inv f (WaitForDone s)"
proof -
  let ?t = "WaitForDone s"
  have "flags_inv ?t" using conc_invD(1)[OF assms] by (simp add: WaitForDone_def flags_inv_def)
  moreover have "values_inv f ?t" using conc_invD(3)[OF assms] by (simp add: WaitForDone_def values_inv_def)
  moreover have "ends_inv ?t" using conc_invD(4)[OF assms] by (auto simp: WaitForDone_def ends_inv_def)
  moreover have "waits_inv ?t" using conc_invD(2)[OF assms] by (auto simp: WaitForDone_def waits_inv_def)
  ultimately show ?thesis by (simp add: conc_inv_def)
qed

lemma inv_handler: "conc_inv f (s\<lparr>handler := h\<rparr>) = conc_inv f s"
  by (simp add: inv_defs)

lemma inv_up_body:
  assumes "conc_inv f s" "ingress s = IWant"
  shows "conc_inv f (s\<lparr>ingress := IBody v, received := received s @ [v]\<rparr>)"
proof -
  let ?t = "s\<lparr>ingress := IBody v, received := received s @ [v]\<rparr>"
  have "flags_inv ?t" using conc_invD(1)[OF assms(1)] assms(2) by (auto simp: flags_inv_def)
  moreover have "values_inv f ?t" using conc_invD(3)[OF assms(1)] assms(2) by (auto simp: values_inv_def)
  moreover have "ends_inv ?t" using conc_invD(4)[OF assms(1)] by (simp add: ends_inv_def)
  moreover have "waits_inv ?t" using conc_invD(2)[OF assms(1)] by (simp add: waits_inv_def)
  ultimately show ?thesis by (simp add: conc_inv_def)
qed

text \<open>A value that arrives after the interrupt handler was invoked fails a check: the one way in which a step of \<^verbatim>\<open>Concurrent\<close> aborts.\<close>

fun body_aborts :: "cact \<Rightarrow> conc \<Rightarrow> bool" where
  "body_aborts (UpBody v) s \<longleftrightarrow> ingress s = IWant \<and> (handler s = CInvoked \<or> handler s = CRan)"
| "body_aborts _ s \<longleftrightarrow> False"

lemma inv_body:
  assumes "conc_inv f s" "ingress s = IWant" "\<not> body_aborts (UpBody v) s"
  shows "\<exists>s'. conc_Body v s = Inr s' \<and> conc_inv f s'"
proof -
  define h where "h = (case handler s of CReady \<Rightarrow> CInstalled | CEarly \<Rightarrow> CInvoked | h \<Rightarrow> h)"
  have "conc_Body v s = Inr ((s\<lparr>handler := h\<rparr>)\<lparr>ingress := IBody v, received := received s @ [v]\<rparr>)"
    using assms(2,3) by (cases "handler s") (simp_all add: conc_Body_def InstallOrExecuteIfTriggered_def h_def)
  then show ?thesis using inv_up_body[of f "s\<lparr>handler := h\<rparr>" v] assms(1,2) by (simp add: inv_handler)
qed

lemma inv_up_end:
  assumes "conc_inv f s"
  shows "conc_inv f (up_end sg s)"
proof (cases "ingress s = IWant \<or> ingress s = IUpDone")
  case True
  let ?t = "s\<lparr>ingress := IEpilogue sg\<rparr>"
  have "flags_inv ?t" using conc_invD(1)[OF assms] True by (auto simp: flags_inv_def)
  moreover have "values_inv f ?t" using conc_invD(3)[OF assms] True by (auto simp: values_inv_def)
  moreover have "ends_inv ?t" using conc_invD(4)[OF assms] by (simp add: ends_inv_def)
  moreover have "waits_inv ?t" using conc_invD(2)[OF assms] by (simp add: waits_inv_def)
  ultimately show ?thesis using True by (simp add: conc_inv_def up_end_def)
qed (use assms in \<open>simp add: up_end_def\<close>)

theorem conc_step_inv:
  assumes "conc_inv f s" "\<not> body_aborts a s"
  shows "\<exists>s'. conc_step f a s = Inr s' \<and> conc_inv f s'"
proof (cases a)
  case IngressStep
  then show ?thesis
    using assms(1) inv_create inv_start inv_ingress_epilogue[OF assms(1)] by (auto simp: ingress_step_def split: ingress_pc.splits)
next
  case EgressStep
  then show ?thesis using assms(1) inv_egress[OF assms(1)] by auto
next
  case (FiberStep i)
  then show ?thesis
    using assms(1) inv_fiber_epilogue[OF assms(1)] by (auto simp: fiber_epilogue_step_def split: fiber_phase.splits)
next
  case (UpBody v)
  then show ?thesis using assms inv_body[OF assms(1), of v] by auto
next
  case InterruptStep
  then show ?thesis using assms(1) inv_interrupt[of f "s\<lparr>handler := CRan\<rparr>"] by (simp add: inv_handler)
next
  case RegisterStep
  then show ?thesis using assms(1) by (simp add: conc_Register_def inv_handler)
next
  case TriggerStep
  then show ?thesis using assms(1) by (simp add: conc_trigger_def inv_handler)
qed (use assms(1) inv_next inv_done inv_wait inv_up_end inv_fiber_push inv_fiber_end inv_fiber_stopped inv_fiber_leave in auto)

lemma body_aborts_step: "body_aborts a s \<Longrightarrow> conc_step f a s = Inl (CheckFailed ''callback_'')"
  by (cases a) (auto simp: conc_Body_def InstallOrExecuteIfTriggered_def)

lemma conc_reach_inv: "conc_reach f s \<Longrightarrow> conc_inv f s"
proof (induction rule: conc_reach.induct)
  case conc_start
  show ?case by (rule conc_inv_init)
next
  case (conc_next s a s')
  then show ?case using conc_step_inv[of f s a] body_aborts_step[of a s f] by (cases "body_aborts a s") auto
qed

lemma drained_result:
  assumes i: "conc_inv f s" and "drained s"
  shows "stopped_or_error s = None" "mset (delivered s) = mset (concat (map (fst \<circ> f) (handled s)))"
    "\<not> interrupted s \<Longrightarrow> handled s = received s"
proof -
  note fl = conc_invD(1)[OF i] and v = conc_invD(3)[OF i] and e = conc_invD(4)[OF i]
  have d: "stopped_or_error s = None" "upstream_done s" "FibersDone (cfibers s)" "cvalues s = []" "ingress s = IEnd"
    using e fl assms(2) by (auto simp: ends_inv_def flags_inv_def)
  have ph: "fphase fb = FLeaving \<or> fphase fb = FFree" if "fb \<in> set (cfibers s)" for fb
    using fl d(3) that by (auto simp: flags_inv_def fiber_inv_def FibersDone_iff)
  then have "\<not> cut_short s" using e d(1) by (fastforce simp: ends_inv_def)
  moreover have "fibers_todo (cfibers s) = {#}"
    using ph by (rule fibers_todo_done)
  ultimately show "mset (delivered s) = mset (concat (map (fst \<circ> f) (handled s)))"
    using v d by (auto simp: values_inv_def)
  show "handled s = received s" if "\<not> interrupted s"
    using e d that assms(2) v by (auto simp: ends_inv_def values_inv_def)
  show "stopped_or_error s = None" by (rule d(1))
qed

section \<open>Properties\<close>


definition echo_twice :: "val \<Rightarrow> val list \<times> signal" where
  "echo_twice v = ([v, v], Started VVoid)"

definition two_values :: "cact list" where
  "two_values =
     [DownNext, UpBody (VInt 1), IngressStep, IngressStep, UpBody (VInt 2), IngressStep, IngressStep,
      FiberPush 1, FiberPush 0, EgressStep, DownNext, UpEnd (Started VVoid), IngressStep,
      FiberPush 0, FiberEnd 0, FiberStep 0, FiberPush 1, DownNext, DownNext, DownNext,
      FiberEnd 1, FiberStep 1, EgressStep, DownDone, WaitStep]"

lemmas conc_eval = conc_init_def conc_Next_def Egress_def egress_deliver_def ingress_step_def CreateOrReuseFiber_def CreateFiber_def
  StartFiber_def set_fiber_def fiber_push_def push_value_def notify_egress_def notify_done_def notify_both_if_def fiber_end_def
  fiber_epilogue_step_def FiberEpilogue_def record_error_def IngressEpilogue_def up_end_def conc_Done_def adaptor_Done_def
  interrupt_fibers_eq triggered_def WaitForDone_def Reuse_def Let_def conc_Body_def InstallOrExecuteIfTriggered_def conc_Register_def conc_trigger_def
  adaptor_Interrupt_def


text \<open>
  C31. \<^verbatim>\<open>Concurrent\<close> ends, fails or stops downstream only when it has nothing left: the upstream stream has completed and every fiber is
  done. It ends only after downstream, or egress at the end of the stream, has called \<^verbatim>\<open>Done\<close>, and fails or stops with the first error
  or stop that was recorded.
\<close>

theorem concurrent_finishes_last:
  assumes "conc_reach f s" and "finished s = Some d"
  shows "ingress s = IEnd \<and> (\<forall>fb\<in>set (cfibers s). fdone fb) \<and>
    (d = DownEnded \<longrightarrow> downstream_done s) \<and> (\<forall>e. d = DownFail e \<longrightarrow> stopped_or_error s = Some (Failed e)) \<and>
    (d = DownStop \<longrightarrow> stopped_or_error s = Some Stopped)"
proof -
  have i: "conc_inv f s" by (rule conc_reach_inv[OF assms(1)])
  have ok: "finish_ok (Some d) (stopped_or_error s) (downstream_done s) (upstream_done s \<and> fibers_done s)"
    using conc_invD(4)[OF i] assms(2) by (simp add: ends_inv_def)
  then have "upstream_done s" "fibers_done s" by (cases d; simp)+
  then have "ingress s = IEnd" "\<forall>fb\<in>set (cfibers s). fdone fb"
    using conc_invD(1)[OF i] by (auto simp: flags_inv_def FibersDone_iff)
  then show ?thesis using ok by (cases d) auto
qed

definition failing :: "val \<Rightarrow> val list \<times> signal" where
  "failing v = ([], Failed (RuntimeError ''x''))"

definition one_failure :: "cact list" where
  "one_failure =
     [DownNext, UpBody (VInt 1), IngressStep, IngressStep, FiberEnd 0, FiberStep 0, UpEnd Stopped, IngressStep, EgressStep]"

theorem concurrent_finishes_last_witness:
  "\<exists>s. conc_run failing one_failure conc_init = Inr s \<and>
       finished s = Some (DownFail (RuntimeError ''x'')) \<and> stopped_or_error s = Some (Failed (RuntimeError ''x''))"
proof -
  obtain s where s: "conc_run failing one_failure conc_init = Inr s" "finished s = Some (DownFail (RuntimeError ''x''))"
    by (simp add: one_failure_def conc_eval failing_def)
  have "conc_reach failing s" by (rule conc_run_reach[OF conc_start s(1)])
  from concurrent_finishes_last[OF this s(2)] s show ?thesis by auto
qed


definition waiting_run :: "cact list" where
  "waiting_run = [DownNext, UpBody (VInt 1), IngressStep]"


text \<open>
  A downstream that calls \<^verbatim>\<open>Done\<close> before its first \<^verbatim>\<open>Next\<close> is never told that the stream has ended: ingress is started by \<^verbatim>\<open>Next\<close> only, and
  nothing else tells the upstream stream to finish.
\<close>

lemma done_before_next_never_ends:
  assumes "conc_run f (DownDone # as) conc_init = Inr s"
  shows "finished s = None"
proof -
  define stuck where "stuck t \<longleftrightarrow> egress t = EDone \<and> ingress t = IIdle \<and> cfibers t = [] \<and> \<not> upstream_done t \<and> finished t = None" for t :: conc
  have step: "stuck t'" if "stuck t" "conc_step f a t = Inr t'" for t t' a
    using that by (cases a) (auto simp: stuck_def WaitForDone_def ingress_step_def up_end_def adaptor_Interrupt_def interrupt_fibers_eq
        conc_Register_def conc_trigger_def notify_both_if_def Let_def split: if_splits)
  have "stuck t'" if "stuck t" "conc_run f as t = Inr t'" for t t' as
    using that by (induction as arbitrary: t) (auto intro: step)
  moreover obtain t where t: "conc_step f DownDone conc_init = Inr t" "conc_run f as t = Inr s"
    using assms unfolding conc_run.simps rbind_Inr_iff by blast
  moreover have "stuck t" using t(1) by (simp add: stuck_def conc_eval) auto
  ultimately have "stuck s" by blast
  then show ?thesis by (simp add: stuck_def)
qed

text \<open>
  The handler's callback is moved out when the interrupt invokes it, but \<^verbatim>\<open>Body\<close> asks for it with every value: a value that upstream sends after the
  interrupt aborts the process.
\<close>

definition value_after_interrupt :: "cact list" where
  "value_after_interrupt =
     [RegisterStep, DownNext, UpBody (VInt 1), IngressStep, IngressStep, TriggerStep, InterruptStep, UpBody (VInt 2)]"

lemma value_after_interrupt_aborts:
  "conc_run echo_twice value_after_interrupt conc_init = Inl (CheckFailed ''callback_'')"
  by (simp add: value_after_interrupt_def conc_eval)

end
