(* ===== verification/Reorder.thy ===== *)
theory Reorder
  imports Eventuals_Prelude
begin

text \<open>
  The two adaptors of \<^verbatim>\<open>ConcurrentOrdered(f)\<close> (\<^verbatim>\<open>concurrent-ordered.h\<close>).

  \<^verbatim>\<open>ConcurrentOrderedAdaptor\<close> follows the stream of one fiber: it passes the values on, tagged with the index of the upstream value, and at the end of
  the stream emits one more element with the negated index. \<^verbatim>\<open>ReorderAdaptor\<close> gets the elements of all fibers in any order, passes on those of
  the current index and keeps the others in a buffer per index.

  A handler of an adaptor returns what it calls next. A \<^verbatim>\<open>std::map\<close> is a function with its default for the keys without an
  entry; \<open>r_ended\<close> lists the indices whose entry is true. An element is a pair of an index and an optional value.
\<close>

section \<open>ConcurrentOrderedAdaptor\<close>

type_synonym elem = "int \<times> val option"

record co_adaptor =
  co_ended :: bool
  co_index :: "int option"

datatype co_call = CoBegin | CoBody elem | CoEnded | CoUpNext | CoUpDone

definition co_init :: co_adaptor where
  "co_init = \<lparr>co_ended = False, co_index = None\<rparr>"

definition co_Begin :: "co_adaptor \<Rightarrow> co_adaptor \<times> co_call" where
  "co_Begin s = (s\<lparr>co_ended := False\<rparr>, CoBegin)"

definition co_Body :: "int \<times> val \<Rightarrow> co_adaptor \<Rightarrow> (co_adaptor \<times> co_call) res" where
  "co_Body tuple s =
     (let i = fst tuple
      in check (co_index s = None \<or> co_index s = Some i) ''!index_ || index_.value() == i''
           (Inr (s\<lparr>co_index := Some i\<rparr>, CoBody (i, Some (snd tuple)))))"

definition co_Ended :: "co_adaptor \<Rightarrow> (co_adaptor \<times> co_call) res" where
  "co_Ended s =
     (let s' = s\<lparr>co_ended := True\<rparr>
      in case co_index s' of None \<Rightarrow> Inl (CheckFailed ''index_'') | Some i \<Rightarrow> Inr (s', CoBody (i * -1, None)))"

definition co_Next :: "co_adaptor \<Rightarrow> co_adaptor \<times> co_call" where
  "co_Next s = (s, if co_ended s then CoEnded else CoUpNext)"

definition co_Done :: "co_adaptor \<Rightarrow> co_adaptor \<times> co_call" where
  "co_Done s = (s, CoUpDone)"

text \<open>The adaptor between a stream of the values \<open>vs\<close> tagged with \<open>i\<close> and a downstream that always asks for the next element.\<close>

fun co_loop :: "int \<Rightarrow> val list \<Rightarrow> co_adaptor \<Rightarrow> elem list res" where
  "co_loop i (v # vs) s =
     (case co_Next s of
        (s1, CoUpNext) \<Rightarrow>
          rbind (co_Body (i, v) s1) (\<lambda>(s2, c).
            case c of CoBody e \<Rightarrow> map_sum id (Cons e) (co_loop i vs s2) | _ \<Rightarrow> Inl NoSuchMethod)
      | _ \<Rightarrow> Inr [])"
| "co_loop i [] s =
     (case co_Next s of
        (s1, CoUpNext) \<Rightarrow>
          rbind (co_Ended s1) (\<lambda>(s2, c).
            case (c, co_Next s2) of (CoBody e, (_, CoEnded)) \<Rightarrow> Inr [e] | _ \<Rightarrow> Inl NoSuchMethod)
      | _ \<Rightarrow> Inr [])"

definition co_run :: "int \<Rightarrow> val list \<Rightarrow> elem list res" where
  "co_run i vs = co_loop i vs (fst (co_Begin co_init))"

section \<open>ReorderAdaptor\<close>

record reorder =
  r_buffer :: "int \<Rightarrow> val list"
  r_index :: int
  r_ended :: "int list"
  r_done :: bool

datatype r_call = RBody val | RUpNext | RUpDone

definition reorder_init :: reorder where
  "reorder_init = \<lparr>r_buffer = (\<lambda>_. []), r_index = 1, r_ended = [], r_done = False\<rparr>"

definition INT_MAX :: int where
  "INT_MAX = 2147483647"

definition ended_ahead :: "reorder \<Rightarrow> nat" where
  "ended_ahead s = length (filter (\<lambda>j. r_index s \<le> j) (r_ended s))"

lemma ended_ahead_less:
  assumes "r_index s \<in> set (r_ended s)"
  shows "ended_ahead (s\<lparr>r_index := r_index s + 1\<rparr>) < ended_ahead s"
proof -
  have "length (filter (\<lambda>j. i + 1 \<le> j) js) < length (filter (\<lambda>j. i \<le> j) js)" if "i \<in> set js" for i :: int and js
  proof -
    have "filter (\<lambda>j. i + 1 \<le> j) js = filter (\<lambda>j. i + 1 \<le> j) (filter (\<lambda>j. i \<le> j) js)" by (auto intro: filter_cong)
    then show ?thesis using that by (simp only:) (rule length_filter_less[of i], auto)
  qed
  then show ?thesis using assms by (simp add: ended_ahead_def)
qed

function reorder_Next :: "reorder \<Rightarrow> (reorder \<times> r_call) res" where
  "reorder_Next s =
     (case r_buffer s (r_index s) of
        value # rest \<Rightarrow> Inr (s\<lparr>r_buffer := (r_buffer s)(r_index s := rest)\<rparr>, RBody value)
      | [] \<Rightarrow>
          if r_index s \<in> set (r_ended s)
          then (if r_index s = INT_MAX then Inl (UndefinedBehaviour ''index_++'')
                else reorder_Next (s\<lparr>r_index := r_index s + 1\<rparr>))
          else Inr (s, RUpNext))"
  by pat_completeness auto
termination
  by (relation "measure ended_ahead") (simp_all add: ended_ahead_less)

declare reorder_Next.simps [simp del]

definition reorder_Body :: "elem \<Rightarrow> reorder \<Rightarrow> (reorder \<times> r_call) res" where
  "reorder_Body tuple s =
     check (\<not> r_done s) ''!done_''
       (let i = fst tuple
        in if i < 0 then reorder_Next (s\<lparr>r_ended := r_ended s @ [i * -1]\<rparr>)
           else case snd tuple of
                  None \<Rightarrow> Inl (Exception ''bad_optional_access'')
                | Some v \<Rightarrow>
                    if r_index s = i then check (r_buffer s i = []) ''buffer_[i].empty()'' (Inr (s, RBody v))
                    else check (r_index s < i) ''index_ < i''
                           (Inr (s\<lparr>r_buffer := (r_buffer s)(i := r_buffer s i @ [v])\<rparr>, RUpNext)))"

definition reorder_Done :: "reorder \<Rightarrow> reorder \<times> r_call" where
  "reorder_Done s = (s\<lparr>r_done := True, r_buffer := (\<lambda>_. []), r_ended := []\<rparr>, RUpDone)"

text \<open>
  The adaptor between an upstream that sends the elements \<open>ins\<close> and ends and a downstream that always asks for the next value: \<open>demand\<close> is a
  call of \<^verbatim>\<open>Next\<close> by downstream, \<open>feed\<close> one by the adaptor.
\<close>

lemma reorder_Next_decreases:
  "reorder_Next s = Inr (s', RBody v) \<Longrightarrow>
   ended_ahead s' < ended_ahead s \<or>
   ended_ahead s' = ended_ahead s \<and> length (r_buffer s' (r_index s')) < length (r_buffer s (r_index s))"
proof (induction s rule: reorder_Next.induct)
  case (1 s)
  show ?case
  proof (cases "r_buffer s (r_index s)")
    case (Cons a list)
    then show ?thesis using 1(2) by (auto simp: reorder_Next.simps[of s] ended_ahead_def)
  next
    case Nil
    then have e: "r_index s \<in> set (r_ended s)" "r_index s \<noteq> INT_MAX"
      "reorder_Next (s\<lparr>r_index := r_index s + 1\<rparr>) = Inr (s', RBody v)"
      using 1(2) by (auto simp: reorder_Next.simps[of s] split: if_splits)
    then show ?thesis using 1(1)[OF Nil e] ended_ahead_less[OF e(1)] by linarith
  qed
qed

function demand :: "reorder \<Rightarrow> elem list \<Rightarrow> val list res" and feed :: "reorder \<Rightarrow> elem list \<Rightarrow> val list res" where
  "demand s ins =
     (case reorder_Next s of
        Inl x \<Rightarrow> Inl x
      | Inr (s', c) \<Rightarrow> (case c of RBody v \<Rightarrow> map_sum id (Cons v) (demand s' ins) | RUpNext \<Rightarrow> feed s' ins | RUpDone \<Rightarrow> Inl NoSuchMethod))"
| "feed s [] = Inr []"
| "feed s (x # ins) =
     (case reorder_Body x s of
        Inl y \<Rightarrow> Inl y
      | Inr (s', c) \<Rightarrow> (case c of RBody v \<Rightarrow> map_sum id (Cons v) (demand s' ins) | RUpNext \<Rightarrow> feed s' ins | RUpDone \<Rightarrow> Inl NoSuchMethod))"
  by pat_completeness auto
termination
proof (relation "inv_image (less_than <*lex*> less_than <*lex*> less_than <*lex*> less_than)
    (\<lambda>x. case x of
       Inl (s, ins) \<Rightarrow> (length ins, 1 :: nat, ended_ahead s, length (r_buffer s (r_index s)))
     | Inr (s, ins) \<Rightarrow> (length ins, 0, 0, 0))")
  fix s ins p s' c v
  assume "reorder_Next s = Inr p" "(s', c) = p" "c = RBody v"
  then show "(Inl (s', ins), Inl (s, ins)) \<in> inv_image (less_than <*lex*> less_than <*lex*> less_than <*lex*> less_than)
    (\<lambda>x. case x of
       Inl (s, ins) \<Rightarrow> (length ins, 1 :: nat, ended_ahead s, length (r_buffer s (r_index s)))
     | Inr (s, ins) \<Rightarrow> (length ins, 0, 0, 0))"
    using reorder_Next_decreases[of s s' v] by auto
qed auto

declare demand.simps [simp del] feed.simps(2) [simp del]

end
