(* ===== verification/Reorder_Theorems.thy ===== *)
theory Reorder_Theorems
  imports Reorder
begin

text \<open>
  \<^verbatim>\<open>ReorderAdaptor\<close> restores the order of the upstream values: whatever the order in which the elements of the fibers arrive, as long as each
  fiber's own elements arrive in order, downstream gets the values sorted by index.
\<close>

section \<open>One fiber\<close>

definition tranche :: "int \<Rightarrow> val list \<Rightarrow> elem list" where
  "tranche i vs = map (\<lambda>v. (i, Some v)) vs @ [(- i, None)]"

lemmas co_defs = co_run_def co_init_def co_Begin_def co_Next_def co_Body_def co_Ended_def Let_def

lemma co_loop_tranche: "co_loop i vs \<lparr>co_ended = False, co_index = Some i\<rparr> = Inr (tranche i vs)"
  by (induction vs) (auto simp: co_defs tranche_def)

lemma co_run_tranche: "vs \<noteq> [] \<Longrightarrow> co_run i vs = Inr (tranche i vs)"
  by (cases vs) (auto simp: co_defs co_loop_tranche tranche_def)

text \<open>A fiber that emits no value has no index to negate: the adaptor aborts when its stream ends.\<close>

lemma co_run_empty_aborts: "co_run i [] = Inl (CheckFailed ''index_'')"
  by (simp add: co_defs)

section \<open>Arrivals\<close>

definition arrivals :: "int \<Rightarrow> (int \<Rightarrow> val list) \<Rightarrow> elem list \<Rightarrow> bool" where
  "arrivals n T ins \<longleftrightarrow>
     (\<forall>e\<in>set ins. 1 \<le> \<bar>fst e\<bar> \<and> \<bar>fst e\<bar> \<le> n) \<and>
     (\<forall>j. 1 \<le> j \<and> j \<le> n \<longrightarrow> filter (\<lambda>e. \<bar>fst e\<bar> = j) ins = tranche j (T j))"

definition vals :: "int \<Rightarrow> elem list \<Rightarrow> val list" where
  "vals j es = List.map_filter (\<lambda>e. if fst e = j then snd e else None) es"

lemma vals_simps [simp]:
  "vals j [] = []" "vals j (es @ fs) = vals j es @ vals j fs"
  "vals j [(i, Some v)] = (if i = j then [v] else [])" "vals j [(i, None)] = []"
  by (simp_all add: vals_def map_filter_simps map_filter_def)

lemma arrival_form:
  assumes "arrivals n T ins" "e \<in> set ins"
  obtains (item) j v where "e = (j, Some v)" "1 \<le> j" "j \<le> n" | (ended) j where "e = (- j, None)" "1 \<le> j" "j \<le> n"
proof -
  let ?j = "\<bar>fst e\<bar>"
  have j: "1 \<le> ?j" "?j \<le> n" using assms by (auto simp: arrivals_def)
  have "e \<in> set (filter (\<lambda>x. \<bar>fst x\<bar> = ?j) ins)" using assms(2) by simp
  then have "e \<in> set (tranche ?j (T ?j))" using assms(1) j unfolding arrivals_def by metis
  then show ?thesis using j that by (auto simp: tranche_def)
qed

lemma no_arrival_after_end:
  assumes "arrivals n T (h @ e # rest)" "(- j, None) \<in> set h" "1 \<le> j" "j \<le> n"
  shows "\<bar>fst e\<bar> \<noteq> j"
proof
  assume e: "\<bar>fst e\<bar> = j"
  let ?f = "filter (\<lambda>e. \<bar>fst e\<bar> = j)"
  have "?f h @ e # ?f rest = map (\<lambda>v. (j, Some v)) (T j) @ [(- j, None)]"
    using assms(1,3,4) e by (auto simp: arrivals_def tranche_def)
  then have "butlast (?f h @ e # ?f rest) = map (\<lambda>v. (j, Some v)) (T j)" by simp
  moreover have "set (?f h) \<subseteq> set (butlast (?f h @ e # ?f rest))" by (simp add: butlast_append)
  ultimately have "set (?f h) \<subseteq> set (map (\<lambda>v. (j, Some v)) (T j))" by (simp only:)
  moreover have "(- j, None) \<in> set (?f h)" using assms(2,3) by auto
  ultimately show False by auto
qed

lemma vals_filter: "1 \<le> j \<Longrightarrow> vals j es = vals j (filter (\<lambda>e. \<bar>fst e\<bar> = j) es)"
  by (induction es) (auto simp: vals_def map_filter_simps split: option.splits)

lemma vals_tranche: "1 \<le> j \<Longrightarrow> vals j (tranche j vs) = vs"
  by (induction vs) (auto simp: tranche_def vals_def map_filter_simps map_filter_def)

lemma vals_arrivals: "arrivals n T ins \<Longrightarrow> 1 \<le> j \<Longrightarrow> j \<le> n \<Longrightarrow> vals j ins = T j"
  by (simp add: vals_filter[of j ins] arrivals_def vals_tranche)

lemma vals_beyond: "arrivals n T ins \<Longrightarrow> n < j \<Longrightarrow> 1 \<le> j \<Longrightarrow> vals j ins = []"
  unfolding vals_filter[of j ins] by (subst filter_False) (auto simp: arrivals_def)

section \<open>The invariant of ReorderAdaptor\<close>

definition reorder_inv :: "int \<Rightarrow> elem list \<Rightarrow> reorder \<Rightarrow> val list \<Rightarrow> bool" where
  "reorder_inv n hist s outs \<longleftrightarrow>
     \<not> r_done s \<and> 1 \<le> r_index s \<and> r_index s \<le> n + 1 \<and>
     (\<forall>j. j \<in> set (r_ended s) \<longleftrightarrow> (- j, None) \<in> set hist) \<and>
     (\<forall>j. 1 \<le> j \<and> j < r_index s \<longrightarrow> j \<in> set (r_ended s)) \<and>
     (\<forall>j>r_index s. r_buffer s j = vals j hist) \<and>
     outs @ r_buffer s (r_index s) = concat (map (\<lambda>j. vals j hist) [1..r_index s])"

definition blocked_at :: "reorder \<Rightarrow> bool" where
  "blocked_at s \<longleftrightarrow> r_buffer s (r_index s) = [] \<and> r_index s \<notin> set (r_ended s)"

lemma reorder_inv_init: "0 \<le> n \<Longrightarrow> reorder_inv n [] reorder_init []"
  by (simp add: reorder_inv_def reorder_init_def)

lemma ended_in_range:
  assumes "reorder_inv n hist s outs" "arrivals n T (hist @ rest)" "j \<in> set (r_ended s)"
  shows "1 \<le> j" "j \<le> n"
proof -
  have "(- j, None) \<in> set (hist @ rest)" using assms(1,3) by (simp add: reorder_inv_def)
  from arrival_form[OF assms(2) this] show "1 \<le> j" "j \<le> n" by auto
qed

lemma reorder_Next_inv:
  assumes "reorder_inv n hist s outs" "arrivals n T (hist @ rest)" "n < INT_MAX"
  shows "(\<exists>s' v. reorder_Next s = Inr (s', RBody v) \<and> reorder_inv n hist s' (outs @ [v])) \<or>
         (\<exists>s'. reorder_Next s = Inr (s', RUpNext) \<and> reorder_inv n hist s' outs \<and> blocked_at s')"
  using assms(1)
proof (induction s rule: reorder_Next.induct)
  case (1 s)
  show ?case
  proof (cases "r_buffer s (r_index s)")
    case (Cons v rest')
    then show ?thesis
      using 1(2) by (auto simp: reorder_Next.simps[of s] reorder_inv_def)
  next
    case Nil
    show ?thesis
    proof (cases "r_index s \<in> set (r_ended s)")
      case True
      have r: "1 \<le> r_index s" "r_index s \<le> n" using ended_in_range[OF 1(2) assms(2) True] by auto
      then have m: "r_index s \<noteq> INT_MAX" using assms(3) by auto
      have "[1..r_index s + 1] = [1..r_index s] @ [r_index s + 1]"
        using r(1) by (simp add: upto_rec2)
      then have "reorder_inv n hist (s\<lparr>r_index := r_index s + 1\<rparr>) outs"
        using 1(2) True Nil r by (auto simp: reorder_inv_def less_le)
      from 1(1)[OF Nil True m this] show ?thesis
        using Nil True m by (simp add: reorder_Next.simps[of s])
    next
      case False
      then show ?thesis
        using 1(2) Nil by (simp add: reorder_Next.simps[of s] blocked_at_def)
    qed
  qed
qed

lemma reorder_Body_inv:
  assumes "reorder_inv n hist s outs" "arrivals n T (hist @ e # rest)" "n < INT_MAX" "blocked_at s"
  shows "(\<exists>s' v. reorder_Body e s = Inr (s', RBody v) \<and> reorder_inv n (hist @ [e]) s' (outs @ [v])) \<or>
         (\<exists>s'. reorder_Body e s = Inr (s', RUpNext) \<and> reorder_inv n (hist @ [e]) s' outs \<and> blocked_at s')"
proof -
  have d: "\<not> r_done s" using assms(1) by (simp add: reorder_inv_def)
  have a: "arrivals n T ((hist @ [e]) @ rest)" using assms(2) by simp
  have "e \<in> set (hist @ e # rest)" by simp
  from assms(2) this show ?thesis
  proof (cases rule: arrival_form)
    case (ended j)
    let ?s = "s\<lparr>r_ended := r_ended s @ [j]\<rparr>"
    have "reorder_inv n (hist @ [e]) ?s outs" using assms(1) ended by (auto simp: reorder_inv_def)
    from reorder_Next_inv[OF this a assms(3)] show ?thesis using d ended by (simp add: reorder_Body_def)
  next
    case (item j v)
    show ?thesis
    proof (cases "r_index s = j")
      case True
      have one: "[1..j] = [1..j - 1] @ [j]" using item(2) by (simp add: upto_rec2)
      have "map (\<lambda>i. vals i (hist @ [e])) [1..j - 1] = map (\<lambda>i. vals i hist) [1..j - 1]" using item by (intro map_cong) auto
      then have "concat (map (\<lambda>i. vals i (hist @ [e])) [1..j]) = concat (map (\<lambda>i. vals i hist) [1..j]) @ [v]"
        unfolding one map_append concat_append using item by (simp only:) simp
      moreover have "\<forall>i>j. vals i (hist @ [e]) = vals i hist" using item by auto
      ultimately have "reorder_inv n (hist @ [e]) s (outs @ [v])"
        using assms(1,4) True item by (auto simp: reorder_inv_def blocked_at_def)
      then show ?thesis using True d item assms(4) by (auto simp: reorder_Body_def blocked_at_def)
    next
      case False
      have lt: "r_index s < j"
      proof (rule ccontr)
        assume "\<not> r_index s < j"
        then have "j \<in> set (r_ended s)" using False assms(1) item by (auto simp: reorder_inv_def)
        then have "(- j, None) \<in> set hist" using assms(1) by (simp add: reorder_inv_def)
        from no_arrival_after_end[OF assms(2) this item(2,3)] show False using item by simp
      qed
      let ?s = "s\<lparr>r_buffer := (r_buffer s)(j := r_buffer s j @ [v])\<rparr>"
      have "map (\<lambda>i. vals i (hist @ [e])) [1..r_index s] = map (\<lambda>i. vals i hist) [1..r_index s]"
        using item lt by (intro map_cong) auto
      then have "concat (map (\<lambda>i. vals i (hist @ [e])) [1..r_index s]) = concat (map (\<lambda>i. vals i hist) [1..r_index s])"
        by (simp only:)
      then have "reorder_inv n (hist @ [e]) ?s outs" using assms(1) item lt by (auto simp: reorder_inv_def)
      moreover have "blocked_at ?s" using assms(4) lt by (simp add: blocked_at_def)
      ultimately show ?thesis using False lt d item by (simp add: reorder_Body_def)
    qed
  qed
qed

lemma reorder_complete:
  assumes "reorder_inv n hist s outs" "arrivals n T hist" "blocked_at s" "0 \<le> n"
  shows "outs = concat (map T [1..n])"
proof -
  have "(- j, None) \<in> set hist" if "1 \<le> j" "j \<le> n" for j
  proof -
    have "filter (\<lambda>e. \<bar>fst e\<bar> = j) hist = tranche j (T j)" using assms(2) that by (simp add: arrivals_def)
    then have "(- j, None) \<in> set (filter (\<lambda>e. \<bar>fst e\<bar> = j) hist)" by (simp add: tranche_def)
    then show ?thesis by simp
  qed
  then have i: "r_index s = n + 1" using assms(1,3) by (force simp: reorder_inv_def blocked_at_def)
  have "[1..n + 1] = [1..n] @ [n + 1]" using assms(4) by (simp add: upto_rec2)
  moreover have "vals (n + 1) hist = []" using vals_beyond[OF assms(2)] assms(4) by simp
  ultimately have "outs = concat (map (\<lambda>j. vals j hist) [1..n])"
    using assms(1,3) i by (simp add: reorder_inv_def blocked_at_def)
  moreover have "map (\<lambda>j. vals j hist) [1..n] = map T [1..n]" using vals_arrivals[OF assms(2)] by (intro map_cong) auto
  ultimately show ?thesis by (simp only:)
qed

lemma demand_feed_result:
  shows "arrivals n T (hist @ ins) \<Longrightarrow> reorder_inv n hist s outs \<Longrightarrow> n < INT_MAX \<Longrightarrow> 0 \<le> n \<Longrightarrow>
      \<exists>r. demand s ins = Inr r \<and> outs @ r = concat (map T [1..n])"
    and "arrivals n T (hist @ ins) \<Longrightarrow> reorder_inv n hist s outs \<Longrightarrow> n < INT_MAX \<Longrightarrow> 0 \<le> n \<Longrightarrow> blocked_at s \<Longrightarrow>
      \<exists>r. feed s ins = Inr r \<and> outs @ r = concat (map T [1..n])"
proof (induction s ins and s ins arbitrary: hist outs and hist outs rule: demand_feed.induct)
  case (1 s ins)
  from reorder_Next_inv[OF 1(4) 1(3) 1(5)] show ?case
  proof (elim disjE exE conjE)
    fix s' v assume n: "reorder_Next s = Inr (s', RBody v)" "reorder_inv n hist s' (outs @ [v])"
    from 1(1)[OF n(1) refl refl 1(3) n(2) 1(5,6)] obtain r where r: "demand s' ins = Inr r" "(outs @ [v]) @ r = concat (map T [1..n])" by blast
    then show ?case by (simp add: demand.simps[of s] n(1))
  next
    fix s' assume n: "reorder_Next s = Inr (s', RUpNext)" "reorder_inv n hist s' outs" "blocked_at s'"
    from 1(2)[OF n(1) refl refl 1(3) n(2) 1(5,6) n(3)] show ?case by (simp add: demand.simps[of s] n(1))
  qed
next
  case (2 s)
  then show ?case using reorder_complete[of n hist s outs T] by simp
next
  case (3 s x ins)
  have a: "arrivals n T ((hist @ [x]) @ ins)" using 3(3) by simp
  from reorder_Body_inv[OF 3(4) 3(3) 3(5) 3(7)] show ?case
  proof (elim disjE exE conjE)
    fix s' v assume n: "reorder_Body x s = Inr (s', RBody v)" "reorder_inv n (hist @ [x]) s' (outs @ [v])"
    from 3(1)[OF n(1) refl refl a n(2) 3(5,6)] obtain r where r: "demand s' ins = Inr r" "(outs @ [v]) @ r = concat (map T [1..n])" by blast
    then show ?case by (simp add: feed.simps n(1))
  next
    fix s' assume n: "reorder_Body x s = Inr (s', RUpNext)" "reorder_inv n (hist @ [x]) s' outs" "blocked_at s'"
    from 3(2)[OF n(1) refl refl a n(2) 3(5,6) n(3)] show ?case by (simp add: feed.simps n(1))
  qed
qed

lemma demand_result:
  assumes "arrivals n T ins" and "0 \<le> n" and "n < INT_MAX"
  shows "demand reorder_init ins = Inr (concat (map T [1..n]))"
  using demand_feed_result(1)[of n T "[]" ins reorder_init "[]"] reorder_inv_init[OF assms(2)] assms by simp

section \<open>Properties\<close>

text \<open>
  \<^verbatim>\<open>ReorderAdaptor\<close> restores the order: for fewer than \<^verbatim>\<open>INT_MAX\<close> fibers, in whatever order their elements are interleaved, if each
  fiber's own elements arrive in order and end with its end marker, then no assertion fails, and downstream gets, until the upstream stream ends, the
  values of the first fiber, then those of the second, and so on.
\<close>

theorem reorder_restores_order:
  assumes "arrivals n T ins" and "0 \<le> n" and "n < INT_MAX"
  shows "demand reorder_init ins = Inr (concat (map T [1..n]))"
  using assms by (rule demand_result)

definition mixed :: "elem list" where
  "mixed = [(2, Some (VInt 20)), (1, Some (VInt 10)), (-2, None), (1, Some (VInt 11)), (-1, None)]"

theorem reorder_restores_order_witness:
  "demand reorder_init mixed = Inr [VInt 10, VInt 11, VInt 20]"
proof -
  let ?T = "\<lambda>j :: int. if j = 1 then [VInt 10, VInt 11] else [VInt 20]"
  have "j = 1 \<or> j = 2" if "1 \<le> j" "j \<le> 2" for j :: int using that by auto
  then have "arrivals 2 ?T mixed"
    unfolding arrivals_def by (auto simp: mixed_def tranche_def)
  from reorder_restores_order[OF this] show ?thesis by (simp add: INT_MAX_def upto.simps)
qed

end
