(* ===== verification/Ordered_Theorems.thy ===== *)
theory Ordered_Theorems
  imports Concurrent_Theorems Reorder_Theorems
begin

text \<open>
  \<^verbatim>\<open>ConcurrentOrdered(f)\<close> as the composition its source writes: upstream values are numbered, \<^verbatim>\<open>Concurrent\<close> runs \<^verbatim>\<open>f()\<close> and a
  \<^verbatim>\<open>ConcurrentOrderedAdaptor\<close> for each, and \<^verbatim>\<open>ReorderAdaptor\<close> sorts what arrives. The first part shows that \<^verbatim>\<open>Concurrent\<close> keeps the order of
  the values of one fiber, the second that the composition is a \<^verbatim>\<open>FlatMap\<close>, in order.
\<close>

section \<open>Lists of lists\<close>

definition single :: "('b \<Rightarrow> bool) \<Rightarrow> 'b list list \<Rightarrow> bool" where
  "single P xss \<longleftrightarrow>
     (\<forall>i<length xss. \<forall>j<length xss. filter P (xss ! i) \<noteq> [] \<longrightarrow> filter P (xss ! j) \<noteq> [] \<longrightarrow> i = j)"

lemma filter_concat_update:
  assumes "i < length xss" "filter P ys = filter P (xss ! i)"
  shows "filter P (concat (xss[i := ys])) = filter P (concat xss)" "single P (xss[i := ys]) = single P xss"
proof -
  have "map (filter P) (xss[i := ys]) = map (filter P) xss"
    using assms by (simp add: map_update list_update_same_conv)
  then show "filter P (concat (xss[i := ys])) = filter P (concat xss)" by (simp only: filter_concat)
  have "filter P (xss[i := ys] ! j) = filter P (xss ! j)" if "j < length xss" for j
    using assms(2) that by (cases "j = i") auto
  then show "single P (xss[i := ys]) = single P xss" by (simp add: single_def)
qed

lemma filter_concat_empty: "filter P (concat xss) = [] \<longleftrightarrow> (\<forall>i<length xss. filter P (xss ! i) = [])"
  by (simp add: filter_concat concat_eq_Nil_conv all_set_conv_all_nth)

lemma filter_concat_alone:
  assumes "i < length xss" "\<forall>j<length xss. j \<noteq> i \<longrightarrow> filter P (xss ! j) = []"
  shows "filter P (concat xss) = filter P (xss ! i)"
proof -
  have "filter P (concat (take i xss)) = []" "filter P (concat (drop (Suc i) xss)) = []"
    unfolding filter_concat_empty using assms by auto
  then show ?thesis by (subst id_take_nth_drop[OF assms(1)]) simp
qed

lemma filter_concat_single:
  "single P xss \<Longrightarrow> i < length xss \<Longrightarrow> filter P (xss ! i) \<noteq> [] \<Longrightarrow> filter P (concat xss) = filter P (xss ! i)"
  by (rule filter_concat_alone) (auto simp: single_def)

lemma single_empty: "filter P (concat xss) = [] \<Longrightarrow> single P xss"
  by (simp add: filter_concat_empty single_def)

lemma single_place:
  assumes "filter P (concat xss) = []" "i < length xss"
  shows "single P (xss[i := ys])" "filter P (concat (xss[i := ys])) = filter P ys"
proof -
  have e: "\<forall>j<length (xss[i := ys]). j \<noteq> i \<longrightarrow> filter P (xss[i := ys] ! j) = []"
    using assms by (simp add: filter_concat_empty)
  then show "single P (xss[i := ys])" unfolding single_def by blast
  show "filter P (concat (xss[i := ys])) = filter P ys"
    using filter_concat_alone[OF _ e] assms(2) by simp
qed

lemma single_pop:
  assumes "single P xss" "i < length xss" "xss ! i = x # ys" "P x"
  shows "single P (xss[i := ys])" "filter P (concat xss) = x # filter P (concat (xss[i := ys]))"
proof -
  have "filter P (xss ! i) \<noteq> []" using assms(3,4) by simp
  then have o: "\<forall>j<length xss. j \<noteq> i \<longrightarrow> filter P (xss ! j) = []" using assms(1,2) unfolding single_def by blast
  then have e: "\<forall>j<length (xss[i := ys]). j \<noteq> i \<longrightarrow> filter P (xss[i := ys] ! j) = []" by simp
  then show "single P (xss[i := ys])" unfolding single_def by blast
  show "filter P (concat xss) = x # filter P (concat (xss[i := ys]))"
    using filter_concat_alone[OF _ e] filter_concat_alone[OF assms(2) o] assms by simp
qed

section \<open>Concurrent keeps the order within a fiber\<close>

fun todo_list :: "fiber_phase \<Rightarrow> val list" where
  "todo_list (FRunning vs sg) = vs"
| "todo_list _ = []"

definition todos :: "conc \<Rightarrow> val list list" where
  "todos s = map (todo_list \<circ> fphase) (cfibers s)"

fun starts :: "ingress_pc \<Rightarrow> val option" where
  "starts (IStart i a) = Some a"
| "starts _ = None"

text \<open>
  The values of interest are those that satisfy \<open>P\<close>, and only the argument \<open>a\<close> makes a fiber emit such values, once. As long as that is so,
  the values of interest that were emitted and those that are to come are together what \<open>f\<close> emits for \<open>a\<close>, in order.
\<close>

definition mixed_up :: "(val \<Rightarrow> val list \<times> signal) \<Rightarrow> (val \<Rightarrow> bool) \<Rightarrow> val \<Rightarrow> conc \<Rightarrow> bool" where
  "mixed_up f P a s \<longleftrightarrow>
     cut_short s \<or> \<not> distinct (handled s) \<or> (\<exists>b\<in>set (handled s). b \<noteq> a \<and> filter P (fst (f b)) \<noteq> [])"

definition tag_inv :: "(val \<Rightarrow> val list \<times> signal) \<Rightarrow> (val \<Rightarrow> bool) \<Rightarrow> val \<Rightarrow> conc \<Rightarrow> bool" where
  "tag_inv f P a s \<longleftrightarrow>
     mixed_up f P a s \<or>
     (single P (todos s) \<and> (\<forall>b. starts (ingress s) = Some b \<longrightarrow> b \<in> set (handled s)) \<and>
      (if a \<in> set (handled s)
       then if starts (ingress s) = Some a then filter P (pushed s) = [] \<and> filter P (concat (todos s)) = []
            else filter P (pushed s) @ filter P (concat (todos s)) = filter P (fst (f a))
       else filter P (pushed s) = [] \<and> filter P (concat (todos s)) = []))"

definition frame :: "conc \<Rightarrow> conc \<Rightarrow> bool" where
  "frame s s' \<longleftrightarrow>
     todos s' = todos s \<and> pushed s' = pushed s \<and> handled s' = handled s \<and> starts (ingress s') = starts (ingress s) \<and>
     cut_short s' = cut_short s"

lemma tag_inv_frame: "tag_inv f P a s \<Longrightarrow> frame s s' \<Longrightarrow> tag_inv f P a s'"
  unfolding tag_inv_def mixed_up_def frame_def by (elim conjE) (simp only:)

lemma frame_refl [simp]: "frame s s"
  by (simp add: frame_def)

lemma frame_trans: "frame s t \<Longrightarrow> frame t u \<Longrightarrow> frame s u"
  by (simp add: frame_def)

lemma frame_notify: "notify_both_if b s = Inr s' \<Longrightarrow> frame s s'"
  by (auto simp: notify_both_if_def notify_egress_def notify_done_def frame_def todos_def split: if_splits)

lemma frame_interrupt_fibers: "frame s (interrupt_fibers s)"
  by (simp add: interrupt_fibers_eq frame_def todos_def)

lemma frame_record_error: "frame s (record_error sg s)"
  by (cases sg) (simp_all add: record_error_def frame_def todos_def)

lemma todos_update: "todos (s\<lparr>cfibers := (cfibers s)[i := fb]\<rparr>) = (todos s)[i := todo_list (fphase fb)]"
  by (simp add: todos_def map_update)

lemma todos_nth: "i < length (cfibers s) \<Longrightarrow> todos s ! i = todo_list (fphase (cfibers s ! i))"
  by (simp add: todos_def)

lemma frame_set_fiber:
  assumes "i < length (cfibers s)" "todo_list (fphase (g (cfibers s ! i))) = todo_list (fphase (cfibers s ! i))"
  shows "frame s (set_fiber i g s)"
  using assms todos_update[of s i "g (cfibers s ! i)"] list_update_id[of "todos s" i] todos_nth[OF assms(1)]
  by (simp add: frame_def set_fiber_def)

lemma frame_egress: "Egress s = Inr s' \<Longrightarrow> frame s s'"
  by (auto simp: Egress_def egress_deliver_def frame_def todos_def Let_def split: if_splits list.splits)

lemma frame_next:
  assumes "conc_inv f s" "conc_Next s = Inr s'" "egress s = EIdle"
  shows "frame s s'"
proof -
  obtain s1 where s1: "Egress s = Inr s1" "conc_inv f s1"
    "s' = (if \<not> next_flag s1 then s1\<lparr>next_flag := True, ingress := IWant\<rparr> else s1)"
    using assms inv_egress[OF assms(1)] by (auto simp: conc_Next_def)
  have "ingress s1 = IIdle" if "\<not> next_flag s1" using conc_invD(1)[OF s1(2)] that by (auto simp: flags_inv_def)
  then have "frame s1 s'" using s1(3) by (auto simp: frame_def todos_def)
  then show ?thesis using frame_egress[OF s1(1)] by (rule frame_trans[rotated])
qed

lemma frame_done: "conc_Done s = Inr s' \<Longrightarrow> frame s s'"
  by (auto simp: conc_Done_def adaptor_Done_def notify_done_def interrupt_fibers_eq frame_def todos_def Let_def split: if_splits)

lemma frame_fiber_epilogue:
  assumes "FiberEpilogue i sg s = Inr s'" "i < length (cfibers s)" "fphase (cfibers s ! i) = FEpilogue sg"
  shows "frame s s'"
proof -
  let ?s1 = "set_fiber i (\<lambda>fiber. fiber\<lparr>fdone := True, fphase := FLeaving\<rparr>) s"
  let ?s2 = "(case sg of Started _ \<Rightarrow> (record_error sg ?s1)\<lparr>fibers_done := FibersDone (cfibers (record_error sg ?s1))\<rparr>
                | _ \<Rightarrow> interrupt_fibers (record_error sg ?s1))"
  have "frame s ?s1" by (rule frame_set_fiber[OF assms(2)]) (simp add: assms(3))
  moreover have "frame ?s1 (record_error sg ?s1)" by (rule frame_record_error)
  moreover have "frame (record_error sg ?s1) ?s2"
    using frame_interrupt_fibers[of "record_error sg ?s1"] by (cases sg) (simp_all add: frame_def todos_def)
  moreover have "frame ?s2 s'"
    using assms(1) unfolding FiberEpilogue_def Let_def by (rule frame_notify)
  ultimately show ?thesis by (meson frame_trans)
qed

lemma tag_inv_body:
  assumes "tag_inv f P a s" "conc_Body v s = Inr s'" "ingress s = IWant"
  shows "tag_inv f P a s'"
  by (rule tag_inv_frame[OF assms(1)])
    (use assms(2,3) in \<open>auto simp: conc_Body_def InstallOrExecuteIfTriggered_def frame_def todos_def split: if_splits\<close>)

lemma tag_inv_create:
  assumes "conc_inv f s" "tag_inv f P a s" "ingress s = IBody arg"
  shows "tag_inv f P a (CreateOrReuseFiber arg s)"
proof (cases "downstream_done s \<or> interrupted s \<or> stopped_or_error s \<noteq> None")
  case True
  then show ?thesis
    by (intro tag_inv_frame[OF assms(2)]) (use assms(3) in \<open>auto simp: CreateOrReuseFiber_def frame_def todos_def\<close>)
next
  case False
  obtain fs i where fs: "create_or_reuse (cfibers s) = (fs, i)" by fastforce
  let ?s = "s\<lparr>cfibers := fs, fibers_done := False, ingress := IStart i arg, handled := handled s @ [arg]\<rparr>"
  have e: "CreateOrReuseFiber arg s = ?s" using False fs by (simp add: CreateOrReuseFiber_def)
  have t: "todos ?s = todos s \<or> todos ?s = todos s @ [[]]"
    using create_or_reuse_cases[OF fs]
  proof (elim disjE conjE)
    assume "i < length (cfibers s)" "fs = (cfibers s)[i := CreateFiber]" "fphase (cfibers s ! i) = FFree"
    then show ?thesis
      using list_update_id[of "todos s" i] todos_nth[of i s] by (simp add: todos_def map_update CreateFiber_def)
  qed (simp add: todos_def CreateFiber_def)
  then have c: "filter P (concat (todos ?s)) = filter P (concat (todos s))" by auto
  show ?thesis
  proof (cases "mixed_up f P a ?s")
    case True
    then show ?thesis by (simp add: e tag_inv_def)
  next
    case ok: False
    then have "\<not> mixed_up f P a s" by (auto simp: mixed_up_def)
    then have i: "single P (todos s)"
      "if a \<in> set (handled s) then filter P (pushed s) @ filter P (concat (todos s)) = filter P (fst (f a))
       else filter P (pushed s) = [] \<and> filter P (concat (todos s)) = []"
      using assms(2,3) by (simp_all add: tag_inv_def)
    have "single P (todos ?s)" using i(1) t by (auto simp: single_def nth_append less_Suc_eq)
    moreover have "arg \<notin> set (handled s)" using ok by (auto simp: mixed_up_def)
    ultimately show ?thesis using i(2) c by (auto simp: e tag_inv_def split: if_splits)
  qed
qed

lemma tag_inv_start:
  assumes "conc_inv f s" "tag_inv f P a s" "ingress s = IStart i arg"
  shows "tag_inv f P a (StartFiber f i arg s)"
proof -
  let ?s = "StartFiber f i arg s"
  have l: "i < length (todos s)" "todos s ! i = []"
    using conc_invD(1)[OF assms(1)] assms(3) by (auto simp: flags_inv_def todos_def)
  have t: "todos ?s = (todos s)[i := fst (f arg)]"
    using l(1) by (simp add: StartFiber_def set_fiber_def todos_def map_update split: prod.split)
  have rest: "handled ?s = handled s" "pushed ?s = pushed s" "ingress ?s = IWant" "cut_short ?s = cut_short s"
    by (simp_all add: StartFiber_def set_fiber_def)
  show ?thesis
  proof (cases "mixed_up f P a s")
    case True
    then show ?thesis by (simp add: tag_inv_def mixed_up_def rest)
  next
    case False
    then have i: "single P (todos s)" "arg \<in> set (handled s)"
      using assms(2,3) by (simp_all add: tag_inv_def)
    show ?thesis
    proof (cases "arg = a")
      case True
      then have "filter P (pushed s) = []" "filter P (concat (todos s)) = []"
        using assms(2,3) False i(2) by (simp_all add: tag_inv_def)
      with single_place[of P "todos s" i "fst (f arg)"] show ?thesis
        using l(1) True i(2) by (simp add: tag_inv_def rest[unfolded True] t[unfolded True])
    next
      case other: False
      then have "filter P (fst (f arg)) = filter P (todos s ! i)" using False i(2) l(2) by (auto simp: mixed_up_def)
      from filter_concat_update[OF l(1) this] show ?thesis
        using assms(2,3) False other i by (auto simp: tag_inv_def rest t split: if_splits)
    qed
  qed
qed

lemma tag_inv_push:
  assumes "tag_inv f P a s" "fiber_push i s = Inr s'" "i < length (cfibers s)"
  shows "tag_inv f P a s'"
proof (cases "\<exists>v vs sg. fphase (cfibers s ! i) = FRunning (v # vs) sg")
  case True
  then obtain v vs sg where r: "fphase (cfibers s ! i) = FRunning (v # vs) sg" by blast
  have l: "i < length (todos s)" "todos s ! i = v # vs" using assms(3) r by (simp_all add: todos_def)
  have t: "todos s' = (todos s)[i := vs]" "pushed s' = pushed s @ [v]" "handled s' = handled s" "ingress s' = ingress s"
      "cut_short s' = cut_short s"
    using assms(2) r
    by (auto simp: fiber_push_def push_value_def notify_egress_def set_fiber_def todos_def map_update split: if_splits)
  show ?thesis
  proof (cases "mixed_up f P a s")
    case True
    then show ?thesis by (simp add: tag_inv_def mixed_up_def t)
  next
    case False
    then have i: "single P (todos s)" "filter P (pushed s) = [] \<and> filter P (concat (todos s)) = [] \<or>
        a \<in> set (handled s) \<and> starts (ingress s) \<noteq> Some a \<and>
        filter P (pushed s) @ filter P (concat (todos s)) = filter P (fst (f a))"
      using assms(1) by (auto simp: tag_inv_def split: if_splits)
    show ?thesis
    proof (cases "P v")
      case True
      note p = single_pop[OF i(1) l(1) l(2) True]
      then have "a \<in> set (handled s)" "starts (ingress s) \<noteq> Some a"
        "filter P (pushed s) @ filter P (concat (todos s)) = filter P (fst (f a))" using i(2) by auto
      moreover have "\<forall>b. starts (ingress s) = Some b \<longrightarrow> b \<in> set (handled s)"
        using assms(1) False by (simp add: tag_inv_def)
      ultimately show ?thesis using p True by (simp add: tag_inv_def t)
    next
      case no: False
      then have "filter P vs = filter P (todos s ! i)" using l by simp
      from filter_concat_update[OF l(1) this] show ?thesis
        using assms(1) False no by (auto simp: tag_inv_def t split: if_splits)
    qed
  qed
next
  case False
  then have "fiber_push i s = Inr s" by (auto simp: fiber_push_def split: fiber_phase.splits list.splits)
  then show ?thesis using assms by simp
qed

lemma tag_inv_fiber:
  assumes "tag_inv f P a s" "i < length (cfibers s)"
  shows "tag_inv f P a (fiber_end i s)" "tag_inv f P a (fiber_stopped i s)" "tag_inv f P a (fiber_leave i s)"
proof -
  have "frame s (fiber_end i s)"
    using frame_set_fiber[OF assms(2)] by (auto simp: fiber_end_def split: fiber_phase.splits list.splits)
  then show "tag_inv f P a (fiber_end i s)" by (rule tag_inv_frame[OF assms(1)])
  have "fiber_stopped i s = s \<or> cut_short (fiber_stopped i s)" by (auto simp: fiber_stopped_def split: fiber_phase.splits)
  then show "tag_inv f P a (fiber_stopped i s)" using assms(1) by (auto simp: tag_inv_def mixed_up_def)
  have "frame s (fiber_leave i s)" using frame_set_fiber[OF assms(2)] by (simp add: fiber_leave_def)
  then show "tag_inv f P a (fiber_leave i s)" by (rule tag_inv_frame[OF assms(1)])
qed

lemma frame_ingress_epilogue:
  assumes "IngressEpilogue sg s = Inr s'" "ingress s = IEpilogue sg"
  shows "frame s s'"
proof -
  let ?s0 = "s\<lparr>upstream_done := True, ingress := IEnd\<rparr>"
  let ?s2 = "(record_error sg ?s0)\<lparr>fibers_done := FibersDone (cfibers (record_error sg ?s0))\<rparr>"
  have "frame s ?s0" using assms(2) by (simp add: frame_def todos_def)
  moreover have "frame ?s0 (record_error sg ?s0)" by (rule frame_record_error)
  moreover have "frame (record_error sg ?s0) ?s2" by (simp add: frame_def todos_def)
  moreover have "frame ?s2 s'" using assms(1) unfolding IngressEpilogue_def Let_def by (rule frame_notify)
  ultimately show ?thesis by (meson frame_trans)
qed

lemma frame_interrupt:
  assumes "adaptor_Interrupt s = Inr s'"
  shows "frame s s'"
proof -
  let ?s0 = "s\<lparr>interrupted := True\<rparr>"
  have "frame s ?s0" by (simp add: frame_def todos_def)
  moreover have "frame ?s0 (interrupt_fibers ?s0)" by (rule frame_interrupt_fibers)
  moreover have "frame (interrupt_fibers ?s0) s'" using assms unfolding adaptor_Interrupt_def Let_def by (rule frame_notify)
  ultimately show ?thesis by (meson frame_trans)
qed

lemma frame_handler: "frame s (s\<lparr>handler := h\<rparr>)"
  by (simp add: frame_def todos_def)

lemma tag_inv_ingress:
  assumes "conc_inv f s" "tag_inv f P a s" "ingress_step f s = Inr s'"
  shows "tag_inv f P a s'"
proof (cases "ingress s")
  case (IBody arg)
  then show ?thesis using assms tag_inv_create[OF assms(1,2)] by (simp add: ingress_step_def)
next
  case (IStart i arg)
  then show ?thesis using assms tag_inv_start[OF assms(1,2)] by (simp add: ingress_step_def)
next
  case (IEpilogue sg)
  then show ?thesis using assms(3) tag_inv_frame[OF assms(2) frame_ingress_epilogue] by (simp add: ingress_step_def)
qed (use assms in \<open>simp_all add: ingress_step_def\<close>)

theorem tag_inv_step:
  assumes "conc_inv f s" "tag_inv f P a s" "conc_step f act s = Inr s'"
  shows "tag_inv f P a s'"
proof (cases act)
  case DownNext
  then show ?thesis using assms(3) tag_inv_frame[OF assms(2) frame_next[OF assms(1)]] assms(2) by (auto split: if_splits)
next
  case DownDone
  then show ?thesis using assms(3) tag_inv_frame[OF assms(2) frame_done] assms(2) by (auto split: if_splits)
next
  case EgressStep
  then show ?thesis using assms(3) tag_inv_frame[OF assms(2) frame_egress] assms(2) by (auto split: if_splits)
next
  case WaitStep
  have "frame s (WaitForDone s)" by (simp add: WaitForDone_def frame_def todos_def)
  then show ?thesis using WaitStep assms(2,3) tag_inv_frame by auto
next
  case (UpBody v)
  then show ?thesis using assms(2,3) tag_inv_body[OF assms(2)] by (auto split: if_splits)
next
  case (UpEnd sg)
  have "frame s (up_end sg s)" by (auto simp: up_end_def frame_def todos_def)
  then show ?thesis using UpEnd assms(2,3) tag_inv_frame by auto
next
  case IngressStep
  then show ?thesis using assms(3) tag_inv_ingress[OF assms(1,2)] by simp
next
  case (FiberPush i)
  then show ?thesis using assms(2,3) tag_inv_push[OF assms(2)] by (auto split: if_splits)
next
  case (FiberEnd i)
  then show ?thesis using assms(2,3) tag_inv_fiber(1)[OF assms(2), of i] by auto
next
  case (FiberStopped i)
  then show ?thesis using assms(2,3) tag_inv_fiber(2)[OF assms(2), of i] by auto
next
  case (FiberLeave i)
  then show ?thesis using assms(2,3) tag_inv_fiber(3)[OF assms(2), of i] by auto
next
  case (FiberStep i)
  have "tag_inv f P a s'" if "i < length (cfibers s)" "fphase (cfibers s ! i) = FEpilogue sg" "FiberEpilogue i sg s = Inr s'" for sg
    using tag_inv_frame[OF assms(2) frame_fiber_epilogue[OF that(3,1,2)]] .
  then show ?thesis using FiberStep assms(2,3) by (auto simp: fiber_epilogue_step_def split: if_splits fiber_phase.splits)
next
  case RegisterStep
  then show ?thesis using assms(2,3) tag_inv_frame[OF assms(2) frame_handler] by (auto simp: conc_Register_def)
next
  case TriggerStep
  then show ?thesis using assms(2,3) tag_inv_frame[OF assms(2) frame_handler] by (auto simp: conc_trigger_def)
next
  case InterruptStep
  then show ?thesis
    using assms(3) tag_inv_frame[OF assms(2) frame_trans[OF frame_handler frame_interrupt]] assms(2) by (auto split: if_splits)
qed

lemma tag_inv_reach: "conc_reach f s \<Longrightarrow> tag_inv f P a s"
proof (induction rule: conc_reach.induct)
  case conc_start
  show ?case by (simp add: tag_inv_def todos_def conc_init_def single_def)
next
  case (conc_next s act s')
  then show ?case using tag_inv_step[OF conc_reach_inv] by blast
qed

lemma drained_todos:
  assumes "conc_inv f s" "drained s"
  shows "\<not> cut_short s" "concat (todos s) = []" "ingress s = IEnd" "delivered s = pushed s"
proof -
  note fl = conc_invD(1)[OF assms(1)] and v = conc_invD(3)[OF assms(1)] and e = conc_invD(4)[OF assms(1)]
  have d: "stopped_or_error s = None" "upstream_done s" "FibersDone (cfibers s)" "cvalues s = []"
    using e fl assms(2) by (auto simp: ends_inv_def flags_inv_def)
  have ph: "fphase fb = FLeaving \<or> fphase fb = FFree" if "fb \<in> set (cfibers s)" for fb
    using fl d(3) that by (auto simp: flags_inv_def fiber_inv_def FibersDone_iff)
  then show "\<not> cut_short s" using e d(1) by (fastforce simp: ends_inv_def)
  show "concat (todos s) = []" using ph by (fastforce simp: todos_def)
  show "ingress s = IEnd" using fl d(2) by (simp add: flags_inv_def)
  show "delivered s = pushed s" using v d(4) by (simp add: values_inv_def)
qed

text \<open>What arrives of one fiber arrives in order and completely.\<close>

lemma fiber_order:
  assumes "conc_reach f s" "drained s" "distinct (handled s)" "a \<in> set (handled s)"
    and "\<And>b. b \<in> set (handled s) \<Longrightarrow> b \<noteq> a \<Longrightarrow> filter P (fst (f b)) = []"
  shows "filter P (delivered s) = filter P (fst (f a))"
proof -
  note d = drained_todos[OF conc_reach_inv[OF assms(1)] assms(2)]
  have "\<not> mixed_up f P a s" using d(1) assms(3,5) by (auto simp: mixed_up_def)
  then show ?thesis using tag_inv_reach[OF assms(1), of P a] assms(4) d by (simp add: tag_inv_def)
qed

section \<open>ConcurrentOrdered\<close>

text \<open>
  The tuples of the source are vectors: an upstream value with its index, and an element with its index and optional value. \<open>number_from\<close> is the first
  \<^verbatim>\<open>Map\<close> of the source, whose counter starts at 1, and \<open>ordered_f\<close> is the behaviour of the \<^verbatim>\<open>FlatMap\<close> that \<^verbatim>\<open>Concurrent\<close> runs for each tuple, where
  \<open>g x\<close> are the values that \<^verbatim>\<open>f()\<close> emits for \<open>x\<close>. The empty stream of a \<open>g x\<close> without values, for which the adaptor aborts, is excluded where it is used.
\<close>

definition enc_elem :: "elem \<Rightarrow> val" where
  "enc_elem e = VVec [VInt (word_of_int (fst e)), VOpt (snd e)]"

definition dec_elem :: "val \<Rightarrow> elem" where
  "dec_elem v = (case v of VVec [VInt i, VOpt x] \<Rightarrow> (sint i, x) | _ \<Rightarrow> (0, None))"

definition tag_value :: "int \<Rightarrow> val \<Rightarrow> val" where
  "tag_value i x = VVec [VInt (word_of_int i), x]"

fun number_from :: "int \<Rightarrow> val list \<Rightarrow> val list" where
  "number_from i [] = []"
| "number_from i (x # xs) = tag_value i x # number_from (i + 1) xs"

definition ordered_f :: "(val \<Rightarrow> val list) \<Rightarrow> val \<Rightarrow> val list \<times> signal" where
  "ordered_f g v =
     (case v of
        VVec [VInt j, x] \<Rightarrow>
          (case co_run (sint j) (g x) of Inr es \<Rightarrow> (map enc_elem es, Started VVoid) | Inl _ \<Rightarrow> ([], Stopped))
      | _ \<Rightarrow> ([], Stopped))"

definition ConcurrentOrdered :: "val list \<Rightarrow> val list res" where
  "ConcurrentOrdered arrived = demand reorder_init (map dec_elem arrived)"

lemma sint_index: "- INT_MAX \<le> i \<Longrightarrow> i \<le> INT_MAX \<Longrightarrow> sint (word_of_int i :: int32) = i"
  by (simp add: INT_MAX_def sint_sbintrunc' signed_take_bit_int_eq_self)

lemma dec_enc: "\<bar>fst e\<bar> \<le> INT_MAX \<Longrightarrow> dec_elem (enc_elem e) = e"
  using sint_index[of "fst e"] by (simp add: enc_elem_def dec_elem_def)

lemma ordered_f_tag:
  "0 \<le> i \<Longrightarrow> i \<le> INT_MAX \<Longrightarrow> g x \<noteq> [] \<Longrightarrow> fst (ordered_f g (tag_value i x)) = map enc_elem (tranche i (g x))"
  by (simp add: ordered_f_def tag_value_def sint_index co_run_tranche INT_MAX_def)

lemma length_number [simp]: "length (number_from i xs) = length xs"
  by (induction xs arbitrary: i) auto

lemma number_nth: "k < length xs \<Longrightarrow> number_from i xs ! k = tag_value (i + int k) (xs ! k)"
  by (induction xs arbitrary: i k) (auto simp: nth_Cons add.assoc split: nat.split)

lemma tag_value_inj:
  "tag_value i x = tag_value j y \<Longrightarrow> 0 \<le> i \<Longrightarrow> i \<le> INT_MAX \<Longrightarrow> 0 \<le> j \<Longrightarrow> j \<le> INT_MAX \<Longrightarrow> i = j"
proof -
  assume "tag_value i x = tag_value j y" and r: "0 \<le> i" "i \<le> INT_MAX" "0 \<le> j" "j \<le> INT_MAX"
  then have "sint (word_of_int i :: int32) = sint (word_of_int j :: int32)" unfolding tag_value_def val.inject list.inject by metis
  moreover have "- INT_MAX \<le> 0" by (simp add: INT_MAX_def)
  ultimately show "i = j" using r sint_index[of i] sint_index[of j] by linarith
qed

lemma distinct_number:
  assumes "int (length xs) < INT_MAX"
  shows "distinct (number_from 1 xs)"
  unfolding distinct_conv_nth
proof (intro allI impI notI)
  fix i j assume l: "i < length (number_from 1 xs)" "j < length (number_from 1 xs)" "i \<noteq> j"
    "number_from 1 xs ! i = number_from 1 xs ! j"
  then show False
    using tag_value_inj[of "1 + int i" "xs ! i" "1 + int j" "xs ! j"] assms by (simp add: number_nth)
qed

lemma tranche_index: "e \<in> set (tranche i vs) \<Longrightarrow> 0 \<le> i \<Longrightarrow> \<bar>fst e\<bar> = i"
  by (auto simp: tranche_def)

lemma number_mem:
  assumes "b \<in> set (number_from 1 xs)"
  obtains i where "1 \<le> i" "i \<le> int (length xs)" "b = tag_value i (xs ! nat (i - 1))"
proof -
  obtain k where "k < length xs" "b = number_from 1 xs ! k" using assms by (auto simp: in_set_conv_nth)
  then show ?thesis using that[of "1 + int k"] by (simp add: number_nth)
qed

text \<open>The elements that arrive at \<^verbatim>\<open>ReorderAdaptor\<close> are arrivals in the sense of its theorem.\<close>

lemma ordered_arrivals:
  assumes "conc_reach (ordered_f g) s" "drained s" "\<not> interrupted s" "received s = number_from 1 xs"
    and ne: "\<forall>x\<in>set xs. g x \<noteq> []" and len: "int (length xs) < INT_MAX"
  shows "arrivals (int (length xs)) (\<lambda>j. g (xs ! nat (j - 1))) (map dec_elem (delivered s))"
proof -
  let ?n = "int (length xs)" and ?f = "ordered_f g"
  let ?T = "\<lambda>j. g (xs ! nat (j - 1))"
  note r = drained_result[OF conc_reach_inv[OF assms(1)] assms(2)]
  have h: "handled s = number_from 1 xs" using r(3)[OF assms(3)] assms(4) by simp
  have out: "fst (?f (tag_value i (xs ! nat (i - 1)))) = map enc_elem (tranche i (?T i))" if "1 \<le> i" "i \<le> ?n" for i
    using that len ne by (intro ordered_f_tag) (auto simp: nat_less_iff)
  have dec: "dec_elem (enc_elem e) = e" if "e \<in> set (tranche i vs)" "1 \<le> i" "i \<le> ?n" for e i vs
    using tranche_index[OF that(1)] that(2,3) len by (intro dec_enc) simp
  have "\<exists>i\<ge>1. i \<le> ?n \<and> v \<in> enc_elem ` set (tranche i (?T i))" if v: "v \<in> set (delivered s)" for v
  proof -
    have "v \<in># mset (concat (map (fst \<circ> ?f) (number_from 1 xs)))" using v r(2) h by (metis set_mset_mset)
    then obtain b where "b \<in> set (number_from 1 xs)" "v \<in> set (fst (?f b))" by auto
    then show ?thesis using out by (auto elim!: number_mem)
  qed
  then have "1 \<le> \<bar>fst e\<bar> \<and> \<bar>fst e\<bar> \<le> ?n" if "e \<in> set (map dec_elem (delivered s))" for e
    using that dec tranche_index by fastforce
  moreover have "filter (\<lambda>e. \<bar>fst e\<bar> = j) (map dec_elem (delivered s)) = tranche j (?T j)" if j: "1 \<le> j" "j \<le> ?n" for j
  proof -
    let ?P = "\<lambda>v. \<bar>fst (dec_elem v)\<bar> = j" and ?a = "tag_value j (xs ! nat (j - 1))"
    have fil: "filter ?P (map enc_elem (tranche i (?T i))) = (if i = j then map enc_elem (tranche i (?T i)) else [])"
      if "1 \<le> i" "i \<le> ?n" for i
      using dec[OF _ that] tranche_index[of _ i "?T i"] that(1) by (auto simp: filter_empty_conv intro!: filter_True)
    have k: "nat (j - 1) < length xs" using j by linarith
    then have "number_from 1 xs ! nat (j - 1) \<in> set (number_from 1 xs)" by (intro nth_mem) simp
    then have "?a \<in> set (handled s)" using j k by (simp add: h number_nth)
    moreover have "filter ?P (fst (?f b)) = []" if "b \<in> set (handled s)" "b \<noteq> ?a" for b
      using that out fil by (auto simp: h elim!: number_mem)
    ultimately have "filter ?P (delivered s) = filter ?P (fst (?f ?a))"
      using fiber_order[OF assms(1,2), of ?a ?P] distinct_number[OF len] by (simp add: h)
    also have "\<dots> = map enc_elem (tranche j (?T j))" using out[OF j] fil[OF j] by simp
    finally have "map dec_elem (filter ?P (delivered s)) = map (dec_elem \<circ> enc_elem) (tranche j (?T j))" by simp
    also have "\<dots> = tranche j (?T j)" using dec[OF _ j] by (auto intro: map_idI)
    finally show ?thesis by (simp add: filter_map comp_def)
  qed
  ultimately show ?thesis by (simp add: arrivals_def)
qed

lemma concat_numbered: "concat (map (\<lambda>j. g (xs ! nat (j - 1))) [1..int (length xs)]) = concat (map g xs)"
proof -
  have "[1..int (length xs)] = map (\<lambda>k. int k + 1) [0..<length xs]"
    by (rule nth_equalityI) auto
  then have "map (\<lambda>j. g (xs ! nat (j - 1))) [1..int (length xs)] = map (\<lambda>k. g (xs ! k)) [0..<length xs]" by simp
  also have "\<dots> = map g xs" by (rule nth_equalityI) auto
  finally show ?thesis by (simp only:)
qed

section \<open>Properties\<close>


definition twice :: "val \<Rightarrow> val list" where
  "twice x = [x, x]"

definition second_first :: "cact list" where
  "second_first =
     [DownNext, UpBody (tag_value 1 (VBool False)), IngressStep, IngressStep, UpBody (tag_value 2 (VBool True)), IngressStep, IngressStep,
      UpEnd (Started VVoid), IngressStep, FiberPush 1, FiberPush 1, FiberPush 0, FiberPush 1, FiberPush 0, FiberPush 0,
      EgressStep, DownNext, DownNext, DownNext, DownNext, DownNext, DownNext,
      FiberEnd 0, FiberStep 0, FiberEnd 1, FiberStep 1, EgressStep]"

lemma ordered_f_twice:
  "ordered_f twice (tag_value 1 x) = ([enc_elem (1, Some x), enc_elem (1, Some x), enc_elem (-1, None)], Started VVoid)"
  "ordered_f twice (tag_value 2 x) = ([enc_elem (2, Some x), enc_elem (2, Some x), enc_elem (-2, None)], Started VVoid)"
  by (simp_all add: ordered_f_def tag_value_def twice_def co_run_tranche tranche_def)

lemma second_first_run:
  "\<exists>s. conc_run (ordered_f twice) second_first conc_init = Inr s \<and> drained s \<and> \<not> interrupted s \<and>
     received s = number_from 1 [VBool False, VBool True] \<and>
     delivered s = [enc_elem (2, Some (VBool True)), enc_elem (2, Some (VBool True)), enc_elem (1, Some (VBool False)),
       enc_elem (-2, None), enc_elem (1, Some (VBool False)), enc_elem (-1, None)]"
  by (simp add: second_first_def conc_eval ordered_f_twice)


end
