(* ===== verification/Pinned.thy ===== *)
theory Pinned
  imports Eventuals_Prelude
begin

text \<open>
  How the static thread pool chooses CPUs (\<^verbatim>\<open>Pinned\<close> and \<^verbatim>\<open>StaticThreadPool::ForkJoin\<close> in \<^verbatim>\<open>static-thread-pool.h\<close>). The number of CPUs,
  \<^verbatim>\<open>std::thread::hardware_concurrency()\<close>, is an argument.
\<close>

definition ModuloTotalCPUs :: "nat \<Rightarrow> nat \<Rightarrow> nat option" where
  "ModuloTotalCPUs hardware_concurrency cpu = Some (cpu mod hardware_concurrency)"

definition ExactCPU :: "nat \<Rightarrow> nat \<Rightarrow> nat option res" where
  "ExactCPU hardware_concurrency cpu = check (cpu < hardware_concurrency) ''specified CPU is not valid'' (Inr (Some cpu))"

text \<open>The random numbers are an argument; the loop draws until a CPU is not in the mask. \<open>None\<close> is that the numbers given do not suffice.\<close>

fun RandomCPU :: "nat list \<Rightarrow> nat list \<Rightarrow> nat option" where
  "RandomCPU cpu_mask [] = None"
| "RandomCPU cpu_mask (cpu # draws) = (if cpu \<in> set cpu_mask then RandomCPU cpu_mask draws else Some cpu)"

text \<open>
  The CPUs of \<^verbatim>\<open>StaticThreadPool::ForkJoin\<close>: the check of its arguments, in which the size of the mask is subtracted from the number of CPUs in a
  \<^verbatim>\<open>size_t\<close>, and the choice of a CPU for each fork, with the random numbers of each fork.
\<close>

definition pool_ForkJoin_check :: "nat \<Rightarrow> nat list \<Rightarrow> nat \<Rightarrow> unit res" where
  "pool_ForkJoin_check hardware_concurrency cpu_mask forks =
     check (list_all (\<lambda>cpu. cpu \<le> hardware_concurrency) cpu_mask) ''CPU mask includes invalid CPUs''
       (check ((of_nat forks :: size_t) \<le> of_nat hardware_concurrency - of_nat (length cpu_mask)) ''Insufficient hardware concurrency''
          (Inr ()))"

fun fork_cpus :: "nat list \<Rightarrow> nat list list \<Rightarrow> nat list option" where
  "fork_cpus cpu_mask [] = Some []"
| "fork_cpus cpu_mask (draws # rest) =
     (case RandomCPU cpu_mask draws of
        None \<Rightarrow> None
      | Some cpu \<Rightarrow> map_option (Cons cpu) (fork_cpus (cpu_mask @ [cpu]) rest))"

end
