(* ===== verification/Thread_Pool.thy ===== *)
theory Thread_Pool
  imports Lock_Machine Pinned
begin

text \<open>
  The static thread pool (\<^verbatim>\<open>static-thread-pool.h\<close>, \<^verbatim>\<open>static-thread-pool.cc\<close>) at the level of its atomic actions.

  Every CPU has a thread with a semaphore and an intrusive list of waiters, newest first. \<^verbatim>\<open>Submit\<close> pushes the waiter of a context onto
  the list of the CPU the context is pinned to and signals the semaphore; the thread waits for the semaphore, takes the oldest waiter off the list and
  runs its callback in the waiter's context.

  A step of the model is one access to a shared word by one thread, with the accesses to memory that is private at that point; any thread may move
  next. A context is named by a number, as is its waiter; a callback is a number. After the compare-and-swap of \<^verbatim>\<open>Submit\<close> only the signal is
  left to do, which \<open>to_signal\<close> counts. \<^verbatim>\<open>compare_exchange_weak\<close> may fail spuriously. Memory is sequentially consistent.
\<close>

section \<open>Memory\<close>

datatype worker_pc =
    WWait | WLoad | WCas wid | WWalk wid | WUnlink wid | WResume wid | WRunning wid | WCheck | WExit

datatype submit_pc = SIdle | SCas

record pool =
  concurrency :: nat
  pinned :: "wid \<Rightarrow> nat option"
  heads :: "nat \<Rightarrow> wid option"
  semaphores :: "nat \<Rightarrow> nat"
  shutdown :: bool
  pnext :: "wid \<Rightarrow> wid option"
  pcontext :: "wid \<Rightarrow> bool"
  pcallback :: "wid \<Rightarrow> nat option"
  blocked :: "wid \<Rightarrow> bool"
  in_use :: "wid \<Rightarrow> nat"
  submit_at :: "wid \<Rightarrow> submit_pc"
  to_signal :: "nat \<Rightarrow> nat"
  worker_at :: "nat \<Rightarrow> worker_pc"
  joining :: "nat \<Rightarrow> bool"
  submitted :: "nat \<Rightarrow> (wid \<times> nat) list"
  ran :: "nat \<Rightarrow> (wid \<times> nat) list"

text \<open>The last two fields record, for every CPU, the order of the successful pushes and of the callbacks that were run.\<close>

definition pool_init :: "nat \<Rightarrow> (wid \<Rightarrow> nat option) \<Rightarrow> pool" where
  "pool_init n pin =
     \<lparr>concurrency = n, pinned = pin, heads = (\<lambda>_. None), semaphores = (\<lambda>_. 0), shutdown = False, pnext = (\<lambda>_. None),
      pcontext = (\<lambda>_. False), pcallback = (\<lambda>_. None), blocked = (\<lambda>_. False), in_use = (\<lambda>_. 0), submit_at = (\<lambda>_. SIdle),
      to_signal = (\<lambda>_. 0), worker_at = (\<lambda>_. WWait), joining = (\<lambda>_. False), submitted = (\<lambda>_. []), ran = (\<lambda>_. [])\<rparr>"

section \<open>Submit and Continuable\<close>

definition pool_cpu :: "wid \<Rightarrow> pool \<Rightarrow> (nat \<Rightarrow> 'a res) \<Rightarrow> 'a res" where
  "pool_cpu w s f = (case pinned s w of None \<Rightarrow> Inl (CheckFailed ''pinned.cpu()'') | Some cpu \<Rightarrow> f cpu)"

definition submit_begin :: "wid \<Rightarrow> nat \<Rightarrow> pool \<Rightarrow> pool res" where
  "submit_begin w callback s =
     check (\<not> blocked s w) ''!context.blocked()''
       (pool_cpu w s (\<lambda>cpu.
          check (cpu < concurrency s) ''cpu < concurrency''
            (let s1 = s\<lparr>blocked := (blocked s)(w := True), pcontext := (pcontext s)(w := True),
                        pcallback := (pcallback s)(w := Some callback)\<rparr>
             in check (pnext s1 w = None) ''waiter->next == nullptr''
                  (Inr (s1\<lparr>pnext := (pnext s1)(w := heads s1 cpu), submit_at := (submit_at s1)(w := SCas)\<rparr>)))))"

definition submit_cas :: "bool \<Rightarrow> wid \<Rightarrow> pool \<Rightarrow> pool res" where
  "submit_cas spurious w s =
     pool_cpu w s (\<lambda>cpu. Inr
       (if heads s cpu = pnext s w \<and> \<not> spurious
        then s\<lparr>heads := (heads s)(cpu := Some w), submit_at := (submit_at s)(w := SIdle),
               to_signal := (to_signal s)(cpu := to_signal s cpu + 1),
               submitted := (submitted s)(cpu := submitted s cpu @ [(w, the (pcallback s w))])\<rparr>
        else s\<lparr>pnext := (pnext s)(w := heads s cpu)\<rparr>))"

definition Semaphore_Signal :: "nat \<Rightarrow> pool \<Rightarrow> pool" where
  "Semaphore_Signal cpu s = s\<lparr>semaphores := (semaphores s)(cpu := semaphores s cpu + 1)\<rparr>"

definition submit_signal :: "nat \<Rightarrow> pool \<Rightarrow> pool" where
  "submit_signal cpu s =
     (if to_signal s cpu = 0 then s
      else Semaphore_Signal cpu (s\<lparr>to_signal := (to_signal s)(cpu := to_signal s cpu - 1)\<rparr>))"

definition pool_Continuable :: "bool \<Rightarrow> nat \<Rightarrow> wid \<Rightarrow> pool \<Rightarrow> bool res" where
  "pool_Continuable member this_cpu w s =
     check (\<not> blocked s w) ''!context.blocked()''
       (check (pnext s w = None) ''context.waiter.next == nullptr''
          (pool_cpu w s (\<lambda>cpu. Inr (member \<and> this_cpu = cpu))))"

section \<open>The thread of a CPU\<close>

definition worker_goto :: "nat \<Rightarrow> worker_pc \<Rightarrow> pool \<Rightarrow> pool" where
  "worker_goto cpu pc s = s\<lparr>worker_at := (worker_at s)(cpu := pc)\<rparr>"

definition Semaphore_Wait :: "nat \<Rightarrow> pool \<Rightarrow> pool" where
  "Semaphore_Wait cpu s =
     (if semaphores s cpu = 0 then s
      else worker_goto cpu WLoad (s\<lparr>semaphores := (semaphores s)(cpu := semaphores s cpu - 1)\<rparr>))"

definition worker_load :: "nat \<Rightarrow> pool \<Rightarrow> pool" where
  "worker_load cpu s =
     (case heads s cpu of
        None \<Rightarrow> worker_goto cpu WCheck s
      | Some waiter \<Rightarrow> worker_goto cpu (if pnext s waiter = None then WCas waiter else WWalk waiter) s)"

definition worker_cas :: "bool \<Rightarrow> nat \<Rightarrow> wid \<Rightarrow> pool \<Rightarrow> pool" where
  "worker_cas spurious cpu waiter s =
     (if heads s cpu = Some waiter \<and> \<not> spurious then worker_goto cpu (WResume waiter) (s\<lparr>heads := (heads s)(cpu := None)\<rparr>)
      else worker_goto cpu WLoad s)"

definition worker_walk :: "nat \<Rightarrow> wid \<Rightarrow> pool \<Rightarrow> pool res" where
  "worker_walk cpu waiter s =
     deref (pnext s waiter) ''waiter->next'' (\<lambda>y.
       Inr (worker_goto cpu (if pnext s y \<noteq> None then WWalk y else WUnlink waiter) s))"

definition worker_unlink :: "nat \<Rightarrow> wid \<Rightarrow> pool \<Rightarrow> pool res" where
  "worker_unlink cpu waiter s =
     deref (pnext s waiter) ''waiter->next'' (\<lambda>y. Inr (worker_goto cpu (WResume y) (s\<lparr>pnext := (pnext s)(waiter := None)\<rparr>)))"

definition worker_resume :: "nat \<Rightarrow> wid \<Rightarrow> pool \<Rightarrow> pool res" where
  "worker_resume cpu waiter s =
     check (pnext s waiter = None) ''waiter->next''
       (check (pcontext s waiter) ''waiter->context''
          (let s1 = s\<lparr>blocked := (blocked s)(waiter := False), in_use := (in_use s)(waiter := in_use s waiter + 1),
                      pcontext := (pcontext s)(waiter := False)\<rparr>
           in case pcallback s1 waiter of
                None \<Rightarrow> Inl (CheckFailed ''waiter->callback'')
              | Some callback \<Rightarrow>
                  Inr (worker_goto cpu (WRunning waiter)
                         (s1\<lparr>pcallback := (pcallback s1)(waiter := None),
                             ran := (ran s1)(cpu := ran s1 cpu @ [(waiter, callback)])\<rparr>))))"

definition worker_return :: "nat \<Rightarrow> wid \<Rightarrow> pool \<Rightarrow> pool" where
  "worker_return cpu context s = worker_goto cpu WCheck (s\<lparr>in_use := (in_use s)(context := in_use s context - 1)\<rparr>)"

definition worker_check :: "nat \<Rightarrow> pool \<Rightarrow> pool" where
  "worker_check cpu s = worker_goto cpu (if \<not> shutdown s then WWait else WExit) s"

definition worker_step :: "bool \<Rightarrow> nat \<Rightarrow> pool \<Rightarrow> pool res" where
  "worker_step spurious cpu s =
     (case worker_at s cpu of
        WWait \<Rightarrow> Inr (Semaphore_Wait cpu s)
      | WLoad \<Rightarrow> Inr (worker_load cpu s)
      | WCas waiter \<Rightarrow> Inr (worker_cas spurious cpu waiter s)
      | WWalk waiter \<Rightarrow> worker_walk cpu waiter s
      | WUnlink waiter \<Rightarrow> worker_unlink cpu waiter s
      | WResume waiter \<Rightarrow> worker_resume cpu waiter s
      | WRunning context \<Rightarrow> Inr (worker_return cpu context s)
      | WCheck \<Rightarrow> Inr (worker_check cpu s)
      | WExit \<Rightarrow> Inr s)"

section \<open>The destructor, steps and executions\<close>

definition destruct_begin :: "pool \<Rightarrow> pool" where
  "destruct_begin s = s\<lparr>shutdown := True\<rparr>"

definition destruct_signal :: "nat \<Rightarrow> pool \<Rightarrow> pool" where
  "destruct_signal cpu s =
     (if shutdown s \<and> \<not> joining s cpu then Semaphore_Signal cpu (s\<lparr>joining := (joining s)(cpu := True)\<rparr>) else s)"

datatype pool_act =
    Submit wid nat | SubmitCas bool wid | SubmitSignal nat | WorkerStep bool nat | Destruct | DestructSignal nat

fun pool_step :: "pool_act \<Rightarrow> pool \<Rightarrow> pool res" where
  "pool_step (Submit w callback) s = submit_begin w callback s"
| "pool_step (SubmitCas spurious w) s = (if submit_at s w = SCas then submit_cas spurious w s else Inr s)"
| "pool_step (SubmitSignal cpu) s = Inr (submit_signal cpu s)"
| "pool_step (WorkerStep spurious cpu) s = worker_step spurious cpu s"
| "pool_step Destruct s = Inr (destruct_begin s)"
| "pool_step (DestructSignal cpu) s = Inr (destruct_signal cpu s)"

inductive pool_reach :: "nat \<Rightarrow> (wid \<Rightarrow> nat option) \<Rightarrow> pool \<Rightarrow> bool" for n pin where
  pool_start: "pool_reach n pin (pool_init n pin)"
| pool_next: "pool_reach n pin s \<Longrightarrow> pool_step a s = Inr s' \<Longrightarrow> pool_reach n pin s'"

fun pool_run :: "pool_act list \<Rightarrow> pool \<Rightarrow> pool res" where
  "pool_run [] s = Inr s"
| "pool_run (a # as) s = rbind (pool_step a s) (pool_run as)"

lemma pool_run_reach: "pool_reach n pin s \<Longrightarrow> pool_run as s = Inr s' \<Longrightarrow> pool_reach n pin s'"
  by (induction as arbitrary: s) (auto intro: pool_next)

end
