(* ===== verification/Thread_Pool_Theorems.thy ===== *)
theory Thread_Pool_Theorems
  imports Thread_Pool
begin

text \<open>
  The static thread pool runs what is submitted: the callbacks of a CPU are run by its thread, each once, in the order in which they were submitted;
  a thread sleeps only when it has nothing to run; and no check fails unless a context is submitted twice. The lists in memory are related to
  queues by an inductive invariant over all interleavings.
\<close>

section \<open>The invariant\<close>

lemma lpath_cong: "(\<And>w. w \<in> set q \<Longrightarrow> n' w = n w) \<Longrightarrow> lpath n' p q = lpath n p q"
  by (induction q arbitrary: p) auto

definition last_pair :: "wid list \<Rightarrow> wid \<Rightarrow> wid \<Rightarrow> bool" where
  "last_pair q x y \<longleftrightarrow> (\<exists>ys. q = ys @ [x, y])"

lemma last_pair_Cons: "last_pair q x y \<Longrightarrow> last_pair (w # q) x y"
  unfolding last_pair_def by (metis append_Cons)

fun token :: "worker_pc \<Rightarrow> nat" where
  "token WLoad = 1"
| "token (WCas x) = 1"
| "token (WWalk x) = 1"
| "token (WUnlink x) = 1"
| "token _ = 0"

fun worker_ok :: "worker_pc \<Rightarrow> wid list \<Rightarrow> bool" where
  "worker_ok (WCas x) q \<longleftrightarrow> q \<noteq> [] \<and> last q = x"
| "worker_ok (WWalk x) q \<longleftrightarrow> x \<in> set q \<and> x \<noteq> last q"
| "worker_ok (WUnlink x) q \<longleftrightarrow> (\<exists>y. last_pair q x y)"
| "worker_ok (WResume x) q \<longleftrightarrow> x \<notin> set q"
| "worker_ok _ q \<longleftrightarrow> True"

fun resuming :: "worker_pc \<Rightarrow> wid list" where
  "resuming (WResume w) = [w]"
| "resuming _ = []"

definition jobs :: "pool \<Rightarrow> wid list \<Rightarrow> (wid \<times> nat) list" where
  "jobs s ws = map (\<lambda>w. (w, the (pcallback s w))) ws"

definition queue_inv :: "pool \<Rightarrow> nat \<Rightarrow> wid list \<Rightarrow> bool" where
  "queue_inv s c q \<longleftrightarrow>
     lpath (pnext s) (heads s c) q \<and> distinct q \<and> worker_ok (worker_at s c) q \<and>
     (\<forall>w\<in>set (resuming (worker_at s c)) \<union> set q. pinned s w = Some c \<and> submit_at s w = SIdle) \<and>
     submitted s c = ran s c @ jobs s (resuming (worker_at s c) @ rev q)"

definition count_inv :: "pool \<Rightarrow> nat \<Rightarrow> wid list \<Rightarrow> bool" where
  "count_inv s c q \<longleftrightarrow>
     length q \<le> semaphores s c + to_signal s c + token (worker_at s c) \<and>
     (\<not> shutdown s \<longrightarrow> length q = semaphores s c + to_signal s c + token (worker_at s c))"

definition pending :: "pool \<Rightarrow> (nat \<Rightarrow> wid list) \<Rightarrow> wid \<Rightarrow> bool" where
  "pending s q w \<longleftrightarrow> submit_at s w = SCas \<or> (\<exists>c. w \<in> set (q c) \<or> w \<in> set (resuming (worker_at s c)))"

definition waiter_inv :: "pool \<Rightarrow> (nat \<Rightarrow> wid list) \<Rightarrow> wid \<Rightarrow> bool" where
  "waiter_inv s q w \<longleftrightarrow>
     (blocked s w \<longleftrightarrow> pending s q w) \<and>
     (pending s q w \<longrightarrow> pcontext s w \<and> pcallback s w \<noteq> None \<and> (\<exists>c<concurrency s. pinned s w = Some c)) \<and>
     ((\<forall>c. w \<notin> set (q c)) \<and> submit_at s w = SIdle \<longrightarrow> pnext s w = None)"

definition pool_inv :: "pool \<Rightarrow> (nat \<Rightarrow> wid list) \<Rightarrow> bool" where
  "pool_inv s q \<longleftrightarrow> (\<forall>c. queue_inv s c (q c)) \<and> (\<forall>c. count_inv s c (q c)) \<and> (\<forall>w. waiter_inv s q w)"

lemma pool_invI:
  assumes "\<And>c. queue_inv s c (q c)" "\<And>c. count_inv s c (q c)" "\<And>w. waiter_inv s q w"
  shows "pool_inv s q"
  using assms by (simp add: pool_inv_def)

lemma pool_invD:
  assumes "pool_inv s q"
  shows "queue_inv s c (q c)" "count_inv s c (q c)" "waiter_inv s q w"
  using assms by (simp_all add: pool_inv_def)

lemma pool_inv_init: "pool_inv (pool_init n pin) (\<lambda>_. [])"
  by (simp add: pool_inv_def queue_inv_def count_inv_def waiter_inv_def pending_def pool_init_def jobs_def)

lemma queueD:
  assumes "queue_inv s c q"
  shows "lpath (pnext s) (heads s c) q" "distinct q" "worker_ok (worker_at s c) q"
    "w \<in> set q \<Longrightarrow> pinned s w = Some c" "w \<in> set q \<Longrightarrow> submit_at s w = SIdle"
    "w \<in> set (resuming (worker_at s c)) \<Longrightarrow> pinned s w = Some c" "w \<in> set (resuming (worker_at s c)) \<Longrightarrow> submit_at s w = SIdle"
    "submitted s c = ran s c @ jobs s (resuming (worker_at s c) @ rev q)"
  using assms by (auto simp: queue_inv_def)

text \<open>A step that touches no waiter of a CPU and none of the CPU's own variables keeps the CPU's queue.\<close>

lemma queue_inv_frame:
  assumes "queue_inv s c q"
    and "\<And>w. w \<in> set q \<or> w \<in> set (resuming (worker_at s c)) \<Longrightarrow>
      pnext s' w = pnext s w \<and> pcallback s' w = pcallback s w \<and> submit_at s' w = submit_at s w"
    and "pinned s' = pinned s" "heads s' c = heads s c" "worker_at s' c = worker_at s c" "submitted s' c = submitted s c"
      "ran s' c = ran s c"
  shows "queue_inv s' c q"
proof -
  have "lpath (pnext s') (heads s c) q = lpath (pnext s) (heads s c) q" using assms(2) by (intro lpath_cong) simp
  moreover have "jobs s' (resuming (worker_at s c) @ rev q) = jobs s (resuming (worker_at s c) @ rev q)"
    unfolding jobs_def using assms(2) by (intro map_cong) auto
  ultimately show ?thesis using assms by (auto simp: queue_inv_def)
qed

section \<open>Submit\<close>

lemma not_pendingD:
  assumes "pool_inv s q" "\<not> blocked s w"
  shows "submit_at s w = SIdle" "w \<notin> set (q c)" "w \<notin> set (resuming (worker_at s c))" "pnext s w = None"
proof -
  have n: "\<not> pending s q w" using pool_invD(3)[OF assms(1), of w] assms(2) by (simp add: waiter_inv_def)
  then show s: "submit_at s w = SIdle" by (cases "submit_at s w") (auto simp: pending_def)
  show "w \<notin> set (q c)" "w \<notin> set (resuming (worker_at s c))" using n by (auto simp: pending_def)
  show "pnext s w = None" using pool_invD(3)[OF assms(1), of w] n s by (auto simp: waiter_inv_def pending_def)
qed

lemma inv_submit_begin:
  assumes i: "pool_inv s q" and nb: "\<not> blocked s w" and pin: "pinned s w = Some c" "c < concurrency s"
  shows "\<exists>s'. submit_begin w cb s = Inr s' \<and> pool_inv s' q"
proof -
  let ?s = "s\<lparr>blocked := (blocked s)(w := True), pcontext := (pcontext s)(w := True), pcallback := (pcallback s)(w := Some cb),
    pnext := (pnext s)(w := heads s c), submit_at := (submit_at s)(w := SCas)\<rparr>"
  note d = not_pendingD[OF i nb]
  have "submit_begin w cb s = Inr ?s" using nb pin d(4) by (simp add: submit_begin_def pool_cpu_def Let_def)
  moreover have "pool_inv ?s q"
  proof (rule pool_invI)
    fix c' show "queue_inv ?s c' (q c')"
      by (rule queue_inv_frame[OF pool_invD(1)[OF i]]) (use d in auto)
    show "count_inv ?s c' (q c')" using pool_invD(2)[OF i, of c'] by (simp add: count_inv_def)
  next
    fix v show "waiter_inv ?s q v"
      using pool_invD(3)[OF i, of v] pin d by (auto simp: waiter_inv_def pending_def)
  qed
  ultimately show ?thesis by blast
qed

lemma submittingD:
  assumes "pool_inv s q" "submit_at s w = SCas"
  shows "w \<notin> set (q c)" "w \<notin> set (resuming (worker_at s c))" "\<exists>c<concurrency s. pinned s w = Some c"
  using pool_invD(1)[OF assms(1), of c] pool_invD(3)[OF assms(1), of w] assms(2) queueD(5,7)[of s c "q c" w]
  by (auto simp: waiter_inv_def pending_def)

lemma worker_ok_Cons: "worker_ok p q \<Longrightarrow> w \<notin> set (resuming p) \<Longrightarrow> w \<notin> set q \<Longrightarrow> worker_ok p (w # q)"
  by (cases p) (auto dest: last_pair_Cons)

lemma inv_submit_cas:
  assumes i: "pool_inv s q" and w: "submit_at s w = SCas"
  shows "\<exists>s' q'. submit_cas b w s = Inr s' \<and> pool_inv s' q'"
proof -
  note d = submittingD[OF assms]
  obtain c where c: "pinned s w = Some c" "c < concurrency s" using d(3) by blast
  show ?thesis
  proof (cases "heads s c = pnext s w \<and> \<not> b")
    case True
    let ?s = "s\<lparr>heads := (heads s)(c := Some w), submit_at := (submit_at s)(w := SIdle), to_signal := (to_signal s)(c := to_signal s c + 1),
      submitted := (submitted s)(c := submitted s c @ [(w, the (pcallback s w))])\<rparr>"
    let ?q = "q(c := w # q c)"
    note qc = queueD[OF pool_invD(1)[OF i, of c]]
    have "submit_cas b w s = Inr ?s" using True c by (simp add: submit_cas_def pool_cpu_def)
    moreover have "pool_inv ?s ?q"
    proof (rule pool_invI)
      fix c' show "queue_inv ?s c' (?q c')"
      proof (cases "c' = c")
        case c': True
        have "lpath (pnext s) (Some w) (w # q c)" using qc(1) True by simp
        moreover have "distinct (w # q c)" using qc(2) d(1) by simp
        moreover have "\<forall>v\<in>set (resuming (worker_at s c)) \<union> set (w # q c). pinned s v = Some c \<and> ((submit_at s)(w := SIdle)) v = SIdle"
          using qc(4-7) c(1) by auto
        moreover have "submitted s c @ [(w, the (pcallback s w))] = ran s c @ jobs s (resuming (worker_at s c) @ rev (w # q c))"
          using qc(8) by (simp add: jobs_def)
        ultimately show ?thesis using worker_ok_Cons[OF qc(3) d(2,1)] by (simp add: c' queue_inv_def jobs_def)
      next
        case False
        show ?thesis
          using False d by (auto intro!: queue_inv_frame[OF pool_invD(1)[OF i, of c']])
      qed
      show "count_inv ?s c' (?q c')" using pool_invD(2)[OF i, of c'] by (auto simp: count_inv_def)
    next
      fix v show "waiter_inv ?s ?q v"
      proof (cases "v = w")
        case True
        then show ?thesis using pool_invD(3)[OF i, of w] w c by (auto simp: waiter_inv_def pending_def)
      next
        case False
        have "v \<in> set (?q c') \<longleftrightarrow> v \<in> set (q c')" for c' using False by simp
        then show ?thesis using pool_invD(3)[OF i, of v] False by (simp add: waiter_inv_def pending_def del: fun_upd_apply) simp
      qed
    qed
    ultimately show ?thesis by blast
  next
    case False
    let ?s = "s\<lparr>pnext := (pnext s)(w := heads s c)\<rparr>"
    have "submit_cas b w s = Inr ?s" using False c by (auto simp: submit_cas_def pool_cpu_def)
    moreover have "pool_inv ?s q"
    proof (rule pool_invI)
      fix c' show "queue_inv ?s c' (q c')"
        by (rule queue_inv_frame[OF pool_invD(1)[OF i]]) (use d in auto)
      show "count_inv ?s c' (q c')" using pool_invD(2)[OF i, of c'] by (simp add: count_inv_def)
    next
      fix v show "waiter_inv ?s q v"
        using pool_invD(3)[OF i, of v] w by (auto simp: waiter_inv_def pending_def)
    qed
    ultimately show ?thesis by blast
  qed
qed

section \<open>Signals and the destructor\<close>

lemma inv_same_memory:
  assumes i: "pool_inv s q"
    and same: "pinned s' = pinned s" "heads s' = heads s" "pnext s' = pnext s" "pcontext s' = pcontext s" "pcallback s' = pcallback s"
      "blocked s' = blocked s" "submit_at s' = submit_at s" "submitted s' = submitted s" "ran s' = ran s" "concurrency s' = concurrency s"
    and worker: "\<And>c. worker_ok (worker_at s' c) (q c) \<and> resuming (worker_at s' c) = resuming (worker_at s c)"
    and count: "\<And>c. count_inv s' c (q c)"
  shows "pool_inv s' q"
proof (rule pool_invI)
  fix c
  show "queue_inv s' c (q c)" using pool_invD(1)[OF i, of c] worker by (simp add: queue_inv_def jobs_def same)
  show "count_inv s' c (q c)" by (rule count)
next
  fix w show "waiter_inv s' q w" using pool_invD(3)[OF i, of w] worker by (simp add: waiter_inv_def pending_def same)
qed

lemma inv_signals:
  assumes "pool_inv s q"
  shows "pool_inv (submit_signal c s) q" "pool_inv (destruct_begin s) q" "pool_inv (destruct_signal c s) q"
proof -
  note w = queueD(3)[OF pool_invD(1)[OF assms]] and n = pool_invD(2)[OF assms]
  show "pool_inv (submit_signal c s) q"
  proof (rule inv_same_memory[OF assms])
    fix c' show "count_inv (submit_signal c s) c' (q c')"
      using n[of c'] by (auto simp: submit_signal_def Semaphore_Signal_def count_inv_def)
  qed (simp_all add: submit_signal_def Semaphore_Signal_def w)
  show "pool_inv (destruct_begin s) q"
    by (rule inv_same_memory[OF assms]) (use n in \<open>simp_all add: destruct_begin_def w count_inv_def\<close>)
  show "pool_inv (destruct_signal c s) q"
  proof (rule inv_same_memory[OF assms])
    fix c' show "count_inv (destruct_signal c s) c' (q c')"
      using n[of c'] by (auto simp: destruct_signal_def Semaphore_Signal_def count_inv_def)
  qed (simp_all add: destruct_signal_def Semaphore_Signal_def w)
qed

section \<open>The thread of a CPU\<close>

lemma inv_goto:
  assumes "pool_inv s q" "worker_ok pc (q c)" "resuming pc = resuming (worker_at s c)" "token pc = token (worker_at s c)"
  shows "pool_inv (worker_goto c pc s) q"
proof (rule inv_same_memory[OF assms(1)])
  fix c' show "count_inv (worker_goto c pc s) c' (q c')"
    using pool_invD(2)[OF assms(1), of c'] assms(4) by (auto simp: worker_goto_def count_inv_def)
  show "worker_ok (worker_at (worker_goto c pc s) c') (q c') \<and>
      resuming (worker_at (worker_goto c pc s) c') = resuming (worker_at s c')"
    using queueD(3)[OF pool_invD(1)[OF assms(1)], of c'] assms(2,3) by (simp add: worker_goto_def)
qed (simp_all add: worker_goto_def)

lemma inv_sem_wait:
  assumes i: "pool_inv s q" and "worker_at s c = WWait"
  shows "pool_inv (Semaphore_Wait c s) q"
proof (rule inv_same_memory[OF i])
  fix c' show "count_inv (Semaphore_Wait c s) c' (q c')"
    using pool_invD(2)[OF i, of c'] assms(2) by (auto simp: Semaphore_Wait_def worker_goto_def count_inv_def)
  show "worker_ok (worker_at (Semaphore_Wait c s) c') (q c') \<and> resuming (worker_at (Semaphore_Wait c s) c') = resuming (worker_at s c')"
    using queueD(3)[OF pool_invD(1)[OF i], of c'] assms(2) by (simp add: Semaphore_Wait_def worker_goto_def)
qed (simp_all add: Semaphore_Wait_def worker_goto_def)

lemma inv_load:
  assumes i: "pool_inv s q" and at: "worker_at s c = WLoad"
  shows "pool_inv (worker_load c s) q"
proof (cases "heads s c")
  case None
  note qc = queueD[OF pool_invD(1)[OF i, of c]]
  have "q c = []" using qc(1) None by simp
  then have "count_inv (worker_goto c WCheck s) c' (q c')" for c'
    using pool_invD(2)[OF i, of c'] at by (auto simp: count_inv_def worker_goto_def)
  moreover have "worker_ok (worker_at (worker_goto c WCheck s) c') (q c') \<and>
      resuming (worker_at (worker_goto c WCheck s) c') = resuming (worker_at s c')" for c'
    using queueD(3)[OF pool_invD(1)[OF i], of c'] at by (simp add: worker_goto_def)
  ultimately have "pool_inv (worker_goto c WCheck s) q"
    by (intro inv_same_memory[OF i]) (simp_all add: worker_goto_def)
  then show ?thesis using None by (simp add: worker_load_def)
next
  case (Some x)
  note qc = queueD[OF pool_invD(1)[OF i, of c]]
  have x: "x \<in> set (q c)" using lpath_head[OF qc(1)] Some by (auto split: list.splits)
  then have "worker_ok (if pnext s x = None then WCas x else WWalk x) (q c)"
    using lpath_next[OF qc(1,2) x] by auto
  then show ?thesis using Some at by (auto simp: worker_load_def intro!: inv_goto[OF i])
qed

lemma inv_walk:
  assumes i: "pool_inv s q" and at: "worker_at s c = WWalk x"
  shows "\<exists>s'. worker_walk c x s = Inr s' \<and> pool_inv s' q"
proof -
  note qc = queueD[OF pool_invD(1)[OF i, of c]]
  have x: "x \<in> set (q c)" "x \<noteq> last (q c)" using qc(3) at by auto
  then obtain y where y: "pnext s x = Some y" using lpath_next[OF qc(1,2) x(1)] by auto
  from lpath_succ[OF qc(1) x(1) y] obtain ys zs where q: "q c = ys @ x # y # zs" by blast
  then have "y \<in> set (q c)" by simp
  note n = lpath_next[OF qc(1,2) this]
  have "worker_ok (if pnext s y \<noteq> None then WWalk y else WUnlink x) (q c)"
  proof (cases "pnext s y = None")
    case True
    then have "zs = []" using n q qc(2) by (cases zs rule: rev_cases) auto
    then show ?thesis using q True by (auto simp: last_pair_def)
  next
    case False
    then show ?thesis using n q by simp
  qed
  then have "pool_inv (worker_goto c (if pnext s y \<noteq> None then WWalk y else WUnlink x) s) q"
    using at by (intro inv_goto[OF i]) auto
  then show ?thesis using y by (simp add: worker_walk_def)
qed

text \<open>Taking the oldest waiter off the list, in either of the two ways.\<close>

lemma inv_take:
  assumes i: "pool_inv s q" and tok: "token (worker_at s c) = 1" and q: "q c = ys @ [y]"
    and path: "lpath (pnext s') (heads s' c) ys"
    and other: "\<And>w. w \<notin> set ys \<Longrightarrow> pnext s' w = pnext s w" "\<And>c'. c' \<noteq> c \<Longrightarrow> heads s' c' = heads s c'"
    and same: "pinned s' = pinned s" "pcontext s' = pcontext s" "pcallback s' = pcallback s" "blocked s' = blocked s"
      "submit_at s' = submit_at s" "submitted s' = submitted s" "ran s' = ran s" "concurrency s' = concurrency s"
      "semaphores s' = semaphores s" "to_signal s' = to_signal s" "shutdown s' = shutdown s"
      "worker_at s' = (worker_at s)(c := WResume y)"
  shows "pool_inv s' (q(c := ys))"
proof (rule pool_invI)
  note qc = queueD[OF pool_invD(1)[OF i, of c]]
  have r: "resuming (worker_at s c) = []" using tok by (cases "worker_at s c") auto
  have d: "y \<notin> set ys" "distinct ys" using qc(2) q by auto
  have y: "y \<in> set (q c)" using q by simp
  fix c'
  show "queue_inv s' c' ((q(c := ys)) c')"
  proof (cases "c' = c")
    case True
    have "submitted s c = ran s c @ jobs s (y # rev ys)" using qc(8) r q by simp
    then show ?thesis using True path d qc(4,5) q y by (auto simp: queue_inv_def same jobs_def)
  next
    case False
    have "w \<notin> set ys" if "w \<in> set (q c') \<or> w \<in> set (resuming (worker_at s c'))" for w
      using that False q qc(4)[of w] queueD(4,6)[OF pool_invD(1)[OF i, of c'], of w] by auto
    then show ?thesis using False other by (auto simp: same intro!: queue_inv_frame[OF pool_invD(1)[OF i, of c']])
  qed
  show "count_inv s' c' ((q(c := ys)) c')"
    using pool_invD(2)[OF i, of c'] tok q by (auto simp: count_inv_def same)
next
  note qc = queueD[OF pool_invD(1)[OF i, of c]]
  have r: "resuming (worker_at s c) = []" using tok by (cases "worker_at s c") auto
  fix w
  have p: "pending s' (q(c := ys)) w \<longleftrightarrow> pending s q w"
  proof -
    have "w \<in> set ((q(c := ys)) c') \<or> w \<in> set (resuming (worker_at s' c')) \<longleftrightarrow>
        w \<in> set (q c') \<or> w \<in> set (resuming (worker_at s c'))" for c'
      using q r by (auto simp: same)
    then show ?thesis unfolding pending_def same(5) by simp
  qed
  have "pnext s' w = None" if "\<forall>c'. w \<notin> set ((q(c := ys)) c')" "submit_at s w = SIdle"
  proof (cases "w = y")
    case True
    have "pnext s y = None" using lpath_next[OF qc(1,2), of y] q by simp
    then show ?thesis using True other(1)[of y] qc(2) q by auto
  next
    case False
    have "w \<notin> set ys" using that(1) by (metis fun_upd_same)
    moreover have "w \<notin> set (q c')" for c'
      using that(1)[rule_format, of c'] False q \<open>w \<notin> set ys\<close> by (cases "c' = c") auto
    ultimately show ?thesis using pool_invD(3)[OF i, of w] that(2) other(1)[of w] by (simp add: waiter_inv_def)
  qed
  then show "waiter_inv s' (q(c := ys)) w" using pool_invD(3)[OF i, of w] p by (simp add: waiter_inv_def same)
qed

lemma inv_cas:
  assumes i: "pool_inv s q" and at: "worker_at s c = WCas x"
  shows "\<exists>q'. pool_inv (worker_cas b c x s) q'"
proof (cases "heads s c = Some x \<and> \<not> b")
  case True
  note qc = queueD[OF pool_invD(1)[OF i, of c]]
  have "q c = [] @ [x]" using lpath_single[of "pnext s" x "q c"] qc(1-3) at True by simp
  then have "pool_inv (worker_goto c (WResume x) (s\<lparr>heads := (heads s)(c := None)\<rparr>)) (q(c := []))"
    using at by (intro inv_take[OF i]) (simp_all add: worker_goto_def)
  then show ?thesis using True by (auto simp: worker_cas_def)
next
  case False
  have "pool_inv (worker_goto c WLoad s) q" using at by (intro inv_goto[OF i]) simp_all
  then show ?thesis using False by (auto simp: worker_cas_def)
qed

lemma inv_unlink:
  assumes i: "pool_inv s q" and at: "worker_at s c = WUnlink x"
  shows "\<exists>s' q'. worker_unlink c x s = Inr s' \<and> pool_inv s' q'"
proof -
  note qc = queueD[OF pool_invD(1)[OF i, of c]]
  obtain ys y where q: "q c = ys @ [x, y]" using qc(3) at by (auto simp: last_pair_def)
  have y: "pnext s x = Some y" using lpath_tail[of "pnext s" "heads s c" ys x y "[]"] qc(1) q by simp
  have "lpath ((pnext s)(x := None)) (heads s c) (ys @ [x])"
    using lpath_unlink[of "pnext s" "heads s c" ys x y] qc(1,2) q by simp
  then have "pool_inv (worker_goto c (WResume y) (s\<lparr>pnext := (pnext s)(x := None)\<rparr>)) (q(c := ys @ [x]))"
    using at q by (intro inv_take[OF i]) (auto simp: worker_goto_def)
  then show ?thesis using y by (auto simp: worker_unlink_def)
qed

lemma inv_resume:
  assumes i: "pool_inv s q" and at: "worker_at s c = WResume y"
  shows "\<exists>s'. worker_resume c y s = Inr s' \<and> pool_inv s' q"
proof -
  note qc = queueD[OF pool_invD(1)[OF i, of c]]
  have p: "pending s q y" "pinned s y = Some c" "submit_at s y = SIdle" "y \<notin> set (q c)"
    using at qc(3,6,7) by (auto simp: pending_def intro: exI[of _ c])
  have here: "y \<notin> set (q c')" "y \<notin> set (resuming (worker_at s c')) \<or> c' = c" for c'
    using queueD(4,6)[OF pool_invD(1)[OF i, of c'], of y] p(2,4) by auto
  obtain cb where cb: "pcallback s y = Some cb" "pcontext s y" "pnext s y = None"
    using pool_invD(3)[OF i, of y] p(1,3) here by (auto simp: waiter_inv_def)
  let ?s = "worker_goto c (WRunning y) (s\<lparr>blocked := (blocked s)(y := False), in_use := (in_use s)(y := in_use s y + 1),
    pcontext := (pcontext s)(y := False), pcallback := (pcallback s)(y := None), ran := (ran s)(c := ran s c @ [(y, cb)])\<rparr>)"
  have "worker_resume c y s = Inr ?s" using cb by (simp add: worker_resume_def Let_def)
  moreover have "pool_inv ?s q"
  proof (rule pool_invI)
    fix c' show "queue_inv ?s c' (q c')"
    proof (cases "c' = c")
      case True
      have "jobs ?s (rev (q c)) = jobs s (rev (q c))" unfolding jobs_def using p(4) by (intro map_cong) (auto simp: worker_goto_def)
      moreover have "submitted s c = (ran s c @ [(y, cb)]) @ jobs s (rev (q c))" using qc(8) at cb(1) by (simp add: jobs_def)
      moreover have "submitted ?s c = submitted s c" "ran ?s c = ran s c @ [(y, cb)]" "worker_at ?s c = WRunning y" "pnext ?s = pnext s"
          "heads ?s = heads s" "pinned ?s = pinned s" "submit_at ?s = submit_at s"
        by (simp_all add: worker_goto_def)
      ultimately show ?thesis using True qc(1,2,4,5) by (auto simp: queue_inv_def)
    next
      case False
      then show ?thesis using here by (auto simp: worker_goto_def intro!: queue_inv_frame[OF pool_invD(1)[OF i, of c']])
    qed
    show "count_inv ?s c' (q c')" using pool_invD(2)[OF i, of c'] at by (auto simp: count_inv_def worker_goto_def)
  next
    fix v
    have "pending ?s q v \<longleftrightarrow> pending s q v \<and> v \<noteq> y"
    proof -
      have "v \<in> set (q c') \<or> v \<in> set (resuming (worker_at ?s c')) \<longleftrightarrow>
          (v \<in> set (q c') \<or> v \<in> set (resuming (worker_at s c'))) \<and> v \<noteq> y" for c'
      proof (cases "c' = c")
        case True
        then show ?thesis using p(4) at by (auto simp: worker_goto_def)
      next
        case False
        have "worker_at ?s c' = worker_at s c'" using False by (simp add: worker_goto_def)
        then show ?thesis using here[of c'] False by metis
      qed
      moreover have "submit_at ?s = submit_at s" by (simp add: worker_goto_def)
      moreover have "submit_at s v = SCas \<Longrightarrow> v \<noteq> y" using p(3) by auto
      ultimately show ?thesis unfolding pending_def by (simp only: simp_thms) blast
    qed
    moreover have "pnext ?s = pnext s" "submit_at ?s = submit_at s" "concurrency ?s = concurrency s" "pinned ?s = pinned s"
      "blocked ?s v = (blocked s v \<and> v \<noteq> y)" "v \<noteq> y \<Longrightarrow> pcontext ?s v = pcontext s v" "v \<noteq> y \<Longrightarrow> pcallback ?s v = pcallback s v"
      by (simp_all add: worker_goto_def)
    ultimately show "waiter_inv ?s q v"
      using pool_invD(3)[OF i, of v] unfolding waiter_inv_def by (cases "v = y") simp_all
  qed
  ultimately show ?thesis by blast
qed

lemma inv_return:
  assumes i: "pool_inv s q" and at: "worker_at s c = WRunning y"
  shows "pool_inv (worker_return c y s) q"
proof -
  have "pool_inv (s\<lparr>in_use := f\<rparr>) q" for f
    by (rule inv_same_memory[OF i]) (use pool_invD(2)[OF i] queueD(3)[OF pool_invD(1)[OF i]] in \<open>simp_all add: count_inv_def\<close>)
  then show ?thesis unfolding worker_return_def by (rule inv_goto) (use at in simp_all)
qed

lemma inv_check:
  assumes i: "pool_inv s q" and at: "worker_at s c = WCheck"
  shows "pool_inv (worker_check c s) q"
  unfolding worker_check_def by (rule inv_goto[OF i]) (use at in simp_all)

lemma inv_worker:
  assumes i: "pool_inv s q"
  shows "\<exists>s' q'. worker_step b c s = Inr s' \<and> pool_inv s' q'"
proof (cases "worker_at s c")
  case (WCas x)
  then show ?thesis using inv_cas[OF i, of c x b] by (simp add: worker_step_def)
next
  case (WWalk x)
  then show ?thesis using inv_walk[OF i, of c x] by (auto simp: worker_step_def)
next
  case (WUnlink x)
  then show ?thesis using inv_unlink[OF i, of c x] by (simp add: worker_step_def)
next
  case (WResume x)
  then show ?thesis using inv_resume[OF i, of c x] by (auto simp: worker_step_def)
next
  case WCheck
  then show ?thesis using inv_check[OF i, of c] by (auto simp: worker_step_def)
next
  case (WRunning x)
  then show ?thesis using inv_return[OF i, of c x] by (auto simp: worker_step_def)
qed (use i inv_sem_wait[OF i, of c] inv_load[OF i, of c] in \<open>auto simp: worker_step_def\<close>)

section \<open>Executions\<close>

lemma inv_step:
  assumes i: "pool_inv s q"
  shows "(\<exists>s' q'. pool_step a s = Inr s' \<and> pool_inv s' q') \<or>
    (\<exists>w cb. a = Submit w cb \<and> (blocked s w \<or> (\<forall>c<concurrency s. pinned s w \<noteq> Some c)) \<and> (\<exists>e. pool_step a s = Inl e))"
proof (cases a)
  case (Submit w cb)
  show ?thesis
  proof (cases "blocked s w \<or> (\<forall>c<concurrency s. pinned s w \<noteq> Some c)")
    case True
    then have "\<exists>e. submit_begin w cb s = Inl e"
      by (cases "pinned s w") (auto simp: submit_begin_def pool_cpu_def check_def)
    then show ?thesis using Submit True by auto
  next
    case False
    then show ?thesis using inv_submit_begin[OF i, of w] Submit by fastforce
  qed
next
  case (SubmitCas b w)
  then show ?thesis using inv_submit_cas[OF i, of w b] i by (cases "submit_at s w = SCas") auto
next
  case (WorkerStep b c)
  then show ?thesis using inv_worker[OF i, of b c] by simp
qed (use inv_signals[OF i] in auto)

lemma pool_reach_inv: "pool_reach n pin s \<Longrightarrow> \<exists>q. pool_inv s q"
proof (induction rule: pool_reach.induct)
  case pool_start
  show ?case using pool_inv_init by blast
next
  case (pool_next s a s')
  then obtain q where "pool_inv s q" by blast
  from inv_step[OF this, of a] show ?case using pool_next(2) by auto
qed

abbreviation worker_alone :: "nat \<Rightarrow> pool \<Rightarrow> pool \<Rightarrow> bool" where
  "worker_alone c \<equiv> star (\<lambda>s s'. worker_step False c s = Inr s')"

lemma alone_step: "worker_step False c s = Inr t \<Longrightarrow> worker_alone c t u \<Longrightarrow> worker_alone c s u"
  by (rule star_step)

lemma alone_one: "worker_step False c s = Inr t \<Longrightarrow> worker_alone c s t"
  by (rule star_one)

lemma walk_reaches_end:
  assumes "pool_inv s q" "worker_at s c = WWalk x" "q c = ys @ x # zs @ [y]"
  shows "\<exists>s' x'. worker_alone c s s' \<and> pool_inv s' q \<and> worker_at s' c = WUnlink x' \<and> ran s' c = ran s c"
  using assms
proof (induction zs arbitrary: s x ys)
  case Nil
  obtain s' where s': "worker_walk c x s = Inr s'" "pool_inv s' q" using inv_walk[OF Nil(1,2)] by blast
  note qc = queueD[OF pool_invD(1)[OF Nil(1), of c]]
  have "pnext s x = Some y" using lpath_tail[of "pnext s" "heads s c" ys x y "[]"] qc(1) Nil(3) by simp
  moreover have "pnext s y = None" using lpath_next[OF qc(1,2), of y] Nil(3) by simp
  ultimately have "worker_at s' c = WUnlink x" "ran s' c = ran s c" using s'(1) by (auto simp: worker_walk_def worker_goto_def)
  moreover have "worker_alone c s s'" using s'(1) Nil(2) by (auto simp: worker_step_def)
  ultimately show ?case using s'(2) by blast
next
  case (Cons z zs)
  obtain s' where s': "worker_walk c x s = Inr s'" "pool_inv s' q" using inv_walk[OF Cons(2,3)] by blast
  note qc = queueD[OF pool_invD(1)[OF Cons(2), of c]]
  have "pnext s x = Some z" using lpath_tail[of "pnext s" "heads s c" ys x z "zs @ [y]"] qc(1) Cons(4) by simp
  moreover have "pnext s z \<noteq> None" using lpath_next[OF qc(1,2), of z] Cons(4) qc(2) by auto
  ultimately have s'': "worker_at s' c = WWalk z" "ran s' c = ran s c" using s'(1) by (auto simp: worker_walk_def worker_goto_def)
  from Cons(1)[OF s'(2) s''(1), of "ys @ [x]"] Cons(4) obtain t x' where
    "worker_alone c s' t" "pool_inv t q" "worker_at t c = WUnlink x'" "ran t c = ran s' c" by auto
  moreover have "worker_step False c s = Inr s'" using s'(1) Cons(3) by (simp add: worker_step_def)
  ultimately show ?case using s''(2) alone_step[of c s s' t] by auto
qed

lemma resume_runs:
  assumes "pool_inv s q" "worker_at s c = WResume y"
  shows "\<exists>s' cb. worker_step False c s = Inr s' \<and> worker_at s' c = WRunning y \<and> ran s' c = ran s c @ [(y, cb)] \<and>
    (\<exists>rest. submitted s' c = ran s' c @ rest) \<and> submitted s' c = submitted s c"
proof -
  obtain s' where s': "worker_resume c y s = Inr s'" "pool_inv s' q" using inv_resume[OF assms] by blast
  then obtain cb where "worker_at s' c = WRunning y" "ran s' c = ran s c @ [(y, cb)]" "submitted s' c = submitted s c"
    by (auto simp: worker_resume_def worker_goto_def Let_def split: option.splits)
  moreover have "\<exists>rest. submitted s' c = ran s' c @ rest" using queueD(8)[OF pool_invD(1)[OF s'(2), of c]] by blast
  ultimately show ?thesis using s'(1) assms(2) by (auto simp: worker_step_def)
qed

lemma worker_submitted:
  assumes "worker_step b c s = Inr s'"
  shows "submitted s' = submitted s"
proof -
  have "submitted (Semaphore_Wait c s) = submitted s" "submitted (worker_load c s) = submitted s"
    "submitted (worker_cas b c x s) = submitted s" "submitted (worker_return c x s) = submitted s"
    "submitted (worker_check c s) = submitted s" for x
    by (simp_all add: Semaphore_Wait_def worker_load_def worker_cas_def worker_return_def worker_check_def worker_goto_def split: option.split)
  moreover have "worker_walk c x s = Inr s' \<or> worker_unlink c x s = Inr s' \<or> worker_resume c x s = Inr s' \<Longrightarrow> submitted s' = submitted s" for x
    by (elim disjE) (auto simp: worker_walk_def worker_unlink_def worker_resume_def worker_goto_def Let_def split: option.splits)
  ultimately show ?thesis using assms by (cases "worker_at s c") (auto simp: worker_step_def)
qed

lemma worker_alone_submitted: "worker_alone c s s' \<Longrightarrow> submitted s' = submitted s"
  by (induction rule: star.induct) (auto dest: worker_submitted)

lemma unlink_resumes:
  assumes i: "pool_inv s q" and at: "worker_at s c = WUnlink x"
  shows "\<exists>s' q' y. worker_step False c s = Inr s' \<and> pool_inv s' q' \<and> worker_at s' c = WResume y \<and> ran s' c = ran s c"
proof -
  obtain s' q' where s': "worker_unlink c x s = Inr s'" "pool_inv s' q'" using inv_unlink[OF i at] by blast
  then have "\<exists>y. worker_at s' c = WResume y \<and> ran s' c = ran s c" by (auto simp: worker_unlink_def worker_goto_def)
  then show ?thesis using s' at by (auto simp: worker_step_def)
qed

lemma load_resumes:
  assumes i: "pool_inv s q" and at: "worker_at s c = WLoad" and ne: "q c \<noteq> []"
  shows "\<exists>s' q' y. worker_alone c s s' \<and> pool_inv s' q' \<and> worker_at s' c = WResume y \<and> ran s' c = ran s c"
proof -
  note qc = queueD[OF pool_invD(1)[OF i, of c]]
  obtain x xs where q: "q c = x # xs" using ne by (cases "q c") auto
  then have h: "heads s c = Some x" using qc(1) by simp
  let ?s = "worker_load c s"
  have i1: "pool_inv ?s q" by (rule inv_load[OF i at])
  have st: "worker_step False c s = Inr ?s" using at by (simp add: worker_step_def)
  have same: "ran ?s c = ran s c" "heads ?s c = Some x" using h by (simp_all add: worker_load_def worker_goto_def)
  show ?thesis
  proof (cases "pnext s x = None")
    case True
    then have w: "worker_at ?s c = WCas x" using h by (simp add: worker_load_def worker_goto_def)
    obtain q' where "pool_inv (worker_cas False c x ?s) q'" using inv_cas[OF i1 w] by blast
    moreover have "worker_at (worker_cas False c x ?s) c = WResume x" "ran (worker_cas False c x ?s) c = ran s c"
      using same by (simp_all add: worker_cas_def worker_goto_def)
    moreover have "worker_step False c ?s = Inr (worker_cas False c x ?s)" using w by (simp add: worker_step_def)
    moreover from this have "worker_alone c s (worker_cas False c x ?s)" by (intro alone_step[OF st] alone_one)
    ultimately show ?thesis by blast
  next
    case False
    then have w: "worker_at ?s c = WWalk x" using h by (simp add: worker_load_def worker_goto_def)
    have "xs \<noteq> []" using False lpath_next[OF qc(1,2), of x] q by auto
    then have "q c = [] @ x # butlast xs @ [last xs]" using q by simp
    from walk_reaches_end[OF i1 w this] obtain t x' where
      t: "worker_alone c ?s t" "pool_inv t q" "worker_at t c = WUnlink x'" "ran t c = ran s c" using same by auto
    from unlink_resumes[OF t(2,3)] t(4) obtain u q' y where
      u: "worker_step False c t = Inr u" "pool_inv u q'" "worker_at u c = WResume y" "ran u c = ran s c" by auto
    have "worker_alone c s u" by (rule alone_step[OF st star_trans[OF t(1) alone_one[OF u(1)]]])
    then show ?thesis using u by blast
  qed
qed

section \<open>Properties\<close>

text \<open>
  C18. The thread of a CPU runs the callbacks that are submitted for it, each once and in the order in which their \<^verbatim>\<open>Submit\<close> pushed them, in every interleaving of any
  number of submitting threads; and when the pool is not being destructed, a thread that sleeps with no signal outstanding has run all of them.
\<close>

theorem pool_is_fifo:
  assumes "pool_reach n pin s"
  shows "(\<exists>rest. submitted s c = ran s c @ rest) \<and>
    (\<not> shutdown s \<and> worker_at s c = WWait \<and> semaphores s c = 0 \<and> to_signal s c = 0 \<longrightarrow> ran s c = submitted s c)"
proof -
  obtain q where i: "pool_inv s q" using pool_reach_inv[OF assms] by blast
  note qc = queueD(8)[OF pool_invD(1)[OF i, of c]]
  show ?thesis using qc pool_invD(2)[OF i, of c] by (auto simp: count_inv_def jobs_def)
qed

definition one_cpu :: pool where
  "one_cpu = pool_init 1 (\<lambda>w. Some 0)"

definition three_jobs :: "pool_act list" where
  "three_jobs =
     [Submit 1 10, Submit 2 20, SubmitCas False 2, SubmitCas False 1, SubmitCas False 1, SubmitSignal 0, WorkerStep False 0, WorkerStep False 0,
      Submit 3 30, SubmitCas False 3, WorkerStep False 0, WorkerStep False 0, WorkerStep False 0, WorkerStep False 0,
      SubmitSignal 0, WorkerStep False 0, WorkerStep False 0, WorkerStep False 0, WorkerStep False 0, WorkerStep False 0,
      WorkerStep False 0, WorkerStep False 0, SubmitSignal 0, WorkerStep False 0, WorkerStep False 0, WorkerStep False 0,
      WorkerStep False 0, WorkerStep False 0, WorkerStep False 0, WorkerStep False 0]"

lemmas pool_eval = one_cpu_def pool_init_def submit_begin_def pool_cpu_def submit_cas_def submit_signal_def Semaphore_Signal_def
  worker_step_def Semaphore_Wait_def worker_load_def worker_cas_def worker_walk_def worker_unlink_def worker_resume_def worker_return_def
  worker_check_def worker_goto_def Let_def destruct_begin_def destruct_signal_def

lemma three_jobs_run:
  "\<exists>s. pool_run three_jobs one_cpu = Inr s \<and> \<not> shutdown s \<and> worker_at s 0 = WWait \<and> semaphores s 0 = 0 \<and> to_signal s 0 = 0 \<and>
     submitted s 0 = [(2, 20), (1, 10), (3, 30)]"
  by (simp add: three_jobs_def pool_eval)

theorem pool_is_fifo_witness:
  "\<exists>s. pool_run three_jobs one_cpu = Inr s \<and> ran s 0 = [(2, 20), (1, 10), (3, 30)]"
proof -
  obtain s where s: "pool_run three_jobs one_cpu = Inr s" "\<not> shutdown s" "worker_at s 0 = WWait" "semaphores s 0 = 0" "to_signal s 0 = 0"
     "submitted s 0 = [(2, 20), (1, 10), (3, 30)]"
    using three_jobs_run by (elim exE conjE)
  have "pool_reach 1 (\<lambda>w. Some 0) s" by (rule pool_run_reach[OF pool_start s(1)[unfolded one_cpu_def]])
  from pool_is_fifo[OF this, of 0] s(2-6) have "ran s 0 = [(2, 20), (1, 10), (3, 30)]" by simp
  with s(1) show ?thesis by (intro exI conjI)
qed

text \<open>
  A thread that is woken makes progress: when the pool is not being destructed and the semaphore of a CPU was signalled, the CPU's thread, which was
  waiting, goes on to run the callback that was submitted first among those not run, in finitely many steps of its own.
\<close>

theorem pool_thread_runs_oldest:
  assumes "pool_reach n pin s" and "\<not> shutdown s" and "worker_at s c = WWait" and "0 < semaphores s c"
  shows "\<exists>s' y cb rest. star (\<lambda>s s'. worker_step False c s = Inr s') s s' \<and> worker_at s' c = WRunning y \<and>
    ran s' c = ran s c @ [(y, cb)] \<and> submitted s c = ran s c @ (y, cb) # rest"
proof -
  obtain q where i: "pool_inv s q" using pool_reach_inv[OF assms(1)] by blast
  let ?s = "Semaphore_Wait c s"
  have st: "worker_step False c s = Inr ?s" using assms(3) by (simp add: worker_step_def)
  have i1: "pool_inv ?s q" by (rule inv_sem_wait[OF i assms(3)])
  have w: "worker_at ?s c = WLoad" "ran ?s c = ran s c" using assms(4) by (simp_all add: Semaphore_Wait_def worker_goto_def)
  have "q c \<noteq> []" using pool_invD(2)[OF i, of c] assms(2,4) by (auto simp: count_inv_def)
  from load_resumes[OF i1 w(1) this] w(2) obtain t q' y where
    t: "worker_alone c ?s t" "pool_inv t q'" "worker_at t c = WResume y" "ran t c = ran s c" by auto
  from resume_runs[OF t(2,3)] obtain u cb rest where
    u: "worker_step False c t = Inr u" "worker_at u c = WRunning y" "ran u c = ran t c @ [(y, cb)]" "submitted u c = ran u c @ rest" by blast
  have all: "worker_alone c s u" by (rule alone_step[OF st star_trans[OF t(1) alone_one[OF u(1)]]])
  then have "submitted s c = ran s c @ (y, cb) # rest" using worker_alone_submitted[OF all] u(3,4) t(4) by simp
  with all u(2,3) t(4) show ?thesis by auto
qed

definition two_jobs :: "pool_act list" where
  "two_jobs = [Submit 1 10, SubmitCas False 1, Submit 2 20, SubmitCas False 2, SubmitSignal 0]"

lemma two_jobs_run:
  "\<exists>s. pool_run two_jobs one_cpu = Inr s \<and> \<not> shutdown s \<and> worker_at s 0 = WWait \<and> 0 < semaphores s 0 \<and>
     ran s 0 = [] \<and> submitted s 0 = [(1, 10), (2, 20)]"
  by (simp add: two_jobs_def pool_eval)

theorem pool_thread_runs_oldest_witness:
  "\<exists>s s'. pool_run two_jobs one_cpu = Inr s \<and> star (\<lambda>s s'. worker_step False 0 s = Inr s') s s' \<and> worker_at s' 0 = WRunning 1"
proof -
  obtain s where s: "pool_run two_jobs one_cpu = Inr s" "\<not> shutdown s" "worker_at s 0 = WWait" "0 < semaphores s 0"
     "ran s 0 = []" "submitted s 0 = [(1, 10), (2, 20)]"
    using two_jobs_run by (elim exE conjE)
  have "pool_reach 1 (\<lambda>w. Some 0) s" by (rule pool_run_reach[OF pool_start s(1)[unfolded one_cpu_def]])
  from pool_thread_runs_oldest[OF this s(2-4)] obtain s' y cb rest where
    "worker_alone 0 s s'" "worker_at s' 0 = WRunning y" "submitted s 0 = ran s 0 @ (y, cb) # rest" by (elim exE conjE)
  with s(5,6) have "worker_alone 0 s s'" "worker_at s' 0 = WRunning 1" by simp_all
  with s(1) show ?thesis by (intro exI conjI)
qed

text \<open>
  No check of the pool fails and no null pointer is followed, whichever thread moves next, except in \<^verbatim>\<open>Submit\<close> for a context that is not pinned to a CPU of
  the pool or that was submitted before and has not been resumed since.
\<close>

theorem pool_aborts_only_on_double_submit:
  assumes "pool_reach n pin s"
  shows "(\<exists>s'. pool_step a s = Inr s') \<or>
    (\<exists>w cb. a = Submit w cb \<and> ((\<forall>c<concurrency s. pinned s w \<noteq> Some c) \<or> submit_at s w = SCas \<or>
       (\<exists>c cb'. (w, cb') \<in> set (drop (length (ran s c)) (submitted s c)))))"
proof -
  obtain q where i: "pool_inv s q" using pool_reach_inv[OF assms] by blast
  have "\<exists>c cb'. (w, cb') \<in> set (drop (length (ran s c)) (submitted s c))" if "blocked s w" "submit_at s w \<noteq> SCas" for w
  proof -
    have "pending s q w" using pool_invD(3)[OF i, of w] that(1) by (simp add: waiter_inv_def)
    then have "\<exists>c. w \<in> set (q c) \<or> w \<in> set (resuming (worker_at s c))" using that(2) by (simp add: pending_def)
    then obtain c where "w \<in> set (q c) \<or> w \<in> set (resuming (worker_at s c))" ..
    then have "(w, the (pcallback s w)) \<in> set (jobs s (resuming (worker_at s c) @ rev (q c)))" by (auto simp: jobs_def)
    then show ?thesis using queueD(8)[OF pool_invD(1)[OF i, of c]] by (intro exI[of _ c] exI) simp
  qed
  then show ?thesis using inv_step[OF i, of a] by blast
qed

theorem pool_aborts_only_on_double_submit_witness:
  "\<exists>s. pool_run two_jobs one_cpu = Inr s \<and> (\<exists>s'. pool_step (WorkerStep False 0) s = Inr s')"
proof -
  obtain s where s: "pool_run two_jobs one_cpu = Inr s" using two_jobs_run by (elim exE conjE)
  have "pool_reach 1 (\<lambda>w. Some 0) s" by (rule pool_run_reach[OF pool_start s[unfolded one_cpu_def]])
  from pool_aborts_only_on_double_submit[OF this, of "WorkerStep False 0"] have "\<exists>s'. pool_step (WorkerStep False 0) s = Inr s'"
    by simp
  from conjI[OF s this] show ?thesis by (rule exI)
qed

text \<open>The destructor does not wait for the queues: a thread that finds \<^verbatim>\<open>shutdown_\<close> set after a callback leaves its queue as it is.\<close>

definition destructed :: "pool_act list" where
  "destructed =
     [Submit 1 10, SubmitCas False 1, SubmitSignal 0, Submit 2 20, SubmitCas False 2, SubmitSignal 0, Destruct, DestructSignal 0,
      WorkerStep False 0, WorkerStep False 0, WorkerStep False 0, WorkerStep False 0, WorkerStep False 0, WorkerStep False 0, WorkerStep False 0]"

lemma destructor_drops_callbacks:
  "\<exists>s. pool_run destructed one_cpu = Inr s \<and> worker_at s 0 = WExit \<and> submitted s 0 = [(1, 10), (2, 20)] \<and> ran s 0 = [(1, 10)]"
  by (simp add: destructed_def pool_eval)

section \<open>Choosing CPUs\<close>

lemma RandomCPU_Some: "RandomCPU cpu_mask draws = Some cpu \<Longrightarrow> cpu \<in> set draws \<and> cpu \<notin> set cpu_mask"
  by (induction draws) (auto split: if_splits)

lemma RandomCPU_finds: "\<not> set draws \<subseteq> set cpu_mask \<Longrightarrow> \<exists>cpu. RandomCPU cpu_mask draws = Some cpu"
  by (induction draws) auto

lemma fork_cpus_result:
  assumes "length cpu_mask + length dss \<le> n" "\<forall>ds\<in>set dss. set ds = {..<n}"
  shows "\<exists>cpus. fork_cpus cpu_mask dss = Some cpus \<and> length cpus = length dss \<and> distinct cpus \<and>
    set cpus \<inter> set cpu_mask = {} \<and> set cpus \<subseteq> {..<n}"
  using assms
proof (induction dss arbitrary: cpu_mask)
  case (Cons ds dss)
  have "card (set cpu_mask) < card {..<n}" using Cons.prems(1) card_length[of cpu_mask] by simp
  then have "\<not> {..<n} \<subseteq> set cpu_mask" using card_mono[of "set cpu_mask" "{..<n}"] by auto
  then obtain cpu where cpu: "RandomCPU cpu_mask ds = Some cpu" using RandomCPU_finds[of ds cpu_mask] Cons.prems(2) by auto
  from Cons.IH[of "cpu_mask @ [cpu]"] Cons.prems obtain cpus where
    "fork_cpus (cpu_mask @ [cpu]) dss = Some cpus" "length cpus = length dss" "distinct cpus"
    "set cpus \<inter> set (cpu_mask @ [cpu]) = {}" "set cpus \<subseteq> {..<n}" by auto
  then show ?case using cpu RandomCPU_Some[OF cpu] Cons.prems(2) by auto
qed simp

text \<open>
  C36. When the check of \<^verbatim>\<open>StaticThreadPool::ForkJoin\<close> passes for a mask that is not longer than the number of CPUs, every fork gets a CPU of its own that is not in
  the mask, provided that the random numbers drawn for a fork eventually name every CPU.
\<close>

theorem pool_fork_join_cpus_distinct:
  assumes "pool_ForkJoin_check n cpu_mask (length dss) = Inr ()" and "length cpu_mask \<le> n" and "n < 2 ^ 32" and "length dss < 2 ^ 32"
    and "\<forall>ds\<in>set dss. set ds = {..<n}"
  shows "\<exists>cpus. fork_cpus cpu_mask dss = Some cpus \<and> length cpus = length dss \<and> distinct cpus \<and>
    set cpus \<inter> set cpu_mask = {} \<and> set cpus \<subseteq> {..<n}"
proof -
  have "(of_nat (length dss) :: size_t) \<le> of_nat n - of_nat (length cpu_mask)"
    using assms(1) by (simp add: pool_ForkJoin_check_def)
  also have "of_nat n - of_nat (length cpu_mask) = (of_nat (n - length cpu_mask) :: size_t)" using assms(2) by simp
  finally have "unat (of_nat (length dss) :: size_t) \<le> unat (of_nat (n - length cpu_mask) :: size_t)" by (simp add: word_le_nat_alt)
  then have "length dss \<le> n - length cpu_mask" using assms(3,4) by (simp add: unat_of_nat)
  then show ?thesis using assms(2,5) by (intro fork_cpus_result) simp_all
qed

theorem pool_fork_join_cpus_distinct_witness:
  "pool_ForkJoin_check 3 [1] 2 = Inr () \<and> (\<exists>cpus. fork_cpus [1] [[1, 0, 2], [0, 1, 2]] = Some cpus \<and> distinct cpus \<and> set cpus \<inter> {1} = {})"
proof -
  have c: "pool_ForkJoin_check 3 [1] 2 = Inr ()" by (simp add: pool_ForkJoin_check_def)
  have "{..<3 :: nat} = {0, 1, 2}" by auto
  then have "\<forall>ds\<in>set [[1, 0, 2], [0, 1, 2 :: nat]]. set ds = {..<3}" by auto
  with pool_fork_join_cpus_distinct[of 3 "[1]" "[[1, 0, 2], [0, 1, 2]]"] c show ?thesis by auto
qed

text \<open>
  With a mask that is longer than the number of CPUs, for instance one that repeats CPUs, the subtraction wraps around, the check passes, and the loop of
  \<^verbatim>\<open>RandomCPU\<close> has no CPU to find.
\<close>

lemma pool_fork_join_check_wraps:
  "pool_ForkJoin_check 2 [0, 1, 0] 5 = Inr ()" "set draws \<subseteq> {..<2} \<Longrightarrow> RandomCPU [0, 1, 0] draws = None"
proof -
  show "pool_ForkJoin_check 2 [0, 1, 0] 5 = Inr ()" by (simp add: pool_ForkJoin_check_def)
  show "set draws \<subseteq> {..<2} \<Longrightarrow> RandomCPU [0, 1, 0] draws = None" by (induction draws) auto
qed

end
