(* ===== verification/Pool_Schedule.thy ===== *)
theory Pool_Schedule
  imports Value_Theorems Pinned
begin

text \<open>
  \<^verbatim>\<open>StaticThreadPool::Schedule(e)\<close> (\<^verbatim>\<open>static-thread-pool.h\<close>) for values: running an eventual on the CPU its requirements pin it to.

  The pool is a scheduler in the sense of \<open>Scheduler\<close>: its \<^verbatim>\<open>Submit\<close> is the whole passage through the queue of a CPU, whose steps are in
  \<open>Thread_Pool\<close>: the context is blocked, the CPU's thread unblocks it, switches to it, runs the callback and switches back. The CPU on
  which a thread of the pool runs, the thread-local \<^verbatim>\<open>member\<close> and \<^verbatim>\<open>cpu\<close>, is the argument \<open>on_cpu\<close>.

  \<^verbatim>\<open>Requirements\<close> are named by numbers, and the \<^verbatim>\<open>data\<close> of a context of the pool is the number of its requirements. The CPUs they say are the argument \<open>pins\<close>. Requirements
  that say \<^verbatim>\<open>Pinned::Any()\<close> are pinned, when they are first scheduled, to what \<^verbatim>\<open>Pinned::RandomCPU()\<close> answers, the argument \<open>random\<close>, and keep it. Since \<^verbatim>\<open>Submit\<close> returns when the
  callback has run, the waiter of a context is on no list between calls.
\<close>

section \<open>The pool as a scheduler\<close>

definition pool_pinned :: "(nat \<Rightarrow> nat option) \<Rightarrow> ctx \<Rightarrow> 'u world \<Rightarrow> (nat \<Rightarrow> 'a res) \<Rightarrow> 'a res" where
  "pool_pinned pinned c w f =
     deref (data (contexts w c)) ''requirements->pinned'' (\<lambda>requirements.
       case pinned requirements of None \<Rightarrow> Inl (CheckFailed ''pinned.cpu()'') | Some cpu \<Rightarrow> f cpu)"

text \<open>What happens between \<^verbatim>\<open>context.block()\<close> in \<^verbatim>\<open>Submit\<close> and \<^verbatim>\<open>context->unuse()\<close> in the loop of the thread that takes the waiter off its list.\<close>

definition run_waiter :: "'u action \<Rightarrow> ctx \<Rightarrow> 'u world \<Rightarrow> 'u world res" where
  "run_waiter callback c w =
     (let w1 = ctx_block c w;
          w2 = ctx_use c (ctx_unblock c w1);
          (previous, w3) = Switch c w2
      in rbind (callback w3) (\<lambda>w4.
           let (switched, w5) = Switch previous w4
           in check (c = switched) ''context == Context::Switch(previous).get()'' (ctx_unuse c w5)))"

definition pool_scheduler_Submit :: "sid \<Rightarrow> nat \<Rightarrow> (nat \<Rightarrow> nat option) \<Rightarrow> 'u action \<Rightarrow> ctx \<Rightarrow> 'u world \<Rightarrow> 'u world res" where
  "pool_scheduler_Submit this concurrency pinned callback c w =
     check (\<not> blocked (contexts w c)) ''!context.blocked()''
       (check (this = sched (contexts w c)) ''this == context.scheduler()''
          (pool_pinned pinned c w (\<lambda>cpu.
             check (cpu < concurrency) ''cpu < concurrency'' (run_waiter callback c w))))"

definition pool_scheduler_Continuable :: "sid \<Rightarrow> (ctx \<Rightarrow> nat option) \<Rightarrow> (nat \<Rightarrow> nat option) \<Rightarrow> ctx \<Rightarrow> 'u world \<Rightarrow> bool res" where
  "pool_scheduler_Continuable this on_cpu pinned c w =
     check (\<not> blocked (contexts w c)) ''!context.blocked()''
       (check (this = sched (contexts w c)) ''this == context.scheduler()''
          (pool_pinned pinned c w (\<lambda>cpu. Inr (on_cpu (Get w) = Some cpu))))"

definition pool_Clone :: "ctx \<Rightarrow> 'u world \<Rightarrow> 'u world res" where
  "pool_Clone child w =
     deref (data (contexts w (Get w))) ''Scheduler::Context::Get()->data'' (\<lambda>requirements.
       Inr (on_context child (\<lambda>s. s\<lparr>data := Some requirements\<rparr>) w))"

definition StaticThreadPool :: "sid \<Rightarrow> nat \<Rightarrow> (ctx \<Rightarrow> nat option) \<Rightarrow> (nat \<Rightarrow> nat option) \<Rightarrow> 'u vtable" where
  "StaticThreadPool this concurrency on_cpu pinned =
     \<lparr>Continuable = pool_scheduler_Continuable this on_cpu pinned, Submit = pool_scheduler_Submit this concurrency pinned, Clone = pool_Clone\<rparr>"

text \<open>The CPU of requirements once they were scheduled.\<close>

definition scheduled_cpu :: "(nat \<Rightarrow> nat option) \<Rightarrow> (nat \<Rightarrow> nat) \<Rightarrow> nat \<Rightarrow> nat" where
  "scheduled_cpu pins random requirements = (case pins requirements of Some cpu \<Rightarrow> cpu | None \<Rightarrow> random requirements)"

text \<open>All schedulers: number 1 is the pool, the others are default schedulers. All requirements have been scheduled, with CPUs of \<^verbatim>\<open>Pinned::ModuloTotalCPUs\<close>.\<close>

definition with_pool :: "nat \<Rightarrow> (ctx \<Rightarrow> nat option) \<Rightarrow> (nat \<Rightarrow> nat option) \<Rightarrow> (nat \<Rightarrow> nat) \<Rightarrow> sid \<Rightarrow> 'u vtable" where
  "with_pool n on_cpu pins random this =
     (if this = 1 then StaticThreadPool 1 (Suc n) on_cpu (\<lambda>r. ModuloTotalCPUs (Suc n) (scheduled_cpu pins random r)) else DefaultScheduler this)"

lemma block_unblock: "wf_world w \<Longrightarrow> ctx_unblock c (ctx_block c w) = w"
proof -
  assume "wf_world w"
  then have "(contexts w c)\<lparr>blocked := False\<rparr> = contexts w c" by (cases "contexts w c") (auto simp: wf_world_def dest: spec [of _ c])
  then show ?thesis by (simp add: ctx_block_def ctx_unblock_def on_context_def)
qed

lemma run_waiter_runs:
  assumes "neutral f g" "wf_world w"
  shows "run_waiter f c w = map_sum id (set_user w) (g c (user w))"
proof -
  have e: "(ctx_use c w)\<lparr>current := c\<rparr> = ctx_use c (w\<lparr>current := c\<rparr>)" by (simp add: ctx_use_def on_context_def)
  show ?thesis
    using neutralD [OF assms(1) wf_ctx_use [OF assms(2)], of c c] assms(2)
    by (simp add: run_waiter_def Switch_def block_unblock e rbind_map_res rbind_Inr_right switched_back)
qed

lemma pool_submit_runs:
  assumes "neutral f g" "wf_world w" "sched (contexts w c) = this" "data (contexts w c) = Some r" "pinned r = Some cpu" "cpu < n"
  shows "pool_scheduler_Submit this n pinned f c w = map_sum id (set_user w) (g c (user w))"
  using assms run_waiter_runs [OF assms(1,2)] by (simp add: pool_scheduler_Submit_def pool_pinned_def wf_world_def)

lemma pool_data: "wf_world w \<Longrightarrow> sched (contexts w c) = 1 \<Longrightarrow> \<exists>r. data (contexts w c) = Some r"
  by (auto simp: wf_world_def dest!: spec [of _ c])

lemma with_pool_submit_runs:
  assumes "neutral f g" "wf_world w"
  shows "Submit (ctx_scheduler (with_pool n on_cpu pins random) c w) f c w = map_sum id (set_user w) (g c (user w))"
proof (cases "sched (contexts w c) = 1")
  case True
  then obtain r where "data (contexts w c) = Some r" using pool_data [OF assms(2)] by blast
  then show ?thesis
    using True pool_submit_runs [OF assms True, of r "\<lambda>r. ModuloTotalCPUs (Suc n) (scheduled_cpu pins random r)"]
    by (simp add: ctx_scheduler_def with_pool_def StaticThreadPool_def ModuloTotalCPUs_def)
next
  case False
  then show ?thesis using default_submit_runs [OF assms] by (simp add: ctx_scheduler_def with_pool_def DefaultScheduler_def)
qed

lemma with_pool_continuable:
  assumes "wf_world w"
  shows "\<exists>b. Continuable (ctx_scheduler (with_pool n on_cpu pins random) c w) c w = Inr b"
  using pool_data [OF assms] assms
  by (auto simp: ctx_scheduler_def with_pool_def StaticThreadPool_def pool_scheduler_Continuable_def pool_pinned_def ModuloTotalCPUs_def
      DefaultScheduler_def default_Continuable_def wf_world_def)

interpretation pool: schedulers "with_pool n on_cpu pins random" for n on_cpu pins random
  by unfold_locales (rule with_pool_submit_runs with_pool_continuable, assumption+)+

text \<open>A context that clones the current one has the data its scheduler needs.\<close>

lemma pool_clone_wf:
  assumes "wf_world w" "c \<noteq> Get w" "sched (contexts w (Get w)) = 1"
  shows "\<exists>w'. Context_clone (with_pool n on_cpu pins random) c name w = Inr w' \<and> wf_world w' \<and> data (contexts w' c) = data (contexts w (Get w))"
proof -
  obtain r where "data (contexts w (Get w)) = Some r" using pool_data [OF assms(1,3)] by blast
  then show ?thesis
    using assms
    by (auto simp: Context_clone_def ctx_scheduler_def with_pool_def StaticThreadPool_def pool_Clone_def Context_def Get_def wf_world_def on_context_def)
qed

section \<open>Schedule\<close>

definition schedule_Adapt :: "(sid \<Rightarrow> 'u vtable) \<Rightarrow> 'u eventual \<Rightarrow> intr option \<Rightarrow> 'u kont \<Rightarrow> 'u world \<Rightarrow> 'u kont res" where
  "schedule_Adapt vt e interrupt k w =
     (let previous = Get w; adapted = compose e (Reschedule vt previous) k
      in case interrupt of None \<Rightarrow> Inr adapted | Some i \<Rightarrow> register adapted i)"

text \<open>
  The two ways in which a call reaches the adapted eventual: on the right thread at once, in the schedule's context, and otherwise through \<^verbatim>\<open>Submit\<close>. In both the first call builds
  the adapted eventual, given by \<open>adapt\<close>.
\<close>

definition schedule_here :: "ctx \<Rightarrow> ('u world \<Rightarrow> 'u kont res) \<Rightarrow> signal \<Rightarrow> 'u action" where
  "schedule_here context adapt s w =
     rbind (adapt w) (\<lambda>adapted.
       let (previous, w1) = Switch context w
       in rbind (invoke adapted s (ctx_use context w1)) (\<lambda>w2.
            let (switched, w3) = Switch previous w2
            in check (switched = context) ''previous.get() == context_.get()'' (ctx_unuse context w3)))"

definition schedule_submit :: "(sid \<Rightarrow> 'u vtable) \<Rightarrow> ctx \<Rightarrow> ('u world \<Rightarrow> 'u kont res) \<Rightarrow> signal \<Rightarrow> 'u action" where
  "schedule_submit vt context adapt s w =
     Submit (ctx_scheduler vt context w) (\<lambda>w'. rbind (adapt w') (\<lambda>adapted. invoke adapted s w')) context w"

primcorec ScheduleK ::
  "(sid \<Rightarrow> 'u vtable) \<Rightarrow> nat \<Rightarrow> (ctx \<Rightarrow> nat option) \<Rightarrow> (nat \<Rightarrow> nat option) \<Rightarrow> (nat \<Rightarrow> nat) \<Rightarrow> ctx \<Rightarrow> nat \<Rightarrow> 'u eventual \<Rightarrow> intr option \<Rightarrow> 'u kont \<Rightarrow> 'u kont" where
  "invoke (ScheduleK vt concurrency on_cpu pins random context requirements e interrupt k) =
     (\<lambda>s w.
        let cpu = scheduled_cpu pins random requirements
        in check (cpu \<le> concurrency) ''pinned.cpu() <= pool()->concurrency''
             (if on_cpu (Get w) = Some cpu
              then schedule_here context (schedule_Adapt vt e interrupt k) s w
              else schedule_submit vt context (schedule_Adapt vt e interrupt k) s w))"
| "register (ScheduleK vt concurrency on_cpu pins random context requirements e interrupt k) =
     (\<lambda>i. Inr (ScheduleK vt concurrency on_cpu pins random context requirements e (Some i) k))"

definition Schedule ::
  "(sid \<Rightarrow> 'u vtable) \<Rightarrow> nat \<Rightarrow> (ctx \<Rightarrow> nat option) \<Rightarrow> (nat \<Rightarrow> nat option) \<Rightarrow> (nat \<Rightarrow> nat) \<Rightarrow> ctx \<Rightarrow> nat \<Rightarrow> 'u eventual \<Rightarrow> 'u eventual" where
  "Schedule vt concurrency on_cpu pins random context requirements e k = ScheduleK vt concurrency on_cpu pins random context requirements e None k"

text \<open>
  The meaning of \<^verbatim>\<open>Schedule\<close>: the eventual runs in the schedule's own context. A continuation started on the right thread comes back to the context it was
  called in; one that is submitted calls \<^verbatim>\<open>Adapt()\<close> in the schedule's context already, and continues there.
\<close>

definition sem_schedule :: "nat \<Rightarrow> (ctx \<Rightarrow> nat option) \<Rightarrow> (nat \<Rightarrow> nat option) \<Rightarrow> (nat \<Rightarrow> nat) \<Rightarrow> ctx \<Rightarrow> nat \<Rightarrow> 'u sem \<Rightarrow> 'u sem" where
  "sem_schedule concurrency on_cpu pins random context requirements d i c s u =
     (let cpu = scheduled_cpu pins random requirements
      in check (cpu \<le> concurrency) ''pinned.cpu() <= pool()->concurrency''
           (rbind (d i context s u) (\<lambda>(_, s', u').
              Inr (if on_cpu c = Some cpu then c else context, s', u'))))"

context schedulers
begin

lemma schedule_here_runs:
  assumes "\<And>w. wf_world w \<Longrightarrow> \<exists>adapted. adapt w = Inr adapted \<and> implements adapted (G (current w))" "wf_world w"
  shows "schedule_here context adapt s w = map_sum id (set_user w) (G (current w) context s (user w))"
proof -
  obtain adapted where a: "adapt w = Inr adapted" "implements adapted (G (current w))" using assms by blast
  show ?thesis
    using implementsD [OF a(2) wf_ctx_use [OF assms(2)], of s "context" "context"] assms(2)
    by (simp add: schedule_here_def a(1) Switch_def rbind_map_res switched_back rbind_Inr_right)
qed

lemma schedule_submit_runs:
  assumes "\<And>w. wf_world w \<Longrightarrow> \<exists>adapted. adapt w = Inr adapted \<and> implements adapted (G (current w))" "wf_world w"
  shows "schedule_submit vt context adapt s w = map_sum id (set_user w) (G context context s (user w))"
proof -
  have "neutral (\<lambda>w'. rbind (adapt w') (\<lambda>adapted. invoke adapted s w')) (\<lambda>c. G c c s)"
  proof (rule neutralI)
    fix w' :: "'u world" assume "wf_world w'"
    with assms(1) obtain adapted where "adapt w' = Inr adapted" "implements adapted (G (current w'))" by blast
    with \<open>wf_world w'\<close> show "rbind (adapt w') (\<lambda>adapted. invoke adapted s w') = map_sum id (set_user w') (G (current w') (current w') s (user w'))"
      using implementsD by simp
  qed
  from submit_runs [OF this assms(2)] show ?thesis by (simp add: schedule_submit_def)
qed

text \<open>The adapted eventual runs \<open>d\<close> and comes back to the context in which it was built.\<close>

definition comes_back :: "'u sem \<Rightarrow> intr option \<Rightarrow> ctx \<Rightarrow> ctx \<Rightarrow> signal \<Rightarrow> 'u \<Rightarrow> (ctx \<times> signal \<times> 'u) res" where
  "comes_back d i c = (\<lambda>c' s u. rbind (d i c' s u) (\<lambda>(_, s', u'). Inr (c, s', u')))"

lemma composed_comes_back:
  assumes "eventual_contract e d" "registered k i = Inr k'" "implements k' g"
  shows "\<exists>k1. registered (compose e (Reschedule vt c) k) i = Inr k1 \<and> implements k1 (after (comes_back d i c) g)"
proof -
  have "sem_seq d (sem_reschedule c) i = comes_back d i c"
    by (intro ext) (simp add: sem_seq_def sem_reschedule_def comes_back_def)
  then show ?thesis using eventual_contract.calls_once [OF contract_compose [OF assms(1) contract_reschedule] assms(2,3), of c] by simp
qed

lemma adapt_runs:
  assumes "eventual_contract e d" "registered k i = Inr k'" "implements k' g"
  shows "\<exists>adapted. schedule_Adapt vt e i k w = Inr adapted \<and> implements adapted (after (comes_back d i (current w)) g)"
  using composed_comes_back [OF assms, of "current w"] by (cases i) (simp_all add: schedule_Adapt_def Get_def Let_def)

lemma contract_schedule:
  assumes "eventual_contract e d"
  shows "eventual_contract (Schedule vt n on_cpu pins random context r e) (sem_schedule n on_cpu pins random context r d)"
proof (rule contractI [where obj = "\<lambda>i k k'. ScheduleK vt n on_cpu pins random context r e i k"])
  fix k k' :: "'u kont" and i
  show "registered (Schedule vt n on_cpu pins random context r e k) i = Inr (ScheduleK vt n on_cpu pins random context r e i k)"
    by (cases i) (auto simp: Schedule_def)
next
  fix k k' :: "'u kont" and i g s and w :: "'u world"
  assume k: "registered k i = Inr k'" "implements k' g" "wf_world w"
  note runs = adapt_runs [OF assms k(1,2)]
  show "invoke (ScheduleK vt n on_cpu pins random context r e i k) s w =
      map_sum id (set_user w) (after (sem_schedule n on_cpu pins random context r d i) g (current w) s (user w))"
    using schedule_here_runs [where adapt = "schedule_Adapt vt e i k" and G = "\<lambda>c. after (comes_back d i c) g", OF runs k(3), of "context" s]
      schedule_submit_runs [where adapt = "schedule_Adapt vt e i k" and G = "\<lambda>c. after (comes_back d i c) g", OF runs k(3), of "context" s]
    by (simp add: sem_schedule_def after_def comes_back_def check_def Get_def Let_def)
qed

end

section \<open>Properties\<close>

text \<open>
  C19. \<^verbatim>\<open>Schedule(e)\<close> on a thread pool runs every pipeline \<open>e\<close> to completion in the schedule's own context, for a start, a failure and a stop alike, with the
  signal that its meaning says, and then the rest of the pipeline exactly once: in the context of the caller when the caller runs on the CPU the schedule is pinned
  to, and in the schedule's context otherwise. When the call returns, contexts and use counts are as before.
\<close>

theorem schedule_runs_in_its_context:
  assumes "wf_world w" and "scheduled_cpu pins random requirements < Suc n"
  shows "invoke (Schedule (with_pool n on_cpu pins random) (Suc n) on_cpu pins random context requirements
      (build (with_pool n on_cpu pins random) base_of e) (build (with_pool n on_cpu pins random) base_of rest (TerminalK b))) s w =
    map_sum id (set_user w)
      (rbind (denote base_of e None context s (user w)) (\<lambda>(_, s', u).
         rbind (denote base_of rest None (if on_cpu (current w) = Some (scheduled_cpu pins random requirements) then current w else context) s' u) (\<lambda>(_, s'', u').
           terminal_run b s'' u')))"
proof -
  let ?vt = "with_pool n on_cpu pins random"
  have rest: "implements (build ?vt base_of rest (TerminalK b)) (after (denote base_of rest None) (\<lambda>_. terminal_run b))"
    by (rule eventual_contract.unregistered [OF pool.contract_build implements_terminal])
  have c: "eventual_contract (Schedule ?vt (Suc n) on_cpu pins random context requirements (build ?vt base_of e))
      (sem_schedule (Suc n) on_cpu pins random context requirements (denote base_of e))"
    by (rule pool.contract_schedule [OF pool.contract_build])
  from implementsD [OF eventual_contract.unregistered [OF c rest] assms(1), of s] show ?thesis
    using assms(2) by (simp add: after_def sem_schedule_def rbind_assoc split_def)
qed

theorem schedule_runs_in_its_context_witness:
  "invoke (Schedule (with_pool 3 (\<lambda>_. None) Some id) 4 (\<lambda>_. None) Some id 5 2
     (build (with_pool 3 (\<lambda>_. None) Some id) (=) (Ev_Just (VInt 9)))
     (build (with_pool 3 (\<lambda>_. None) Some id) (=) (Ev_ThenValue (\<lambda>v u. Inr (v, u)))  (TerminalK log_terminal))) (Started VVoid) (start_world []) =
   Inr (start_world [Started (VInt 9)])"
  using schedule_runs_in_its_context [OF wf_start_world, of Some id 2 3 "\<lambda>_. None" 5 "(=)" "Ev_Just (VInt 9)"
      "Ev_ThenValue (\<lambda>v u. Inr (v, u))" log_terminal "Started VVoid" "[]"]
  by (simp add: scheduled_cpu_def sem_just_def sem_then_value_def sem_on_start_def)

text \<open>
  The check of \<^verbatim>\<open>Schedule\<close> admits a CPU with the number of CPUs, one more than there are: the assertion in \<^verbatim>\<open>Submit\<close> is what fails, and without assertions the
  queue of a CPU that does not exist is used.
\<close>

lemma schedule_check_off_by_one:
  assumes "sched (contexts w c) = 1" "\<not> blocked (contexts w c)" "data (contexts w c) = Some r" "on_cpu (current w) = None"
  shows "invoke (Schedule (\<lambda>_. StaticThreadPool 1 n on_cpu (\<lambda>_. Some n)) n on_cpu (\<lambda>_. Some n) random c r e k) s w =
    Inl (CheckFailed ''cpu < concurrency'')"
  using assms
  by (simp add: Schedule_def Get_def ctx_scheduler_def StaticThreadPool_def pool_scheduler_Submit_def pool_pinned_def scheduled_cpu_def schedule_submit_def)

end
