(* ===== verification/Loop_Schedule.thy ===== *)
theory Loop_Schedule
  imports Pool_Schedule
begin

text \<open>
  The event loop as a scheduler, and \<^verbatim>\<open>EventLoop::Schedule(e)\<close> (\<^verbatim>\<open>event-loop.h\<close>, \<^verbatim>\<open>event-loop.cc\<close>): running an eventual on the thread of the event loop.

  As for the thread pool, \<^verbatim>\<open>Submit\<close> is the whole passage through the list of waiters, which \<^verbatim>\<open>EventLoop::Check\<close> takes off oldest first, with the code the
  threads of the pool have. Whether the calling thread runs the event loop, the thread-local \<^verbatim>\<open>in_event_loop_\<close>, is the argument \<open>in_loop\<close>.
  The event loop is scheduler number 2; the other schedulers, the thread pool among them, are any that the locale \<open>schedulers\<close> allows.
\<close>

section \<open>The event loop as a scheduler\<close>

definition loop_scheduler_Submit :: "sid \<Rightarrow> 'u action \<Rightarrow> ctx \<Rightarrow> 'u world \<Rightarrow> 'u world res" where
  "loop_scheduler_Submit this callback c w =
     check (\<not> blocked (contexts w c)) ''!context.blocked()''
       (check (this = sched (contexts w c)) ''this == context.scheduler()'' (run_waiter callback c w))"

definition loop_scheduler_Continuable :: "(ctx \<Rightarrow> bool) \<Rightarrow> ctx \<Rightarrow> 'u world \<Rightarrow> bool res" where
  "loop_scheduler_Continuable in_loop c w = Inr (in_loop (Get w))"

definition EventLoop :: "sid \<Rightarrow> (ctx \<Rightarrow> bool) \<Rightarrow> 'u vtable" where
  "EventLoop this in_loop = \<lparr>Continuable = loop_scheduler_Continuable in_loop, Submit = loop_scheduler_Submit this, Clone = default_Clone\<rparr>"

definition with_loop :: "(ctx \<Rightarrow> bool) \<Rightarrow> (sid \<Rightarrow> 'u vtable) \<Rightarrow> sid \<Rightarrow> 'u vtable" where
  "with_loop in_loop others this = (if this = 2 then EventLoop 2 in_loop else others this)"

context schedulers
begin

lemma with_loop_schedulers: "schedulers (with_loop in_loop vt)"
proof
  fix f :: "'u action" and g c and w :: "'u world"
  assume a: "neutral f g" "wf_world w"
  show "Submit (ctx_scheduler (with_loop in_loop vt) c w) f c w = map_sum id (set_user w) (g c (user w))"
    using submit_runs [OF a, of c] run_waiter_runs [OF a, of c] a(2)
    by (simp add: ctx_scheduler_def with_loop_def EventLoop_def loop_scheduler_Submit_def wf_world_def)
next
  fix c and w :: "'u world"
  assume "wf_world w"
  then show "\<exists>b. Continuable (ctx_scheduler (with_loop in_loop vt) c w) c w = Inr b"
    using continuable_answers [of w c] by (simp add: ctx_scheduler_def with_loop_def EventLoop_def loop_scheduler_Continuable_def)
qed

end

definition all_schedulers :: "(ctx \<Rightarrow> bool) \<Rightarrow> nat \<Rightarrow> (ctx \<Rightarrow> nat option) \<Rightarrow> (nat \<Rightarrow> nat option) \<Rightarrow> (nat \<Rightarrow> nat) \<Rightarrow> sid \<Rightarrow> 'u vtable" where
  "all_schedulers in_loop n on_cpu pins random = with_loop in_loop (with_pool n on_cpu pins random)"

interpretation loop: schedulers "all_schedulers in_loop n on_cpu pins random" for in_loop n on_cpu pins random
  unfolding all_schedulers_def by (rule pool.with_loop_schedulers)

section \<open>Schedule\<close>

definition loop_schedule_Adapt :: "(sid \<Rightarrow> 'u vtable) \<Rightarrow> 'u eventual \<Rightarrow> intr option \<Rightarrow> 'u kont \<Rightarrow> 'u world \<Rightarrow> 'u kont res" where
  "loop_schedule_Adapt vt e interrupt k w =
     (let previous = Get w; adapted = compose e (Reschedule vt previous) (ThenAdaptor k)
      in case interrupt of None \<Rightarrow> Inr adapted | Some i \<Rightarrow> register adapted i)"

primcorec LoopScheduleK :: "(sid \<Rightarrow> 'u vtable) \<Rightarrow> (ctx \<Rightarrow> bool) \<Rightarrow> ctx \<Rightarrow> 'u eventual \<Rightarrow> intr option \<Rightarrow> 'u kont \<Rightarrow> 'u kont" where
  "invoke (LoopScheduleK vt in_loop context e interrupt k) =
     (\<lambda>s w. if in_loop (Get w) then schedule_here context (loop_schedule_Adapt vt e interrupt k) s w
            else schedule_submit vt context (loop_schedule_Adapt vt e interrupt k) s w)"
| "register (LoopScheduleK vt in_loop context e interrupt k) =
     (\<lambda>i. map_sum id (LoopScheduleK vt in_loop context e (Some i)) (register k i))"

definition LoopSchedule :: "(sid \<Rightarrow> 'u vtable) \<Rightarrow> (ctx \<Rightarrow> bool) \<Rightarrow> ctx \<Rightarrow> 'u eventual \<Rightarrow> 'u eventual" where
  "LoopSchedule vt in_loop context e k = LoopScheduleK vt in_loop context e None k"

definition sem_loop_schedule :: "(ctx \<Rightarrow> bool) \<Rightarrow> ctx \<Rightarrow> 'u sem \<Rightarrow> 'u sem" where
  "sem_loop_schedule in_loop context d i c s u =
     rbind (d i context s u) (\<lambda>(_, s', u'). Inr (if in_loop c then c else context, s', u'))"

context schedulers
begin

lemma loop_adapt_runs:
  assumes "eventual_contract e d" "implements k g"
  shows "\<exists>adapted. loop_schedule_Adapt vt e i k w = Inr adapted \<and> implements adapted (after (comes_back d i (current w)) g)"
  using composed_comes_back [OF assms(1), of "ThenAdaptor k" i "ThenAdaptor k" g "current w"] assms(2)
  by (cases i) (simp_all add: loop_schedule_Adapt_def Get_def Let_def)

lemma contract_loop_schedule:
  assumes "eventual_contract e d"
  shows "eventual_contract (LoopSchedule vt in_loop context e) (sem_loop_schedule in_loop context d)"
proof (rule contractI [where obj = "\<lambda>i k k'. LoopScheduleK vt in_loop context e i k'"])
  fix k k' :: "'u kont" and i assume "registered k i = Inr k'"
  then show "registered (LoopSchedule vt in_loop context e k) i = Inr (LoopScheduleK vt in_loop context e i k')"
    by (cases i) (auto simp: LoopSchedule_def)
next
  fix k k' :: "'u kont" and i g s and w :: "'u world"
  assume k: "implements k' g" "wf_world w"
  note runs = loop_adapt_runs [OF assms k(1)]
  show "invoke (LoopScheduleK vt in_loop context e i k') s w = map_sum id (set_user w) (after (sem_loop_schedule in_loop context d i) g (current w) s (user w))"
    using schedule_here_runs [where adapt = "loop_schedule_Adapt vt e i k'" and G = "\<lambda>c. after (comes_back d i c) g", OF runs k(2), of "context" s]
      schedule_submit_runs [where adapt = "loop_schedule_Adapt vt e i k'" and G = "\<lambda>c. after (comes_back d i c) g", OF runs k(2), of "context" s]
    by (simp add: sem_loop_schedule_def after_def comes_back_def Get_def)
qed

end

section \<open>Properties\<close>

text \<open>
  \<^verbatim>\<open>Schedule(e)\<close> on the event loop runs every pipeline \<open>e\<close> in the schedule's own context, for a start, a failure and a stop alike, with the interrupt that was registered, and then the rest
  of the pipeline exactly once: in the context of the caller when the caller is on the event loop's thread, and in the schedule's context otherwise. The pipelines may use the default scheduler, the thread
  pool and the event loop.
\<close>

theorem loop_schedule_runs_in_its_context:
  assumes "wf_world w"
  shows "invoke_registered (LoopSchedule (all_schedulers in_loop n on_cpu pins random) in_loop context (build (all_schedulers in_loop n on_cpu pins random) base_of e)
      (build (all_schedulers in_loop n on_cpu pins random) base_of rest (TerminalK b))) i s w =
    map_sum id (set_user w)
      (rbind (denote base_of e i context s (user w)) (\<lambda>(_, s', u).
         rbind (denote base_of rest i (if in_loop (current w) then current w else context) s' u) (\<lambda>(_, s'', u').
           terminal_run b s'' u')))"
proof -
  let ?vt = "all_schedulers in_loop n on_cpu pins random"
  have "registered (TerminalK b) i = Inr (TerminalK b)" by (cases i) simp_all
  from eventual_contract.calls_once [OF loop.contract_build this implements_terminal] obtain k where
    k: "registered (build ?vt base_of rest (TerminalK b)) i = Inr k" "implements k (after (denote base_of rest i) (\<lambda>_. terminal_run b))" by blast
  have c: "eventual_contract (LoopSchedule ?vt in_loop context (build ?vt base_of e)) (sem_loop_schedule in_loop context (denote base_of e))"
    by (rule loop.contract_loop_schedule [OF loop.contract_build])
  show ?thesis
    using eventual_contract.starts [OF c k assms, of s] by (simp add: after_def sem_loop_schedule_def rbind_assoc split_def)
qed

theorem loop_schedule_runs_in_its_context_witness:
  "invoke_registered (LoopSchedule (all_schedulers (\<lambda>_. False) 3 (\<lambda>_. None) Some id) (\<lambda>_. False) 5
     (build (all_schedulers (\<lambda>_. False) 3 (\<lambda>_. None) Some id) (=) stop_if_interrupted)
     (build (all_schedulers (\<lambda>_. False) 3 (\<lambda>_. None) Some id) (=) (Ev_ThenValue (\<lambda>v u. Inr (v, u))) (TerminalK log_terminal))) (Some 7) (Started VVoid) (start_world []) =
   Inr (start_world [Stopped])"
  using loop_schedule_runs_in_its_context [OF wf_start_world, of "\<lambda>_. False" 3 "\<lambda>_. None" Some id 5 "(=)" stop_if_interrupted
      "Ev_ThenValue (\<lambda>v u. Inr (v, u))" log_terminal "Some 7" "Started VVoid" "[]"]
  by (simp add: stop_if_interrupted_def sem_then_def sem_eventual_def sem_on_start_def sem_then_value_def)

end
