(* ===== verification/Clock.thy ===== *)
theory Clock
  imports Eventuals_Prelude
begin

text \<open>
  The clock of the event loop (\<^verbatim>\<open>EventLoop::Clock\<close> in \<^verbatim>\<open>event-loop.h\<close> and \<^verbatim>\<open>event-loop.cc\<close>), which tests may pause and advance.

  A callback that was submitted is named by a number. An operation returns the clock and the callbacks it invoked, in order, each with the
  nanoseconds it was given. Times are \<^verbatim>\<open>std::chrono::nanoseconds\<close>, signed 64-bit integers whose overflow is undefined. What
  libuv answers is an argument: the number of active timers and the current time in milliseconds. The mutex of the clock makes each
  operation one step.
\<close>

section \<open>The clock\<close>

type_synonym invocations = "(nat \<times> int) list"

definition nanoseconds :: "int \<Rightarrow> int res" where
  "nanoseconds i = (if - (2 ^ 63) \<le> i \<and> i < 2 ^ 63 then Inr i else Inl (UndefinedBehaviour ''signed overflow''))"

lemma nanoseconds_Inr_iff [simp]: "nanoseconds i = Inr j \<longleftrightarrow> j = i \<and> - (2 ^ 63) \<le> i \<and> i < 2 ^ 63"
  by (auto simp: nanoseconds_def)

record clock =
  paused :: "int option"
  advanced :: int
  pending :: "(int \<times> nat) list"

definition new_clock :: clock where
  "new_clock = \<lparr>paused = None, advanced = 0, pending = []\<rparr>"

definition Paused :: "clock \<Rightarrow> bool" where
  "Paused c \<longleftrightarrow> paused c \<noteq> None"

definition Now :: "int \<Rightarrow> clock \<Rightarrow> int res" where
  "Now uv_now c = (case paused c of Some t \<Rightarrow> nanoseconds (t + advanced c) | None \<Rightarrow> nanoseconds (uv_now * 1000000))"

definition clock_Submit :: "nat \<Rightarrow> int \<Rightarrow> clock \<Rightarrow> (clock \<times> invocations) res" where
  "clock_Submit callback ns c =
     (if \<not> Paused c then Inr (c, [(callback, ns)])
      else rbind (nanoseconds (ns + advanced c)) (\<lambda>t. Inr (c\<lparr>pending := pending c @ [(t, callback)]\<rparr>, [])))"

definition Pause :: "nat \<Rightarrow> int \<Rightarrow> clock \<Rightarrow> (clock \<times> invocations) res" where
  "Pause timers uv_now c =
     check (\<not> Paused c) ''clock is already paused''
       (check (timers = 0) ''pausing the clock with outstanding timers is unsupported''
          (rbind (Now uv_now c) (\<lambda>t. Inr (c\<lparr>paused := Some t, advanced := 0\<rparr>, []))))"

fun resume_pending :: "int \<Rightarrow> (int \<times> nat) list \<Rightarrow> invocations res" where
  "resume_pending adv [] = Inr []"
| "resume_pending adv ((t, callback) # ps) =
     rbind (nanoseconds (t - adv)) (\<lambda>ns. rbind (resume_pending adv ps) (\<lambda>is. Inr ((callback, ns) # is)))"

definition Resume :: "clock \<Rightarrow> (clock \<times> invocations) res" where
  "Resume c =
     check (Paused c) ''clock is not paused''
       (rbind (resume_pending (advanced c) (pending c)) (\<lambda>is. Inr (c\<lparr>pending := [], paused := None\<rparr>, is)))"

definition Advance :: "int \<Rightarrow> clock \<Rightarrow> (clock \<times> invocations) res" where
  "Advance ns c =
     check (Paused c) ''clock is not paused''
       (rbind (nanoseconds (advanced c + ns)) (\<lambda>adv.
          Inr (c\<lparr>advanced := adv, pending := filter (\<lambda>(t, callback). \<not> t \<le> adv) (pending c)\<rparr>,
               map (\<lambda>(t, callback). (callback, 0)) (filter (\<lambda>(t, callback). t \<le> adv) (pending c)))))"

datatype clock_op = ClockSubmit nat int | ClockPause nat int | ClockResume | ClockAdvance int

fun clock_step :: "clock_op \<Rightarrow> clock \<Rightarrow> (clock \<times> invocations) res" where
  "clock_step (ClockSubmit callback ns) c = clock_Submit callback ns c"
| "clock_step (ClockPause timers uv_now) c = Pause timers uv_now c"
| "clock_step ClockResume c = Resume c"
| "clock_step (ClockAdvance ns) c = Advance ns c"

fun clock_run :: "clock_op list \<Rightarrow> clock \<Rightarrow> (clock \<times> invocations) res" where
  "clock_run [] c = Inr (c, [])"
| "clock_run (a # as) c = rbind (clock_step a c) (\<lambda>(c', is). rbind (clock_run as c') (\<lambda>(c'', is'). Inr (c'', is @ is')))"

section \<open>What the clock promises\<close>

text \<open>
  The specification of a paused clock is a list of countdowns: \<open>None\<close> is a clock that runs, and each countdown is the time that is left for a callback.
  A running clock invokes a callback at once with its whole time.
\<close>

type_synonym countdown = "(int \<times> nat) list option"

definition clock_abs :: "clock \<Rightarrow> countdown" where
  "clock_abs c = (if Paused c then Some (map (\<lambda>(t, callback). (t - advanced c, callback)) (pending c)) else None)"

fun spec_clock :: "clock_op \<Rightarrow> countdown \<Rightarrow> countdown \<times> invocations" where
  "spec_clock (ClockSubmit callback ns) None = (None, [(callback, ns)])"
| "spec_clock (ClockSubmit callback ns) (Some r) = (Some (r @ [(ns, callback)]), [])"
| "spec_clock (ClockPause timers uv_now) r = (Some [], [])"
| "spec_clock ClockResume r = (None, map (\<lambda>(left, callback). (callback, left)) (the r))"
| "spec_clock (ClockAdvance ns) r =
     (let r' = map (\<lambda>(left, callback). (left - ns, callback)) (the r)
      in (Some (filter (\<lambda>(left, callback). 0 < left) r'), map (\<lambda>(left, callback). (callback, 0)) (filter (\<lambda>(left, callback). left \<le> 0) r')))"

text \<open>A clock that is not paused has nothing pending. As long as times and advances are not negative, no countdown is below zero.\<close>

definition clock_inv :: "clock \<Rightarrow> bool" where
  "clock_inv c \<longleftrightarrow> Paused c \<or> pending c = []"

definition countdowns_nonneg :: "clock \<Rightarrow> bool" where
  "countdowns_nonneg c \<longleftrightarrow> list_all (\<lambda>(t, callback). advanced c \<le> t) (pending c)"

fun forward :: "clock_op \<Rightarrow> bool" where
  "forward (ClockSubmit callback ns) = (0 \<le> ns)"
| "forward (ClockAdvance ns) = (0 \<le> ns)"
| "forward (ClockPause timers uv_now) = True"
| "forward ClockResume = True"

fun spec_clock_run :: "clock_op list \<Rightarrow> countdown \<Rightarrow> countdown \<times> invocations" where
  "spec_clock_run [] r = (r, [])"
| "spec_clock_run (a # as) r = (let (r', is) = spec_clock a r; (r'', is') = spec_clock_run as r' in (r'', is @ is'))"

lemmas clock_defs = clock_Submit_def Pause_def Resume_def Advance_def Paused_def clock_inv_def countdowns_nonneg_def clock_abs_def

lemma clock_new [simp]: "clock_inv new_clock" "countdowns_nonneg new_clock" "clock_abs new_clock = None"
  by (simp_all add: clock_defs new_clock_def)

lemma resume_pending_result:
  "resume_pending adv ps = Inr is \<Longrightarrow> is = map (\<lambda>(t, callback). (callback, t - adv)) ps"
  by (induction ps arbitrary: "is" rule: resume_pending.induct) auto

lemma clock_step_refines:
  assumes "clock_inv c" "clock_step a c = Inr (c', is)"
  shows "clock_inv c' \<and> spec_clock a (clock_abs c) = (clock_abs c', is)"
proof (cases a)
  case (ClockAdvance ns)
  then show ?thesis
    using assms by (auto simp: clock_defs Let_def filter_map o_def split_def algebra_simps not_le intro!: filter_cong)
qed (use assms in \<open>auto simp: clock_defs dest!: resume_pending_result split: if_splits\<close>)

lemma clock_step_nonneg:
  assumes "clock_inv c" "countdowns_nonneg c" "forward a" "clock_step a c = Inr (c', is)"
  shows "countdowns_nonneg c' \<and> list_all (\<lambda>(callback, ns). 0 \<le> ns) is"
proof (cases a)
  case ClockResume
  then show ?thesis using assms by (fastforce simp: clock_defs list_all_iff dest!: resume_pending_result)
qed (use assms in \<open>auto simp: clock_defs list_all_iff split: if_splits\<close>)

lemma clock_run_refines:
  "clock_inv c \<Longrightarrow> clock_run as c = Inr (c', is) \<Longrightarrow> spec_clock_run as (clock_abs c) = (clock_abs c', is)"
proof (induction as arbitrary: c "is")
  case (Cons a as)
  from Cons.prems obtain c1 is1 is2 where
    s: "clock_step a c = Inr (c1, is1)" "clock_run as c1 = Inr (c', is2)" "is = is1 @ is2" by auto
  with clock_step_refines [OF Cons.prems(1) s(1)] Cons.IH [OF _ s(2)] show ?case by simp
qed simp

lemma clock_run_nonneg:
  "clock_inv c \<Longrightarrow> countdowns_nonneg c \<Longrightarrow> list_all forward as \<Longrightarrow> clock_run as c = Inr (c', is) \<Longrightarrow>
   list_all (\<lambda>(callback, ns). 0 \<le> ns) is"
proof (induction as arbitrary: c "is")
  case (Cons a as)
  from Cons.prems obtain c1 is1 is2 where
    s: "clock_step a c = Inr (c1, is1)" "clock_run as c1 = Inr (c', is2)" "is = is1 @ is2" by auto
  with clock_step_refines [OF Cons.prems(1) s(1)] clock_step_nonneg [OF Cons.prems(1,2) _ s(1)] Cons.IH [OF _ _ _ s(2)] Cons.prems(3)
  show ?case by simp
qed simp

lemma clock_run_inv:
  "clock_inv c \<Longrightarrow> countdowns_nonneg c \<Longrightarrow> list_all forward as \<Longrightarrow> clock_run as c = Inr (c', is) \<Longrightarrow> clock_inv c' \<and> countdowns_nonneg c'"
proof (induction as arbitrary: c "is")
  case (Cons a as)
  from Cons.prems obtain c1 is1 is2 where s: "clock_step a c = Inr (c1, is1)" "clock_run as c1 = Inr (c', is2)" by auto
  with clock_step_refines [OF Cons.prems(1) s(1)] clock_step_nonneg [OF Cons.prems(1,2) _ s(1)] Cons.IH [OF _ _ _ s(2)] Cons.prems(3)
  show ?case by simp
qed simp

text \<open>One callback on a paused clock, while others are submitted and the clock is advanced.\<close>

definition mine :: "nat \<Rightarrow> (int \<times> nat) list \<Rightarrow> (int \<times> nat) list" where
  "mine callback = filter (\<lambda>(t, k). k = callback)"

fun while_paused :: "nat \<Rightarrow> clock_op \<Rightarrow> bool" where
  "while_paused callback (ClockSubmit k ns) = (k \<noteq> callback)"
| "while_paused callback (ClockAdvance ns) = (0 \<le> ns)"
| "while_paused callback a = False"

definition called :: "nat \<Rightarrow> invocations \<Rightarrow> invocations" where
  "called callback = filter (\<lambda>(k, ns). k = callback)"

definition due :: "int \<Rightarrow> (int \<times> nat) list \<Rightarrow> nat" where
  "due now ps = length (filter (\<lambda>p. fst p \<le> now) ps)"

definition not_due :: "int \<Rightarrow> (int \<times> nat) list \<Rightarrow> (int \<times> nat) list" where
  "not_due now = filter (\<lambda>p. now < fst p)"

lemma not_due_twice: "now \<le> later \<Longrightarrow> not_due later (not_due now ps) = not_due later ps"
  unfolding not_due_def by (induction ps) auto

lemma due_sum: "now \<le> later \<Longrightarrow> due now ps + due later (not_due now ps) = due later ps"
  unfolding due_def not_due_def by (induction ps) auto

lemma not_due_all: "not_due now ps = ps \<Longrightarrow> due now ps = 0"
  unfolding due_def not_due_def by (auto simp: filter_id_conv filter_empty_conv not_le)

lemma called_due:
  "called callback (map (\<lambda>(t, k). (k, 0)) (filter (\<lambda>(t, k). t \<le> now) ps)) = replicate (due now (mine callback ps)) (callback, 0)"
  unfolding called_def due_def mine_def by (induction ps) auto

lemma mine_not_due: "mine callback (filter (\<lambda>(t, k). \<not> t \<le> now) ps) = not_due now (mine callback ps)"
  unfolding mine_def not_due_def by (induction ps) auto

lemma paused_step:
  assumes "Paused c" "while_paused callback a" "clock_step a c = Inr (c', is)" "not_due (advanced c) (mine callback (pending c)) = mine callback (pending c)"
  shows "Paused c' \<and> advanced c \<le> advanced c' \<and> mine callback (pending c') = not_due (advanced c') (mine callback (pending c)) \<and>
    called callback is = replicate (due (advanced c') (mine callback (pending c))) (callback, 0)"
proof (cases a)
  case (ClockAdvance ns)
  then show ?thesis using assms by (auto simp: Advance_def Paused_def called_due mine_not_due)
next
  case (ClockSubmit k ns)
  then have "mine callback (pending c') = mine callback (pending c)" "is = []" "advanced c' = advanced c" "Paused c'"
    using assms by (auto simp: clock_Submit_def Paused_def mine_def)
  then show ?thesis using assms(4) not_due_all [OF assms(4)] by (simp add: called_def)
qed (use assms in auto)

lemma paused_run:
  assumes "Paused c" "list_all (while_paused callback) as" "clock_run as c = Inr (c', is)" "not_due (advanced c) (mine callback (pending c)) = mine callback (pending c)"
  shows "Paused c' \<and> advanced c \<le> advanced c' \<and> mine callback (pending c') = not_due (advanced c') (mine callback (pending c)) \<and>
    called callback is = replicate (due (advanced c') (mine callback (pending c))) (callback, 0)"
  using assms
proof (induction as arbitrary: c "is")
  case Nil
  then show ?case by (auto simp: called_def dest: not_due_all)
next
  case (Cons a as)
  from Cons.prems obtain c1 is1 is2 where
    s: "clock_step a c = Inr (c1, is1)" "clock_run as c1 = Inr (c', is2)" "is = is1 @ is2" by auto
  have 1: "Paused c1" "advanced c \<le> advanced c1" "mine callback (pending c1) = not_due (advanced c1) (mine callback (pending c))"
    "called callback is1 = replicate (due (advanced c1) (mine callback (pending c))) (callback, 0)"
    using paused_step [OF Cons.prems(1) _ s(1) Cons.prems(4)] Cons.prems(2) by simp_all
  moreover have "not_due (advanced c1) (mine callback (pending c1)) = mine callback (pending c1)"
    by (simp add: 1(3) not_due_twice)
  ultimately show ?case
    using Cons.IH [OF 1(1) _ s(2)] Cons.prems(2) s(3)
    by (simp add: called_def not_due_twice replicate_add [symmetric] due_sum)
qed

section \<open>Properties\<close>

text \<open>
  C27. The clock implements a set of countdowns: whatever is submitted, paused, advanced and resumed in whatever order, the callbacks that are invoked, their order and the
  times they are given are those of the specification in which a paused clock counts down the time left for each callback.
\<close>

theorem clock_refines_countdowns:
  assumes "clock_run as new_clock = Inr (c, is)"
  shows "spec_clock_run as None = (clock_abs c, is)"
  using clock_run_refines [OF clock_new(1) assms] by simp

theorem clock_refines_countdowns_witness:
  "spec_clock_run [ClockPause 0 5, ClockSubmit 1 30, ClockSubmit 2 10, ClockAdvance 20, ClockResume] None = (None, [(2, 0), (1, 10)])"
  using clock_refines_countdowns [of "[ClockPause 0 5, ClockSubmit 1 30, ClockSubmit 2 10, ClockAdvance 20, ClockResume]"
      "\<lparr>paused = None, advanced = 20, pending = []\<rparr>" "[(2, 0), (1, 10)]"]
  by (simp add: clock_defs Now_def new_clock_def nanoseconds_def)

text \<open>
  A callback that is submitted to a paused clock for a positive time is invoked exactly once, with no time left, as soon as the clock was advanced by that time in all, and not before; while
  times and advances are not negative no callback is ever given a negative time.
\<close>

theorem paused_clock_is_on_time:
  assumes "clock_run (before @ [ClockSubmit callback ns]) new_clock = Inr (c, is)" and "Paused c" and "0 < ns"
    and "list_all forward before" and "mine callback (pending c) = [(ns + advanced c, callback)]"
    and "list_all (while_paused callback) as" and "list_all forward as" and "clock_run as c = Inr (c', is')"
  shows "called callback is' = (if ns \<le> advanced c' - advanced c then [(callback, 0)] else []) \<and> list_all (\<lambda>(k, t). 0 \<le> t) is'"
proof -
  have "not_due (advanced c) (mine callback (pending c)) = mine callback (pending c)"
    using assms(3,5) by (simp add: not_due_def)
  from paused_run [OF assms(2,6,8) this] have "called callback is' = (if ns \<le> advanced c' - advanced c then [(callback, 0)] else [])"
    by (auto simp: assms(5) due_def)
  moreover have "list_all forward (before @ [ClockSubmit callback ns])" using assms(3,4) by simp
  then have "clock_inv c" "countdowns_nonneg c" using clock_run_inv [OF clock_new(1,2) _ assms(1)] by simp_all
  then have "list_all (\<lambda>(k, t). 0 \<le> t) is'" by (rule clock_run_nonneg [OF _ _ assms(7,8)])
  ultimately show ?thesis by blast
qed

theorem paused_clock_is_on_time_witness:
  "called 7 [(7, 0)] = (if (30 :: int) \<le> 40 then [(7, 0)] else []) \<and> list_all (\<lambda>(k, t). 0 \<le> t) [(7 :: nat, 0 :: int)]"
  using paused_clock_is_on_time [of "[ClockPause 0 5]" 7 30 "\<lparr>paused = Some 5000000, advanced = 0, pending = [(30, 7)]\<rparr>" "[]"
      "[ClockAdvance 10, ClockSubmit 8 100, ClockAdvance 30]" "\<lparr>paused = Some 5000000, advanced = 40, pending = [(110, 8)]\<rparr>" "[(7, 0)]"]
  by (simp add: clock_defs Now_def new_clock_def nanoseconds_def mine_def)

end
