(* ===== verification/Loop_Handles.thy ===== *)
theory Loop_Handles
  imports Eventuals_Prelude
begin

text \<open>
  The eventuals of the event loop that wrap a libuv handle (\<^verbatim>\<open>event-loop.h\<close>): \<^verbatim>\<open>Clock::Timer\<close>, \<^verbatim>\<open>WaitForSignal\<close> and the stream \<^verbatim>\<open>Poll\<close>.

  The three continuations have the same members and share the code of \<^verbatim>\<open>Fail\<close>, \<^verbatim>\<open>Stop\<close>, \<^verbatim>\<open>Register\<close> and the
  callbacks of \<^verbatim>\<open>uv_close\<close>; these are the record \<open>handle\<close> and the operations on it, which the timer and the poll extend.
  The actions of a machine are the calls from upstream and downstream, the interrupt, the clock, the event loop running a callback that was submitted with
  \<^verbatim>\<open>context_\<close> or \<^verbatim>\<open>interrupt_context_\<close>, and libuv; they may come in any order.

  Of libuv the machine has what its documentation says: only an active handle gets its event, a timer and a oneshot signal are no longer
  active then, \<^verbatim>\<open>uv_close\<close> may be called once, it deactivates the handle, and the callback it is given is called once afterwards. What a libuv function returns is an argument
  of the action. \<^verbatim>\<open>uv_strerror\<close> is the argument \<open>strerror\<close>.
\<close>

section \<open>What the three have in common\<close>

datatype loop_cb = CbTriggered | CbFail err | CbStop | CbStart | CbNext | CbDone

datatype close_cb = CloseStart | CloseSignal | CloseError | CloseStop | CloseEnded

datatype handler_state = NoHandler | Registered | Installed | Ran

record handle =
  h_started :: bool
  h_completed :: bool
  h_closed :: bool
  h_error :: int
  h_context :: "loop_cb option"
  h_interrupt_context :: bool
  h_handler :: handler_state
  h_active :: bool
  h_closing :: "close_cb option"
  h_invoked :: bool
  h_calls :: "call list"

text \<open>
  \<open>h_context\<close> and \<open>h_interrupt_context\<close> are the callbacks submitted with the two contexts and not run yet, \<open>h_closing\<close> is the callback given to \<^verbatim>\<open>uv_close\<close>.
  \<open>h_invoked\<close> says that upstream has made its call, and \<open>h_calls\<close> lists the calls on \<^verbatim>\<open>k_\<close>.
\<close>

definition k_call :: "call \<Rightarrow> 'a handle_scheme \<Rightarrow> 'a handle_scheme" where
  "k_call c s = s\<lparr>h_calls := h_calls s @ [c]\<rparr>"

definition loop_Submit :: "loop_cb \<Rightarrow> 'a handle_scheme \<Rightarrow> 'a handle_scheme res" where
  "loop_Submit cb s = check (h_context s = None) ''!context.blocked()'' (Inr (s\<lparr>h_context := Some cb\<rparr>))"

definition uv_close :: "close_cb \<Rightarrow> 'a handle_scheme \<Rightarrow> 'a handle_scheme res" where
  "uv_close cb s = check (h_closing s = None \<and> \<not> h_closed s) ''!uv__is_closing(handle)'' (Inr (s\<lparr>h_active := False, h_closing := Some cb\<rparr>))"

definition triggered_callback :: "'a handle_scheme \<Rightarrow> 'a handle_scheme res" where
  "triggered_callback s = (if \<not> h_completed s then Inr (k_call Stop (s\<lparr>h_completed := True\<rparr>)) else Inr s)"

definition fail_callback :: "err \<Rightarrow> 'a handle_scheme \<Rightarrow> 'a handle_scheme res" where
  "fail_callback e s =
     (if \<not> h_completed s then check (\<not> h_started s) ''!started_'' (Inr (k_call (Fail e) (s\<lparr>h_completed := True\<rparr>))) else Inr s)"

definition stop_callback :: "'a handle_scheme \<Rightarrow> 'a handle_scheme res" where
  "stop_callback s =
     (if \<not> h_completed s then check (\<not> h_started s) ''!started_'' (Inr (k_call Stop (s\<lparr>h_completed := True\<rparr>))) else Inr s)"

definition interrupt_handler :: "'a handle_scheme \<Rightarrow> 'a handle_scheme res" where
  "interrupt_handler s = check (\<not> h_interrupt_context s) ''!context.blocked()'' (Inr (s\<lparr>h_interrupt_context := True\<rparr>))"

definition interrupt_callback :: "int \<Rightarrow> 'a handle_scheme \<Rightarrow> 'a handle_scheme res" where
  "interrupt_callback stopped s =
     (if \<not> h_started s then check (\<not> h_completed s) ''!completed_'' (Inr (k_call Stop (s\<lparr>h_completed := True\<rparr>)))
      else if \<not> h_completed s then
        check (h_error s = 0) ''!error_''
          (uv_close CloseStop
             (if h_active s then s\<lparr>h_completed := True, h_error := stopped, h_active := False\<rparr> else s\<lparr>h_completed := True\<rparr>))
      else Inr s)"

definition close_callback :: "(int \<Rightarrow> string) \<Rightarrow> close_cb \<Rightarrow> 'a handle_scheme \<Rightarrow> 'a handle_scheme res" where
  "close_callback strerror cb s =
     (let s1 = s\<lparr>h_closing := None, h_closed := True\<rparr>;
          failed = k_call (Fail (RuntimeError (strerror (h_error s1)))) s1
      in case cb of
           CloseSignal \<Rightarrow> Inr (k_call (Start VVoid) s1)
         | CloseError \<Rightarrow> check (h_error s1 \<noteq> 0) ''continuation.error_'' (Inr failed)
         | CloseStart \<Rightarrow> Inr (if h_error s1 = 0 then k_call (Start VVoid) s1 else failed)
         | CloseStop \<Rightarrow> Inr (if h_error s1 = 0 then k_call Stop s1 else failed)
         | CloseEnded \<Rightarrow> Inr (if h_error s1 = 0 then k_call Ended s1 else failed))"

text \<open>\<^verbatim>\<open>Start\<close> begins by installing the handler; \<open>triggered\<close> says that the interrupt was triggered before.\<close>

definition start_handle :: "bool \<Rightarrow> ('a handle_scheme \<Rightarrow> 'a handle_scheme res) \<Rightarrow> 'a handle_scheme \<Rightarrow> 'a handle_scheme res" where
  "start_handle triggered start s =
     (if h_handler s \<noteq> NoHandler \<and> triggered then loop_Submit CbTriggered s
      else start (if h_handler s = NoHandler then s else s\<lparr>h_handler := Installed\<rparr>))"

datatype handle_act = HRegister | HFail err | HStop | HInterrupt | HRunInterrupt int | HClosed

fun handle_step :: "(int \<Rightarrow> string) \<Rightarrow> handle_act \<Rightarrow> 'a handle_scheme \<Rightarrow> 'a handle_scheme res" where
  "handle_step strerror HRegister s = Inr (if h_invoked s \<or> h_handler s \<noteq> NoHandler then s else s\<lparr>h_handler := Registered\<rparr>)"
| "handle_step strerror (HFail e) s = (if h_invoked s then Inr s else loop_Submit (CbFail e) (s\<lparr>h_invoked := True\<rparr>))"
| "handle_step strerror HStop s = (if h_invoked s then Inr s else loop_Submit CbStop (s\<lparr>h_invoked := True\<rparr>))"
| "handle_step strerror HInterrupt s = (if h_handler s = Installed then interrupt_handler (s\<lparr>h_handler := Ran\<rparr>) else Inr s)"
| "handle_step strerror (HRunInterrupt stopped) s =
     (if h_interrupt_context s then interrupt_callback stopped (s\<lparr>h_interrupt_context := False\<rparr>) else Inr s)"
| "handle_step strerror HClosed s = (case h_closing s of None \<Rightarrow> Inr s | Some cb \<Rightarrow> close_callback strerror cb s)"

text \<open>The destructor.\<close>

definition destructible :: "'a handle_scheme \<Rightarrow> bool" where
  "destructible s \<longleftrightarrow> \<not> h_started s \<or> h_closed s"

section \<open>Clock::Timer\<close>

record timer = handle +
  t_clock :: bool
  t_nanoseconds :: int
  t_timeout :: "64 word"

definition Timer :: "int \<Rightarrow> timer" where
  "Timer ns = \<lparr>h_started = False, h_completed = False, h_closed = False, h_error = 0, h_context = None, h_interrupt_context = False,
     h_handler = NoHandler, h_active = False, h_closing = None, h_invoked = False, h_calls = [], t_clock = False, t_nanoseconds = ns, t_timeout = 0\<rparr>"

text \<open>\<^verbatim>\<open>std::chrono::duration_cast\<close> truncates towards zero; the count of milliseconds becomes the \<^verbatim>\<open>uint64_t\<close> of \<^verbatim>\<open>uv_timer_start\<close>.\<close>

definition timeout_of :: "int \<Rightarrow> 64 word" where
  "timeout_of ns = of_int (if 0 \<le> ns then ns div 1000000 else - (- ns div 1000000))"

definition timer_clock_callback :: "int \<Rightarrow> timer \<Rightarrow> timer res" where
  "timer_clock_callback ns s = loop_Submit CbStart (s\<lparr>t_nanoseconds := ns\<rparr>)"

definition timer_Start :: "bool \<Rightarrow> bool \<Rightarrow> timer \<Rightarrow> timer res" where
  "timer_Start triggered paused =
     start_handle triggered (\<lambda>s. if \<not> paused then timer_clock_callback (t_nanoseconds s) s else Inr (s\<lparr>t_clock := True\<rparr>))"

definition uv_timer_start :: "int \<Rightarrow> 64 word \<Rightarrow> timer \<Rightarrow> timer" where
  "uv_timer_start result timeout s =
     (if result = 0 then s\<lparr>h_error := 0, h_active := True, t_timeout := timeout\<rparr> else s\<lparr>h_error := result\<rparr>)"

definition timer_start_callback :: "int \<Rightarrow> int \<Rightarrow> int \<Rightarrow> timer \<Rightarrow> timer res" where
  "timer_start_callback init start1 start2 s =
     (if \<not> h_completed s then
        check (\<not> h_started s) ''!started_''
          (check (init = 0) ''uv_timer_init(loop(), timer()) == 0''
             (let s1 = s\<lparr>h_started := True\<rparr>; timeout = timeout_of (t_nanoseconds s1)
              in check (h_error s1 = 0) ''!error_''
                   (let s2 = uv_timer_start start1 timeout s1
                    in check (h_error s2 = 0) ''!error_''
                         (let s3 = uv_timer_start start2 timeout s2
                          in if h_error s3 \<noteq> 0 then uv_close CloseError (s3\<lparr>h_completed := True\<rparr>) else Inr s3))))
      else Inr s)"

definition timer_fired :: "int \<Rightarrow> timer \<Rightarrow> timer res" where
  "timer_fired stopped s =
     (if \<not> h_completed s then check (h_error s = 0) ''!continuation.error_'' (uv_close CloseStart (s\<lparr>h_completed := True, h_error := stopped\<rparr>))
      else Inr s)"

datatype timer_act = TimerHandle handle_act | TimerStart bool bool | TimerClock int | TimerRun int int int | TimerFired int

definition timer_run :: "int \<Rightarrow> int \<Rightarrow> int \<Rightarrow> timer \<Rightarrow> timer res" where
  "timer_run init start1 start2 s =
     (case h_context s of
        None \<Rightarrow> Inr s
      | Some cb \<Rightarrow>
          let s1 = s\<lparr>h_context := None\<rparr>
          in case cb of
               CbTriggered \<Rightarrow> triggered_callback s1
             | CbFail e \<Rightarrow> fail_callback e s1
             | CbStop \<Rightarrow> stop_callback s1
             | CbStart \<Rightarrow> timer_start_callback init start1 start2 s1
             | _ \<Rightarrow> Inl NoSuchMethod)"

fun timer_step :: "(int \<Rightarrow> string) \<Rightarrow> timer_act \<Rightarrow> timer \<Rightarrow> timer res" where
  "timer_step strerror (TimerHandle a) s = handle_step strerror a s"
| "timer_step strerror (TimerStart triggered paused) s =
     (if h_invoked s then Inr s else timer_Start triggered paused (s\<lparr>h_invoked := True\<rparr>))"
| "timer_step strerror (TimerClock ns) s = (if t_clock s then timer_clock_callback ns (s\<lparr>t_clock := False\<rparr>) else Inr s)"
| "timer_step strerror (TimerRun init start1 start2) s = timer_run init start1 start2 s"
| "timer_step strerror (TimerFired stopped) s = (if h_active s then timer_fired stopped (s\<lparr>h_active := False\<rparr>) else Inr s)"

section \<open>WaitForSignal\<close>

definition WaitForSignal :: handle where
  "WaitForSignal = \<lparr>h_started = False, h_completed = False, h_closed = False, h_error = 0, h_context = None, h_interrupt_context = False,
     h_handler = NoHandler, h_active = False, h_closing = None, h_invoked = False, h_calls = []\<rparr>"

definition signal_start_callback :: "int \<Rightarrow> int \<Rightarrow> handle \<Rightarrow> handle res" where
  "signal_start_callback init start s =
     (if \<not> h_completed s then
        check (\<not> h_started s) ''!started_''
          (check (init = 0) ''uv_signal_init(loop_, signal()) == 0''
             (let s1 = s\<lparr>h_started := True\<rparr>
              in check (h_error s1 = 0) ''!error_''
                   (let s2 = s1\<lparr>h_error := start, h_active := (start = 0)\<rparr>
                    in if h_error s2 \<noteq> 0 then uv_close CloseError (s2\<lparr>h_completed := True\<rparr>) else Inr s2)))
      else Inr s)"

definition signal_received :: "handle \<Rightarrow> handle res" where
  "signal_received s = (if \<not> h_completed s then uv_close CloseSignal (s\<lparr>h_completed := True\<rparr>) else Inr s)"

datatype signal_act = SignalHandle handle_act | SignalStart bool | SignalRun int int | SignalReceived

definition signal_run :: "int \<Rightarrow> int \<Rightarrow> handle \<Rightarrow> handle res" where
  "signal_run init start s =
     (case h_context s of
        None \<Rightarrow> Inr s
      | Some cb \<Rightarrow>
          let s1 = s\<lparr>h_context := None\<rparr>
          in case cb of
               CbTriggered \<Rightarrow> triggered_callback s1
             | CbFail e \<Rightarrow> fail_callback e s1
             | CbStop \<Rightarrow> stop_callback s1
             | CbStart \<Rightarrow> signal_start_callback init start s1
             | _ \<Rightarrow> Inl NoSuchMethod)"

fun signal_step :: "(int \<Rightarrow> string) \<Rightarrow> signal_act \<Rightarrow> handle \<Rightarrow> handle res" where
  "signal_step strerror (SignalHandle a) s = handle_step strerror a s"
| "signal_step strerror (SignalStart triggered) s =
     (if h_invoked s then Inr s else start_handle triggered (loop_Submit CbStart) (s\<lparr>h_invoked := True\<rparr>))"
| "signal_step strerror (SignalRun init start) s = signal_run init start s"
| "signal_step strerror SignalReceived s = (if h_active s then signal_received (s\<lparr>h_active := False\<rparr>) else Inr s)"

section \<open>Poll\<close>

text \<open>
  \<open>p_turn\<close>: downstream has been called with \<^verbatim>\<open>Begin\<close> or \<^verbatim>\<open>Body\<close> and has not asked for the next event nor said that it is done; it does one of them once.
  \<open>p_nexts\<close> counts how often it has asked.
\<close>

record poll = handle +
  p_turn :: bool
  p_nexts :: nat

definition Poll :: poll where
  "Poll = \<lparr>h_started = False, h_completed = False, h_closed = False, h_error = 0, h_context = None, h_interrupt_context = False,
     h_handler = NoHandler, h_active = False, h_closing = None, h_invoked = False, h_calls = [], p_turn = False, p_nexts = 0\<rparr>"

definition poll_start_callback :: "(int \<Rightarrow> string) \<Rightarrow> int \<Rightarrow> poll \<Rightarrow> poll res" where
  "poll_start_callback strerror init s =
     (if \<not> h_completed s then
        check (\<not> h_started s) ''!started_''
          (let s1 = s\<lparr>h_started := True, h_error := init\<rparr>
           in Inr (if h_error s1 = 0 then k_call (Begin 0) (s1\<lparr>p_turn := True\<rparr>)
                   else k_call (Fail (RuntimeError (strerror (h_error s1)))) (s1\<lparr>h_completed := True, h_closed := True\<rparr>)))
      else Inr s)"

definition poll_next_callback :: "int \<Rightarrow> poll \<Rightarrow> poll res" where
  "poll_next_callback start s =
     (if \<not> h_completed s then
        check (h_started s) ''started_''
          (let s1 = s\<lparr>h_error := start, h_active := (start = 0)\<rparr>
           in if h_error s1 \<noteq> 0 then uv_close CloseError (s1\<lparr>h_completed := True\<rparr>) else Inr s1)
      else Inr s)"

definition poll_done_callback :: "int \<Rightarrow> poll \<Rightarrow> poll res" where
  "poll_done_callback stopped s =
     (if \<not> h_completed s then
        check (h_started s) ''started_''
          (let s1 = s\<lparr>h_completed := True\<rparr>
           in uv_close CloseEnded (if h_active s1 then s1\<lparr>h_error := stopped, h_active := False\<rparr> else s1))
      else Inr s)"

definition poll_event :: "int \<Rightarrow> int \<Rightarrow> int32 \<Rightarrow> poll \<Rightarrow> poll res" where
  "poll_event stopped status events s =
     (if \<not> h_completed s then
        check (h_error s = 0) ''!continuation.error_''
          (let s1 = s\<lparr>h_error := stopped, h_active := False\<rparr>
           in if status = 0 \<and> h_error s1 = 0 then Inr (k_call (Body (VInt events)) (s1\<lparr>p_turn := True\<rparr>))
              else uv_close CloseError (s1\<lparr>h_completed := True, h_error := (if h_error s1 = 0 then status else h_error s1)\<rparr>))
      else Inr s)"

datatype poll_act = PollHandle handle_act | PollStart bool | PollNext | PollDone | PollRun int | PollEvent int int int32

definition poll_run :: "(int \<Rightarrow> string) \<Rightarrow> int \<Rightarrow> poll \<Rightarrow> poll res" where
  "poll_run strerror result s =
     (case h_context s of
        None \<Rightarrow> Inr s
      | Some cb \<Rightarrow>
          let s1 = s\<lparr>h_context := None\<rparr>
          in case cb of
               CbTriggered \<Rightarrow> triggered_callback s1
             | CbFail e \<Rightarrow> fail_callback e s1
             | CbStop \<Rightarrow> stop_callback s1
             | CbStart \<Rightarrow> poll_start_callback strerror result s1
             | CbNext \<Rightarrow> poll_next_callback result s1
             | CbDone \<Rightarrow> poll_done_callback result s1)"

fun poll_step :: "(int \<Rightarrow> string) \<Rightarrow> poll_act \<Rightarrow> poll \<Rightarrow> poll res" where
  "poll_step strerror (PollHandle a) s = handle_step strerror a s"
| "poll_step strerror (PollStart triggered) s =
     (if h_invoked s then Inr s else start_handle triggered (loop_Submit CbStart) (s\<lparr>h_invoked := True\<rparr>))"
| "poll_step strerror PollNext s = (if p_turn s then loop_Submit CbNext (s\<lparr>p_turn := False, p_nexts := p_nexts s + 1\<rparr>) else Inr s)"
| "poll_step strerror PollDone s = (if p_turn s then loop_Submit CbDone (s\<lparr>p_turn := False\<rparr>) else Inr s)"
| "poll_step strerror (PollRun result) s = poll_run strerror result s"
| "poll_step strerror (PollEvent stopped status events) s = (if h_active s then poll_event stopped status events s else Inr s)"

section \<open>Sequences of actions\<close>

fun run_acts :: "('act \<Rightarrow> 's \<Rightarrow> 's res) \<Rightarrow> 'act list \<Rightarrow> 's \<Rightarrow> 's res" where
  "run_acts step [] s = Inr s"
| "run_acts step (a # as) s = rbind (step a s) (run_acts step as)"

lemma run_acts_star: "run_acts step as s = Inr s' \<Longrightarrow> star (\<lambda>s s'. \<exists>a. step a s = Inr s') s s'"
  by (induction as arbitrary: s) (auto intro: star_step)

end
