(* ===== verification/Loop_Handle_Theorems.thy ===== *)
theory Loop_Handle_Theorems
  imports Loop_Handles
begin

text \<open>
  What the timer, the signal and the poll of the event loop promise: the continuation is completed exactly once, whatever the order of the interrupt, the
  clock, the event loop and libuv, and no check fails as long as libuv starts its handles. The invariant of the common members and what follows from it are in the
  locale \<open>loop_handle\<close>, which the three machines interpret, the poll in the theory \<open>Poll_Theorems\<close>.
\<close>

section \<open>The common invariant\<close>

fun is_final :: "call \<Rightarrow> bool" where
  "is_final (Begin p) = False"
| "is_final (Body v) = False"
| "is_final _ = True"

definition finals :: "'a handle_scheme \<Rightarrow> call list" where
  "finals s = filter is_final (h_calls s)"

lemma finals_k_call [simp]: "finals (k_call c s) = finals s @ (if is_final c then [c] else [])"
  by (simp add: finals_def k_call_def)

lemma finals_update [simp]:
  "finals (s\<lparr>h_started := a\<rparr>) = finals s" "finals (s\<lparr>h_completed := a\<rparr>) = finals s" "finals (s\<lparr>h_closed := a\<rparr>) = finals s"
  "finals (s\<lparr>h_error := e\<rparr>) = finals s" "finals (s\<lparr>h_context := x\<rparr>) = finals s" "finals (s\<lparr>h_interrupt_context := a\<rparr>) = finals s"
  "finals (s\<lparr>h_handler := y\<rparr>) = finals s" "finals (s\<lparr>h_active := a\<rparr>) = finals s" "finals (s\<lparr>h_closing := z\<rparr>) = finals s"
  "finals (s\<lparr>h_invoked := a\<rparr>) = finals s"
  by (simp_all add: finals_def)

lemma k_call_simps [simp]:
  "h_started (k_call c s) = h_started s" "h_completed (k_call c s) = h_completed s" "h_closed (k_call c s) = h_closed s"
  "h_error (k_call c s) = h_error s" "h_context (k_call c s) = h_context s" "h_interrupt_context (k_call c s) = h_interrupt_context s"
  "h_handler (k_call c s) = h_handler s" "h_active (k_call c s) = h_active s" "h_closing (k_call c s) = h_closing s"
  "h_invoked (k_call c s) = h_invoked s"
  by (simp_all add: k_call_def)

fun ends_unstarted :: "loop_cb option \<Rightarrow> bool" where
  "ends_unstarted (Some CbTriggered) = True"
| "ends_unstarted (Some (CbFail e)) = True"
| "ends_unstarted (Some CbStop) = True"
| "ends_unstarted _ = False"

text \<open>
  \<open>call_inv\<close>: how far the continuation and the libuv handle are (started, completed, closed, error, active, closing, final calls on \<^verbatim>\<open>k_\<close>). \<open>handler_inv\<close>: what is submitted
  and what the interrupt handler may still do (started, completed, callback of \<^verbatim>\<open>context_\<close>, of \<^verbatim>\<open>interrupt_context_\<close>, handler, whether upstream has called).
\<close>

fun call_inv :: "bool \<Rightarrow> bool \<Rightarrow> bool \<Rightarrow> int \<Rightarrow> bool \<Rightarrow> close_cb option \<Rightarrow> call list \<Rightarrow> bool" where
  "call_inv st False cl e ac cg f \<longleftrightarrow> f = [] \<and> cg = None \<and> \<not> cl \<and> e = 0 \<and> (ac \<longrightarrow> st)"
| "call_inv st True cl e ac None f \<longleftrightarrow> length f = 1 \<and> (st \<longrightarrow> cl) \<and> \<not> ac"
| "call_inv st True cl e ac (Some cb) f \<longleftrightarrow> f = [] \<and> st \<and> \<not> cl \<and> \<not> ac \<and> (cb = CloseError \<longrightarrow> e \<noteq> 0)"

fun handler_inv :: "bool \<Rightarrow> bool \<Rightarrow> loop_cb option \<Rightarrow> bool \<Rightarrow> handler_state \<Rightarrow> bool \<Rightarrow> bool" where
  "handler_inv st co cx it Installed iv \<longleftrightarrow> iv \<and> \<not> it \<and> (st \<or> \<not> co) \<and> \<not> ends_unstarted cx"
| "handler_inv st co cx it Ran iv \<longleftrightarrow> iv \<and> (it \<longrightarrow> st \<or> \<not> co) \<and> \<not> ends_unstarted cx"
| "handler_inv st co cx it _ iv \<longleftrightarrow> \<not> it \<and> (ends_unstarted cx \<longrightarrow> \<not> st)"

definition handle_inv :: "'a handle_scheme \<Rightarrow> bool" where
  "handle_inv s \<longleftrightarrow>
     call_inv (h_started s) (h_completed s) (h_closed s) (h_error s) (h_active s) (h_closing s) (finals s) \<and>
     handler_inv (h_started s) (h_completed s) (h_context s) (h_interrupt_context s) (h_handler s) (h_invoked s) \<and>
     (h_context s = Some CbStart \<longrightarrow> \<not> h_started s) \<and> (\<not> h_invoked s \<longrightarrow> h_context s = None \<and> \<not> h_started s \<and> \<not> h_completed s)"

lemma handle_invD:
  assumes "handle_inv s"
  shows "call_inv (h_started s) (h_completed s) (h_closed s) (h_error s) (h_active s) (h_closing s) (finals s)"
    "handler_inv (h_started s) (h_completed s) (h_context s) (h_interrupt_context s) (h_handler s) (h_invoked s)"
    "h_context s = Some CbStart \<Longrightarrow> \<not> h_started s"
    "\<not> h_invoked s \<Longrightarrow> h_context s = None \<and> \<not> h_started s \<and> \<not> h_completed s"
  using assms by (simp_all add: handle_inv_def)

lemma submit_inv:
  assumes "handle_inv s" "loop_Submit cb (s\<lparr>h_invoked := True\<rparr>) = Inr s'" "ends_unstarted (Some cb)" "\<not> h_invoked s"
  shows "handle_inv s'"
  using assms handle_invD [OF assms(1)]
  by (cases "h_handler s"; cases cb) (auto simp: handle_inv_def loop_Submit_def)

lemma interrupt_callback_inv:
  assumes "handle_inv s" "h_interrupt_context s" "interrupt_callback stopped (s\<lparr>h_interrupt_context := False\<rparr>) = Inr s'"
  shows "handle_inv s'"
  using assms handle_invD [OF assms(1)]
  by (cases "h_started s"; cases "h_completed s"; cases "h_handler s"; cases "h_active s") (auto simp: handle_inv_def interrupt_callback_def uv_close_def)

lemma close_callback_inv:
  assumes "handle_inv s" "h_closing s = Some cb" "close_callback strerror cb s = Inr s'"
  shows "handle_inv s'"
  using assms handle_invD [OF assms(1)]
  by (cases "h_completed s"; cases cb; cases "h_error s = 0") (auto simp: handle_inv_def close_callback_def Let_def)

lemma handle_step_inv:
  assumes "handle_inv s" "handle_step strerror a s = Inr s'"
  shows "handle_inv s'"
proof (cases a)
  case HRegister
  then show ?thesis using assms by (cases "h_handler s") (auto simp: handle_inv_def split: if_splits)
next
  case HInterrupt
  then show ?thesis using assms by (cases "h_handler s") (auto simp: handle_inv_def interrupt_handler_def)
qed (use assms in \<open>auto split: if_splits option.splits intro: submit_inv interrupt_callback_inv close_callback_inv\<close>)

lemma handle_step_runs:
  assumes "handle_inv s"
  shows "\<exists>s'. handle_step strerror a s = Inr s'"
proof (cases a)
  case (HRunInterrupt stopped)
  then show ?thesis
    using handle_invD [OF assms]
    by (cases "h_started s"; cases "h_completed s"; cases "h_handler s"; cases "h_active s") (auto simp: interrupt_callback_def uv_close_def)
next
  case HClosed
  then show ?thesis
  proof (cases "h_closing s")
    case (Some cb)
    then show ?thesis
      using HClosed handle_invD(1) [OF assms] by (cases "h_completed s"; cases cb) (auto simp: close_callback_def Let_def)
  qed simp
next
  case HInterrupt
  then show ?thesis using handle_invD(2) [OF assms] by (cases "h_handler s") (auto simp: interrupt_handler_def)
qed (use handle_invD(4) [OF assms] in \<open>auto simp: loop_Submit_def\<close>)

text \<open>The callbacks that complete a continuation which was not started.\<close>

lemma end_callbacks:
  assumes "handle_inv s" "h_context s = Some cb" "ends_unstarted (Some cb)"
    and "f \<in> {triggered_callback, fail_callback e, stop_callback}"
  shows "\<exists>s'. f (s\<lparr>h_context := None\<rparr>) = Inr s' \<and> handle_inv s' \<and> h_completed s' \<and> h_context s' = None \<and> \<not> h_active s' \<and> \<not> h_started s' \<and>
    h_closing s' = None"
  using assms handle_invD [OF assms(1)]
  by (cases "h_completed s"; cases "h_handler s"; cases "h_closing s") (auto simp: handle_inv_def triggered_callback_def fail_callback_def stop_callback_def)

section \<open>The contract of a continuation with a handle\<close>

locale loop_handle =
  fixes step :: "'act \<Rightarrow> 'h handle_scheme \<Rightarrow> 'h handle_scheme res"
    and init :: "'h handle_scheme"
    and kind_inv :: "'h handle_scheme \<Rightarrow> bool"
    and waiting :: "'h handle_scheme \<Rightarrow> bool"
  assumes init: "handle_inv init" "kind_inv init"
    and step_inv: "handle_inv s \<Longrightarrow> kind_inv s \<Longrightarrow> step a s = Inr s' \<Longrightarrow> handle_inv s' \<and> kind_inv s'"
    and waits: "handle_inv s \<Longrightarrow> kind_inv s \<Longrightarrow> h_invoked s \<Longrightarrow> \<not> h_completed s \<Longrightarrow> waiting s"
begin

lemma handle_reach:
  assumes "star (\<lambda>s s'. \<exists>a. step a s = Inr s') init s"
  shows "handle_inv s \<and> kind_inv s"
  using star_invariant [OF assms, where P = "\<lambda>s. handle_inv s \<and> kind_inv s"] init step_inv by blast

lemma completes_once:
  assumes "star (\<lambda>s s'. \<exists>a. step a s = Inr s') init s"
  shows "length (finals s) \<le> 1 \<and> (finals s \<noteq> [] \<longrightarrow> h_completed s \<and> destructible s)"
proof -
  have "handle_inv s" using handle_reach [OF assms] ..
  from handle_invD(1) [OF this] show ?thesis
    by (cases "h_completed s"; cases "h_closing s") (auto simp: destructible_def)
qed

lemma never_lost:
  assumes "star (\<lambda>s s'. \<exists>a. step a s = Inr s') init s" "h_invoked s"
  shows "finals s \<noteq> [] \<or> h_closing s \<noteq> None \<or> waiting s"
proof (cases "h_completed s")
  case True
  have "handle_inv s" using handle_reach [OF assms(1)] ..
  from handle_invD(1) [OF this] True show ?thesis by (cases "h_closing s") auto
next
  case False
  then show ?thesis using waits handle_reach [OF assms(1)] assms(2) by blast
qed

end

section \<open>Timers and signals\<close>

text \<open>\<open>once_inv\<close>: a timer or a signal has one thing under way: the callback with the clock or the event loop, or the active handle.\<close>

fun once_inv :: "bool \<Rightarrow> bool \<Rightarrow> bool \<Rightarrow> loop_cb option \<Rightarrow> bool \<Rightarrow> bool \<Rightarrow> bool" where
  "once_inv clk st co cx iv ac \<longleftrightarrow>
     (clk \<longrightarrow> iv \<and> cx = None \<and> \<not> st) \<and> (st \<longrightarrow> cx = None) \<and> cx \<noteq> Some CbNext \<and> cx \<noteq> Some CbDone \<and> (iv \<and> \<not> co \<longrightarrow> cx \<noteq> None \<or> clk \<or> ac)"

definition timer_inv :: "timer \<Rightarrow> bool" where
  "timer_inv s \<longleftrightarrow> once_inv (t_clock s) (h_started s) (h_completed s) (h_context s) (h_invoked s) (h_active s)"

definition signal_inv :: "handle \<Rightarrow> bool" where
  "signal_inv s \<longleftrightarrow> once_inv False (h_started s) (h_completed s) (h_context s) (h_invoked s) (h_active s)"

lemma once_handle_step:
  assumes "handle_inv s" "handle_step strerror a s = Inr s'" "once_inv clk (h_started s) (h_completed s) (h_context s) (h_invoked s) (h_active s)"
  shows "once_inv clk (h_started s') (h_completed s') (h_context s') (h_invoked s') (h_active s')"
  using assms handle_invD [OF assms(1)]
  by (cases a; cases "h_completed s"; cases "h_started s")
    (auto simp: loop_Submit_def interrupt_handler_def interrupt_callback_def uv_close_def close_callback_def Let_def
      split: if_splits option.splits close_cb.splits)

lemma k_call_timer [simp]: "t_clock (k_call c s) = t_clock s" "t_nanoseconds (k_call c s) = t_nanoseconds s" "t_timeout (k_call c s) = t_timeout s"
  by (simp_all add: k_call_def)

lemma finals_timer [simp]: "finals (s\<lparr>t_clock := a\<rparr>) = finals s" "finals (s\<lparr>t_nanoseconds := n\<rparr>) = finals s" "finals (s\<lparr>t_timeout := w\<rparr>) = finals s"
  by (simp_all add: finals_def)

lemma handle_step_timer: "handle_step strerror a s = Inr s' \<Longrightarrow> t_clock s' = t_clock s"
  by (cases a) (auto simp: loop_Submit_def interrupt_handler_def interrupt_callback_def uv_close_def close_callback_def Let_def
      split: if_splits option.splits close_cb.splits)

lemma timer_start_inv:
  assumes "handle_inv s" "timer_inv s" "\<not> h_invoked s"
  shows "\<exists>s'. timer_Start triggered paused (s\<lparr>h_invoked := True\<rparr>) = Inr s' \<and> handle_inv s' \<and> timer_inv s'"
  using assms handle_invD [OF assms(1)]
  by (cases "h_handler s"; cases triggered; cases paused)
    (auto simp: handle_inv_def timer_inv_def timer_Start_def start_handle_def loop_Submit_def timer_clock_callback_def)

lemma timer_clock_inv:
  assumes "handle_inv s" "timer_inv s" "t_clock s"
  shows "\<exists>s'. timer_clock_callback ns (s\<lparr>t_clock := False\<rparr>) = Inr s' \<and> handle_inv s' \<and> timer_inv s'"
  using assms handle_invD [OF assms(1)]
  by (cases "h_handler s") (auto simp: handle_inv_def timer_inv_def timer_clock_callback_def loop_Submit_def)

lemma timer_start_callback_fields:
  assumes "timer_start_callback i r1 r2 s = Inr s'" "\<not> h_completed s"
  shows "h_started s' \<and> h_context s' = h_context s \<and> h_interrupt_context s' = h_interrupt_context s \<and> h_handler s' = h_handler s \<and>
    h_invoked s' = h_invoked s \<and> finals s' = finals s \<and> t_clock s' = t_clock s \<and> h_closed s' = h_closed s \<and> h_error s' = r2 \<and>
    (if r2 = 0 then \<not> h_completed s' \<and> h_active s' \<and> h_closing s' = h_closing s else h_completed s' \<and> \<not> h_active s' \<and> h_closing s' = Some CloseError)"
  using assms by (cases "r2 = 0") (auto simp: timer_start_callback_def uv_timer_start_def uv_close_def Let_def split: if_splits)

lemma timer_start_callback_inv:
  assumes "handle_inv s" "timer_inv s" "h_context s = Some CbStart" "timer_start_callback i r1 r2 (s\<lparr>h_context := None\<rparr>) = Inr s'"
  shows "handle_inv s' \<and> timer_inv s' \<and> h_context s' = None"
proof (cases "h_completed s")
  case True
  then have "s' = s\<lparr>h_context := None\<rparr>" using assms(4) by (simp add: timer_start_callback_def)
  with True show ?thesis using assms(1-3) by (cases "h_handler s") (auto simp: handle_inv_def timer_inv_def)
next
  case False
  note i = handle_invD [OF assms(1)] and f = timer_start_callback_fields [OF assms(4)]
  have "\<not> t_clock s" "h_invoked s" using assms(2,3) i(4) by (auto simp: timer_inv_def)
  with False f i show ?thesis
    by (cases "r2 = 0"; cases "h_handler s") (simp_all add: handle_inv_def timer_inv_def)
qed

lemma timer_run_inv:
  assumes "handle_inv s" "timer_inv s" "timer_run i r1 r2 s = Inr s'"
  shows "handle_inv s' \<and> timer_inv s' \<and> h_context s' = None"
proof (cases "h_context s")
  case (Some cb)
  show ?thesis
  proof (cases "ends_unstarted (Some cb)")
    case True
    have t: "\<not> t_clock s" using assms(2) Some by (simp add: timer_inv_def)
    from True assms(3) Some obtain f e where f: "f \<in> {triggered_callback, fail_callback e, stop_callback}" "f (s\<lparr>h_context := None\<rparr>) = Inr s'"
      by (cases cb) (auto simp: timer_run_def)
    moreover have "t_clock s' = t_clock s"
      using f by (auto simp: triggered_callback_def fail_callback_def stop_callback_def split: if_splits)
    ultimately show ?thesis using end_callbacks [OF assms(1) Some True f(1)] t by (auto simp: timer_inv_def)
  next
    case False
    with assms(2) Some have "cb = CbStart" by (cases cb) (auto simp: timer_inv_def)
    with assms(3) Some timer_start_callback_inv [OF assms(1,2), of i r1 r2 s'] show ?thesis by (simp add: timer_run_def)
  qed
qed (use assms in \<open>simp add: timer_run_def\<close>)

lemma timer_fired_inv:
  assumes "handle_inv s" "timer_inv s" "h_active s"
  shows "\<exists>s'. timer_fired r (s\<lparr>h_active := False\<rparr>) = Inr s' \<and> handle_inv s' \<and> timer_inv s' \<and> h_completed s' \<and> h_context s' = None"
proof -
  note i = handle_invD [OF assms(1)]
  have st: "\<not> h_completed s" "h_started s" using i(1) assms(3) by (cases "h_completed s"; cases "h_closing s"; simp)+
  have e: "timer_fired r (s\<lparr>h_active := False\<rparr>) = Inr (s\<lparr>h_active := False, h_completed := True, h_error := r, h_closing := Some CloseStart\<rparr>)"
    using i(1) st by (simp add: timer_fired_def uv_close_def)
  show ?thesis unfolding e using i assms(2) st by (cases "h_handler s") (auto simp: handle_inv_def timer_inv_def)
qed

lemma timer_step_inv:
  assumes "handle_inv s" "timer_inv s" "timer_step strerror a s = Inr s'"
  shows "handle_inv s' \<and> timer_inv s'"
proof (cases a)
  case (TimerHandle h)
  then have h: "handle_step strerror h s = Inr s'" using assms(3) by simp
  show ?thesis
    using handle_step_inv [OF assms(1) h] once_handle_step [OF assms(1) h, of "t_clock s"] assms(2) unfolding timer_inv_def handle_step_timer [OF h] by blast
next
  case (TimerStart triggered paused)
  then show ?thesis using assms timer_start_inv [OF assms(1,2), of triggered paused] by (auto split: if_splits)
next
  case (TimerClock ns)
  then show ?thesis using assms timer_clock_inv [OF assms(1,2), of ns] by (auto split: if_splits)
next
  case (TimerRun i r1 r2)
  then show ?thesis using assms timer_run_inv [OF assms(1,2), of i r1 r2 s'] by simp
next
  case (TimerFired r)
  then show ?thesis using assms timer_fired_inv [OF assms(1,2), of r] by (cases "h_active s") auto
qed

lemma timer_waits: "timer_inv s \<Longrightarrow> h_invoked s \<Longrightarrow> \<not> h_completed s \<Longrightarrow> h_context s \<noteq> None \<or> t_clock s \<or> h_active s"
  by (simp add: timer_inv_def)

lemma timer_init_inv: "handle_inv (Timer ns)" "timer_inv (Timer ns)"
  by (simp_all add: handle_inv_def timer_inv_def Timer_def finals_def)

interpretation timer: loop_handle "timer_step strerror" "Timer ns" timer_inv "\<lambda>s. h_context s \<noteq> None \<or> t_clock s \<or> h_active s" for strerror ns
  by unfold_locales (fact timer_init_inv, fact timer_init_inv, rule timer_step_inv, assumption+, rule timer_waits, assumption+)

lemma signal_start_inv:
  assumes "handle_inv s" "signal_inv s" "\<not> h_invoked s"
  shows "\<exists>s'. start_handle triggered (loop_Submit CbStart) (s\<lparr>h_invoked := True\<rparr>) = Inr s' \<and> handle_inv s' \<and> signal_inv s'"
  using assms handle_invD [OF assms(1)]
  by (cases "h_handler s"; cases triggered) (auto simp: handle_inv_def signal_inv_def start_handle_def loop_Submit_def)

lemma signal_start_callback_fields:
  assumes "signal_start_callback i r s = Inr s'" "\<not> h_completed s"
  shows "h_started s' \<and> h_context s' = h_context s \<and> h_interrupt_context s' = h_interrupt_context s \<and> h_handler s' = h_handler s \<and>
    h_invoked s' = h_invoked s \<and> finals s' = finals s \<and> h_closed s' = h_closed s \<and> h_error s' = r \<and>
    (if r = 0 then \<not> h_completed s' \<and> h_active s' \<and> h_closing s' = h_closing s else h_completed s' \<and> \<not> h_active s' \<and> h_closing s' = Some CloseError)"
  using assms by (cases "r = 0") (auto simp: signal_start_callback_def uv_close_def Let_def split: if_splits)

lemma signal_start_callback_inv:
  assumes "handle_inv s" "signal_inv s" "h_context s = Some CbStart" "signal_start_callback i r (s\<lparr>h_context := None\<rparr>) = Inr s'"
  shows "handle_inv s' \<and> signal_inv s' \<and> h_context s' = None"
proof (cases "h_completed s")
  case True
  then have "s' = s\<lparr>h_context := None\<rparr>" using assms(4) by (simp add: signal_start_callback_def)
  with True show ?thesis using assms(1-3) by (cases "h_handler s") (auto simp: handle_inv_def signal_inv_def)
next
  case False
  note i = handle_invD [OF assms(1)] and f = signal_start_callback_fields [OF assms(4)]
  have "h_invoked s" using i(4) assms(3) by auto
  with False f i show ?thesis by (cases "r = 0"; cases "h_handler s") (simp_all add: handle_inv_def signal_inv_def)
qed

lemma signal_run_inv:
  assumes "handle_inv s" "signal_inv s" "signal_run i r s = Inr s'"
  shows "handle_inv s' \<and> signal_inv s' \<and> h_context s' = None"
proof (cases "h_context s")
  case (Some cb)
  show ?thesis
  proof (cases "ends_unstarted (Some cb)")
    case True
    from True assms(3) Some obtain f e where f: "f \<in> {triggered_callback, fail_callback e, stop_callback}" "f (s\<lparr>h_context := None\<rparr>) = Inr s'"
      by (cases cb) (auto simp: signal_run_def)
    then show ?thesis using end_callbacks [OF assms(1) Some True f(1)] by (auto simp: signal_inv_def)
  next
    case False
    with assms(2) Some have "cb = CbStart" by (cases cb) (auto simp: signal_inv_def)
    with assms(3) Some signal_start_callback_inv [OF assms(1,2), of i r s'] show ?thesis by (simp add: signal_run_def)
  qed
qed (use assms in \<open>simp add: signal_run_def\<close>)

lemma signal_received_inv:
  assumes "handle_inv s" "signal_inv s" "h_active s"
  shows "\<exists>s'. signal_received (s\<lparr>h_active := False\<rparr>) = Inr s' \<and> handle_inv s' \<and> signal_inv s' \<and> h_completed s' \<and> h_context s' = None"
proof -
  note i = handle_invD [OF assms(1)]
  have st: "\<not> h_completed s" "h_started s" using i(1) assms(3) by (cases "h_completed s"; cases "h_closing s"; simp)+
  have e: "signal_received (s\<lparr>h_active := False\<rparr>) = Inr (s\<lparr>h_active := False, h_completed := True, h_closing := Some CloseSignal\<rparr>)"
    using i(1) st by (simp add: signal_received_def uv_close_def)
  show ?thesis unfolding e using i assms(2) st by (cases "h_handler s") (auto simp: handle_inv_def signal_inv_def)
qed

lemma signal_step_inv:
  assumes "handle_inv s" "signal_inv s" "signal_step strerror a s = Inr s'"
  shows "handle_inv s' \<and> signal_inv s'"
proof (cases a)
  case (SignalHandle h)
  then have h: "handle_step strerror h s = Inr s'" using assms(3) by simp
  show ?thesis
    using handle_step_inv [OF assms(1) h] once_handle_step [OF assms(1) h, of False] assms(2) unfolding signal_inv_def by blast
next
  case (SignalStart triggered)
  then show ?thesis using assms signal_start_inv [OF assms(1,2), of triggered] by (auto split: if_splits)
next
  case (SignalRun i r)
  then show ?thesis using assms signal_run_inv [OF assms(1,2), of i r s'] by simp
next
  case SignalReceived
  then show ?thesis using assms signal_received_inv [OF assms(1,2)] by (cases "h_active s") auto
qed

lemma signal_init_inv: "handle_inv WaitForSignal" "signal_inv WaitForSignal"
  by (simp_all add: handle_inv_def signal_inv_def WaitForSignal_def finals_def)

lemma signal_waits: "signal_inv s \<Longrightarrow> h_invoked s \<Longrightarrow> \<not> h_completed s \<Longrightarrow> h_context s \<noteq> None \<or> h_active s"
  by (simp add: signal_inv_def)

interpretation sig: loop_handle "signal_step strerror" WaitForSignal signal_inv "\<lambda>s. h_context s \<noteq> None \<or> h_active s" for strerror
  by unfold_locales (fact signal_init_inv, fact signal_init_inv, rule signal_step_inv, assumption+, rule signal_waits, assumption+)

section \<open>Timers and signals complete\<close>

text \<open>When the clock, the event loop and libuv each do their part once more, whatever was left to happen has happened.\<close>

lemma closed_completes:
  assumes "handle_inv s" "h_completed s"
  shows "\<exists>s'. handle_step strerror HClosed s = Inr s' \<and> length (finals s') = 1 \<and> destructible s'"
proof -
  obtain s' where s': "handle_step strerror HClosed s = Inr s'" using handle_step_runs [OF assms(1)] by blast
  have i: "handle_inv s'" by (rule handle_step_inv [OF assms(1) s'])
  have "h_completed s' \<and> h_closing s' = None"
    using s' assms by (auto simp: close_callback_def Let_def split: option.splits close_cb.splits if_splits)
  with handle_invD(1) [OF i] s' show ?thesis by (auto simp: destructible_def)
qed

lemma timer_run_ok:
  assumes "handle_inv s" "timer_inv s"
  shows "\<exists>s'. timer_run 0 0 r s = Inr s'"
proof (cases "h_context s")
  case (Some cb)
  have "h_error s = 0 \<and> h_closing s = None \<and> \<not> h_closed s" if "\<not> h_completed s" using handle_invD(1) [OF assms(1)] that by simp
  moreover have "\<not> h_started s" using assms(2) Some by (auto simp: timer_inv_def)
  ultimately show ?thesis
    using Some assms(2)
    by (cases "h_completed s"; cases cb; cases "r = 0") (auto simp: timer_run_def timer_inv_def triggered_callback_def fail_callback_def
        stop_callback_def timer_start_callback_def uv_timer_start_def uv_close_def Let_def)
qed (simp add: timer_run_def)

lemma timer_finishes:
  assumes "handle_inv s" "timer_inv s" "h_invoked s"
  shows "\<exists>s'. run_acts (timer_step strerror) [TimerClock 0, TimerRun 0 0 0, TimerFired 0, TimerHandle HClosed] s = Inr s' \<and>
    length (finals s') = 1 \<and> destructible s'"
proof -
  obtain s1 where 1: "timer_step strerror (TimerClock 0) s = Inr s1" "handle_inv s1" "timer_inv s1" "\<not> t_clock s1" "h_invoked s1"
  proof (cases "t_clock s")
    case True
    with timer_clock_inv [OF assms(1,2) True, of 0] that assms(3) show ?thesis by (auto simp: timer_clock_callback_def loop_Submit_def)
  qed (use assms that in auto)
  obtain s2 where 2: "timer_run 0 0 0 s1 = Inr s2" using timer_run_ok [OF 1(2,3)] by blast
  note i2 = timer_run_inv [OF 1(2,3) 2]
  have f2: "t_clock s2 = t_clock s1 \<and> h_invoked s2 = h_invoked s1"
    using 2 by (auto simp: timer_run_def triggered_callback_def fail_callback_def stop_callback_def timer_start_callback_def uv_timer_start_def
        uv_close_def Let_def split: option.splits loop_cb.splits if_splits)
  obtain s3 where 3: "timer_step strerror (TimerFired 0) s2 = Inr s3" "handle_inv s3" "h_completed s3"
  proof (cases "h_active s2")
    case True
    with timer_fired_inv [of s2 0] i2 that show ?thesis by auto
  next
    case False
    with timer_waits [of s2] i2 f2 1(4,5) have "h_completed s2" by auto
    with False i2 that show ?thesis by simp
  qed
  with closed_completes [OF 3(2,3), of strerror] 1(1) 2 show ?thesis by auto
qed

lemma signal_run_ok:
  assumes "handle_inv s" "signal_inv s"
  shows "\<exists>s'. signal_run 0 r s = Inr s'"
proof (cases "h_context s")
  case (Some cb)
  have "h_error s = 0 \<and> h_closing s = None \<and> \<not> h_closed s" if "\<not> h_completed s" using handle_invD(1) [OF assms(1)] that by simp
  moreover have "\<not> h_started s" using assms(2) Some by (auto simp: signal_inv_def)
  ultimately show ?thesis
    using Some assms(2)
    by (cases "h_completed s"; cases cb; cases "r = 0") (auto simp: signal_run_def signal_inv_def triggered_callback_def fail_callback_def
        stop_callback_def signal_start_callback_def uv_close_def Let_def)
qed (simp add: signal_run_def)

lemma signal_finishes:
  assumes "handle_inv s" "signal_inv s" "h_invoked s"
  shows "\<exists>s'. run_acts (signal_step strerror) [SignalRun 0 0, SignalReceived, SignalHandle HClosed] s = Inr s' \<and>
    length (finals s') = 1 \<and> destructible s'"
proof -
  obtain s2 where 2: "signal_run 0 0 s = Inr s2" using signal_run_ok [OF assms(1,2)] by blast
  note i2 = signal_run_inv [OF assms(1,2) 2]
  have f2: "h_invoked s2 = h_invoked s"
    using 2 by (auto simp: signal_run_def triggered_callback_def fail_callback_def stop_callback_def signal_start_callback_def
        uv_close_def Let_def split: option.splits loop_cb.splits if_splits)
  obtain s3 where 3: "signal_step strerror SignalReceived s2 = Inr s3" "handle_inv s3" "h_completed s3"
  proof (cases "h_active s2")
    case True
    with signal_received_inv [of s2] i2 that show ?thesis by auto
  next
    case False
    with signal_waits [of s2] i2 f2 assms(3) have "h_completed s2" by auto
    with False i2 that show ?thesis by simp
  qed
  with closed_completes [OF 3(2,3), of strerror] 2 show ?thesis by auto
qed

section \<open>Properties\<close>

text \<open>
  C22. A timer completes exactly once. In whatever order upstream, the interrupt, the clock, the event loop and libuv act, the continuation of a timer has been called at most once, and once it was
  called the timer may be destructed. After upstream has called, the clock, the event loop and libuv doing their part once more suffices for the continuation to have been called.
\<close>

theorem timer_completes_once:
  assumes "star (\<lambda>s s'. \<exists>a. timer_step strerror a s = Inr s') (Timer ns) s"
  shows "length (finals s) \<le> 1 \<and> (finals s \<noteq> [] \<longrightarrow> destructible s) \<and>
    (h_invoked s \<longrightarrow> (\<exists>s'. run_acts (timer_step strerror) [TimerClock 0, TimerRun 0 0 0, TimerFired 0, TimerHandle HClosed] s = Inr s' \<and>
       length (finals s') = 1 \<and> destructible s'))"
  using timer.completes_once [OF assms] timer.handle_reach [OF assms] timer_finishes by blast

definition timer_example :: "timer_act list" where
  "timer_example = [TimerHandle HRegister, TimerStart False False, TimerRun 0 0 0, TimerHandle HInterrupt, TimerHandle (HRunInterrupt 0)]"

lemmas timer_eval = timer_example_def Timer_def start_handle_def loop_Submit_def timer_Start_def timer_clock_callback_def timer_run_def timer_start_callback_def
  uv_timer_start_def interrupt_handler_def interrupt_callback_def uv_close_def close_callback_def timer_fired_def k_call_def Let_def

lemma timer_example_run: "\<exists>s. run_acts (timer_step (\<lambda>_. [])) timer_example (Timer 5) = Inr s \<and> h_invoked s"
  by (simp add: timer_eval)

theorem timer_completes_once_witness:
  "\<exists>s s'. run_acts (timer_step (\<lambda>_. [])) timer_example (Timer 5) = Inr s \<and>
    run_acts (timer_step (\<lambda>_. [])) [TimerClock 0, TimerRun 0 0 0, TimerFired 0, TimerHandle HClosed] s = Inr s' \<and> length (finals s') = 1"
proof -
  obtain s where s: "run_acts (timer_step (\<lambda>_. [])) timer_example (Timer 5) = Inr s" "h_invoked s" using timer_example_run by (elim exE conjE)
  from mp [OF timer_completes_once [OF run_acts_star [OF s(1)], THEN conjunct2, THEN conjunct2] s(2)] obtain s' where
    "run_acts (timer_step (\<lambda>_. [])) [TimerClock 0, TimerRun 0 0 0, TimerFired 0, TimerHandle HClosed] s = Inr s'" "length (finals s') = 1" by (elim exE conjE)
  with s(1) show ?thesis by (intro exI conjI)
qed

text \<open>
  Waiting for a signal completes exactly once, in the same sense: the continuation has been called at most once, the eventual may then be destructed, and after upstream has called, the event loop and
  libuv doing their part once more suffices.
\<close>

theorem signal_completes_once:
  assumes "star (\<lambda>s s'. \<exists>a. signal_step strerror a s = Inr s') WaitForSignal s"
  shows "length (finals s) \<le> 1 \<and> (finals s \<noteq> [] \<longrightarrow> destructible s) \<and>
    (h_invoked s \<longrightarrow> (\<exists>s'. run_acts (signal_step strerror) [SignalRun 0 0, SignalReceived, SignalHandle HClosed] s = Inr s' \<and>
       length (finals s') = 1 \<and> destructible s'))"
  using sig.completes_once [OF assms] sig.handle_reach [OF assms] signal_finishes by blast

theorem signal_completes_once_witness:
  "\<exists>s s'. run_acts (signal_step (\<lambda>_. [])) [SignalStart False] WaitForSignal = Inr s \<and>
    run_acts (signal_step (\<lambda>_. [])) [SignalRun 0 0, SignalReceived, SignalHandle HClosed] s = Inr s' \<and> length (finals s') = 1"
proof -
  have "\<exists>s. run_acts (signal_step (\<lambda>_. [])) [SignalStart False] WaitForSignal = Inr s \<and> h_invoked s"
    by (simp add: WaitForSignal_def start_handle_def loop_Submit_def)
  then obtain s where s: "run_acts (signal_step (\<lambda>_. [])) [SignalStart False] WaitForSignal = Inr s" "h_invoked s" by (elim exE conjE)
  from mp [OF signal_completes_once [OF run_acts_star [OF s(1)], THEN conjunct2, THEN conjunct2] s(2)] obtain s' where
    "run_acts (signal_step (\<lambda>_. [])) [SignalRun 0 0, SignalReceived, SignalHandle HClosed] s = Inr s'" "length (finals s') = 1" by (elim exE conjE)
  with s(1) show ?thesis by (intro exI conjI)
qed

text \<open>
  No check of a timer fails and libuv is never asked to close a handle twice, unless libuv cannot initialize the timer or the first of the two calls of \<^verbatim>\<open>uv_timer_start\<close> returns an error.
\<close>

theorem timer_aborts_only_on_libuv_errors:
  assumes "star (\<lambda>s s'. \<exists>a. timer_step strerror a s = Inr s') (Timer ns) s" and "timer_step strerror a s = Inl f"
  shows "\<exists>init start1 start2. a = TimerRun init start1 start2 \<and> (init \<noteq> 0 \<or> start1 \<noteq> 0)"
proof -
  have i: "handle_inv s" "timer_inv s" using timer.handle_reach [OF assms(1)] by simp_all
  show ?thesis
  proof (cases a)
    case (TimerHandle h)
    then show ?thesis using assms(2) handle_step_runs [OF i(1), of strerror h] by auto
  next
    case (TimerStart triggered paused)
    then show ?thesis using assms(2) timer_start_inv [OF i, of triggered paused] by (auto split: if_splits)
  next
    case (TimerClock n)
    then show ?thesis using assms(2) timer_clock_inv [OF i, of n] by (auto split: if_splits)
  next
    case (TimerRun init start1 start2)
    then show ?thesis using assms(2) timer_run_ok [OF i, of start2] by (cases "init = 0 \<and> start1 = 0") auto
  next
    case (TimerFired r)
    then show ?thesis using assms(2) timer_fired_inv [OF i, of r] by (auto split: if_splits)
  qed
qed

text \<open>The first error of \<^verbatim>\<open>uv_timer_start\<close> is not reported as a failure: the check before the second call aborts.\<close>

lemma timer_start_error_aborts:
  "run_acts (timer_step strerror) [TimerStart False False, TimerRun 0 (- 22) 0] (Timer ns) = Inl (CheckFailed ''!error_'')"
  by (simp add: timer_eval)

theorem timer_aborts_only_on_libuv_errors_witness:
  "\<exists>init start1 start2. TimerRun 0 (- 22) 0 = TimerRun init start1 start2 \<and> (init \<noteq> 0 \<or> start1 \<noteq> 0)"
proof -
  have "\<exists>s. run_acts (timer_step (\<lambda>_. [])) [TimerStart False False] (Timer 5) = Inr s \<and> timer_step (\<lambda>_. []) (TimerRun 0 (- 22) 0) s = Inl (CheckFailed ''!error_'')"
    by (simp add: timer_eval)
  then obtain s where s: "run_acts (timer_step (\<lambda>_. [])) [TimerStart False False] (Timer 5) = Inr s"
    "timer_step (\<lambda>_. []) (TimerRun 0 (- 22) 0) s = Inl (CheckFailed ''!error_'')" by (elim exE conjE)
  show ?thesis by (rule timer_aborts_only_on_libuv_errors [OF run_acts_star [OF s(1)] s(2)])
qed

text \<open>
  The timeout of a timer is the number of whole milliseconds of its time, so that a timer fires up to a millisecond early; a negative time of at least a millisecond becomes a timeout
  of more than 500 million years.
\<close>

lemma timeout_truncates: "0 \<le> ns \<Longrightarrow> ns < 2 ^ 63 \<Longrightarrow> unat (timeout_of ns) = nat (ns div 1000000)"
  by (simp add: timeout_of_def unat_eq_nat_uint uint_word_of_int_eq take_bit_int_eq_self)

lemma timeout_early: "timeout_of 1999999 = 1"
  by (simp add: timeout_of_def)

lemma timeout_negative: "unat (timeout_of (- 1000000)) = 2 ^ 64 - 1"
  by (simp add: timeout_of_def unsigned_minus_1_eq_mask mask_eq_exp_minus_1)

end
