(* ===== verification/Poll_Theorems.thy ===== *)
theory Poll_Theorems
  imports Loop_Handle_Theorems
begin

text \<open>
  The stream of events of a file descriptor, \<^verbatim>\<open>EventLoop::Poll\<close>: it completes once, is never lost, and keeps to the protocol of a stream.
\<close>

section \<open>Poll\<close>

text \<open>
  \<open>poll_wait\<close>: what a poll is waiting for (started, completed, callback of \<^verbatim>\<open>context_\<close>, whether upstream has called, active handle, turn of downstream).
  \<open>poll_log\<close>: the calls on \<^verbatim>\<open>k_\<close> are a \<^verbatim>\<open>Begin\<close> and bodies, followed by the final calls, and every body answers a request.
\<close>

fun poll_wait :: "bool \<Rightarrow> bool \<Rightarrow> loop_cb option \<Rightarrow> bool \<Rightarrow> bool \<Rightarrow> bool \<Rightarrow> bool" where
  "poll_wait st co cx iv ac tu \<longleftrightarrow>
     (tu \<longrightarrow> cx = None \<and> st \<and> \<not> ac) \<and> (cx = Some CbNext \<or> cx = Some CbDone \<longrightarrow> st \<and> \<not> ac) \<and> (iv \<and> \<not> co \<longrightarrow> cx \<noteq> None \<or> ac \<or> tu)"

definition stream_log :: "val list \<Rightarrow> call list" where
  "stream_log vs = Begin 0 # map Body vs"

fun poll_log :: "bool \<Rightarrow> bool \<Rightarrow> call list \<Rightarrow> call list \<Rightarrow> nat \<Rightarrow> bool" where
  "poll_log st co calls fin n \<longleftrightarrow> (if st \<and> calls \<noteq> fin then \<exists>vs. calls = stream_log vs @ fin \<and> length vs \<le> n else calls = fin \<and> (st \<longrightarrow> co))"

definition requested :: "poll \<Rightarrow> nat" where
  "requested s = p_nexts s - (if h_context s = Some CbNext \<or> h_active s then 1 else 0)"

definition poll_inv :: "poll \<Rightarrow> bool" where
  "poll_inv s \<longleftrightarrow>
     poll_wait (h_started s) (h_completed s) (h_context s) (h_invoked s) (h_active s) (p_turn s) \<and>
     poll_log (h_started s) (h_completed s) (h_calls s) (finals s) (requested s) \<and>
     (h_context s = Some CbNext \<or> h_active s \<longrightarrow> 0 < p_nexts s)"

lemma stream_log_neq [simp]: "stream_log vs @ fin \<noteq> fin" "stream_log vs \<noteq> []"
  by (auto simp: stream_log_def dest: arg_cong [where f = length])

lemma finals_stream_log [simp]: "filter is_final (stream_log vs) = []"
  by (induction vs) (simp_all add: stream_log_def)

lemma stream_log_snoc: "stream_log vs @ [Body v] = stream_log (vs @ [v])"
  by (simp add: stream_log_def)

lemma k_call_poll [simp]: "p_turn (k_call c s) = p_turn s" "p_nexts (k_call c s) = p_nexts s" "h_calls (k_call c s) = h_calls s @ [c]"
  by (simp_all add: k_call_def)

lemma finals_poll [simp]: "finals (s\<lparr>p_turn := a\<rparr>) = finals s" "finals (s\<lparr>p_nexts := n\<rparr>) = finals s"
  by (simp_all add: finals_def)

lemma poll_log_append:
  assumes "poll_log st co calls fin n" "n \<le> n'" "co \<Longrightarrow> co'"
  shows "poll_log st co' (calls @ ds) (fin @ ds) n'"
  using assms by (auto split: if_splits)

lemmas handle_step_defs = loop_Submit_def interrupt_handler_def interrupt_callback_def uv_close_def close_callback_def Let_def

lemma handle_step_calls:
  assumes "handle_step strerror a s = Inr s'"
  shows "\<exists>ds. h_calls s' = h_calls s @ ds \<and> finals s' = finals s @ ds \<and> p_turn s' = p_turn s \<and> p_nexts s' = p_nexts s"
  using assms by (cases a) (auto simp: handle_step_defs split: if_splits option.splits close_cb.splits)

lemma handle_step_effect:
  assumes "handle_step strerror a s = Inr s'"
  shows "h_started s' = h_started s" "h_completed s \<Longrightarrow> h_completed s'" "h_context s' = h_context s \<or> \<not> h_invoked s \<and> ends_unstarted (h_context s')"
    "h_active s' \<Longrightarrow> h_active s" "h_completed s' \<or> h_active s' = h_active s" "h_invoked s' \<Longrightarrow> h_invoked s \<or> h_context s' \<noteq> None"
  using assms by (cases a; auto simp: handle_step_defs split: if_splits option.splits close_cb.splits)+

lemma handle_step_wait:
  assumes "handle_inv s" "handle_step strerror a s = Inr s'" "poll_wait (h_started s) (h_completed s) (h_context s) (h_invoked s) (h_active s) tu"
  shows "poll_wait (h_started s') (h_completed s') (h_context s') (h_invoked s') (h_active s') tu"
    "h_context s' = Some CbNext \<or> h_active s' \<Longrightarrow> h_context s = Some CbNext \<or> h_active s"
proof -
  note e = handle_step_effect [OF assms(2)]
  show "h_context s' = Some CbNext \<or> h_active s' \<Longrightarrow> h_context s = Some CbNext \<or> h_active s" using e(3,4) by auto
  show "poll_wait (h_started s') (h_completed s') (h_context s') (h_invoked s') (h_active s') tu"
    using e(3)
  proof
    assume "h_context s' = h_context s"
    then show ?thesis using e(1,2,4,5,6) assms(3) by (auto simp del: ends_unstarted.simps)
  next
    assume n: "\<not> h_invoked s \<and> ends_unstarted (h_context s')"
    then have "h_context s' \<noteq> None" "h_context s' \<noteq> Some CbNext" "h_context s' \<noteq> Some CbDone" "\<not> h_started s"
      using handle_invD(4) [OF assms(1)] by (cases "h_context s'"; auto)+
    then show ?thesis using e(1) assms(3) by simp
  qed
qed

lemma poll_handle_step:
  assumes "handle_inv s" "poll_inv s" "handle_step strerror a s = Inr s'"
  shows "poll_inv s'"
proof -
  obtain ds where d: "h_calls s' = h_calls s @ ds" "finals s' = finals s @ ds" "p_turn s' = p_turn s" "p_nexts s' = p_nexts s"
    using handle_step_calls [OF assms(3)] by blast
  note e = handle_step_effect [OF assms(3)]
  have i: "poll_wait (h_started s) (h_completed s) (h_context s) (h_invoked s) (h_active s) (p_turn s)"
    "poll_log (h_started s) (h_completed s) (h_calls s) (finals s) (requested s)" "h_context s = Some CbNext \<or> h_active s \<longrightarrow> 0 < p_nexts s"
    using assms(2) by (simp_all add: poll_inv_def)
  note w = handle_step_wait [OF assms(1,3) i(1)]
  have "requested s \<le> requested s'" using w(2) d(4) by (auto simp: requested_def)
  then have "poll_log (h_started s) (h_completed s') (h_calls s @ ds) (finals s @ ds) (requested s')"
    using poll_log_append [OF i(2)] e(2) by blast
  then show ?thesis unfolding poll_inv_def d e(1) using w [unfolded e(1)] i(3) by blast
qed

lemma poll_invD:
  assumes "poll_inv s"
  shows "poll_wait (h_started s) (h_completed s) (h_context s) (h_invoked s) (h_active s) (p_turn s)"
    "poll_log (h_started s) (h_completed s) (h_calls s) (finals s) (requested s)" "h_context s = Some CbNext \<or> h_active s \<longrightarrow> 0 < p_nexts s"
  using assms by (simp_all add: poll_inv_def)

lemma poll_open:
  assumes "handle_inv s" "poll_inv s" "\<not> h_completed s" "h_started s"
  obtains vs where "h_calls s = stream_log vs" "length vs \<le> requested s" "finals s = []"
  using handle_invD(1) [OF assms(1)] poll_invD(2) [OF assms(2)] assms(3,4) by (auto split: if_splits)

lemma poll_start_inv:
  assumes "handle_inv s" "poll_inv s" "\<not> h_invoked s"
  shows "\<exists>s'. start_handle triggered (loop_Submit CbStart) (s\<lparr>h_invoked := True\<rparr>) = Inr s' \<and> handle_inv s' \<and> poll_inv s'"
  using handle_invD [OF assms(1)] poll_invD [OF assms(2)] assms(3)
  by (cases "h_handler s"; cases triggered) (auto simp: handle_inv_def poll_inv_def requested_def start_handle_def loop_Submit_def)

lemma poll_request_inv:
  assumes "handle_inv s" "poll_inv s" "p_turn s" "cb = CbNext \<and> n = p_nexts s + 1 \<or> cb = CbDone \<and> n = p_nexts s"
  shows "\<exists>s'. loop_Submit cb (s\<lparr>p_turn := False, p_nexts := n\<rparr>) = Inr s' \<and> handle_inv s' \<and> poll_inv s'"
proof -
  note i = handle_invD [OF assms(1)] and p = poll_invD [OF assms(2)]
  have t: "h_context s = None" "h_started s" "\<not> h_active s" using p(1) assms(3) by simp_all
  let ?s = "s\<lparr>p_turn := False, p_nexts := n, h_context := Some cb\<rparr>"
  have "loop_Submit cb (s\<lparr>p_turn := False, p_nexts := n\<rparr>) = Inr ?s" using t by (simp add: loop_Submit_def)
  moreover have "handle_inv ?s" using i t assms(4) by (cases "h_handler s") (auto simp: handle_inv_def)
  moreover have "requested ?s = requested s" using t assms(4) by (auto simp: requested_def)
  then have "poll_inv ?s" using p t assms(4) unfolding poll_inv_def by auto
  ultimately show ?thesis by blast
qed

lemma poll_start_callback_inv:
  assumes "handle_inv s" "poll_inv s" "h_context s = Some CbStart"
  shows "\<exists>s'. poll_start_callback strerror r (s\<lparr>h_context := None\<rparr>) = Inr s' \<and> handle_inv s' \<and> poll_inv s' \<and> h_context s' = None"
proof (cases "h_completed s")
  case True
  then show ?thesis
    using handle_invD [OF assms(1)] poll_invD [OF assms(2)] assms(3)
    by (cases "h_handler s") (auto simp: poll_start_callback_def handle_inv_def poll_inv_def requested_def)
next
  case False
  note i = handle_invD [OF assms(1)] and p = poll_invD [OF assms(2)]
  have st: "\<not> h_started s" "h_invoked s" "\<not> p_turn s" "\<not> h_active s" "h_closing s = None" "h_calls s = []" "finals s = []" "\<not> h_closed s" "h_error s = 0"
    using i p(1,2) assms(3) False by auto
  show ?thesis
  proof (cases "r = 0")
    case True
    let ?s = "k_call (Begin 0) (s\<lparr>h_context := None, h_started := True, h_error := r, p_turn := True\<rparr>)"
    have "poll_start_callback strerror r (s\<lparr>h_context := None\<rparr>) = Inr ?s" using st False True by (simp add: poll_start_callback_def)
    moreover have "handle_inv ?s" using i(2) st False True by (cases "h_handler s") (auto simp: handle_inv_def)
    moreover have "poll_inv ?s" using st False True by (auto simp: poll_inv_def requested_def stream_log_def intro!: exI [of _ "[]"])
    ultimately show ?thesis by auto
  next
    case r: False
    let ?s = "k_call (Fail (RuntimeError (strerror r))) (s\<lparr>h_context := None, h_started := True, h_error := r, h_completed := True, h_closed := True\<rparr>)"
    have "poll_start_callback strerror r (s\<lparr>h_context := None\<rparr>) = Inr ?s" using st False r by (simp add: poll_start_callback_def)
    moreover have "handle_inv ?s" using i(2) st False by (cases "h_handler s") (auto simp: handle_inv_def)
    moreover have "poll_inv ?s" using st by (auto simp: poll_inv_def requested_def)
    ultimately show ?thesis by auto
  qed
qed

text \<open>Closing the handle keeps the invariants.\<close>

lemma poll_close_inv:
  assumes "handle_inv s" "poll_inv s" "\<not> h_completed s" "h_started s" "\<not> p_turn s" "cb = CloseError \<Longrightarrow> e \<noteq> 0"
  defines "s' \<equiv> s\<lparr>h_context := None, h_completed := True, h_error := e, h_active := False, h_closing := Some cb\<rparr>"
  shows "handle_inv s' \<and> poll_inv s' \<and> h_context s' = None \<and> h_completed s'"
proof -
  note i = handle_invD [OF assms(1)] and p = poll_invD [OF assms(2)]
  obtain vs where vs: "h_calls s = stream_log vs" "length vs \<le> requested s" "finals s = []" by (rule poll_open [OF assms(1-4)])
  have "requested s \<le> requested s'" by (simp add: s'_def requested_def)
  then have "poll_log True True (h_calls s') (finals s') (requested s')" using vs by (auto simp: s'_def intro!: exI [of _ vs])
  then have "poll_inv s'" using assms(4,5) unfolding poll_inv_def by (simp add: s'_def)
  moreover have "handle_inv s'" using i assms(3,4,6) by (cases "h_handler s") (auto simp: handle_inv_def s'_def)
  ultimately show ?thesis by (simp add: s'_def)
qed

lemma poll_skip_inv:
  assumes "handle_inv s" "poll_inv s" "h_completed s" "h_context s = Some cb" "\<not> ends_unstarted (Some cb)"
  shows "handle_inv (s\<lparr>h_context := None\<rparr>) \<and> poll_inv (s\<lparr>h_context := None\<rparr>)"
  using handle_invD [OF assms(1)] poll_invD [OF assms(2)] assms(3-)
  by (cases "h_handler s"; cases cb) (auto simp: handle_inv_def poll_inv_def requested_def split: if_splits intro: le_trans)

lemma poll_next_callback_inv:
  assumes "handle_inv s" "poll_inv s" "h_context s = Some CbNext"
  shows "\<exists>s'. poll_next_callback r (s\<lparr>h_context := None\<rparr>) = Inr s' \<and> handle_inv s' \<and> poll_inv s' \<and> h_context s' = None"
proof (cases "h_completed s")
  case True
  then show ?thesis using poll_skip_inv [OF assms(1,2) True assms(3)] by (simp add: poll_next_callback_def)
next
  case False
  note i = handle_invD [OF assms(1)] and p = poll_invD [OF assms(2)]
  have st: "h_started s" "\<not> h_active s" "\<not> p_turn s" "h_closing s = None" "\<not> h_closed s" "0 < p_nexts s" "h_invoked s" using i p(1,3) assms(3) False by auto
  show ?thesis
  proof (cases "r = 0")
    case True
    obtain vs where vs: "h_calls s = stream_log vs" "length vs \<le> requested s" "finals s = []" by (rule poll_open [OF assms(1,2) False st(1)])
    let ?s = "s\<lparr>h_context := None, h_error := r, h_active := True\<rparr>"
    have "poll_next_callback r (s\<lparr>h_context := None\<rparr>) = Inr ?s" using st False True by (simp add: poll_next_callback_def)
    moreover have "handle_inv ?s" using i st False True by (cases "h_handler s") (auto simp: handle_inv_def)
    moreover have "requested ?s = requested s" using assms(3) by (simp add: requested_def)
    then have "poll_inv ?s" using vs st False unfolding poll_inv_def by auto
    ultimately show ?thesis by auto
  next
    case r: False
    have "poll_next_callback r (s\<lparr>h_context := None\<rparr>) =
        Inr (s\<lparr>h_context := None, h_completed := True, h_error := r, h_active := False, h_closing := Some CloseError\<rparr>)"
      using st False r by (simp add: poll_next_callback_def uv_close_def)
    then show ?thesis using poll_close_inv [OF assms(1,2) False st(1,3), of CloseError r] r by simp
  qed
qed

lemma poll_done_callback_inv:
  assumes "handle_inv s" "poll_inv s" "h_context s = Some CbDone"
  shows "\<exists>s'. poll_done_callback r (s\<lparr>h_context := None\<rparr>) = Inr s' \<and> handle_inv s' \<and> poll_inv s' \<and> h_context s' = None"
proof (cases "h_completed s")
  case True
  then show ?thesis using poll_skip_inv [OF assms(1,2) True assms(3)] by (simp add: poll_done_callback_def)
next
  case False
  have st: "h_started s" "\<not> h_active s" "\<not> p_turn s" "h_closing s = None" "\<not> h_closed s" "h_error s = 0"
    using handle_invD [OF assms(1)] poll_invD(1) [OF assms(2)] assms(3) False by auto
  have "s = s\<lparr>h_error := 0, h_active := False\<rparr>" using st by (cases s) simp
  then have "poll_done_callback r (s\<lparr>h_context := None\<rparr>) =
      Inr (s\<lparr>h_context := None, h_completed := True, h_error := 0, h_active := False, h_closing := Some CloseEnded\<rparr>)"
    using st False by (simp add: poll_done_callback_def uv_close_def)
  then show ?thesis using poll_close_inv [OF assms(1,2) False st(1,3), of CloseEnded 0] by simp
qed

lemma poll_event_inv:
  assumes "handle_inv s" "poll_inv s" "h_active s"
  shows "\<exists>s'. poll_event r status events s = Inr s' \<and> handle_inv s' \<and> poll_inv s' \<and> \<not> h_active s'"
proof -
  note i = handle_invD [OF assms(1)] and p = poll_invD [OF assms(2)]
  have open_: "\<not> h_completed s" using i(1) assms(3) by (cases "h_completed s"; cases "h_closing s") auto
  have st: "h_started s" "\<not> p_turn s" "h_closing s = None" "\<not> h_closed s" "h_error s = 0" "0 < p_nexts s" "h_context s \<noteq> Some CbNext" "h_invoked s"
    using i p(1,3) assms(3) open_ by auto
  obtain vs where vs: "h_calls s = stream_log vs" "length vs \<le> requested s" "finals s = []" by (rule poll_open [OF assms(1,2) open_ st(1)])
  have cx: "h_context s = None"
    using i(2,3) p(1) assms(3) st by (cases "h_context s"; cases "h_handler s"; cases "the (h_context s)") auto
  show ?thesis
  proof (cases "status = 0 \<and> r = 0")
    case True
    let ?s = "k_call (Body (VInt events)) (s\<lparr>h_error := r, h_active := False, p_turn := True\<rparr>)"
    have "poll_event r status events s = Inr ?s" using st open_ True by (simp add: poll_event_def)
    moreover have "handle_inv ?s" using i open_ True by (cases "h_handler s") (auto simp: handle_inv_def)
    moreover have "requested ?s = Suc (requested s)" using assms(3) st cx by (simp add: requested_def)
    then have "poll_inv ?s" using vs st cx unfolding poll_inv_def by (auto simp: stream_log_snoc intro!: exI [of _ "vs @ [VInt events]"])
    ultimately show ?thesis by auto
  next
    case False
    let ?e = "if r = 0 then status else r"
    have "poll_event r status events s = Inr (s\<lparr>h_context := None, h_completed := True, h_error := ?e, h_active := False, h_closing := Some CloseError\<rparr>)"
      using st open_ False cx by (cases s) (auto simp: poll_event_def uv_close_def Let_def)
    then show ?thesis using poll_close_inv [OF assms(1,2) open_ st(1,2), of CloseError ?e] False by auto
  qed
qed

lemma poll_run_inv:
  assumes "handle_inv s" "poll_inv s"
  shows "\<exists>s'. poll_run strerror r s = Inr s' \<and> handle_inv s' \<and> poll_inv s' \<and> h_context s' = None"
proof (cases "h_context s")
  case None
  then show ?thesis using assms by (simp add: poll_run_def)
next
  case (Some cb)
  show ?thesis
  proof (cases "ends_unstarted (Some cb)")
    case True
    have st: "\<not> h_started s" "\<not> p_turn s" "h_calls s = finals s"
      using handle_invD(2) [OF assms(1)] poll_invD(1,2) [OF assms(2)] Some True by (cases "h_handler s"; auto)+
    from True Some obtain f e where f: "f \<in> {triggered_callback, fail_callback e, stop_callback}" "poll_run strerror r s = f (s\<lparr>h_context := None\<rparr>)"
      by (cases cb) (auto simp: poll_run_def)
    from end_callbacks [OF assms(1) Some True f(1)] obtain s' where s': "f (s\<lparr>h_context := None\<rparr>) = Inr s'" "handle_inv s'" "h_completed s'"
      "h_context s' = None" "\<not> h_active s'" "\<not> h_started s'" by blast
    moreover have "p_turn s' = p_turn s \<and> h_calls s' = finals s'"
      using f(1) s'(1) st(3) by (auto simp: triggered_callback_def fail_callback_def stop_callback_def split: if_splits)
    ultimately have "poll_inv s'" using st by (simp add: poll_inv_def)
    with f(2) s' show ?thesis by simp
  next
    case False
    then show ?thesis
      using Some poll_start_callback_inv [OF assms] poll_next_callback_inv [OF assms] poll_done_callback_inv [OF assms]
      by (cases cb) (simp_all add: poll_run_def)
  qed
qed

lemma poll_step_inv:
  assumes "handle_inv s" "poll_inv s"
  shows "\<exists>s'. poll_step strerror a s = Inr s' \<and> handle_inv s' \<and> poll_inv s'"
proof (cases a)
  case (PollHandle h)
  obtain s' where "handle_step strerror h s = Inr s'" using handle_step_runs [OF assms(1)] by blast
  with PollHandle handle_step_inv [OF assms(1) this] poll_handle_step [OF assms this] show ?thesis by simp
next
  case (PollStart triggered)
  then show ?thesis using assms poll_start_inv [OF assms, of triggered] by simp
next
  case PollNext
  then show ?thesis using assms poll_request_inv [OF assms, of CbNext] by simp
next
  case PollDone
  then show ?thesis using assms poll_request_inv [OF assms, of CbDone "p_nexts s"] by simp
next
  case (PollRun r)
  then show ?thesis using poll_run_inv [OF assms, of strerror r] by auto
next
  case (PollEvent r status events)
  then show ?thesis using assms poll_event_inv [OF assms, of r status events] by auto
qed

lemma poll_step_keeps: "handle_inv s \<Longrightarrow> poll_inv s \<Longrightarrow> poll_step strerror a s = Inr s' \<Longrightarrow> handle_inv s' \<and> poll_inv s'"
  using poll_step_inv [of s strerror a] by auto

lemma poll_init_inv: "handle_inv Poll" "poll_inv Poll"
  by (simp_all add: handle_inv_def poll_inv_def Poll_def finals_def)

lemma poll_waits: "poll_inv s \<Longrightarrow> h_invoked s \<Longrightarrow> \<not> h_completed s \<Longrightarrow> h_context s \<noteq> None \<or> h_active s \<or> p_turn s"
  by (simp add: poll_inv_def)

interpretation poll: loop_handle "poll_step strerror" Poll poll_inv "\<lambda>s. h_context s \<noteq> None \<or> h_active s \<or> p_turn s" for strerror
  by unfold_locales (fact poll_init_inv, fact poll_init_inv, rule poll_step_keeps, assumption+, rule poll_waits, assumption+)

section \<open>Properties\<close>

text \<open>
  C23. \<^verbatim>\<open>Poll\<close> keeps to the protocol of a stream, whatever the order in which upstream, downstream, the interrupt, the event loop and libuv act: its continuation is called with nothing, or with
  one \<^verbatim>\<open>Begin\<close> and then values, no more than were asked for, and then at most one of \<^verbatim>\<open>Ended\<close>, \<^verbatim>\<open>Fail\<close> and \<^verbatim>\<open>Stop\<close>; none of its checks fails, whatever libuv returns; and while it has not
  completed something is left to happen: a callback to run, an event to come, the handle to be closed, or a request from downstream.
\<close>

theorem poll_follows_stream_protocol:
  assumes "star (\<lambda>s s'. \<exists>a. poll_step strerror a s = Inr s') Poll s"
  shows "(\<exists>vs. length vs \<le> p_nexts s \<and> h_calls s \<in> {finals s, Begin 0 # map Body vs @ finals s}) \<and> length (finals s) \<le> 1 \<and>
    (\<exists>s'. poll_step strerror a s = Inr s') \<and>
    (h_invoked s \<longrightarrow> finals s \<noteq> [] \<or> h_closing s \<noteq> None \<or> h_context s \<noteq> None \<or> h_active s \<or> p_turn s)"
proof -
  have i: "handle_inv s" "poll_inv s" using poll.handle_reach [OF assms] by simp_all
  have "\<exists>vs. length vs \<le> p_nexts s \<and> h_calls s \<in> {finals s, Begin 0 # map Body vs @ finals s}"
  proof (cases "h_started s \<and> h_calls s \<noteq> finals s")
    case True
    then obtain vs where "h_calls s = stream_log vs @ finals s" "length vs \<le> requested s" using poll_invD(2) [OF i(2)] by auto
    then show ?thesis by (intro exI [of _ vs]) (auto simp: requested_def stream_log_def split: if_splits)
  next
    case False
    then show ?thesis using poll_invD(2) [OF i(2)] by (intro exI [of _ "[]"]) (auto split: if_splits)
  qed
  moreover have "\<exists>s'. poll_step strerror a s = Inr s'" using poll_step_inv [OF i] by blast
  ultimately show ?thesis using poll.completes_once [OF assms] poll.never_lost [OF assms] by blast
qed

definition poll_example :: "poll_act list" where
  "poll_example = [PollHandle HRegister, PollStart False, PollRun 0, PollNext, PollRun 0, PollEvent 0 0 1, PollDone, PollRun 0, PollHandle HClosed]"

lemma poll_example_run:
  "\<exists>s. run_acts (poll_step (\<lambda>_. [])) poll_example Poll = Inr s \<and> h_calls s = [Begin 0, Body (VInt 1), Ended]"
  by (simp add: poll_example_def Poll_def start_handle_def loop_Submit_def poll_run_def poll_start_callback_def poll_next_callback_def poll_event_def
      poll_done_callback_def uv_close_def close_callback_def k_call_def Let_def)

theorem poll_follows_stream_protocol_witness:
  "\<exists>s. run_acts (poll_step (\<lambda>_. [])) poll_example Poll = Inr s \<and> h_calls s = [Begin 0, Body (VInt 1), Ended] \<and> length (finals s) \<le> 1"
proof -
  obtain s where s: "run_acts (poll_step (\<lambda>_. [])) poll_example Poll = Inr s" "h_calls s = [Begin 0, Body (VInt 1), Ended]"
    using poll_example_run by (elim exE conjE)
  have "length (finals s) \<le> 1" by (rule poll_follows_stream_protocol [OF run_acts_star [OF s(1)], of PollNext, THEN conjunct2, THEN conjunct1])
  with s show ?thesis by (intro exI conjI)
qed

end
