(* ===== verification/Loop_Queue.thy ===== *)
theory Loop_Queue
  imports Thread_Pool_Theorems
begin

text \<open>
  The queue of the event loop (\<^verbatim>\<open>Submit\<close>, \<^verbatim>\<open>Interrupt\<close> and \<^verbatim>\<open>Check\<close> of \<^verbatim>\<open>event-loop.cc\<close>) and the loop that runs it (\<^verbatim>\<open>RunOnce\<close> and \<^verbatim>\<open>RunUntilIdle\<close> of \<^verbatim>\<open>event-loop.h\<close>) at the level of atomic
  actions, as for the thread pool.

  \<^verbatim>\<open>uv_run\<close> waits for an event, one of which is the \<^verbatim>\<open>uv_async_send\<close> of \<^verbatim>\<open>Interrupt\<close>, and then runs \<^verbatim>\<open>Check\<close>; \<open>async\<close> says that such an event is outstanding, which wakes the loop and
  is then taken. Other events may wake the loop at any time. After the compare-and-swap of \<^verbatim>\<open>Submit\<close> only its \<^verbatim>\<open>Interrupt\<close> is left, which \<open>to_interrupt\<close> counts. The list of waiters is handled by the same code as in the thread
  pool: a simulation takes its invariants over.
\<close>

section \<open>State\<close>

datatype loop_pc =
    RIdle | RUvRun | CLoad | CCas wid | CWalk wid | CUnlink wid | CResume wid | CRunning wid | RTest | RStop

record loop_queue =
  waiters :: "wid option"
  lnext :: "wid \<Rightarrow> wid option"
  lcontext :: "wid \<Rightarrow> bool"
  lcallback :: "wid \<Rightarrow> nat option"
  lblocked :: "wid \<Rightarrow> bool"
  luse :: "wid \<Rightarrow> nat"
  lsubmit_at :: "wid \<Rightarrow> submit_pc"
  to_interrupt :: nat
  async :: bool
  running :: bool
  loop_at :: loop_pc
  lsubmitted :: "(wid \<times> nat) list"
  lran :: "(wid \<times> nat) list"

definition loop_init :: loop_queue where
  "loop_init =
     \<lparr>waiters = None, lnext = (\<lambda>_. None), lcontext = (\<lambda>_. False), lcallback = (\<lambda>_. None), lblocked = (\<lambda>_. False), luse = (\<lambda>_. 0),
      lsubmit_at = (\<lambda>_. SIdle), to_interrupt = 0, async = False, running = False, loop_at = RIdle, lsubmitted = [], lran = []\<rparr>"

section \<open>Submit and Interrupt\<close>

definition queue_submit :: "wid \<Rightarrow> nat \<Rightarrow> loop_queue \<Rightarrow> loop_queue res" where
  "queue_submit w callback s =
     check (\<not> lblocked s w) ''!context.blocked()''
       (let s1 = s\<lparr>lblocked := (lblocked s)(w := True), lcontext := (lcontext s)(w := True), lcallback := (lcallback s)(w := Some callback)\<rparr>
        in check (lnext s1 w = None) ''waiter->next == nullptr''
             (Inr (s1\<lparr>lnext := (lnext s1)(w := waiters s1), lsubmit_at := (lsubmit_at s1)(w := SCas)\<rparr>)))"

definition queue_cas :: "bool \<Rightarrow> wid \<Rightarrow> loop_queue \<Rightarrow> loop_queue" where
  "queue_cas spurious w s =
     (if waiters s = lnext s w \<and> \<not> spurious
      then s\<lparr>waiters := Some w, lsubmit_at := (lsubmit_at s)(w := SIdle), to_interrupt := to_interrupt s + 1,
             lsubmitted := lsubmitted s @ [(w, the (lcallback s w))]\<rparr>
      else s\<lparr>lnext := (lnext s)(w := waiters s)\<rparr>)"

definition loop_Interrupt :: "loop_queue \<Rightarrow> loop_queue" where
  "loop_Interrupt s = s\<lparr>async := True\<rparr>"

definition queue_interrupt :: "loop_queue \<Rightarrow> loop_queue" where
  "queue_interrupt s = (if to_interrupt s = 0 then s else loop_Interrupt (s\<lparr>to_interrupt := to_interrupt s - 1\<rparr>))"

section \<open>Check\<close>

definition check_load :: "loop_queue \<Rightarrow> loop_queue" where
  "check_load s =
     (case waiters s of
        None \<Rightarrow> s\<lparr>loop_at := RTest\<rparr>
      | Some waiter \<Rightarrow> s\<lparr>loop_at := if lnext s waiter = None then CCas waiter else CWalk waiter\<rparr>)"

definition check_cas :: "bool \<Rightarrow> wid \<Rightarrow> loop_queue \<Rightarrow> loop_queue" where
  "check_cas spurious waiter s =
     (if waiters s = Some waiter \<and> \<not> spurious then s\<lparr>waiters := None, loop_at := CResume waiter\<rparr> else s\<lparr>loop_at := CLoad\<rparr>)"

definition check_walk :: "wid \<Rightarrow> loop_queue \<Rightarrow> loop_queue res" where
  "check_walk waiter s =
     deref (lnext s waiter) ''waiter->next'' (\<lambda>y. Inr (s\<lparr>loop_at := if lnext s y \<noteq> None then CWalk y else CUnlink waiter\<rparr>))"

definition check_unlink :: "wid \<Rightarrow> loop_queue \<Rightarrow> loop_queue res" where
  "check_unlink waiter s =
     (case lnext s waiter of
        None \<Rightarrow> Inl (CheckFailed ''waiter->next != nullptr'')
      | Some y \<Rightarrow> Inr (s\<lparr>lnext := (lnext s)(waiter := None), loop_at := CResume y\<rparr>))"

definition check_resume :: "wid \<Rightarrow> loop_queue \<Rightarrow> loop_queue res" where
  "check_resume waiter s =
     check (lcontext s waiter) ''waiter->context''
       (let s1 = s\<lparr>lblocked := (lblocked s)(waiter := False), luse := (luse s)(waiter := luse s waiter + 1),
                   lcontext := (lcontext s)(waiter := False)\<rparr>
        in case lcallback s1 waiter of
             None \<Rightarrow> Inl (CheckFailed ''waiter->callback'')
           | Some callback \<Rightarrow>
               Inr (s1\<lparr>lcallback := (lcallback s1)(waiter := None), loop_at := CRunning waiter, lran := lran s1 @ [(waiter, callback)]\<rparr>))"

definition check_return :: "wid \<Rightarrow> loop_queue \<Rightarrow> loop_queue" where
  "check_return context s = s\<lparr>luse := (luse s)(context := luse s context - 1), loop_at := CLoad\<rparr>"

section \<open>RunOnce and RunUntilIdle\<close>

text \<open>They differ in whether \<^verbatim>\<open>uv_run\<close> waits for an event or only looks for one; \<open>run_once\<close> tells them apart. A \<^verbatim>\<open>compare_exchange_weak\<close> may fail although nobody runs the loop.\<close>

definition run_begin :: "bool \<Rightarrow> loop_queue \<Rightarrow> loop_queue res" where
  "run_begin spurious s =
     check (\<not> running s \<and> \<not> spurious) ''Another thread is already running the event loop!'' (Inr (s\<lparr>running := True, loop_at := RUvRun\<rparr>))"

definition run_uv_run :: "bool \<Rightarrow> bool \<Rightarrow> loop_queue \<Rightarrow> loop_queue" where
  "run_uv_run run_once event s = (if run_once \<and> \<not> async s \<and> \<not> event then s else s\<lparr>async := False, loop_at := CLoad\<rparr>)"

definition run_test :: "loop_queue \<Rightarrow> loop_queue" where
  "run_test s = s\<lparr>loop_at := if waiters s \<noteq> None then RUvRun else RStop\<rparr>"

definition run_end :: "loop_queue \<Rightarrow> loop_queue res" where
  "run_end s = check (running s) ''running_.exchange(false)'' (Inr (s\<lparr>running := False, loop_at := RIdle\<rparr>))"

definition run_step :: "bool \<Rightarrow> bool \<Rightarrow> bool \<Rightarrow> loop_queue \<Rightarrow> loop_queue res" where
  "run_step run_once event spurious s =
     (case loop_at s of
        RIdle \<Rightarrow> run_begin spurious s
      | RUvRun \<Rightarrow> Inr (run_uv_run run_once event s)
      | CLoad \<Rightarrow> Inr (check_load s)
      | CCas waiter \<Rightarrow> Inr (check_cas spurious waiter s)
      | CWalk waiter \<Rightarrow> check_walk waiter s
      | CUnlink waiter \<Rightarrow> check_unlink waiter s
      | CResume waiter \<Rightarrow> check_resume waiter s
      | CRunning context \<Rightarrow> Inr (check_return context s)
      | RTest \<Rightarrow> Inr (run_test s)
      | RStop \<Rightarrow> run_end s)"

datatype loop_act = LSubmit wid nat | LSubmitCas bool wid | LInterrupt | LRun bool bool bool

fun loop_step :: "loop_act \<Rightarrow> loop_queue \<Rightarrow> loop_queue res" where
  "loop_step (LSubmit w callback) s = queue_submit w callback s"
| "loop_step (LSubmitCas spurious w) s = Inr (if lsubmit_at s w = SCas then queue_cas spurious w s else s)"
| "loop_step LInterrupt s = Inr (queue_interrupt s)"
| "loop_step (LRun run_once event spurious) s = run_step run_once event spurious s"

inductive loop_reach :: "loop_queue \<Rightarrow> bool" where
  loop_start: "loop_reach loop_init"
| loop_next: "loop_reach s \<Longrightarrow> loop_step a s = Inr s' \<Longrightarrow> loop_reach s'"

section \<open>The thread pool does the same\<close>

text \<open>\<open>as_pool s p\<close>: the pool \<open>p\<close> with one CPU has the queue of the loop \<open>s\<close>; its thread is where the loop is, and waits for its semaphore while the loop is not in \<^verbatim>\<open>Check\<close> or is about to look at the queue.\<close>

fun same_place :: "loop_pc \<Rightarrow> worker_pc \<Rightarrow> bool" where
  "same_place (CCas x) pc \<longleftrightarrow> pc = WCas x"
| "same_place (CWalk x) pc \<longleftrightarrow> pc = WWalk x"
| "same_place (CUnlink x) pc \<longleftrightarrow> pc = WUnlink x"
| "same_place (CResume x) pc \<longleftrightarrow> pc = WResume x"
| "same_place (CRunning x) pc \<longleftrightarrow> pc = WRunning x"
| "same_place CLoad pc \<longleftrightarrow> pc = WWait \<or> pc = WLoad"
| "same_place _ pc \<longleftrightarrow> pc = WWait"

definition as_pool :: "loop_queue \<Rightarrow> pool \<Rightarrow> bool" where
  "as_pool s p \<longleftrightarrow>
     pool_reach 1 (\<lambda>_. Some 0) p \<and> \<not> shutdown p \<and> concurrency p = 1 \<and> pinned p = (\<lambda>_. Some 0) \<and> heads p 0 = waiters s \<and> pnext p = lnext s \<and>
     pcontext p = lcontext s \<and> pcallback p = lcallback s \<and> blocked p = lblocked s \<and> in_use p = luse s \<and> submit_at p = lsubmit_at s \<and>
     submitted p 0 = lsubmitted s \<and> ran p 0 = lran s \<and> same_place (loop_at s) (worker_at p 0)"

lemma as_poolD:
  assumes "as_pool s p"
  shows "pool_reach 1 (\<lambda>_. Some 0) p" "\<not> shutdown p" "concurrency p = 1" "pinned p = (\<lambda>_. Some 0)" "heads p 0 = waiters s" "pnext p = lnext s"
    "pcontext p = lcontext s" "pcallback p = lcallback s" "blocked p = lblocked s" "in_use p = luse s" "submit_at p = lsubmit_at s"
    "submitted p 0 = lsubmitted s" "ran p 0 = lran s" "same_place (loop_at s) (worker_at p 0)"
  using assms by (simp_all add: as_pool_def)

lemma as_pool_init: "as_pool loop_init (pool_init 1 (\<lambda>_. Some 0))"
  by (simp add: as_pool_def pool_start loop_init_def) (simp add: pool_init_def)

lemma as_pool_step:
  assumes "as_pool s p" "pool_step a p = Inr p'" "\<not> shutdown p'" "concurrency p' = 1" "pinned p' = (\<lambda>_. Some 0)" "heads p' 0 = waiters s'" "pnext p' = lnext s'"
    "pcontext p' = lcontext s'" "pcallback p' = lcallback s'" "blocked p' = lblocked s'" "in_use p' = luse s'" "submit_at p' = lsubmit_at s'"
    "submitted p' 0 = lsubmitted s'" "ran p' 0 = lran s'" "same_place (loop_at s') (worker_at p' 0)"
  shows "as_pool s' p'"
  using assms pool_next [OF as_poolD(1) [OF assms(1)] assms(2)] by (simp add: as_pool_def)

lemma as_pool_submit:
  assumes "as_pool s p" "queue_submit w cb s = Inr s'"
  shows "\<exists>p'. as_pool s' p'"
proof -
  note d = as_poolD [OF assms(1)]
  obtain p' where p': "submit_begin w cb p = Inr p'" using assms(2) d by (auto simp: queue_submit_def submit_begin_def pool_cpu_def Let_def)
  then have "pool_step (Submit w cb) p = Inr p'" by simp
  then have "as_pool s' p'"
    by (rule as_pool_step [OF assms(1)]) (use p' assms(2) d in \<open>auto simp: queue_submit_def submit_begin_def pool_cpu_def Let_def\<close>)
  then show ?thesis ..
qed

lemma as_pool_cas:
  assumes "as_pool s p" "lsubmit_at s w = SCas"
  shows "\<exists>p'. as_pool (queue_cas b w s) p'"
proof -
  note d = as_poolD [OF assms(1)]
  obtain p' where p': "submit_cas b w p = Inr p'" using d by (auto simp: submit_cas_def pool_cpu_def)
  then have "pool_step (SubmitCas b w) p = Inr p'" using d(11) assms(2) by simp
  then have "as_pool (queue_cas b w s) p'"
    by (rule as_pool_step [OF assms(1)]) (use p' d in \<open>auto simp: queue_cas_def submit_cas_def pool_cpu_def split: if_splits\<close>)
  then show ?thesis ..
qed

text \<open>When the queue is not empty the thread of the pool can get to look at it: the semaphore was signalled, or will be at once.\<close>

lemma as_pool_wakes:
  assumes "as_pool s p" "loop_at s = CLoad" "waiters s = Some x"
  shows "\<exists>p'. as_pool s p' \<and> worker_at p' 0 = WLoad"
proof (cases "worker_at p 0 = WLoad")
  case False
  note d = as_poolD [OF assms(1)]
  have w: "worker_at p 0 = WWait" using False d(14) assms(2) by simp
  obtain q where i: "pool_inv p q" using pool_reach_inv [OF d(1)] by blast
  have "q 0 \<noteq> []" using queueD(1) [OF pool_invD(1) [OF i, of 0]] d(5) assms(3) by auto
  then have c: "0 < semaphores p 0 + to_signal p 0" using pool_invD(2) [OF i, of 0] d(2) w by (cases "q 0") (auto simp: count_inv_def)
  obtain p1 where p1: "as_pool s p1" "worker_at p1 0 = WWait" "0 < semaphores p1 0"
  proof (cases "0 < semaphores p 0")
    case True
    then show ?thesis using that assms(1) w by blast
  next
    case False
    have "pool_step (SubmitSignal 0) p = Inr (submit_signal 0 p)" by simp
    then have "as_pool s (submit_signal 0 p)"
      by (rule as_pool_step [OF assms(1)]) (use d in \<open>auto simp: submit_signal_def Semaphore_Signal_def\<close>)
    moreover have "worker_at (submit_signal 0 p) 0 = WWait" "0 < semaphores (submit_signal 0 p) 0" using c False w by (auto simp: submit_signal_def Semaphore_Signal_def)
    ultimately show ?thesis using that by blast
  qed
  note d1 = as_poolD [OF p1(1)]
  have "pool_step (WorkerStep False 0) p1 = Inr (Semaphore_Wait 0 p1)" using p1(2) by (simp add: worker_step_def)
  then have "as_pool s (Semaphore_Wait 0 p1)"
    by (rule as_pool_step [OF p1(1)]) (use d1 p1(3) assms(2) in \<open>auto simp: Semaphore_Wait_def worker_goto_def\<close>)
  moreover have "worker_at (Semaphore_Wait 0 p1) 0 = WLoad" using p1(3) by (simp add: Semaphore_Wait_def worker_goto_def)
  ultimately show ?thesis by blast
qed (use assms(1) in blast)

lemma as_pool_load:
  assumes "as_pool s p" "loop_at s = CLoad"
  shows "\<exists>p'. as_pool (check_load s) p'"
proof (cases "waiters s")
  case None
  note d = as_poolD [OF assms(1)]
  obtain q where i: "pool_inv p q" using pool_reach_inv [OF d(1)] by blast
  have "q 0 = []" using queueD(1) [OF pool_invD(1) [OF i, of 0]] d(5) None by simp
  then have "worker_at p 0 \<noteq> WLoad" using pool_invD(2) [OF i, of 0] d(2) by (auto simp: count_inv_def)
  then have "worker_at p 0 = WWait" using d(14) assms(2) by simp
  then have "as_pool (check_load s) p" using assms(1) None by (simp add: as_pool_def check_load_def)
  then show ?thesis ..
next
  case (Some x)
  obtain p' where p': "as_pool s p'" "worker_at p' 0 = WLoad" using as_pool_wakes [OF assms Some] by blast
  note d = as_poolD [OF p'(1)]
  have "pool_step (WorkerStep False 0) p' = Inr (worker_load 0 p')" using p'(2) by (simp add: worker_step_def)
  then have "as_pool (check_load s) (worker_load 0 p')"
    by (rule as_pool_step [OF p'(1)]) (use d Some in \<open>auto simp: check_load_def worker_load_def worker_goto_def\<close>)
  then show ?thesis ..
qed

lemma as_pool_check_cas:
  assumes "as_pool s p" "loop_at s = CCas x"
  shows "\<exists>p'. as_pool (check_cas b x s) p'"
proof -
  note d = as_poolD [OF assms(1)]
  have "pool_step (WorkerStep b 0) p = Inr (worker_cas b 0 x p)" using d(14) assms(2) by (simp add: worker_step_def)
  then have "as_pool (check_cas b x s) (worker_cas b 0 x p)"
    by (rule as_pool_step [OF assms(1)]) (use d in \<open>auto simp: check_cas_def worker_cas_def worker_goto_def\<close>)
  then show ?thesis ..
qed

text \<open>What the loop does to a waiter it has found succeeds, as it does in the pool.\<close>

lemma worker_ok_at:
  assumes "as_pool s p"
  obtains p' where "worker_step False 0 p = Inr p'"
  using pool_reach_inv [OF as_poolD(1) [OF assms]] inv_worker by blast

lemma as_pool_check_walk:
  assumes "as_pool s p" "loop_at s = CWalk x"
  shows "\<exists>s' p'. check_walk x s = Inr s' \<and> as_pool s' p'"
proof -
  note d = as_poolD [OF assms(1)]
  obtain p' where st: "worker_step False 0 p = Inr p'" using worker_ok_at [OF assms(1)] .
  then have p': "worker_walk 0 x p = Inr p'" using d(14) assms(2) by (simp add: worker_step_def)
  then obtain s' where s': "check_walk x s = Inr s'" using d(6) by (auto simp: worker_walk_def check_walk_def)
  have "pool_step (WorkerStep False 0) p = Inr p'" using st by simp
  then have "as_pool s' p'"
    by (rule as_pool_step [OF assms(1)]) (use p' s' d in \<open>auto simp: worker_walk_def check_walk_def worker_goto_def\<close>)
  then show ?thesis using s' by blast
qed

lemma as_pool_check_unlink:
  assumes "as_pool s p" "loop_at s = CUnlink x"
  shows "\<exists>s' p'. check_unlink x s = Inr s' \<and> as_pool s' p'"
proof -
  note d = as_poolD [OF assms(1)]
  obtain p' where st: "worker_step False 0 p = Inr p'" using worker_ok_at [OF assms(1)] .
  then have p': "worker_unlink 0 x p = Inr p'" using d(14) assms(2) by (simp add: worker_step_def)
  then obtain s' where s': "check_unlink x s = Inr s'" using d(6) by (auto simp: worker_unlink_def check_unlink_def)
  have "pool_step (WorkerStep False 0) p = Inr p'" using st by simp
  then have "as_pool s' p'"
    by (rule as_pool_step [OF assms(1)]) (use p' s' d in \<open>auto simp: worker_unlink_def check_unlink_def worker_goto_def\<close>)
  then show ?thesis using s' by blast
qed

lemma as_pool_check_resume:
  assumes "as_pool s p" "loop_at s = CResume x"
  shows "\<exists>s' p'. check_resume x s = Inr s' \<and> as_pool s' p'"
proof -
  note d = as_poolD [OF assms(1)]
  obtain p' where st: "worker_step False 0 p = Inr p'" using worker_ok_at [OF assms(1)] .
  then have p': "worker_resume 0 x p = Inr p'" using d(14) assms(2) by (simp add: worker_step_def)
  then obtain s' where s': "check_resume x s = Inr s'" using d(7,8) by (auto simp: worker_resume_def check_resume_def Let_def split: option.splits)
  have "pool_step (WorkerStep False 0) p = Inr p'" using st by simp
  then have "as_pool s' p'"
    by (rule as_pool_step [OF assms(1)])
      (use p' s' d in \<open>auto simp: worker_resume_def check_resume_def worker_goto_def Let_def split: option.splits\<close>)
  then show ?thesis using s' by blast
qed

lemma as_pool_check_return:
  assumes "as_pool s p" "loop_at s = CRunning x"
  shows "\<exists>p'. as_pool (check_return x s) p'"
proof -
  note d = as_poolD [OF assms(1)]
  let ?p = "worker_return 0 x p"
  have w: "worker_at p 0 = WRunning x" using d(14) assms(2) by simp
  have "pool_step (WorkerStep False 0) p = Inr ?p" using w by (simp add: worker_step_def)
  then have r: "pool_reach 1 (\<lambda>_. Some 0) ?p" by (rule pool_next [OF d(1)])
  have "pool_step (WorkerStep False 0) ?p = Inr (worker_check 0 ?p)" by (simp add: worker_step_def worker_return_def worker_goto_def)
  then have "pool_reach 1 (\<lambda>_. Some 0) (worker_check 0 ?p)" by (rule pool_next [OF r])
  then have "as_pool (check_return x s) (worker_check 0 ?p)"
    using d by (auto simp: as_pool_def check_return_def worker_check_def worker_return_def worker_goto_def)
  then show ?thesis ..
qed

lemma as_pool_run:
  assumes "as_pool s p" "run_step run_once event spurious s = Inr s'"
  shows "\<exists>p'. as_pool s' p'"
proof (cases "loop_at s")
  case CLoad
  then show ?thesis using as_pool_load [OF assms(1)] assms(2) by (simp add: run_step_def)
next
  case (CCas x)
  then show ?thesis using as_pool_check_cas [OF assms(1)] assms(2) by (auto simp: run_step_def)
next
  case (CWalk x)
  then show ?thesis using as_pool_check_walk [OF assms(1) CWalk] assms(2) by (auto simp: run_step_def)
next
  case (CUnlink x)
  then show ?thesis using as_pool_check_unlink [OF assms(1) CUnlink] assms(2) by (auto simp: run_step_def)
next
  case (CResume x)
  then show ?thesis using as_pool_check_resume [OF assms(1) CResume] assms(2) by (auto simp: run_step_def)
next
  case (CRunning x)
  then show ?thesis using as_pool_check_return [OF assms(1)] assms(2) by (auto simp: run_step_def)
qed (use assms in \<open>auto simp: run_step_def run_begin_def run_uv_run_def run_test_def run_end_def as_pool_def intro!: exI [of _ p]\<close>)

lemma loop_reach_as_pool: "loop_reach s \<Longrightarrow> \<exists>p. as_pool s p"
proof (induction rule: loop_reach.induct)
  case loop_start
  show ?case using as_pool_init ..
next
  case (loop_next s a s')
  then obtain p where p: "as_pool s p" by blast
  show ?case
  proof (cases a)
    case (LSubmit w cb)
    then show ?thesis using as_pool_submit [OF p] loop_next.hyps(2) by simp
  next
    case (LSubmitCas b w)
    then show ?thesis using as_pool_cas [OF p, of w b] loop_next.hyps(2) p by (cases "lsubmit_at s w = SCas") auto
  next
    case LInterrupt
    then have "as_pool s' p" using p loop_next.hyps(2) by (auto simp: queue_interrupt_def loop_Interrupt_def as_pool_def)
    then show ?thesis ..
  next
    case (LRun run_once event spurious)
    then show ?thesis using as_pool_run [OF p] loop_next.hyps(2) by simp
  qed
qed

section \<open>The loop wakes up\<close>

fun in_check :: "loop_pc \<Rightarrow> bool" where
  "in_check RIdle = False"
| "in_check RUvRun = False"
| "in_check RTest = False"
| "in_check RStop = False"
| "in_check _ = True"

definition wake_inv :: "loop_queue \<Rightarrow> bool" where
  "wake_inv s \<longleftrightarrow> (running s \<longleftrightarrow> loop_at s \<noteq> RIdle) \<and> (waiters s \<noteq> None \<longrightarrow> 0 < to_interrupt s \<or> async s \<or> in_check (loop_at s))"

lemmas loop_run_defs = run_step_def run_begin_def run_uv_run_def run_test_def run_end_def check_load_def check_cas_def check_walk_def check_unlink_def check_resume_def check_return_def

lemma check_resumeD: "check_resume x s = Inr s' \<Longrightarrow> loop_at s' = CRunning x \<and> running s' = running s"
  by (auto simp: check_resume_def check_def Let_def split: if_splits option.splits)

lemma wake_inv_run:
  assumes "wake_inv s" "run_step run_once event spurious s = Inr s'"
  shows "wake_inv s'"
proof (cases "loop_at s")
  case RIdle
  then show ?thesis using assms by (auto simp: run_step_def run_begin_def wake_inv_def check_def split: if_splits)
next
  case RUvRun
  then show ?thesis using assms by (auto simp: run_step_def run_uv_run_def wake_inv_def split: if_splits)
next
  case CLoad
  then show ?thesis using assms by (cases "waiters s") (auto simp: run_step_def check_load_def wake_inv_def split: if_splits)
next
  case (CCas x)
  then show ?thesis using assms by (auto simp: run_step_def check_cas_def wake_inv_def split: if_splits)
next
  case (CWalk x)
  then show ?thesis using assms by (cases "lnext s x") (auto simp: run_step_def check_walk_def wake_inv_def split: if_splits)
next
  case (CUnlink x)
  then show ?thesis using assms by (cases "lnext s x") (auto simp: run_step_def check_unlink_def wake_inv_def)
next
  case (CResume x)
  then show ?thesis using assms check_resumeD [of x s s'] by (simp add: run_step_def wake_inv_def)
next
  case (CRunning x)
  then show ?thesis using assms by (auto simp: run_step_def check_return_def wake_inv_def)
next
  case RTest
  then show ?thesis using assms by (auto simp: run_step_def run_test_def wake_inv_def split: if_splits)
next
  case RStop
  then show ?thesis using assms by (auto simp: run_step_def run_end_def wake_inv_def check_def split: if_splits)
qed

lemma wake_inv_step:
  assumes "wake_inv s" "loop_step a s = Inr s'"
  shows "wake_inv s'"
proof (cases a)
  case (LSubmit w cb)
  then show ?thesis using assms by (auto simp: wake_inv_def queue_submit_def Let_def)
next
  case (LSubmitCas b w)
  then show ?thesis using assms by (auto simp: wake_inv_def queue_cas_def split: if_splits)
next
  case LInterrupt
  then show ?thesis using assms by (auto simp: wake_inv_def queue_interrupt_def loop_Interrupt_def split: if_splits)
next
  case (LRun run_once event spurious)
  then show ?thesis using wake_inv_run assms by simp
qed

lemma loop_reach_wake: "loop_reach s \<Longrightarrow> wake_inv s"
proof (induction rule: loop_reach.induct)
  case loop_start
  show ?case by (simp add: wake_inv_def loop_init_def)
next
  case (loop_next s a s')
  then show ?case by (blast intro: wake_inv_step)
qed

section \<open>Properties\<close>

text \<open>
  C20. The event loop runs the callbacks that are submitted to it, each once and in the order in which their \<^verbatim>\<open>Submit\<close> pushed them, in every interleaving of any number of submitting threads with the thread that runs the loop; and no
  wake-up is lost: outside of \<^verbatim>\<open>Check\<close>, when no \<^verbatim>\<open>Interrupt\<close> is outstanding and none is still to come from a \<^verbatim>\<open>Submit\<close>, it has run all of them, so that \<^verbatim>\<open>uv_run\<close> never waits while there is something to run.
\<close>

theorem event_loop_is_fifo:
  assumes "loop_reach s"
  shows "(\<exists>rest. lsubmitted s = lran s @ rest) \<and>
    (\<not> in_check (loop_at s) \<and> to_interrupt s = 0 \<and> \<not> async s \<longrightarrow> lran s = lsubmitted s)"
proof -
  obtain p where p: "as_pool s p" using loop_reach_as_pool [OF assms] by blast
  note d = as_poolD [OF p]
  obtain q where i: "pool_inv p q" using pool_reach_inv [OF d(1)] by blast
  note qc = queueD [OF pool_invD(1) [OF i, of 0]]
  have "lran s = lsubmitted s" if idle: "\<not> in_check (loop_at s)" "to_interrupt s = 0" "\<not> async s"
  proof -
    have "waiters s = None" using loop_reach_wake [OF assms] idle by (auto simp: wake_inv_def)
    then have "q 0 = []" using qc(1) d(5) by simp
    moreover have "worker_at p 0 = WWait" using d(14) idle(1) by (cases "loop_at s") auto
    ultimately show ?thesis using qc(8) d(12,13) by (simp add: jobs_def)
  qed
  then show ?thesis using qc(8) d(12,13) by auto
qed

fun loop_run :: "loop_act list \<Rightarrow> loop_queue \<Rightarrow> loop_queue res" where
  "loop_run [] s = Inr s"
| "loop_run (a # as) s = rbind (loop_step a s) (loop_run as)"

lemma loop_run_reach: "loop_reach s \<Longrightarrow> loop_run as s = Inr s' \<Longrightarrow> loop_reach s'"
  by (induction as arbitrary: s) (auto intro: loop_next)

definition turn :: loop_act where
  "turn = LRun True False False"

definition two_callbacks :: "loop_act list" where
  "two_callbacks =
     [LSubmit 1 10, LSubmit 2 20, LSubmitCas False 2, LSubmitCas False 1, LSubmitCas False 1, LInterrupt, turn, turn, turn, turn, turn, turn, turn, turn,
      LInterrupt, turn, turn, turn, turn, turn, turn, turn, turn, turn]"

lemmas loop_eval = two_callbacks_def turn_def loop_init_def queue_submit_def queue_cas_def queue_interrupt_def loop_Interrupt_def loop_run_defs Let_def

lemma two_callbacks_run:
  "\<exists>s. loop_run two_callbacks loop_init = Inr s \<and> \<not> in_check (loop_at s) \<and> to_interrupt s = 0 \<and> \<not> async s \<and> lsubmitted s = [(2, 20), (1, 10)]"
  by (simp add: loop_eval)

theorem event_loop_is_fifo_witness: "\<exists>s. loop_run two_callbacks loop_init = Inr s \<and> lran s = [(2, 20), (1, 10)]"
proof -
  obtain s where s: "loop_run two_callbacks loop_init = Inr s" "\<not> in_check (loop_at s)" "to_interrupt s = 0" "\<not> async s" "lsubmitted s = [(2, 20), (1, 10)]"
    using two_callbacks_run by (elim exE conjE)
  from event_loop_is_fifo [OF loop_run_reach [OF loop_start s(1)]] s(2-5) have "lran s = [(2, 20), (1, 10)]" by simp
  with s(1) show ?thesis by blast
qed

text \<open>
  No check of the queue fails and no null pointer is followed, except in \<^verbatim>\<open>Submit\<close> for a context that is blocked, that is, submitted and not resumed since, and when the loop is started: there the
  \<^verbatim>\<open>compare_exchange_weak\<close> may fail spuriously, and the process aborts with the message that another thread is running the loop.
\<close>

lemma queue_submit_ok:
  assumes "as_pool s p" "\<not> lblocked s w"
  shows "\<exists>s'. queue_submit w cb s = Inr s'"
proof -
  note d = as_poolD [OF assms(1)]
  obtain q where i: "pool_inv p q" using pool_reach_inv [OF d(1)] by blast
  have "lnext s w = None" using not_pendingD(4) [OF i, of w] assms(2) d(6,9) by simp
  then show ?thesis using assms(2) by (simp add: queue_submit_def Let_def)
qed

lemma event_loop_aborts:
  assumes "loop_reach s" "loop_step a s = Inl x"
  shows "(\<exists>w cb. a = LSubmit w cb \<and> lblocked s w) \<or>
    (\<exists>run_once event. a = LRun run_once event True \<and> loop_at s = RIdle \<and> \<not> running s \<and> x = CheckFailed ''Another thread is already running the event loop!'')"
proof -
  obtain p where p: "as_pool s p" using loop_reach_as_pool [OF assms(1)] by blast
  note wake = loop_reach_wake [OF assms(1)]
  show ?thesis
  proof (cases a)
    case (LSubmit w cb)
    then show ?thesis using queue_submit_ok [OF p, of w cb] assms(2) by auto
  next
    case (LRun run_once event spurious)
    then have "loop_at s = RIdle \<and> \<not> running s \<and> spurious \<and> x = CheckFailed ''Another thread is already running the event loop!''"
      using assms(2) wake as_pool_check_walk [OF p] as_pool_check_unlink [OF p] as_pool_check_resume [OF p]
      by (cases "loop_at s") (auto simp: run_step_def run_begin_def run_end_def check_def wake_inv_def split: if_splits)
    then show ?thesis using LRun by auto
  qed (use assms(2) in auto)
qed

text \<open>A spurious failure of the weak compare-and-swap aborts a program that runs its loop on one thread only.\<close>

lemma weak_cas_aborts: "loop_step (LRun run_once event True) loop_init = Inl (CheckFailed ''Another thread is already running the event loop!'')"
  by (simp add: run_step_def run_begin_def loop_init_def)

text \<open>A second thread that runs the loop aborts.\<close>

lemma second_runner_aborts: "running s \<Longrightarrow> run_begin spurious s = Inl (CheckFailed ''Another thread is already running the event loop!'')"
  by (simp add: run_begin_def)

end
