(* ===== verification/Stream_Hooks.thy ===== *)
theory Stream_Hooks
  imports Stream_Theorems
begin

text \<open>
  The small combinators around streams: \<^verbatim>\<open>OnBegin\<close> and \<^verbatim>\<open>OnEnded\<close> (\<^verbatim>\<open>on-begin.h\<close>, \<^verbatim>\<open>on-ended.h\<close>), whose stages are in \<open>Stream_Stages\<close>, \<^verbatim>\<open>Foreach\<close> (\<^verbatim>\<open>foreach.h\<close>) and the callable
  \<^verbatim>\<open>Sequence\<close> (\<^verbatim>\<open>sequence.h\<close>).
\<close>

section \<open>OnBegin and OnEnded are transparent\<close>

lemma on_begin_streams:
  assumes "streams ss p xs fin"
  shows "streams (ss @ [OnBeginS t]) p xs fin"
proof -
  have f: "passes_final (OnBeginS t)" by (rule passes_finalI) (auto simp: handles_def)
  show ?thesis
    using assms
  proof (induction xs arbitrary: ss)
    case Nil
    then show ?case by (rule streams_Nil_through [OF _ f])
  next
    case (Cons x xs)
    then have "answers (ss @ [OnBeginS t]) p Next (Body x) (\<lambda>z. streams z p xs fin)"
      by (auto intro!: answers_deliver [of ss p Next "Body x" "\<lambda>ss'. streams ss' p xs fin" "OnBeginS t" "OnBeginS t"] simp: handles_def)
    then show ?case using done_ok_through [OF streams_done_ok [OF Cons.prems] f] by simp
  qed
qed

interpretation on_begin_stage: stream_transformer "[OnBeginS (OnBegin f u)]" "\<lambda>_ _. True" Pair for f u
  by unfold_locales
    (auto intro!: produces_through [where t' = "\<lambda>_ _. OnBeginS \<lparr>ob_f = f, ob_state = f u, ob_adapted = True\<rparr>" and q = "\<lambda>p. p"]
      simp: OnBegin_def on_begin_streams)

lemma on_ended_final:
  assumes "\<not> oe_adapted t" "oe_previous t \<noteq> None"
  shows "\<exists>t'. handles ss (OnEndedS t) (Call (call_of_final e)) t' (ToK (call_of_final e))"
  using assms by (cases e) (auto simp: handles_def)

lemma on_ended_streams:
  assumes "streams ss p xs fin" "\<not> oe_adapted t" "oe_previous t \<noteq> None"
  shows "streams (ss @ [OnEndedS t]) p xs fin"
proof -
  have d: "done_ok (ss @ [OnEndedS t]) p" if "done_ok ss p" for ss
    using on_ended_final [OF assms(2,3), of ss FEnded] done_ok_deliver [OF that] by auto
  show ?thesis
    using assms(1)
  proof (induction xs arbitrary: ss)
    case Nil
    then show ?case using d on_ended_final [OF assms(2,3), of ss] by (cases fin) (auto intro: answers_deliver)
  next
    case (Cons x xs)
    then have "answers (ss @ [OnEndedS t]) p Next (Body x) (\<lambda>z. streams z p xs fin)"
      by (auto intro!: answers_deliver [of ss p Next "Body x" "\<lambda>ss'. streams ss' p xs fin" "OnEndedS t" "OnEndedS t"] simp: handles_def)
    then show ?case using d [of ss] Cons.prems by simp
  qed
qed

interpretation on_ended_stage: stream_transformer "[OnEndedS (OnEnded f u)]" "\<lambda>_ _. True" Pair for f u
  by unfold_locales
    (auto intro!: produces_through [where t' = "\<lambda>cur _. OnEndedS \<lparr>oe_f = f, oe_state = u, oe_adapted = False, oe_previous = Some cur\<rparr>" and q = "\<lambda>p. p"]
      simp: OnEnded_def on_ended_streams)

section \<open>The callables run once\<close>

text \<open>A stage changes only when it is called, and only its own call is passed to the stage after it.\<close>

lemma pipe_step_at:
  assumes "pipe_step (ss, cur, t) = Some (Inr (ss', cur', t'))" "i < length ss"
  shows "ss' ! i = ss ! i \<and> (\<forall>c. t' \<noteq> Down (Suc i) c) \<or>
    (\<exists>x w. stage_handle i cur (ss ! i) x = Inr (ss' ! i, w) \<and> t' = route i (out_dest w))"
proof -
  obtain j x where f: "fire ss cur j x = Inr (ss', cur', t')" using assms(1) by (cases t) (auto split: if_splits)
  then obtain s w where sw: "stage_handle j cur (ss ! j) x = Inr (s, w)" "ss' = ss[j := s]" "(cur', t') = enter cur j w" by (auto simp: fire_def)
  have t': "t' = route j (out_dest w)" using sw(3) by (metis snd_conv snd_enter)
  show ?thesis
  proof (cases "i = j")
    case True
    then show ?thesis using sw t' assms(2) by auto
  next
    case False
    then show ?thesis using sw(2) t' by (cases "out_dest w") auto
  qed
qed

definition hook_inv :: "nat \<Rightarrow> (('c, 'd, 'i) stage \<Rightarrow> bool) \<Rightarrow> (('c, 'd, 'i) stage \<Rightarrow> bool) \<Rightarrow> (call \<Rightarrow> bool) \<Rightarrow> ('c, 'd, 'i) config \<Rightarrow> bool" where
  "hook_inv i P did c y \<longleftrightarrow> (case y of (ss, cur, t) \<Rightarrow> i < length ss \<and> P (ss ! i) \<and> (\<forall>d. t = Down (Suc i) d \<longrightarrow> c d \<longrightarrow> did (ss ! i)))"

lemma hook_inv_steps:
  assumes "pipe_steps x y" "hook_inv i P did c x"
    and "\<And>s cur z s' w. P s \<Longrightarrow> stage_handle i cur s z = Inr (s', w) \<Longrightarrow> P s' \<and> (\<forall>d. out_dest w = ToK d \<longrightarrow> c d \<longrightarrow> did s')"
  shows "hook_inv i P did c y"
proof (rule star_invariant [where P = "hook_inv i P did c", OF assms(1,2)])
  fix a b assume s: "pipe_steps1 a b" and inv: "hook_inv i P did c a"
  obtain ss cur t ss' cur' t' where ab: "a = (ss, cur, t)" "b = (ss', cur', t')" by (cases a; cases b) auto
  have step: "pipe_step (ss, cur, t) = Some (Inr (ss', cur', t'))" using s ab by (simp add: pipe_steps1_def)
  have i: "i < length ss" "P (ss ! i)" using inv ab by (simp_all add: hook_inv_def)
  from pipe_step_at [OF step i(1)] show "hook_inv i P did c b"
  proof (elim disjE exE conjE)
    fix z w assume h: "stage_handle i cur (ss ! i) z = Inr (ss' ! i, w)" "t' = route i (out_dest w)"
    show ?thesis using assms(3) [OF i(2) h(1)] h(2) pipe_step_length [OF step] i(1) ab by (cases "out_dest w") (auto simp: hook_inv_def)
  qed (use i pipe_step_length [OF step] ab in \<open>simp add: hook_inv_def\<close>)
qed

fun on_begin_ran :: "(val \<Rightarrow> val) \<Rightarrow> val \<Rightarrow> ('c, 'd, 'i) stage \<Rightarrow> bool" where
  "on_begin_ran f u (OnBeginS s) \<longleftrightarrow> ob_f s = f \<and> ob_state s = (if ob_adapted s then f u else u)"
| "on_begin_ran f u _ \<longleftrightarrow> False"

fun on_ended_ran :: "(val \<Rightarrow> val) \<Rightarrow> val \<Rightarrow> ('c, 'd, 'i) stage \<Rightarrow> bool" where
  "on_ended_ran f u (OnEndedS s) \<longleftrightarrow> oe_f s = f \<and> oe_state s = (if oe_adapted s then f u else u)"
| "on_ended_ran f u _ \<longleftrightarrow> False"

fun hook_adapted :: "('c, 'd, 'i) stage \<Rightarrow> bool" where
  "hook_adapted (OnBeginS s) = ob_adapted s"
| "hook_adapted (OnEndedS s) = oe_adapted s"
| "hook_adapted _ = False"

lemma on_begin_ran_step:
  assumes "on_begin_ran f u s" "stage_handle i cur s z = Inr (s', w)"
  shows "on_begin_ran f u s' \<and> (\<forall>d. out_dest w = ToK d \<longrightarrow> (\<exists>p. d = Begin p) \<longrightarrow> hook_adapted s')"
proof -
  obtain k where k: "s = OnBeginS k" using assms(1) by (cases s) auto
  show ?thesis using assms unfolding k by (cases "(k, z)" rule: on_begin_handle.cases) (auto split: if_splits)
qed

lemma on_ended_ran_step:
  assumes "on_ended_ran f u s" "stage_handle i cur s z = Inr (s', w)"
  shows "on_ended_ran f u s' \<and> (\<forall>d. out_dest w = ToK d \<longrightarrow> d = Ended \<longrightarrow> hook_adapted s')"
proof -
  obtain k where k: "s = OnEndedS k" using assms(1) by (cases s) auto
  show ?thesis using assms unfolding k by (cases "(cur, k, z)" rule: on_ended_handle.cases) (auto simp: lift_stage_def split: if_splits)
qed



text \<open>They do not change what the pipeline delivers.\<close>

interpretation hooks: transformer_chain "[OnBeginS (OnBegin f u)]" "\<lambda>_ _. True" Pair "[OnEndedS (OnEnded g v)]" "\<lambda>_ _. True" Pair for f u g v
  by unfold_locales

lemma hooks_are_transparent:
  "\<exists>n ss cur'. pipe_run n ([StreamS (Iterate xs), OnBeginS (OnBegin f u), OnEndedS (OnEnded g v), LoopS (Collect collector_emplace_back)], cur, Down 0 (Start x)) =
     Delivered (ss, cur', Down 4 (Start (VVec xs)))"
proof -
  have "closed_pipeline [StreamS (Iterate xs)] x xs (Some FEnded) ([OnBeginS (OnBegin f u)] @ [OnEndedS (OnEnded g v)]) (\<lambda>_ _. True) Pair
      (LoopS (Collect collector_emplace_back)) (\<lambda>_ fin. fin \<noteq> None) (loop_result collector_emplace_back (\<lambda>c. Started (VVec c)) [])"
    using hooks.transforms [of _ _ _ _ f u g v] by unfold_locales auto
  from closed_pipeline.completes [OF this, of cur] show ?thesis by (simp add: foldl_emplace_back numeral_eq_Suc)
qed

section \<open>Foreach\<close>

definition Foreach :: "('c, unit, 'i) stage list \<Rightarrow> (val \<Rightarrow> signal) \<Rightarrow> ('c, unit, 'i) stage list" where
  "Foreach e f = e @ [MapS (Map_e f), LoopS (Loop ())]"

text \<open>\<^verbatim>\<open>Foreach(e, f)\<close> completes: with a value when \<open>f\<close> gives a value for all of the stream, otherwise as \<open>f\<close> does for the first value for which it does not.\<close>

lemma foreach_completes:
  assumes "produces e v xs (Some FEnded)"
  shows "\<exists>k ss cur'. pipe_run k (Foreach e f, cur, Down 0 (Start v)) =
    Delivered (ss, cur', Down (length (Foreach e f)) (call_of_signal (case find (\<lambda>x. \<forall>y. f x \<noteq> Started y) xs of None \<Rightarrow> Started VVoid | Some x \<Rightarrow> f x)))"
proof -
  have "\<exists>ys. map_spec f xs (Some FEnded) =
      (ys, Some (case find (\<lambda>x. \<forall>y. f x \<noteq> Started y) xs of None \<Rightarrow> FEnded | Some x \<Rightarrow> (case f x of Failed e \<Rightarrow> FFail e | _ \<Rightarrow> FStop)))"
  proof (induction xs)
    case (Cons x xs)
    then show ?case by (cases "f x") auto
  qed simp
  then obtain ys where ys: "map_spec f xs (Some FEnded) =
      (ys, Some (case find (\<lambda>x. \<forall>y. f x \<noteq> Started y) xs of None \<Rightarrow> FEnded | Some x \<Rightarrow> (case f x of Failed e \<Rightarrow> FFail e | _ \<Rightarrow> FStop)))" ..
  have p: "produces (e @ [MapS (Map_e f)]) v ys (snd (map_spec f xs (Some FEnded)))" using map_stage.transforms [OF assms, of f] ys by simp
  have r: "loop_result (\<lambda>d v. d) (\<lambda>_. Started VVoid) () ys (snd (map_spec f xs (Some FEnded))) =
      (case find (\<lambda>x. \<forall>y. f x \<noteq> Started y) xs of None \<Rightarrow> Started VVoid | Some x \<Rightarrow> f x)"
  proof (cases "find (\<lambda>x. \<forall>y. f x \<noteq> Started y) xs")
    case (Some x)
    then have "\<forall>y. f x \<noteq> Started y" by (auto simp: find_Some_iff)
    then show ?thesis using Some ys by (cases "f x") auto
  qed (use ys in simp)
  from loop_stage.runs [where cur = cur and d = "()", OF p] show ?thesis unfolding r using ys by (simp add: Foreach_def)
qed

section \<open>Sequence\<close>

text \<open>
  A callable that behaves differently each time: \<^verbatim>\<open>f_\<close> and \<^verbatim>\<open>next_\<close> are a list, with \<^verbatim>\<open>invoked_\<close> for each. \<^verbatim>\<open>Once\<close> makes new objects, in which nothing was invoked.
\<close>

fun sequence_call :: "(('a \<Rightarrow> 'u \<Rightarrow> 'u) \<times> bool) list \<Rightarrow> 'a \<Rightarrow> 'u \<Rightarrow> ((('a \<Rightarrow> 'u \<Rightarrow> 'u) \<times> bool) list \<times> 'u) res" where
  "sequence_call [] x u = Inl (Exception ''End of sequence'')"
| "sequence_call ((f, invoked) # rest) x u =
     (if \<not> invoked then Inr ((f, True) # rest, f x u)
      else rbind (sequence_call rest x u) (\<lambda>(rest', u'). Inr ((f, invoked) # rest', u')))"

fun sequence_Once :: "(('a \<Rightarrow> 'u \<Rightarrow> 'u) \<times> bool) list \<Rightarrow> ('a \<Rightarrow> 'u \<Rightarrow> 'u) \<Rightarrow> (('a \<Rightarrow> 'u \<Rightarrow> 'u) \<times> bool) list" where
  "sequence_Once [] f = [(f, False)]"
| "sequence_Once ((g, invoked) # rest) f = (g, False) # sequence_Once rest f"

fun sequence_calls :: "(('a \<Rightarrow> 'u \<Rightarrow> 'u) \<times> bool) list \<Rightarrow> 'a list \<Rightarrow> 'u \<Rightarrow> ((('a \<Rightarrow> 'u \<Rightarrow> 'u) \<times> bool) list \<times> 'u) res" where
  "sequence_calls s [] u = Inr (s, u)"
| "sequence_calls s (x # xs) u = rbind (sequence_call s x u) (\<lambda>(s', u'). sequence_calls s' xs u')"

lemma sequence_Once_builds: "foldl sequence_Once [] fs = map (\<lambda>f. (f, False)) fs"
proof (induction fs rule: rev_induct)
  case (snoc f fs)
  have "sequence_Once (map (\<lambda>f. (f, False)) gs) f = map (\<lambda>f. (f, False)) (gs @ [f])" for gs :: "('a \<Rightarrow> 'b \<Rightarrow> 'b) list"
    by (induction gs) auto
  with snoc show ?case by simp
qed simp

lemma sequence_call_skips:
  "sequence_call (map (\<lambda>f. (f, True)) gs @ (f, False) # rest) x u = Inr (map (\<lambda>f. (f, True)) gs @ (f, True) # rest, f x u)"
  "sequence_call (map (\<lambda>f. (f, True)) gs) x u = Inl (Exception ''End of sequence'')"
  by (induction gs) auto

text \<open>The \<open>n\<close>-th call runs the \<open>n\<close>-th function, and a call too many throws.\<close>

lemma sequence_runs_in_order:
  assumes "length xs \<le> length fs"
  shows "sequence_calls (map (\<lambda>f. (f, True)) gs @ map (\<lambda>f. (f, False)) fs) xs u =
    Inr (map (\<lambda>f. (f, True)) (gs @ take (length xs) fs) @ map (\<lambda>f. (f, False)) (drop (length xs) fs), foldl (\<lambda>u (f, x). f x u) u (zip fs xs))"
  using assms
proof (induction xs arbitrary: gs fs u)
  case (Cons x xs)
  then obtain f fs' where fs: "fs = f # fs'" by (cases fs) auto
  show ?case using Cons.IH [of fs' "gs @ [f]" "f x u"] Cons.prems fs sequence_call_skips(1) [of gs f "map (\<lambda>f. (f, False)) fs'" x u] by simp
qed simp

lemma sequence_is_exhausted:
  "sequence_calls (foldl sequence_Once [] fs) xs u = (if length xs \<le> length fs then
     Inr (map (\<lambda>f. (f, True)) (take (length xs) fs) @ map (\<lambda>f. (f, False)) (drop (length xs) fs), foldl (\<lambda>u (f, x). f x u) u (zip fs xs))
   else Inl (Exception ''End of sequence''))"
proof (cases "length xs \<le> length fs")
  case True
  then show ?thesis using sequence_runs_in_order [of xs fs "[]" u] by (simp add: sequence_Once_builds)
next
  case False
  have split: "sequence_calls s (as @ bs) u = rbind (sequence_calls s as u) (\<lambda>(s', u'). sequence_calls s' bs u')" for s as bs and u :: 'b
    by (induction as arbitrary: s u) (auto simp: rbind_assoc split_def)
  obtain x ys where x: "drop (length fs) xs = x # ys" using False by (cases "drop (length fs) xs") auto
  have xs: "xs = take (length fs) xs @ x # ys" using x by (metis append_take_drop_id)
  have "sequence_calls (map (\<lambda>f. (f, False)) fs) (take (length fs) xs @ x # ys) u = Inl (Exception ''End of sequence'')"
    using split [of "map (\<lambda>f. (f, False)) fs" "take (length fs) xs" "x # ys" u] sequence_runs_in_order [of "take (length fs) xs" fs "[]" u]
      sequence_call_skips(2) [of fs x] False by simp
  then show ?thesis using False xs by (simp add: sequence_Once_builds)
qed

end
