(* ===== verification/Value_Helpers.thy ===== *)
theory Value_Helpers
  imports Value_Theorems
begin

text \<open>
  The callables that \<^verbatim>\<open>let.h\<close> and \<^verbatim>\<open>unpack.h\<close> make for \<^verbatim>\<open>Then\<close>: \<^verbatim>\<open>Let(f)\<close> keeps the value in a \<^verbatim>\<open>Closure\<close> and gives \<^verbatim>\<open>f\<close> a reference to it, \<^verbatim>\<open>Unpack(f)\<close> calls \<^verbatim>\<open>f\<close> with the elements of a tuple. \<open>Let_eventual\<close>,
  \<open>Let_void\<close> and \<open>Let_value\<close> are the three cases of what \<^verbatim>\<open>f\<close> returns.
\<close>

definition Let_eventual :: "(val \<Rightarrow> 'u \<Rightarrow> ('u ev \<times> 'u) res) \<Rightarrow> val \<Rightarrow> 'u \<Rightarrow> ('u ev \<times> 'u) res" where
  "Let_eventual f v u = Inr (Ev_Closure (\<lambda>u. f v u), u)"

definition Let_void :: "(val \<Rightarrow> 'u \<Rightarrow> 'u res) \<Rightarrow> val \<Rightarrow> 'u \<Rightarrow> ('u ev \<times> 'u) res" where
  "Let_void f v u = Inr (Ev_Closure (\<lambda>u. map_sum id (\<lambda>u'. (Ev_Just VVoid, u')) (f v u)), u)"

definition Let_value :: "(val \<Rightarrow> 'u \<Rightarrow> (val \<times> 'u) res) \<Rightarrow> val \<Rightarrow> 'u \<Rightarrow> ('u ev \<times> 'u) res" where
  "Let_value f v u = Inr (Ev_Closure (\<lambda>u. map_sum id (\<lambda>(x, u'). (Ev_Just x, u')) (f v u)), u)"

fun Unpack :: "(val list \<Rightarrow> 'u \<Rightarrow> 'a res) \<Rightarrow> val \<Rightarrow> 'u \<Rightarrow> 'a res" where
  "Unpack f (VVec xs) u = f xs u"
| "Unpack f v u = Inl NoSuchMethod"

lemma same_meaning:
  assumes "wf_world w" "\<And>i c s u. denote base_of e i c s u = denote base_of e' i c s u"
  shows "invoke (build DefaultScheduler base_of e (TerminalK b)) s w = invoke (build DefaultScheduler base_of e' (TerminalK b)) s w"
  unfolding pipeline_runs [OF assms(1) implements_terminal] after_def assms(2) ..

text \<open>A value kept with \<^verbatim>\<open>Let\<close> changes nothing in what a \<^verbatim>\<open>Then\<close> does.\<close>

lemma let_eventual_is_then:
  assumes "wf_world w"
  shows "invoke (build DefaultScheduler base_of (Ev_Then (Let_eventual f)) (TerminalK b)) s w = invoke (build DefaultScheduler base_of (Ev_Then f) (TerminalK b)) s w"
proof (rule same_meaning [OF assms])
  fix i c s u
  show "denote base_of (Ev_Then (Let_eventual f)) i c s u = denote base_of (Ev_Then f) i c s u"
    by (cases s) (auto simp: Let_eventual_def sem_then_def sem_on_start_def sem_closure_def)
qed

lemma let_value_is_then:
  assumes "wf_world w"
  shows "invoke (build DefaultScheduler base_of (Ev_Then (Let_value f)) (TerminalK b)) s w = invoke (build DefaultScheduler base_of (Ev_ThenValue f) (TerminalK b)) s w"
proof (rule same_meaning [OF assms])
  fix i c s u
  show "denote base_of (Ev_Then (Let_value f)) i c s u = denote base_of (Ev_ThenValue f) i c s u"
  proof (cases s)
    case (Started v)
    then show ?thesis by (cases "f v u") (auto simp: Let_value_def sem_then_def sem_then_value_def sem_on_start_def sem_closure_def sem_just_def)
  qed (auto simp: sem_then_def sem_then_value_def sem_on_start_def)
qed

lemma let_void_is_then:
  assumes "wf_world w"
  shows "invoke (build DefaultScheduler base_of (Ev_Then (Let_void f)) (TerminalK b)) s w =
    invoke (build DefaultScheduler base_of (Ev_ThenValue (\<lambda>v u. map_sum id (Pair VVoid) (f v u))) (TerminalK b)) s w"
proof (rule same_meaning [OF assms])
  fix i c s u
  show "denote base_of (Ev_Then (Let_void f)) i c s u = denote base_of (Ev_ThenValue (\<lambda>v u. map_sum id (Pair VVoid) (f v u))) i c s u"
  proof (cases s)
    case (Started v)
    then show ?thesis by (cases "f v u") (auto simp: Let_void_def sem_then_def sem_then_value_def sem_on_start_def sem_closure_def sem_just_def)
  qed (auto simp: sem_then_def sem_then_value_def sem_on_start_def)
qed

end
