(* ===== verification/Files.thy ===== *)
theory Files
  imports Eventuals_Prelude
begin

text \<open>
  The class \<^verbatim>\<open>File\<close> of \<^verbatim>\<open>filesystem.h\<close>, which owns a file descriptor and is moved around, together with the two eventuals that make and end this ownership, \<^verbatim>\<open>OpenFile\<close> and
  \<^verbatim>\<open>CloseFile\<close>.

  The state has the \<^verbatim>\<open>File\<close> objects that are alive, by address, each with its \<^verbatim>\<open>descriptor_\<close>. The kernel has a set of open descriptors; it opens and closes files on threads of libuv, at any time between the call of
  \<^verbatim>\<open>uv_fs_open\<close> or \<^verbatim>\<open>uv_fs_close\<close> and the callback. \<open>arriving\<close> are the descriptors that were opened and whose callback is yet to run, \<open>closing\<close> the files that a \<^verbatim>\<open>CloseFile\<close> was started for, with the
  result once the kernel has one. \<open>bad_closes\<close> logs every attempt to close a descriptor that is not open.
\<close>

section \<open>File\<close>

record files =
  objects :: "nat \<Rightarrow> int option option"
  opened :: "int set"
  arriving :: "int set"
  closing :: "nat \<Rightarrow> int option option"
  bad_closes :: "int list"

definition no_files :: files where
  "no_files = \<lparr>objects = (\<lambda>_. None), opened = {}, arriving = {}, closing = (\<lambda>_. None), bad_closes = []\<rparr>"

text \<open>What the synchronous \<^verbatim>\<open>uv_fs_close\<close> does: the kernel gives the descriptor up.\<close>

definition close_descriptor :: "int \<Rightarrow> files \<Rightarrow> files" where
  "close_descriptor d s = (if d \<in> opened s then s\<lparr>opened := opened s - {d}\<rparr> else s\<lparr>bad_closes := bad_closes s @ [d]\<rparr>)"

definition close_if_open :: "int option \<Rightarrow> files \<Rightarrow> files" where
  "close_if_open d s = (case d of None \<Rightarrow> s | Some x \<Rightarrow> close_descriptor x s)"

definition object :: "nat \<Rightarrow> files \<Rightarrow> (int option \<Rightarrow> 'a res) \<Rightarrow> 'a res" where
  "object a s f = (case objects s a of None \<Rightarrow> Inl (UndefinedBehaviour ''use of a File outside its lifetime'') | Some d \<Rightarrow> f d)"

definition File_construct :: "nat \<Rightarrow> int \<Rightarrow> files \<Rightarrow> files" where
  "File_construct a d s = s\<lparr>objects := (objects s)(a := Some (Some d))\<rparr>"

definition File_move_construct :: "nat \<Rightarrow> nat \<Rightarrow> files \<Rightarrow> files res" where
  "File_move_construct a that s = object that s (\<lambda>d. Inr (s\<lparr>objects := (objects s)(a := Some d, that := Some None)\<rparr>))"

definition File_move_assign :: "nat \<Rightarrow> nat \<Rightarrow> files \<Rightarrow> files res" where
  "File_move_assign a that s =
     (if a = that then Inr s
      else object a s (\<lambda>d. object that s (\<lambda>d'.
             let s = close_if_open d s in Inr (s\<lparr>objects := (objects s)(a := Some d', that := Some None)\<rparr>))))"

definition File_destruct :: "nat \<Rightarrow> files \<Rightarrow> files res" where
  "File_destruct a s = object a s (\<lambda>d. let s = close_if_open d s in Inr (s\<lparr>objects := (objects s)(a := None)\<rparr>))"

definition IsOpen :: "nat \<Rightarrow> files \<Rightarrow> bool res" where
  "IsOpen a s = object a s (\<lambda>d. Inr (d \<noteq> None))"

definition uv_file :: "nat \<Rightarrow> files \<Rightarrow> int res" where
  "uv_file a s = object a s (\<lambda>d. case d of None \<Rightarrow> Inl (Exception ''std::bad_optional_access'') | Some x \<Rightarrow> Inr x)"

definition MarkAsClosed :: "nat \<Rightarrow> files \<Rightarrow> files res" where
  "MarkAsClosed a s = object a s (\<lambda>d. Inr (s\<lparr>objects := (objects s)(a := Some None)\<rparr>))"

section \<open>OpenFile and CloseFile\<close>

text \<open>
  The callback that the eventual passes to libuv: it gets the result of the request and completes the continuation. \<open>a\<close> is the address of the new file, respectively of the file in the
  context of the eventual; \<^verbatim>\<open>uv_strerror\<close> is the argument \<open>strerror\<close>.
\<close>

definition OpenFile_callback :: "(int \<Rightarrow> string) \<Rightarrow> nat \<Rightarrow> int \<Rightarrow> files \<Rightarrow> (files \<times> signal) res" where
  "OpenFile_callback strerror a result s =
     (if 0 \<le> result then Inr (File_construct a result s, Started (VObj a)) else Inr (s, Failed (RuntimeError (strerror result))))"

definition CloseFile_callback :: "(int \<Rightarrow> string) \<Rightarrow> nat \<Rightarrow> int \<Rightarrow> files \<Rightarrow> (files \<times> signal) res" where
  "CloseFile_callback strerror a result s =
     (if result = 0 then rbind (MarkAsClosed a s) (\<lambda>s. Inr (s, Started VVoid)) else Inr (s, Failed (RuntimeError (strerror result))))"

text \<open>The start callback of \<^verbatim>\<open>CloseFile\<close>; \<open>error\<close> is what \<^verbatim>\<open>uv_fs_close\<close> returns.\<close>

definition CloseFile_start :: "(int \<Rightarrow> string) \<Rightarrow> nat \<Rightarrow> int \<Rightarrow> files \<Rightarrow> (files \<times> signal option) res" where
  "CloseFile_start strerror a error s =
     rbind (uv_file a s) (\<lambda>d.
       if error \<noteq> 0 then Inr (s, Some (Failed (RuntimeError (strerror error))))
       else Inr (s\<lparr>closing := (closing s)(a := Some None)\<rparr>, None))"

section \<open>The machine\<close>

text \<open>
  The actions of the program, of the kernel and of the event loop. The program may do with its files what the language allows: it uses only objects that are alive, makes new ones where none is, and leaves
  the file of a \<^verbatim>\<open>CloseFile\<close> that has started to the continuation it is part of. The kernel gives descriptors that are not open; \<open>releases r\<close> says that it gave the descriptor up although closing it
  failed with the result \<open>r\<close>.
\<close>

datatype file_act =
    Move nat nat
  | Assign nat nat
  | Destruct nat
  | KernelOpen int
  | OpenCallback nat int
  | CloseStart nat int
  | KernelClose nat int
  | CloseCallback nat

fun file_step :: "(int \<Rightarrow> bool) \<Rightarrow> (int \<Rightarrow> string) \<Rightarrow> file_act \<Rightarrow> files \<Rightarrow> files res" where
  "file_step releases strerror (Move a that) s =
     (if objects s a = None \<and> objects s that \<noteq> None \<and> closing s that = None then File_move_construct a that s else Inr s)"
| "file_step releases strerror (Assign a that) s =
     (if objects s a \<noteq> None \<and> objects s that \<noteq> None \<and> closing s a = None \<and> closing s that = None then File_move_assign a that s else Inr s)"
| "file_step releases strerror (Destruct a) s = (if objects s a \<noteq> None \<and> closing s a = None then File_destruct a s else Inr s)"
| "file_step releases strerror (KernelOpen d) s =
     (if 0 \<le> d \<and> d \<notin> opened s then Inr (s\<lparr>opened := insert d (opened s), arriving := insert d (arriving s)\<rparr>) else Inr s)"
| "file_step releases strerror (OpenCallback a d) s =
     (if objects s a = None \<and> closing s a = None \<and> d \<in> arriving s
      then map_sum id fst (OpenFile_callback strerror a d (s\<lparr>arriving := arriving s - {d}\<rparr>))
      else Inr s)"
| "file_step releases strerror (CloseStart a error) s =
     (if objects s a \<noteq> None \<and> closing s a = None then map_sum id fst (CloseFile_start strerror a error s) else Inr s)"
| "file_step releases strerror (KernelClose a result) s =
     (case (closing s a, objects s a) of
        (Some None, Some (Some d)) \<Rightarrow>
          Inr ((if result = 0 \<or> releases result then close_descriptor d s else s)\<lparr>closing := (closing s)(a := Some (Some result))\<rparr>)
      | _ \<Rightarrow> Inr s)"
| "file_step releases strerror (CloseCallback a) s =
     (case closing s a of
        Some (Some result) \<Rightarrow> map_sum id fst (CloseFile_callback strerror a result (s\<lparr>closing := (closing s)(a := None)\<rparr>))
      | _ \<Rightarrow> Inr s)"

inductive file_reach :: "(int \<Rightarrow> bool) \<Rightarrow> (int \<Rightarrow> string) \<Rightarrow> files \<Rightarrow> bool" for releases strerror where
  reach_none: "file_reach releases strerror no_files"
| reach_act: "file_reach releases strerror s \<Longrightarrow> file_step releases strerror act s = Inr s' \<Longrightarrow> file_reach releases strerror s'"

section \<open>Every descriptor has one owner\<close>

text \<open>
  \<open>owner_map s a\<close> is the descriptor that the file at \<open>a\<close> is responsible for: it is no longer when the kernel has closed it and only the callback that says so is missing. \<open>owned_once\<close> says that the open
  descriptors are the arriving ones and those that files own, that they are apart and that no two files own the same.
\<close>

definition owner_map :: "files \<Rightarrow> nat \<Rightarrow> int option" where
  "owner_map s a = (if closing s a = Some (Some 0) then None else case objects s a of None \<Rightarrow> None | Some d \<Rightarrow> d)"

definition owned_once :: "int set \<Rightarrow> int set \<Rightarrow> (nat \<Rightarrow> int option) \<Rightarrow> bool" where
  "owned_once os as f \<longleftrightarrow>
     (\<forall>d. d \<in> os \<longleftrightarrow> d \<in> as \<or> (\<exists>a. f a = Some d)) \<and> (\<forall>a d. f a = Some d \<longrightarrow> d \<notin> as) \<and> (\<forall>a b d. f a = Some d \<longrightarrow> f b = Some d \<longrightarrow> a = b)"

lemma owned_onceD:
  assumes "owned_once os as f"
  shows "d \<in> os \<longleftrightarrow> d \<in> as \<or> (\<exists>a. f a = Some d)" "f a = Some d \<Longrightarrow> d \<notin> as" "f a = Some d \<Longrightarrow> f b = Some d \<Longrightarrow> a = b"
  using assms by (auto simp: owned_once_def)

lemma owned_once_open: "owned_once os as f \<Longrightarrow> d \<notin> os \<Longrightarrow> owned_once (insert d os) (insert d as) f"
  unfolding owned_once_def by auto

lemma owned_once_arrive:
  assumes "owned_once os as f" "d \<in> as" "f a = None"
  shows "owned_once os (as - {d}) (f(a := Some d))"
proof -
  note o = owned_onceD [OF assms(1)]
  have "x \<in> os \<longleftrightarrow> x \<in> as - {d} \<or> (\<exists>b. (f(a := Some d)) b = Some x)" for x
    using o(1) [of x] assms(2,3) by (cases "x = d") (auto, metis option.distinct(1))
  then show ?thesis unfolding owned_once_def using o(2,3) assms(2) by (auto split: if_splits)
qed

lemma owned_once_drop:
  assumes "owned_once os as f" "f a = Some d"
  shows "owned_once (os - {d}) as (f(a := None))" "d \<in> os"
proof -
  note o = owned_onceD [OF assms(1)]
  show "d \<in> os" using o(1) assms(2) by blast
  have "x \<in> os - {d} \<longleftrightarrow> x \<in> as \<or> (\<exists>b. (f(a := None)) b = Some x)" for x
  proof (cases "x = d")
    case True
    then show ?thesis using o(2,3) assms(2) by auto
  next
    case False
    then have "(f(a := None)) b = Some x \<longleftrightarrow> f b = Some x" for b using assms(2) by auto
    then show ?thesis using o(1) False by auto
  qed
  then show "owned_once (os - {d}) as (f(a := None))" unfolding owned_once_def using o(2,3) by (auto split: if_splits)
qed

lemma owned_once_pass:
  assumes "owned_once os as f" "f a = None"
  shows "owned_once os as (f(a := f b, b := None))"
proof (cases "a = b")
  case False
  note o = owned_onceD [OF assms(1)]
  have "(\<exists>c. (f(a := f b, b := None)) c = Some x) \<longleftrightarrow> (\<exists>c. f c = Some x)" for x
  proof
    assume "\<exists>c. f c = Some x"
    then obtain c where c: "f c = Some x" by blast
    show "\<exists>c. (f(a := f b, b := None)) c = Some x"
      using c False assms(2) by (cases "c = b") (auto intro: exI [of _ a] exI [of _ c])
  qed (auto split: if_splits)
  then show ?thesis unfolding owned_once_def using o False by (auto split: if_splits)
qed (use assms in \<open>simp add: fun_upd_idem\<close>)

definition files_inv :: "files \<Rightarrow> bool" where
  "files_inv s \<longleftrightarrow>
     bad_closes s = [] \<and> (\<forall>d \<in> arriving s. 0 \<le> d) \<and> (\<forall>a. closing s a \<noteq> None \<longrightarrow> (\<exists>d. objects s a = Some (Some d))) \<and>
     owned_once (opened s) (arriving s) (owner_map s)"

lemmas file_defs = File_construct_def File_move_construct_def File_move_assign_def File_destruct_def MarkAsClosed_def uv_file_def object_def
  OpenFile_callback_def CloseFile_callback_def CloseFile_start_def

lemma files_inv_no_files: "files_inv no_files"
  by (simp add: files_inv_def no_files_def owner_map_def owned_once_def)

lemma files_invD:
  assumes "files_inv s"
  shows "bad_closes s = []" "\<And>d. d \<in> arriving s \<Longrightarrow> 0 \<le> d" "\<And>a. objects s a = None \<Longrightarrow> closing s a = None" "\<And>a. objects s a = Some None \<Longrightarrow> closing s a = None"
    "owned_once (opened s) (arriving s) (owner_map s)"
  using assms by (auto simp: files_inv_def)

lemma close_if_open_owner:
  assumes "files_inv s" "closing s a = None" "objects s a = Some d"
  shows "\<exists>os. close_if_open d s = s\<lparr>opened := os\<rparr> \<and> owned_once os (arriving s) ((owner_map s)(a := None))"
proof (cases d)
  case None
  then have "owner_map s a = None" using assms(3) by (simp add: owner_map_def)
  then show ?thesis using None files_invD(5) [OF assms(1)] by (intro exI [of _ "opened s"]) (simp add: close_if_open_def fun_upd_idem)
next
  case (Some x)
  then have "owner_map s a = Some x" using assms(2,3) by (simp add: owner_map_def)
  from owned_once_drop [OF files_invD(5) [OF assms(1)] this] Some show ?thesis by (auto simp: close_if_open_def close_descriptor_def)
qed

lemma files_inv_move:
  assumes "files_inv s" "objects s a = None" "objects s that = Some d" "closing s that = None"
  shows "files_inv (s\<lparr>objects := (objects s)(a := Some d, that := Some None)\<rparr>)"
proof -
  have c: "closing s a = None" using files_invD(3) [OF assms(1,2)] .
  have "owner_map (s\<lparr>objects := (objects s)(a := Some d, that := Some None)\<rparr>) = (owner_map s)(a := owner_map s that, that := None)"
    using assms(3,4) c by (auto simp: owner_map_def fun_eq_iff)
  moreover have "owner_map s a = None" using assms(2) by (simp add: owner_map_def)
  ultimately show ?thesis using assms c owned_once_pass [OF files_invD(5) [OF assms(1)]] by (auto simp: files_inv_def)
qed

lemma files_inv_assign:
  assumes "files_inv s" "objects s a = Some d" "objects s that = Some d'" "closing s a = None" "closing s that = None" "a \<noteq> that"
  shows "files_inv ((close_if_open d s)\<lparr>objects := (objects (close_if_open d s))(a := Some d', that := Some None)\<rparr>)"
proof -
  obtain os where os: "close_if_open d s = s\<lparr>opened := os\<rparr>" "owned_once os (arriving s) ((owner_map s)(a := None))"
    using close_if_open_owner [OF assms(1,4,2)] by blast
  have "owner_map (s\<lparr>opened := os, objects := (objects s)(a := Some d', that := Some None)\<rparr>) = ((owner_map s)(a := None))(a := ((owner_map s)(a := None)) that, that := None)"
    using assms by (auto simp: owner_map_def fun_eq_iff)
  then show ?thesis using assms os(1) owned_once_pass [OF os(2), of a that] by (auto simp: files_inv_def)
qed

lemma files_inv_destruct:
  assumes "files_inv s" "objects s a = Some d" "closing s a = None"
  shows "files_inv ((close_if_open d s)\<lparr>objects := (objects (close_if_open d s))(a := None)\<rparr>)"
proof -
  obtain os where os: "close_if_open d s = s\<lparr>opened := os\<rparr>" "owned_once os (arriving s) ((owner_map s)(a := None))"
    using close_if_open_owner [OF assms(1,3,2)] by blast
  have "owner_map (s\<lparr>opened := os, objects := (objects s)(a := None)\<rparr>) = (owner_map s)(a := None)"
    using assms by (auto simp: owner_map_def fun_eq_iff)
  then show ?thesis using assms os by (auto simp: files_inv_def)
qed

lemma files_inv_opened:
  assumes "files_inv s" "0 \<le> d" "d \<notin> opened s"
  shows "files_inv (s\<lparr>opened := insert d (opened s), arriving := insert d (arriving s)\<rparr>)"
proof -
  have "owner_map (s\<lparr>opened := insert d (opened s), arriving := insert d (arriving s)\<rparr>) = owner_map s" by (simp add: owner_map_def fun_eq_iff)
  then show ?thesis using assms owned_once_open [OF files_invD(5) [OF assms(1)] assms(3)] by (auto simp: files_inv_def)
qed

lemma files_inv_arrived:
  assumes "files_inv s" "objects s a = None" "d \<in> arriving s"
  shows "files_inv (s\<lparr>arriving := arriving s - {d}, objects := (objects s)(a := Some (Some d))\<rparr>)"
proof -
  have c: "closing s a = None" using files_invD(3) [OF assms(1,2)] .
  have "owner_map (s\<lparr>arriving := arriving s - {d}, objects := (objects s)(a := Some (Some d))\<rparr>) = (owner_map s)(a := Some d)"
    using c by (auto simp: owner_map_def fun_eq_iff)
  moreover have "owner_map s a = None" using assms(2) by (simp add: owner_map_def)
  ultimately show ?thesis using assms c owned_once_arrive [OF files_invD(5) [OF assms(1)] assms(3)] by (auto simp: files_inv_def)
qed

text \<open>Closing a file with \<^verbatim>\<open>CloseFile\<close>: the start, the kernel and the callback.\<close>

lemma files_inv_closing:
  assumes "files_inv s" "objects s a = Some (Some d)" "closing s a = None \<or> closing s a = Some None" "r = None \<or> r = Some r' \<and> r' \<noteq> 0"
  shows "files_inv (s\<lparr>closing := (closing s)(a := Some r)\<rparr>)"
proof -
  have "owner_map (s\<lparr>closing := (closing s)(a := Some r)\<rparr>) = owner_map s" using assms(2-4) by (auto simp: owner_map_def fun_eq_iff)
  then show ?thesis using assms by (auto simp: files_inv_def)
qed

lemma files_inv_kernel_closed:
  assumes "files_inv s" "objects s a = Some (Some d)" "closing s a = Some None"
  shows "files_inv ((close_descriptor d s)\<lparr>closing := (closing s)(a := Some (Some 0))\<rparr>)"
proof -
  have "owner_map s a = Some d" using assms(2,3) by (simp add: owner_map_def)
  note d = owned_once_drop [OF files_invD(5) [OF assms(1)] this]
  have "owner_map (s\<lparr>opened := opened s - {d}, closing := (closing s)(a := Some (Some 0))\<rparr>) = (owner_map s)(a := None)" by (auto simp: owner_map_def fun_eq_iff)
  then show ?thesis using assms d by (auto simp: files_inv_def close_descriptor_def)
qed

lemma files_inv_close_callback:
  assumes "files_inv s" "closing s a = Some (Some r)" "map_sum id fst (CloseFile_callback strerror a r (s\<lparr>closing := (closing s)(a := None)\<rparr>)) = Inr s'"
  shows "files_inv s'"
proof -
  obtain d where d: "objects s a = Some (Some d)" using assms(1,2) by (auto simp: files_inv_def)
  have "owner_map s' = owner_map s" using assms(2,3) d by (auto simp: CloseFile_callback_def MarkAsClosed_def object_def owner_map_def fun_eq_iff split: if_splits)
  then show ?thesis using assms d by (auto simp: files_inv_def CloseFile_callback_def MarkAsClosed_def object_def split: if_splits)
qed

lemma files_inv_step:
  assumes "files_inv s" "file_step releases strerror act s = Inr s'" "\<And>r. releases r \<Longrightarrow> r = 0"
  shows "files_inv s'"
proof (cases act)
  case (Move a that)
  then show ?thesis using assms(1,2) by (auto simp: File_move_construct_def object_def files_inv_move split: if_splits)
next
  case (Assign a that)
  then show ?thesis using assms(1,2) by (auto simp: File_move_assign_def object_def Let_def files_inv_assign split: if_splits)
next
  case (Destruct a)
  then show ?thesis using assms(1,2) by (auto simp: File_destruct_def object_def Let_def files_inv_destruct split: if_splits)
next
  case (KernelOpen d)
  then show ?thesis using assms(1,2) by (auto simp: files_inv_opened split: if_splits)
next
  case (OpenCallback a d)
  then show ?thesis using assms(1,2) files_invD(2) [OF assms(1)] files_inv_arrived [OF assms(1)]
    by (auto simp: OpenFile_callback_def File_construct_def split: if_splits)
next
  case (CloseStart a e)
  then show ?thesis using assms(1,2) by (auto simp: CloseFile_start_def uv_file_def object_def files_inv_closing split: if_splits option.splits)
next
  case (KernelClose a r)
  then show ?thesis using assms(1,2) assms(3) [of r] files_inv_closing [OF assms(1), of a _ "Some r" r]
    by (cases "r = 0") (auto simp: files_inv_kernel_closed split: if_splits option.splits)
next
  case (CloseCallback a)
  then show ?thesis using assms(1,2) by (auto dest: files_inv_close_callback split: option.splits)
qed

lemma file_reach_inv:
  assumes "file_reach releases strerror s" "\<And>r. releases r \<Longrightarrow> r = 0"
  shows "files_inv s"
  using assms(1) by induction (auto simp: files_inv_no_files intro: files_inv_step assms(2))

text \<open>The only step that faults is a \<^verbatim>\<open>CloseFile\<close> of a file that has no descriptor, because it was moved from or closed.\<close>

lemma file_step_faults:
  assumes "files_inv s" "file_step releases strerror act s = Inl x"
  shows "x = Exception ''std::bad_optional_access'' \<and> (\<exists>a e. act = CloseStart a e \<and> objects s a = Some None)"
  using assms by (cases act) (auto simp: file_defs Let_def files_inv_def split: if_splits option.splits)

fun file_run :: "(int \<Rightarrow> bool) \<Rightarrow> (int \<Rightarrow> string) \<Rightarrow> file_act list \<Rightarrow> files \<Rightarrow> files res" where
  "file_run releases strerror [] s = Inr s"
| "file_run releases strerror (act # acts) s = rbind (file_step releases strerror act s) (file_run releases strerror acts)"

lemma file_run_reach: "file_reach releases strerror s \<Longrightarrow> file_run releases strerror acts s = Inr s' \<Longrightarrow> file_reach releases strerror s'"
  by (induction acts arbitrary: s) (auto intro: reach_act)



text \<open>
  The Linux kernel gives a descriptor up even if closing it fails. Then \<^verbatim>\<open>CloseFile\<close> reports the failure and leaves the descriptor to the file, whose destructor closes it again, and with it a file that was
  opened in between and was given the same descriptor.
\<close>

lemma failed_close_closes_another_file:
  "\<exists>s. file_run (\<lambda>r. r = -5) (\<lambda>_. []) [KernelOpen 3, OpenCallback 0 3, CloseStart 0 0, KernelClose 0 (-5), CloseCallback 0, KernelOpen 3, OpenCallback 1 3, Destruct 0] no_files = Inr s \<and>
     objects s 1 = Some (Some 3) \<and> opened s = {}"
  by (simp add: file_defs no_files_def close_if_open_def close_descriptor_def)

end
