(* ===== verification/Filesystem.thy ===== *)
theory Filesystem
  imports Files
begin

text \<open>
  \<^verbatim>\<open>EventLoop::Buffer\<close> (\<^verbatim>\<open>event-loop.h\<close>), the eventuals over files and directories (\<^verbatim>\<open>filesystem.h\<close>) and \<^verbatim>\<open>DomainNameResolve\<close> (\<^verbatim>\<open>dns-resolver.h\<close>).

  Each eventual makes one asynchronous request to libuv. What it asks for is a \<open>uv_call\<close>; the function that libuv runs when the request is done gets a result and completes the continuation. \<open>uv_request\<close> is the
  life of such a request. The kernel is a parameter: a function that reads and one that writes at an offset of a descriptor, with the hypothesis \<open>kernel_ok\<close> that states what the manual pages of \<^verbatim>\<open>pread\<close> and \<^verbatim>\<open>pwrite\<close> say.
\<close>

section \<open>Buffer\<close>

text \<open>
  \<open>b_base\<close> says whether the pointer of the \<^verbatim>\<open>uv_buf_t\<close> is the data of the string, or null. The length that \<^verbatim>\<open>uv_buf_init\<close> takes is an \<^verbatim>\<open>unsigned int\<close>. A string that was moved from is left in an unspecified
  state, the argument \<open>moved\<close>; \<open>self\<close> says that a buffer is assigned to itself.
\<close>

record buffer =
  b_data :: string
  b_base :: bool
  b_len :: size_t

definition uv_buf_init :: "size_t \<Rightarrow> size_t" where
  "uv_buf_init n = ucast (ucast n :: int32)"

definition describe :: "string \<Rightarrow> buffer" where
  "describe xs = \<lparr>b_data = xs, b_base = True, b_len = uv_buf_init (of_nat (length xs))\<rparr>"

definition resize :: "size_t \<Rightarrow> string \<Rightarrow> string" where
  "resize n xs = take (unat n) xs @ replicate (unat n - length xs) (CHR 0x00)"

definition Buffer_default :: buffer where
  "Buffer_default = \<lparr>b_data = [], b_base = False, b_len = 0\<rparr>"

definition Buffer_size :: "size_t \<Rightarrow> buffer" where
  "Buffer_size n = describe (resize n [])"

definition Buffer_string :: "string \<Rightarrow> buffer" where
  "Buffer_string xs = describe xs"

definition Buffer_copy :: "buffer \<Rightarrow> buffer" where
  "Buffer_copy that = describe (b_data that)"

definition Buffer_move :: "string \<Rightarrow> buffer \<Rightarrow> buffer \<times> buffer" where
  "Buffer_move moved that = (describe (b_data that), that\<lparr>b_data := moved, b_len := 0, b_base := False\<rparr>)"

definition Buffer_assign_string :: "string \<Rightarrow> buffer \<Rightarrow> buffer" where
  "Buffer_assign_string xs b = describe xs"

definition Buffer_assign :: "buffer \<Rightarrow> buffer \<Rightarrow> buffer" where
  "Buffer_assign that b = describe (b_data that)"

definition Buffer_move_assign :: "bool \<Rightarrow> string \<Rightarrow> buffer \<Rightarrow> buffer \<Rightarrow> buffer \<times> buffer" where
  "Buffer_move_assign self moved that b = (if self then (b, that) else (describe (b_data that), that\<lparr>b_data := moved, b_len := 0, b_base := False\<rparr>))"

definition Buffer_append_string :: "string \<Rightarrow> buffer \<Rightarrow> buffer" where
  "Buffer_append_string xs b = describe (b_data b @ xs)"

definition Buffer_append :: "buffer \<Rightarrow> buffer \<Rightarrow> buffer" where
  "Buffer_append that b = describe (b_data b @ b_data that)"

definition Extract :: "string \<Rightarrow> buffer \<Rightarrow> string \<times> buffer" where
  "Extract moved b = (b_data b, b\<lparr>b_len := 0, b_base := False, b_data := moved\<rparr>)"

definition Buffer_Size :: "buffer \<Rightarrow> size_t" where
  "Buffer_Size b = of_nat (length (b_data b))"

definition Resize :: "size_t \<Rightarrow> buffer \<Rightarrow> buffer" where
  "Resize n b = \<lparr>b_data = resize n (b_data b), b_base = True, b_len = uv_buf_init n\<rparr>"

section \<open>The operations\<close>

datatype uv_call =
    Uv_open string int int
  | Uv_close int
  | Uv_read int size_t int
  | Uv_write int string int
  | Uv_unlink string
  | Uv_mkdir string int
  | Uv_rmdir string
  | Uv_copyfile string string int
  | Uv_rename string string

text \<open>What each eventual asks of libuv. An offset is converted from \<^verbatim>\<open>size_t\<close> to \<^verbatim>\<open>int64_t\<close>.\<close>

definition OpenFile :: "string \<Rightarrow> int \<Rightarrow> int \<Rightarrow> uv_call" where
  "OpenFile path flags mode = Uv_open path flags mode"

definition CloseFile :: "nat \<Rightarrow> files \<Rightarrow> uv_call res" where
  "CloseFile a s = rbind (uv_file a s) (\<lambda>d. Inr (Uv_close d))"

definition ReadFile :: "nat \<Rightarrow> size_t \<Rightarrow> size_t \<Rightarrow> files \<Rightarrow> (buffer \<times> uv_call) res" where
  "ReadFile a bytes_to_read offset s =
     (let buf = Buffer_size bytes_to_read in rbind (uv_file a s) (\<lambda>d. Inr (buf, Uv_read d (b_len buf) (sint offset))))"

definition WriteFile :: "nat \<Rightarrow> string \<Rightarrow> size_t \<Rightarrow> files \<Rightarrow> (buffer \<times> uv_call) res" where
  "WriteFile a data offset s =
     (let buf = Buffer_string data in rbind (uv_file a s) (\<lambda>d. Inr (buf, Uv_write d (take (unat (b_len buf)) (b_data buf)) (sint offset))))"

definition UnlinkFile :: "string \<Rightarrow> uv_call" where
  "UnlinkFile path = Uv_unlink path"

definition MakeDirectory :: "string \<Rightarrow> int \<Rightarrow> uv_call" where
  "MakeDirectory path mode = Uv_mkdir path mode"

definition RemoveDirectory :: "string \<Rightarrow> uv_call" where
  "RemoveDirectory path = Uv_rmdir path"

definition CopyFile :: "string \<Rightarrow> string \<Rightarrow> int \<Rightarrow> uv_call" where
  "CopyFile src dst flags = Uv_copyfile src dst flags"

definition RenameFile :: "string \<Rightarrow> string \<Rightarrow> uv_call" where
  "RenameFile src dst = Uv_rename src dst"

text \<open>The functions that libuv calls with the result of a request; those of \<^verbatim>\<open>OpenFile\<close> and \<^verbatim>\<open>CloseFile\<close> are in \<open>Files\<close>.\<close>

definition ReadFile_callback :: "(int \<Rightarrow> string) \<Rightarrow> string \<Rightarrow> int \<Rightarrow> buffer \<Rightarrow> buffer \<times> signal" where
  "ReadFile_callback strerror moved result buf =
     (if 0 \<le> result then (case Extract moved buf of (data, buf') \<Rightarrow> (buf', Started (VStr data))) else (buf, Failed (RuntimeError (strerror result))))"

definition WriteFile_callback :: "(int \<Rightarrow> string) \<Rightarrow> int \<Rightarrow> signal" where
  "WriteFile_callback strerror result = (if 0 \<le> result then Started VVoid else Failed (RuntimeError (strerror result)))"

definition UnlinkFile_callback :: "(int \<Rightarrow> string) \<Rightarrow> int \<Rightarrow> signal" where
  "UnlinkFile_callback strerror result = (if result = 0 then Started VVoid else Failed (RuntimeError (strerror result)))"

definition MakeDirectory_callback :: "(int \<Rightarrow> string) \<Rightarrow> int \<Rightarrow> signal" where
  "MakeDirectory_callback strerror result = (if result = 0 then Started VVoid else Failed (RuntimeError (strerror result)))"

definition RemoveDirectory_callback :: "(int \<Rightarrow> string) \<Rightarrow> int \<Rightarrow> signal" where
  "RemoveDirectory_callback strerror result = (if result = 0 then Started VVoid else Failed (RuntimeError (strerror result)))"

definition CopyFile_callback :: "(int \<Rightarrow> string) \<Rightarrow> int \<Rightarrow> signal" where
  "CopyFile_callback strerror result = (if result = 0 then Started VVoid else Failed (RuntimeError (strerror result)))"

definition RenameFile_callback :: "(int \<Rightarrow> string) \<Rightarrow> int \<Rightarrow> signal" where
  "RenameFile_callback strerror result = (if result = 0 then Started VVoid else Failed (RuntimeError (strerror result)))"

text \<open>
  The function that \<^verbatim>\<open>uv_getaddrinfo\<close> calls, given its status and what \<^verbatim>\<open>uv_ip4_name\<close> makes of the first address; the second component says whether the list of addresses was freed.
\<close>

definition DomainNameResolve_callback :: "(int \<Rightarrow> string) \<Rightarrow> int \<Rightarrow> int \<times> string \<Rightarrow> signal \<times> bool" where
  "DomainNameResolve_callback err_name status ip4_name =
     (if status < 0 then (Failed (RuntimeError (err_name status)), False)
      else case ip4_name of (error, ip) \<Rightarrow>
        if error \<noteq> 0 then (Failed (RuntimeError (err_name error)), False) else (Started (VStr ip), True))"

section \<open>Requests\<close>

text \<open>
  The life of a request: \<open>uv_start\<close> is the start callback of the eventual once libuv has returned \<open>error\<close> from the asynchronous call; if that is 0 libuv calls the callback once, with any result. \<open>rq_k\<close> says that
  the eventual was started.
\<close>

record uv_request =
  rq_k :: bool
  rq_pending :: bool
  rq_signals :: "signal list"

definition new_request :: uv_request where
  "new_request = \<lparr>rq_k = False, rq_pending = False, rq_signals = []\<rparr>"

definition uv_start :: "(int \<Rightarrow> string) \<Rightarrow> int \<Rightarrow> uv_request \<Rightarrow> uv_request" where
  "uv_start strerror error r =
     (if error \<noteq> 0 then r\<lparr>rq_k := True, rq_signals := rq_signals r @ [Failed (RuntimeError (strerror error))]\<rparr>
      else r\<lparr>rq_k := True, rq_pending := True\<rparr>)"

definition uv_done :: "(int \<Rightarrow> signal) \<Rightarrow> int \<Rightarrow> uv_request \<Rightarrow> uv_request" where
  "uv_done callback result r = r\<lparr>rq_pending := False, rq_signals := rq_signals r @ [callback result]\<rparr>"

inductive request_reach :: "(int \<Rightarrow> string) \<Rightarrow> (int \<Rightarrow> signal) \<Rightarrow> uv_request \<Rightarrow> bool" for strerror callback where
  request_new: "request_reach strerror callback new_request"
| request_start: "request_reach strerror callback r \<Longrightarrow> \<not> rq_k r \<Longrightarrow> request_reach strerror callback (uv_start strerror error r)"
| request_done: "request_reach strerror callback r \<Longrightarrow> rq_pending r \<Longrightarrow> request_reach strerror callback (uv_done callback result r)"

lemma request_invariant:
  assumes "request_reach strerror callback r"
  shows "(rq_pending r \<longrightarrow> rq_k r) \<and> length (rq_signals r) = (if rq_k r \<and> \<not> rq_pending r then 1 else 0)"
  using assms by induction (auto simp: new_request_def uv_start_def uv_done_def)

text \<open>A request that was started and is with libuv no longer has completed its continuation once; before, it has not.\<close>

lemma request_completes_once:
  assumes "request_reach strerror callback r"
  shows "length (rq_signals r) = (if rq_k r \<and> \<not> rq_pending r then 1 else 0)"
  using request_invariant [OF assms] by blast

section \<open>Buffers describe their data\<close>

definition buffer_ok :: "buffer \<Rightarrow> bool" where
  "buffer_ok b \<longleftrightarrow> (if b_base b then unat (b_len b) \<le> length (b_data b) else b_len b = 0)"

lemma length_resize [simp]: "length (resize n xs) = unat n"
  by (simp add: resize_def)

lemma unat_uv_buf_init: "unat (uv_buf_init n) = unat n mod 2 ^ 32"
  by (simp add: uv_buf_init_def unsigned_ucast_eq take_bit_eq_mod unat_mod)

lemma unat_describe_len: "unat (b_len (describe xs)) = length xs mod 2 ^ 32"
  by (simp add: describe_def unat_uv_buf_init unat_of_nat mod_mod_cancel)

lemma buffer_ok_describe [simp]: "buffer_ok (describe xs)"
  using unat_describe_len [of xs] by (simp add: buffer_ok_def describe_def)

lemma buffer_ok_empty: "\<not> b_base b \<Longrightarrow> b_len b = 0 \<Longrightarrow> buffer_ok b"
  by (simp add: buffer_ok_def)

lemma buffer_ok_bounded: "b_base b \<Longrightarrow> unat (b_len b) \<le> length (b_data b) \<Longrightarrow> buffer_ok b"
  by (simp add: buffer_ok_def)

lemma b_data_describe [simp]: "b_data (describe xs) = xs"
  by (simp add: describe_def)

text \<open>
  No operation of a buffer makes its \<^verbatim>\<open>uv_buf_t\<close> describe memory outside its data, so that libuv never reads or writes past it; a buffer that was moved from or extracted describes nothing.
\<close>

lemma buffer_stays_in_bounds:
  "buffer_ok Buffer_default" "buffer_ok (Buffer_size n)" "buffer_ok (Buffer_string xs)" "buffer_ok (Buffer_copy b)"
  "buffer_ok (fst (Buffer_move moved b))" "buffer_ok (snd (Buffer_move moved b))"
  "buffer_ok b \<Longrightarrow> buffer_ok b' \<Longrightarrow> buffer_ok (fst (Buffer_move_assign self moved b' b)) \<and> buffer_ok (snd (Buffer_move_assign self moved b' b))" "buffer_ok (Buffer_assign_string xs b)" "buffer_ok (Buffer_assign b' b)"
  "buffer_ok (Buffer_append_string xs b)" "buffer_ok (Buffer_append b' b)" "buffer_ok (snd (Extract moved b))" "buffer_ok (Resize n b)"
  by (simp_all add: Buffer_default_def Buffer_size_def Buffer_string_def Buffer_copy_def Buffer_move_def Buffer_move_assign_def Buffer_assign_string_def Buffer_assign_def
      Buffer_append_string_def Buffer_append_def Extract_def Resize_def buffer_ok_empty buffer_ok_bounded unat_uv_buf_init)

text \<open>A buffer of 4 GiB describes no byte at all.\<close>

lemma buffer_of_four_gigabytes: "b_len (Buffer_size (2 ^ 32)) = 0"
  using unat_describe_len [of "resize (2 ^ 32) []"] by (simp add: Buffer_size_def unat_eq_0)

section \<open>Reading and writing\<close>

type_synonym 'k pread = "'k \<Rightarrow> int \<Rightarrow> nat \<Rightarrow> int \<Rightarrow> int \<times> string"
type_synonym 'k pwrite = "'k \<Rightarrow> int \<Rightarrow> string \<Rightarrow> int \<Rightarrow> int \<times> 'k"

definition kernel_ok :: "'k pread \<Rightarrow> 'k pwrite \<Rightarrow> bool" where
  "kernel_ok pread pwrite \<longleftrightarrow>
     (\<forall>disk d n offset r xs. pread disk d n offset = (r, xs) \<longrightarrow> 0 \<le> r \<longrightarrow> r = int (length xs) \<and> length xs \<le> n) \<and>
     (\<forall>disk d xs offset r disk'. pwrite disk d xs offset = (r, disk') \<longrightarrow> 0 \<le> offset \<longrightarrow> r = int (length xs) \<longrightarrow> pread disk' d (length xs) offset = (r, xs))"

text \<open>\<open>do_read\<close> and \<open>do_write\<close> run a whole eventual: its request, the kernel's work, which puts the bytes read at the front of the buffer, and its callback.\<close>

definition do_read :: "'k pread \<Rightarrow> (int \<Rightarrow> string) \<Rightarrow> string \<Rightarrow> nat \<Rightarrow> size_t \<Rightarrow> size_t \<Rightarrow> files \<Rightarrow> 'k \<Rightarrow> signal res" where
  "do_read pread strerror moved a n offset s disk =
     rbind (ReadFile a n offset s) (\<lambda>(buf, c).
       case c of
         Uv_read d len off \<Rightarrow>
           (case pread disk d (unat len) off of (r, xs) \<Rightarrow>
              Inr (snd (ReadFile_callback strerror moved r (if 0 \<le> r then buf\<lparr>b_data := xs @ drop (length xs) (b_data buf)\<rparr> else buf))))
       | _ \<Rightarrow> Inl NoSuchMethod)"

definition do_write :: "'k pwrite \<Rightarrow> (int \<Rightarrow> string) \<Rightarrow> nat \<Rightarrow> string \<Rightarrow> size_t \<Rightarrow> files \<Rightarrow> 'k \<Rightarrow> (signal \<times> int \<times> 'k) res" where
  "do_write pwrite strerror a data offset s disk =
     rbind (WriteFile a data offset s) (\<lambda>(buf, c).
       case c of
         Uv_write d xs off \<Rightarrow> (case pwrite disk d xs off of (r, disk') \<Rightarrow> Inr (WriteFile_callback strerror r, r, disk'))
       | _ \<Rightarrow> Inl NoSuchMethod)"

lemma do_read_eq:
  assumes "uv_file a s = Inr d" "pread disk d (unat n mod 2 ^ 32) (sint offset) = (r, xs)"
  shows "do_read pread strerror moved a n offset s disk =
    Inr (if 0 \<le> r then Started (VStr (xs @ drop (length xs) (replicate (unat n) (CHR 0x00)))) else Failed (RuntimeError (strerror r)))"
  using assms by (simp add: do_read_def ReadFile_def Buffer_size_def Let_def unat_describe_len ReadFile_callback_def Extract_def resize_def)

lemma do_write_eq:
  assumes "uv_file a s = Inr d" "pwrite disk d (take (length data mod 2 ^ 32) data) (sint offset) = (r, disk')"
  shows "do_write pwrite strerror a data offset s disk = Inr (if 0 \<le> r then Started VVoid else Failed (RuntimeError (strerror r)), r, disk')"
  using assms by (simp add: do_write_def WriteFile_def Buffer_string_def Let_def unat_describe_len WriteFile_callback_def)

lemma sint_offset: "offset < 2 ^ 63 \<Longrightarrow> sint (offset :: size_t) = uint offset"
  using signed_take_bit_int_eq_self [of 63 "uint offset"] order_trans [OF _ uint_ge_0 [of offset], of "- (2 ^ 63)"] by (simp add: sint_uint word_less_def)


text \<open>A kernel with one string of bytes for each descriptor.\<close>

definition mem_pread :: "(int \<Rightarrow> string) pread" where
  "mem_pread disk d n offset = (let xs = take n (drop (nat offset) (disk d)) in (int (length xs), xs))"

definition mem_pwrite :: "(int \<Rightarrow> string) pwrite" where
  "mem_pwrite disk d xs offset =
     (let i = nat offset; old = disk d; before = take i (old @ replicate (i - length old) (CHR 0x00))
      in (int (length xs), disk(d := before @ xs @ drop (i + length xs) old)))"

lemma mem_kernel_ok: "kernel_ok mem_pread mem_pwrite"
  by (auto simp: kernel_ok_def mem_pread_def mem_pwrite_def Let_def)


text \<open>
  \<^verbatim>\<open>ReadFile\<close> does not look at how many bytes were read: at the end of a file its string has the length that was asked for, filled up with zero bytes.
\<close>

lemma short_read_is_padded:
  assumes "uv_file a s = Inr d" "unat n < 2 ^ 32" "pread disk d (unat n) (sint offset) = (int (length xs), xs)" "length xs \<le> unat n"
  shows "do_read pread strerror moved a n offset s disk = Inr (Started (VStr (xs @ replicate (unat n - length xs) (CHR 0x00))))"
  using do_read_eq [OF assms(1), of pread disk n offset "int (length xs)" xs] assms(2,3) by simp

text \<open>\<^verbatim>\<open>WriteFile\<close> does not look at how many bytes were written.\<close>

lemma short_write_succeeds:
  assumes "uv_file a s = Inr d" "length data < 2 ^ 32" "pwrite disk d data (sint offset) = (int k, disk')"
  shows "do_write pwrite strerror a data offset s disk = Inr (Started VVoid, int k, disk')"
  using do_write_eq [OF assms(1), of pwrite disk data offset "int k" disk'] assms(2,3) by simp

text \<open>An offset of at least \<open>2 ^ 63\<close> becomes negative, which libuv takes as the current position of the file.\<close>

lemma large_offset_is_negative: "sint (2 ^ 63 :: size_t) = - (2 ^ 63)"
  by simp

end
