(* ===== verification/Control_Loop.thy ===== *)
theory Control_Loop
  imports Channel_Theorems
begin

text \<open>
  \<^verbatim>\<open>ControlLoop\<close> (\<^verbatim>\<open>control-loop.h\<close>) as one more client of a lock: its task, which ends with a synchronized \<^verbatim>\<open>Finally\<close> that sets
  \<^verbatim>\<open>finished_\<close>, and any number of callers of \<^verbatim>\<open>Wait\<close>. The shared state is \<^verbatim>\<open>finished_\<close>. What the eventual of the loop does before is not part
  of it; a stop of it reaches \<^verbatim>\<open>Finally\<close> as a value, and errors are excluded by its type.

  \<^verbatim>\<open>Finally\<close> notifies one waiter only, so the discipline of \<open>wakeups\<close> is not kept: the theorem is about a loop with a single caller of \<^verbatim>\<open>Wait\<close>.
\<close>

datatype control_op = CFinish | CWait

definition wait_until_finished :: cv where
  "wait_until_finished = 0"

definition control_finish :: "bool \<Rightarrow> val \<Rightarrow> (bool \<times> (cv \<times> bool) list \<times> val) res" where
  "control_finish finished _ = Inr (True, [(wait_until_finished, False)], VVoid)"

definition control_proc :: "control_op \<Rightarrow> bool proc" where
  "control_proc op =
     (case op of
        CFinish \<Rightarrow> \<lparr>p_wait = None, p_inner = False, p_first = None, p_body = control_finish\<rparr>
      | CWait \<Rightarrow> \<lparr>p_wait = Some (wait_until_finished, \<lambda>_ finished. \<not> finished), p_inner = False, p_first = None,
                  p_body = (\<lambda>finished x. Inr (finished, [], x))\<rparr>)"

lemma control_proc_simps [simp]:
  "p_wait (control_proc CFinish) = None" "p_body (control_proc CFinish) = control_finish" "p_first (control_proc op) = None"
  "p_wait (control_proc CWait) = Some (wait_until_finished, \<lambda>_ finished. \<not> finished)" "p_body (control_proc CWait) = (\<lambda>finished x. Inr (finished, [], x))"
  by (auto simp: control_proc_def split: control_op.split)

interpretation control_loop: monitor_object "\<lambda>t. control_proc (ops t)" "\<lambda>_. True" False for ops
proof (unfold_locales, goal_cases)
  case (3 s t x)
  then show ?case by (cases "ops t") (auto simp: control_finish_def)
qed simp_all

lemma waits_on_control: "waits_on (control_proc op) v \<longleftrightarrow> op = CWait \<and> v = wait_until_finished"
  by (cases op) (auto simp: waits_on_def)

section \<open>One waiter\<close>

definition single_waiter :: "bool mon \<Rightarrow> bool" where
  "single_waiter s \<longleftrightarrow> length (cvs s wait_until_finished) \<le> 1 \<and> (shared s \<longrightarrow> cvs s wait_until_finished = [])"

lemma parked_alone:
  assumes r: "mon_reach (\<lambda>t. control_proc (ops t)) first False s" and one: "\<And>u. ops u = CWait \<Longrightarrow> u = w" and t: "at s t = AtWait c" "ops t = CWait"
  shows "cvs s wait_until_finished = []"
proof (rule ccontr)
  assume "cvs s wait_until_finished \<noteq> []"
  then obtain u where u: "u \<in> set (cvs s wait_until_finished)" by (cases "cvs s wait_until_finished") auto
  then have "waits_on (control_proc (ops u)) wait_until_finished" using reach_cv_members [OF r] by (auto simp: cv_members_def)
  then have "u = t" using one [of u] one [OF t(2)] by (simp add: waits_on_control)
  moreover have "at s u = Off" using own_task(2) [OF mon_reach_inv [OF r], of u] u by (auto simp: on_cv_def)
  ultimately show False using t(1) by simp
qed

lemma finish_empties:
  assumes inv: "minv P (Some t) s" and n: "do_notifies t [(wait_until_finished, False)] (s\<lparr>shared := b\<rparr>) = Inr s1"
    and l: "length (cvs s wait_until_finished) \<le> 1"
  shows "cvs s1 wait_until_finished = []"
proof -
  have "minv P (Some t) (s\<lparr>shared := b\<rparr>)"
    by (rule holding_move [OF inv]) (use holder_owns [OF inv] own_task(7) [OF inv] in auto)
  from cv_notify_ok [OF this, of wait_until_finished] n
  have "notified_from (s\<lparr>shared := b\<rparr>) s1 wait_until_finished (take 1 (cvs s wait_until_finished))" by auto
  then show ?thesis using l by (auto simp: notified_from_def)
qed

lemma single_waiter_step:
  assumes r: "mon_reach (\<lambda>t. control_proc (ops t)) first False s" and one: "\<And>u. ops u = CWait \<Longrightarrow> u = w"
    and step: "mon_step (\<lambda>t. control_proc (ops t)) t s = Inr s'" and n: "single_waiter s"
  shows "single_waiter s'"
proof -
  note inv = mon_reach_inv [OF r]
  from step_effect [OF inv step] show ?thesis
  proof cases
    case quiet
    then show ?thesis using n by (simp add: single_waiter_def)
  next
    case (park c v f)
    then have t: "ops t = CWait" by (cases "ops t") auto
    then have "v = wait_until_finished" "\<not> shared s" using park(3,4) by auto
    then show ?thesis using park parked_alone [OF r one park(1) t] by (simp add: single_waiter_def)
  next
    case (body c x sh ns v s1 c')
    have h: "minv (\<lambda>t. control_proc (ops t)) (Some t) s" using holder_task(2) [OF inv, of t] body(1) by simp
    have s1: "shared s1 = sh" using section_shared [OF h body(4)] .
    show ?thesis
    proof (cases "ops t")
      case CFinish
      then have "ns = [(wait_until_finished, False)]" using body(3) by (simp add: control_finish_def)
      then have "cvs s1 wait_until_finished = []" using finish_empties [OF h] body(4) n by (simp add: single_waiter_def)
      then show ?thesis using body(5) by (simp add: single_waiter_def set_at_def)
    next
      case CWait
      then have "ns = []" "sh = shared s" using body(3) by auto
      then have "s1 = s" using body(4) by simp
      then show ?thesis using body(5) n by (simp add: single_waiter_def set_at_def)
    qed
  next
    case (first c x f sh ns s1)
    then show ?thesis by simp
  next
    case (release c)
    then show ?thesis using n by (simp add: single_waiter_def)
  qed
qed

lemma reach_single_waiter:
  assumes "mon_reach (\<lambda>t. control_proc (ops t)) first False s" and "\<And>u. ops u = CWait \<Longrightarrow> u = w"
  shows "single_waiter s"
  using assms(1)
proof (induction rule: mon_reach.induct)
  case mon_start
  then show ?case by (simp add: single_waiter_def mon_init_def)
next
  case (mon_move s t s')
  then show ?case using single_waiter_step [OF mon_move(1) assms(2)] by blast
next
  case (mon_next s t c c')
  then show ?case by (simp add: single_waiter_def set_at_def)
qed

section \<open>Properties\<close>

lemma control_run:
  assumes "seq_run (\<lambda>t. control_proc (ops t)) False tr finished"
  shows "(finished \<longleftrightarrow> (\<exists>e \<in> set tr. ops (event_task e) = CFinish)) \<and> ((\<exists>e \<in> set tr. ops (event_task e) = CWait) \<longrightarrow> finished)"
  using assms
proof (induction rule: seq_run.induct)
  case (seq_snoc tr n e n')
  from seq_snoc(2) show ?case
  proof cases
    case (seq_then t x ns r)
    then show ?thesis using seq_snoc(3) by (cases "ops t") (auto simp: control_finish_def may_run_def)
  next
    case (seq_first t f x ns)
    then show ?thesis by simp
  qed
qed simp

text \<open>
  C29. \<^verbatim>\<open>Wait\<close> of a control loop returns only after the loop has finished; and with one caller of \<^verbatim>\<open>Wait\<close>, however it is interleaved with the end of the loop, it
  is not lost: when the loop has finished and nothing is under way, nobody is suspended.
\<close>

theorem control_loop_wait_returns:
  assumes "mon_trace (\<lambda>t. control_proc (ops t)) first False tr s"
  shows "((\<exists>e \<in> set tr. ops (event_task e) = CWait) \<longrightarrow> (\<exists>e \<in> set tr. ops (event_task e) = CFinish)) \<and>
    ((\<forall>u. ops u = CWait \<longrightarrow> u = w) \<and> quiescent s \<and> (\<exists>e \<in> set tr. ops (event_task e) = CFinish) \<longrightarrow> (\<forall>t. at s t \<noteq> Off))"
proof -
  note c = control_run [OF trace_seq_run [OF assms]]
  note r = trace_reach [OF assms]
  have False if one: "\<forall>u. ops u = CWait \<longrightarrow> u = w" and q: "quiescent s" and f: "\<exists>e \<in> set tr. ops (event_task e) = CFinish" and t: "at s t = Off" for t
  proof -
    obtain v where v: "t \<in> set (cvs s v)" "waits_on (control_proc (ops t)) v" using suspended_on [OF r q t] by blast
    have "single_waiter s" using reach_single_waiter [OF r] one by blast
    moreover have "v = wait_until_finished" using v(2) by (simp add: waits_on_control)
    ultimately show False using c f v(1) by (auto simp: single_waiter_def)
  qed
  then show ?thesis using c by blast
qed

definition control_users :: "tid \<Rightarrow> control_op" where
  "control_users t = (if t = 1 then CWait else CFinish)"

lemmas control_run_defs = run_defs control_proc_def control_users_def control_finish_def wait_until_finished_def

lemma control_exec:
  "\<exists>s. mon_exec (\<lambda>t. control_proc (control_users t)) [1, 1, 0, 0, 0, 1, 1, 1, 1] ([], mon_init (\<lambda>_. Start VVoid) False) =
     Inr ([ThenE 0 VVoid VVoid, ThenE 1 VVoid VVoid], s) \<and> quiescent s"
  by (simp add: control_run_defs event_of_def quiescent_def)

theorem control_loop_wait_returns_witness:
  "\<exists>s. mon_exec (\<lambda>t. control_proc (control_users t)) [1, 1, 0, 0, 0, 1, 1, 1, 1] ([], mon_init (\<lambda>_. Start VVoid) False) =
     Inr ([ThenE 0 VVoid VVoid, ThenE 1 VVoid VVoid], s) \<and> at s 1 \<noteq> Off"
proof -
  obtain s where s: "mon_exec (\<lambda>t. control_proc (control_users t)) [1, 1, 0, 0, 0, 1, 1, 1, 1] ([], mon_init (\<lambda>_. Start VVoid) False) =
     Inr ([ThenE 0 VVoid VVoid, ThenE 1 VVoid VVoid], s)" "quiescent s"
    using control_exec by blast
  from control_loop_wait_returns [OF mon_exec_trace [OF trace_start s(1)], of 1] s show ?thesis by (auto simp: control_users_def)
qed

text \<open>
  With two callers the second is lost: the loop has finished, nothing is under way, and it stays suspended.
\<close>

definition two_waiters :: "tid \<Rightarrow> control_op" where
  "two_waiters t = (if t = 0 then CFinish else CWait)"

lemma second_waiter_is_lost:
  "\<exists>s. mon_run (\<lambda>t. control_proc (two_waiters t)) [1, 1, 2, 2, 0, 0, 0, 1, 1, 1, 1] (mon_init (\<lambda>_. Start VVoid) False) = Inr s \<and>
     quiescent s \<and> shared s \<and> at s 2 = Off"
  by (simp add: control_run_defs two_waiters_def quiescent_def)

end
