(* ===== verification/Executor.thy ===== *)
theory Executor
  imports Control_Loop Concurrent_Theorems
begin

text \<open>
  \<^verbatim>\<open>Executor\<close> (\<^verbatim>\<open>executor.h\<close>): a control loop that runs \<^verbatim>\<open>pipe_.Read() >> Concurrent(...) >> Loop()\<close>, where the eventuals that were submitted are the values of the pipe and each of them is run by a fiber of
  \<^verbatim>\<open>Concurrent\<close>. The model composes the two machines: the tasks over the pipe, of which task 0 is the reader and every other a \<^verbatim>\<open>Submit\<close> or a \<^verbatim>\<open>Shutdown\<close>, and the adaptor of \<^verbatim>\<open>Concurrent\<close>. They are connected as the
  stream connects them: \<open>Ask\<close> is the request for the next value that goes up to the pipe, \<open>Hand\<close> the value that comes down, \<open>Finish_reading\<close> the end of reading, because the pipe had no value or because \<^verbatim>\<open>Concurrent\<close>
  wants none, and \<open>Upstream_ended\<close> what it leads to. \<open>x_reading\<close> says how far this has come; \<open>x_trace\<close> records the operations on the pipe.

  What a submitted eventual does is the argument \<open>run\<close>, the signal with which it completes. The end of the control loop, and \<^verbatim>\<open>Wait\<close>, are in \<open>Control_Loop\<close>.
\<close>

section \<open>The machine\<close>

datatype executor_op = Submit val | Shutdown

definition executor_ops :: "(tid \<Rightarrow> executor_op) \<Rightarrow> tid \<Rightarrow> pipe_op" where
  "executor_ops users t = (if t = 0 then PRead else case users t of Submit e \<Rightarrow> PWrite e | Shutdown \<Rightarrow> PClose)"

definition executor_first :: "tid \<Rightarrow> call" where
  "executor_first t = (if t = 0 then Begin 0 else Start VVoid)"

text \<open>The fiber of an eventual: \<^verbatim>\<open>Just(std::monostate{})\<close> after it, and \<^verbatim>\<open>Catch\<close> for its errors; a stop passes both.\<close>

definition executor_f :: "(val \<Rightarrow> signal) \<Rightarrow> val \<Rightarrow> val list \<times> signal" where
  "executor_f run e =
     (case run e of
        Started _ \<Rightarrow> ([VVoid], Started VVoid)
      | Failed _ \<Rightarrow> ([VVoid], Started VVoid)
      | Stopped \<Rightarrow> ([], Stopped))"

datatype reading = RBegin | RAsked | RHanded | REnding | REnded

record executor =
  x_pipe :: "pipe mon"
  x_reading :: reading
  x_conc :: conc
  x_trace :: "event list"

definition Executor :: executor where
  "Executor = \<lparr>x_pipe = mon_init executor_first Pipe, x_reading = RBegin, x_conc = conc_init, x_trace = []\<rparr>"

fun has_begun :: "pos \<Rightarrow> bool" where
  "has_begun (AtDone (Begin _)) = True"
| "has_begun _ = False"

text \<open>What \<^verbatim>\<open>Loop\<close> does downstream is \<open>DownNext\<close>; the \<^verbatim>\<open>Until\<close> of \<^verbatim>\<open>Concurrent\<close> calls \<^verbatim>\<open>Done\<close> at the end of the values, and nobody else does.\<close>

definition own_act :: "cact \<Rightarrow> conc \<Rightarrow> bool" where
  "own_act a s \<longleftrightarrow> (case a of UpBody _ \<Rightarrow> False | UpEnd _ \<Rightarrow> False | DownDone \<Rightarrow> egress s = EEnding | _ \<Rightarrow> True)"

datatype executor_act = Pipe_step tid | Ask | Hand | Finish_reading | Upstream_ended | Conc_step cact

fun executor_step :: "(val \<Rightarrow> signal) \<Rightarrow> (tid \<Rightarrow> executor_op) \<Rightarrow> executor_act \<Rightarrow> executor \<Rightarrow> executor res" where
  "executor_step run users (Pipe_step t) s =
     rbind (mon_step (\<lambda>t. pipe_proc (executor_ops users t)) t (x_pipe s)) (\<lambda>m.
       Inr (s\<lparr>x_pipe := m, x_trace := x_trace s @ event_of (\<lambda>t. pipe_proc (executor_ops users t)) t (x_pipe s)\<rparr>))"
| "executor_step run users Ask s =
     Inr (if ingress (x_conc s) = IWant \<and> (x_reading s = RBegin \<and> has_begun (at (x_pipe s) 0) \<or> x_reading s = RHanded)
          then s\<lparr>x_pipe := set_at 0 (AtAcquire (Body VVoid)) (x_pipe s), x_reading := RAsked\<rparr> else s)"
| "executor_step run users Hand s =
     (case at (x_pipe s) 0 of
        AtDone (Body (VOpt (Some e))) \<Rightarrow>
          if x_reading s = RAsked \<and> ingress (x_conc s) = IWant
          then rbind (conc_step (executor_f run) (UpBody e) (x_conc s)) (\<lambda>c. Inr (s\<lparr>x_conc := c, x_reading := RHanded\<rparr>)) else Inr s
      | _ \<Rightarrow> Inr s)"
| "executor_step run users Finish_reading s =
     Inr (if x_reading s = RAsked \<and> at (x_pipe s) 0 = AtDone (Body (VOpt None)) \<or> x_reading s = RHanded \<and> ingress (x_conc s) = IUpDone
          then s\<lparr>x_pipe := set_at 0 (AtAcquire Ended) (x_pipe s), x_reading := REnding\<rparr> else s)"
| "executor_step run users Upstream_ended s =
     (if x_reading s = REnding \<and> at (x_pipe s) 0 = AtDone Ended
      then rbind (conc_step (executor_f run) (UpEnd (Started VVoid)) (x_conc s)) (\<lambda>c. Inr (s\<lparr>x_conc := c, x_reading := REnded\<rparr>)) else Inr s)"
| "executor_step run users (Conc_step a) s =
     (if own_act a (x_conc s) then rbind (conc_step (executor_f run) a (x_conc s)) (\<lambda>c. Inr (s\<lparr>x_conc := c\<rparr>)) else Inr s)"

inductive executor_reach :: "(val \<Rightarrow> signal) \<Rightarrow> (tid \<Rightarrow> executor_op) \<Rightarrow> executor \<Rightarrow> bool" for run users where
  executor_start: "executor_reach run users Executor"
| executor_move: "executor_reach run users s \<Longrightarrow> executor_step run users a s = Inr s' \<Longrightarrow> executor_reach run users s'"

fun executor_run :: "(val \<Rightarrow> signal) \<Rightarrow> (tid \<Rightarrow> executor_op) \<Rightarrow> executor_act list \<Rightarrow> executor \<Rightarrow> executor res" where
  "executor_run run users [] s = Inr s"
| "executor_run run users (a # as) s = rbind (executor_step run users a s) (executor_run run users as)"

lemma executor_run_reach: "executor_reach run users s \<Longrightarrow> executor_run run users as s = Inr s' \<Longrightarrow> executor_reach run users s'"
  by (induction as arbitrary: s) (auto intro: executor_move)

section \<open>Values keep their order in Concurrent\<close>

definition same_handling :: "conc \<Rightarrow> conc \<Rightarrow> bool" where
  "same_handling s s' \<longleftrightarrow> received s' = received s \<and> handled s' = handled s \<and> ingress s' = ingress s \<and> dropped s' = dropped s \<and>
     (drained s \<longrightarrow> drained s') \<and> (egress s' = EEnding \<longrightarrow> egress s = EEnding \<or> drained s') \<and> downstream_done s' = downstream_done s"

lemma same_handling_refl [simp]: "same_handling s s"
  by (simp add: same_handling_def)

lemma same_handling_trans: "same_handling s t \<Longrightarrow> same_handling t u \<Longrightarrow> same_handling s u"
  by (auto simp: same_handling_def)

lemma same_notify: "notify_both_if b s = Inr s' \<Longrightarrow> same_handling s s'"
  by (auto simp: same_handling_def notify_both_if_def notify_egress_def notify_done_def split: if_splits)

lemma same_interrupt_fibers: "same_handling s (interrupt_fibers s)"
  by (simp add: same_handling_def interrupt_fibers_eq)

lemma same_record_error: "same_handling s (record_error sg s)"
  by (simp add: same_handling_def record_error_def split: signal.split)

lemma same_set_fiber: "same_handling s (set_fiber i g s)"
  by (simp add: same_handling_def set_fiber_def)

lemma same_flag: "same_handling s (s\<lparr>fibers_done := b\<rparr>)"
  by (simp add: same_handling_def)

lemma same_egress: "Egress s = Inr s' \<Longrightarrow> same_handling s s'"
  by (auto simp: same_handling_def Egress_def egress_deliver_def Let_def split: if_splits list.splits)

lemma same_fiber_epilogue:
  assumes "FiberEpilogue i sg s = Inr s'"
  shows "same_handling s s'"
proof -
  let ?s1 = "record_error sg (set_fiber i (\<lambda>fiber. fiber\<lparr>fdone := True, fphase := FLeaving\<rparr>) s)"
  have "same_handling s ?s1" by (rule same_handling_trans [OF same_set_fiber same_record_error])
  moreover have "same_handling ?s1 (case sg of Started _ \<Rightarrow> ?s1\<lparr>fibers_done := FibersDone (cfibers ?s1)\<rparr> | _ \<Rightarrow> interrupt_fibers ?s1)"
    by (cases sg) (simp_all add: same_flag same_interrupt_fibers)
  ultimately show ?thesis using assms same_notify same_handling_trans unfolding FiberEpilogue_def Let_def by blast
qed

definition conc_order :: "conc \<Rightarrow> bool" where
  "conc_order s \<longleftrightarrow>
     (\<exists>ys. received s = handled s @ ys \<and> (case ingress s of IBody v \<Rightarrow> ys = [v] | IUpDone \<Rightarrow> dropped s | IEpilogue _ \<Rightarrow> True | IEnd \<Rightarrow> True | _ \<Rightarrow> ys = [])) \<and>
     (egress s = EEnding \<or> downstream_done s \<longrightarrow> drained s)"

lemma conc_orderI:
  "received s = handled s @ ys \<Longrightarrow> (\<And>v. ingress s = IBody v \<Longrightarrow> ys = [v]) \<Longrightarrow> (ingress s = IUpDone \<Longrightarrow> dropped s) \<Longrightarrow>
     (\<And>i v. ingress s = IStart i v \<Longrightarrow> ys = []) \<Longrightarrow> (ingress s = IWant \<Longrightarrow> ys = []) \<Longrightarrow> (ingress s = IIdle \<Longrightarrow> ys = []) \<Longrightarrow>
     (egress s = EEnding \<or> downstream_done s \<Longrightarrow> drained s) \<Longrightarrow> conc_order s"
  unfolding conc_order_def by (cases "ingress s") auto

lemma same_handling_order:
  assumes "same_handling s s'" "conc_order s"
  shows "conc_order s'"
proof -
  note h = assms(1) [unfolded same_handling_def]
  show ?thesis using assms(2) h unfolding conc_order_def by (elim conjE) (auto simp only:)
qed

lemma conc_orderD:
  assumes "conc_order s"
  obtains ys where "received s = handled s @ ys" "\<And>v. ingress s = IBody v \<Longrightarrow> ys = [v]" "ingress s = IUpDone \<Longrightarrow> dropped s"
    "\<And>i v. ingress s = IStart i v \<Longrightarrow> ys = []" "ingress s = IWant \<Longrightarrow> ys = []" "ingress s = IIdle \<Longrightarrow> ys = []"
    "egress s = EEnding \<or> downstream_done s \<Longrightarrow> drained s"
proof -
  obtain ys where "received s = handled s @ ys" "case ingress s of IBody v \<Rightarrow> ys = [v] | IUpDone \<Rightarrow> dropped s | IEpilogue _ \<Rightarrow> True | IEnd \<Rightarrow> True | _ \<Rightarrow> ys = []"
    using assms unfolding conc_order_def by blast
  then show thesis using that [of ys] assms unfolding conc_order_def by (cases "ingress s") auto
qed

lemma conc_order_init: "conc_order conc_init"
  by (simp add: conc_order_def conc_init_def)

lemma order_next:
  assumes i: "conc_inv f s" "egress s = EIdle" and "conc_order s" "conc_Next s = Inr s'"
  shows "conc_order s'"
proof -
  obtain s1 where s1: "Egress s = Inr s1" "s' = (if \<not> next_flag s1 then s1\<lparr>next_flag := True, ingress := IWant\<rparr> else s1)"
    using assms(4) by (auto simp: conc_Next_def)
  have o: "conc_order s1" using same_handling_order [OF same_egress [OF s1(1)] assms(3)] .
  have "conc_inv f s1" using inv_egress [OF i(1)] i(2) s1(1) by auto
  then have n: "next_flag s1 \<longleftrightarrow> ingress s1 \<noteq> IIdle" by (simp add: conc_inv_def flags_inv_def)
  show ?thesis
  proof (cases "next_flag s1")
    case False
    obtain ys where "received s1 = handled s1 @ ys" "ingress s1 = IIdle \<Longrightarrow> ys = []" "egress s1 = EEnding \<or> downstream_done s1 \<Longrightarrow> drained s1"
      using conc_orderD [OF o] by metis
    then have "conc_order (s1\<lparr>next_flag := True, ingress := IWant\<rparr>)" using n False by (intro conc_orderI [where ys = ys]) auto
    then show ?thesis using s1 False by simp
  qed (use s1 o in simp)
qed

lemma order_ingress:
  assumes "conc_order s" "ingress_step f s = Inr s'"
  shows "conc_order s'"
proof -
  obtain ys where ys: "received s = handled s @ ys" "\<And>v. ingress s = IBody v \<Longrightarrow> ys = [v]" "\<And>i v. ingress s = IStart i v \<Longrightarrow> ys = []"
    "egress s = EEnding \<or> downstream_done s \<Longrightarrow> drained s"
    using conc_orderD [OF assms(1)] by metis
  show ?thesis
  proof (cases "ingress s")
    case (IBody v)
    obtain fs k where fs: "create_or_reuse (cfibers s) = (fs, k)" by fastforce
    have y: "ys = [v]" using ys(2) IBody .
    consider "s' = s\<lparr>cfibers := fs, fibers_done := False, ingress := IStart k v, handled := handled s @ [v]\<rparr>" | "s' = s\<lparr>ingress := IUpDone, dropped := True\<rparr>"
      using assms(2) IBody fs by (auto simp: ingress_step_def CreateOrReuseFiber_def split: if_splits)
    then show ?thesis
    proof cases
      case 1
      show ?thesis unfolding 1 by (rule conc_orderI [where ys = "[]"]) (use ys(1,4) y in auto)
    next
      case 2
      show ?thesis unfolding 2 by (rule conc_orderI [where ys = ys]) (use ys(1,4) in auto)
    qed
  next
    case (IStart k v)
    have y: "ys = []" using ys(3) IStart .
    have s': "s' = (set_fiber k (\<lambda>fiber. fiber\<lparr>fphase := (case f v of (vs, sg) \<Rightarrow> FRunning vs sg)\<rparr>) s)\<lparr>ingress := IWant\<rparr>"
      using assms(2) IStart by (simp add: ingress_step_def StartFiber_def)
    show ?thesis unfolding s' by (rule conc_orderI [where ys = "[]"]) (use ys(1,4) y in \<open>auto simp: set_fiber_def\<close>)
  next
    case (IEpilogue sg)
    let ?s1 = "record_error sg (s\<lparr>upstream_done := True, ingress := IEnd\<rparr>)"
    have "conc_order (s\<lparr>upstream_done := True, ingress := IEnd\<rparr>)" by (rule conc_orderI [where ys = ys]) (use ys(1,4) in auto)
    then have "conc_order (?s1\<lparr>fibers_done := FibersDone (cfibers ?s1)\<rparr>)"
      by (rule same_handling_order [OF same_handling_trans [OF same_record_error same_flag]])
    moreover have "notify_both_if (FibersDone (cfibers ?s1)) (?s1\<lparr>fibers_done := FibersDone (cfibers ?s1)\<rparr>) = Inr s'"
      using assms(2) IEpilogue by (simp add: ingress_step_def IngressEpilogue_def Let_def)
    ultimately show ?thesis by (blast intro: same_handling_order same_notify)
  qed (use assms in \<open>simp_all add: ingress_step_def\<close>)
qed

lemma order_body:
  assumes "conc_order s" "ingress s = IWant" "conc_Body v s = Inr s'"
  shows "conc_order s'"
proof -
  have "\<exists>h. s' = s\<lparr>handler := h, ingress := IBody v, received := received s @ [v]\<rparr>"
  proof (cases "handler s = CNone")
    case True
    then show ?thesis using assms(3) by (intro exI [of _ CNone]) (cases s; auto simp: conc_Body_def)
  next
    case False
    then show ?thesis using assms(3) by (auto simp: conc_Body_def InstallOrExecuteIfTriggered_def check_def split: if_splits)
  qed
  then obtain h where s': "s' = s\<lparr>handler := h, ingress := IBody v, received := received s @ [v]\<rparr>" ..
  obtain ys where "received s = handled s @ ys" "ingress s = IWant \<Longrightarrow> ys = []" "egress s = EEnding \<or> downstream_done s \<Longrightarrow> drained s"
    using conc_orderD [OF assms(1)] by metis
  then show ?thesis unfolding s' using assms(2) by (intro conc_orderI [where ys = "[v]"]) auto
qed

lemma order_up_end:
  assumes "conc_order s"
  shows "conc_order (up_end sg s)"
proof -
  obtain ys where "received s = handled s @ ys" "egress s = EEnding \<or> downstream_done s \<Longrightarrow> drained s"
    using conc_orderD [OF assms] by metis
  then have "conc_order (s\<lparr>ingress := IEpilogue sg\<rparr>)" by (intro conc_orderI [where ys = ys]) auto
  then show ?thesis using assms by (simp add: up_end_def)
qed

lemma order_done:
  assumes "conc_order s" "egress s = EEnding" "conc_Done s = Inr s'"
  shows "conc_order s'"
proof -
  let ?s1 = "s\<lparr>done_flag := True, egress := EDone, downstream_done := True\<rparr>"
  have "conc_order ?s1"
  proof (rule conc_orderD [OF assms(1)])
    fix ys
    assume "received s = handled s @ ys" "\<And>v. ingress s = IBody v \<Longrightarrow> ys = [v]" "ingress s = IUpDone \<Longrightarrow> dropped s" "\<And>i v. ingress s = IStart i v \<Longrightarrow> ys = []"
      "ingress s = IWant \<Longrightarrow> ys = []" "ingress s = IIdle \<Longrightarrow> ys = []" "egress s = EEnding \<or> downstream_done s \<Longrightarrow> drained s"
    then show ?thesis using assms(2) by (intro conc_orderI [where ys = ys]) auto
  qed
  then have o: "conc_order (interrupt_fibers ?s1)" by (blast intro: same_handling_order same_interrupt_fibers)
  have "same_handling (interrupt_fibers ?s1) s'"
    using assms(3) by (auto simp: conc_Done_def adaptor_Done_def notify_done_def same_handling_def Let_def interrupt_fibers_eq split: if_splits)
  then show ?thesis using o same_handling_order by blast
qed

fun quiet_act :: "cact \<Rightarrow> bool" where
  "quiet_act DownNext = False"
| "quiet_act DownDone = False"
| "quiet_act (UpBody _) = False"
| "quiet_act (UpEnd _) = False"
| "quiet_act IngressStep = False"
| "quiet_act _ = True"

lemma quiet_act_same:
  assumes "quiet_act a" and step: "conc_step f a s = Inr s'"
  shows "same_handling s s'"
proof (cases a)
  case EgressStep
  then show ?thesis using step by (auto intro: same_egress split: if_splits)
next
  case WaitStep
  then show ?thesis using step by (auto simp: WaitForDone_def same_handling_def split: if_splits)
next
  case (FiberPush k)
  then show ?thesis
    using step by (auto simp: fiber_push_def push_value_def notify_egress_def set_fiber_def same_handling_def split: if_splits fiber_phase.splits list.splits)
next
  case (FiberEnd k)
  then show ?thesis using step by (auto simp: fiber_end_def set_fiber_def same_handling_def split: if_splits fiber_phase.splits list.splits)
next
  case (FiberStopped k)
  then show ?thesis using step by (auto simp: fiber_stopped_def set_fiber_def same_handling_def split: if_splits fiber_phase.splits)
next
  case (FiberStep k)
  then show ?thesis using step by (auto simp: fiber_epilogue_step_def intro: same_fiber_epilogue split: if_splits fiber_phase.splits)
next
  case (FiberLeave k)
  then show ?thesis using step by (auto simp: fiber_leave_def set_fiber_def same_handling_def split: if_splits)
next
  case RegisterStep
  then show ?thesis using step by (auto simp: conc_Register_def same_handling_def split: if_splits)
next
  case TriggerStep
  then show ?thesis using step by (auto simp: conc_trigger_def same_handling_def)
next
  case InterruptStep
  have "same_handling s s'" if "adaptor_Interrupt (s\<lparr>handler := CRan\<rparr>) = Inr s'"
    using that by (auto simp: adaptor_Interrupt_def interrupt_fibers_eq Let_def notify_both_if_def notify_egress_def notify_done_def same_handling_def split: if_splits)
  then show ?thesis using step InterruptStep by (auto split: if_splits)
qed (use assms(1) in simp_all)

lemma conc_order_step:
  assumes i: "conc_inv f s" and o: "conc_order s" and step: "conc_step f a s = Inr s'" and a: "own_act a s \<or> (\<exists>v. a = UpBody v) \<or> (\<exists>g. a = UpEnd g)"
  shows "conc_order s'"
proof (cases "quiet_act a")
  case True
  then show ?thesis using quiet_act_same [OF _ step] o same_handling_order by blast
next
  case False
  then show ?thesis
  proof (cases a)
    case DownNext
    then show ?thesis using order_next [OF i _ o] step o by (auto split: if_splits)
  next
    case DownDone
    then show ?thesis using order_done [OF o] step a by (simp add: own_act_def)
  next
    case (UpBody v)
    then show ?thesis using order_body [OF o] step o by (auto split: if_splits)
  next
    case (UpEnd g)
    then show ?thesis using order_up_end [OF o] step by auto
  next
    case IngressStep
    then show ?thesis using order_ingress [OF o] step by simp
  qed simp_all
qed

lemma own_act_frame:
  assumes step: "conc_step f a s = Inr s'" and a: "own_act a s"
  shows "received s' = received s \<and> (conc.dropped s \<longrightarrow> conc.dropped s') \<and>
    ((\<exists>sg. ingress s' = IEpilogue sg) \<or> ingress s' = IEnd \<longrightarrow> (\<exists>sg. ingress s = IEpilogue sg) \<or> ingress s = IEnd)"
proof (cases "quiet_act a")
  case True
  then show ?thesis using quiet_act_same [OF _ step] by (auto simp: same_handling_def)
next
  case False
  then show ?thesis
  proof (cases a)
    case DownNext
    show ?thesis
    proof (cases "egress s = EIdle")
      case True
      then obtain s1 where s1: "Egress s = Inr s1" "s' = (if \<not> next_flag s1 then s1\<lparr>next_flag := True, ingress := IWant\<rparr> else s1)"
        using step DownNext by (auto simp: conc_Next_def)
      then show ?thesis using same_egress [OF s1(1)] by (auto simp: same_handling_def)
    qed (use step DownNext in simp)
  next
    case DownDone
    then show ?thesis using step a
      by (auto simp: own_act_def conc_Done_def adaptor_Done_def notify_done_def interrupt_fibers_eq Let_def split: if_splits)
  next
    case IngressStep
    then have step': "ingress_step f s = Inr s'" using step by simp
    show ?thesis
    proof (cases "ingress s")
      case (IBody v)
      then show ?thesis using step' by (auto simp: ingress_step_def CreateOrReuseFiber_def Let_def split: prod.splits if_splits)
    next
      case (IStart k v)
      then show ?thesis using step' by (auto simp: ingress_step_def StartFiber_def set_fiber_def)
    next
      case (IEpilogue sg)
      let ?s1 = "record_error sg (s\<lparr>upstream_done := True, ingress := IEnd\<rparr>)"
      have "notify_both_if (FibersDone (cfibers ?s1)) (?s1\<lparr>fibers_done := FibersDone (cfibers ?s1)\<rparr>) = Inr s'"
        using step' IEpilogue by (simp add: ingress_step_def IngressEpilogue_def Let_def)
      then have "same_handling (s\<lparr>upstream_done := True, ingress := IEnd\<rparr>) s'"
        by (rule same_handling_trans [OF same_handling_trans [OF same_record_error same_flag] same_notify])
      then show ?thesis using IEpilogue by (auto simp: same_handling_def)
    qed (use step' in \<open>auto simp: ingress_step_def\<close>)
  qed (use a in \<open>auto simp: own_act_def\<close>)
qed

section \<open>The reader\<close>

text \<open>A task that has completed a call, or holds the lock to release it, is not moved by others.\<close>

fun call_over :: "pos \<Rightarrow> call option" where
  "call_over (AtRelease c) = Some c"
| "call_over (AtDone c) = Some c"
| "call_over _ = None"

lemma call_over_kept:
  assumes r: "mon_reach P first sh s" and step: "mon_step P t s = Inr s'" and u: "u \<noteq> t" "call_over (at s u) \<noteq> None"
  shows "at s' u = at s u"
proof -
  note inv = mon_reach_inv [OF r]
  have idle: "w_f (wk s u) = None" using idle_wait [OF inv, of u] u(2) by (cases "at s u") auto
  have busy: "(u, AcquireW) \<notin> set (aq (mlock s))" if "hold_pos (at s t)"
  proof
    assume "(u, AcquireW) \<in> set (aq (mlock s))"
    from in_queue_cases [OF inv this] have "hold_pos (at s u)" using u(2) by (cases "at s u") auto
    then show False using holder_task(1) [OF inv, of u] holder_task(1) [OF inv that] u(1) by simp
  qed
  from step_effect [OF inv step] show ?thesis
  proof cases
    case quiet
    then show ?thesis using u(1) by blast
  next
    case (park c v f)
    then show ?thesis using others_keptD(1) [OF park(10) u(1)] idle busy by auto
  next
    case (release c)
    then show ?thesis using others_keptD(1) [OF release(7) u(1)] idle busy by auto
  next
    case (body c x sh' ns b s1 c')
    then show ?thesis using section_moves(1) [OF holder_task(2) [OF inv, of t] body(4)] u(1) by (simp add: set_at_def)
  next
    case (first c x f sh' ns s1)
    then show ?thesis using section_moves(1) [OF holder_task(2) [OF inv, of t] first(5)] u(1) by (simp add: set_at_def)
  qed
qed

lemma call_over_before:
  assumes r: "mon_reach P first sh s" and step: "mon_step P t s = Inr s'" and u: "u \<noteq> t" "call_over (at s' u) \<noteq> None"
  shows "at s' u = at s u"
proof -
  note inv = mon_reach_inv [OF r]
  from step_effect [OF inv step] show ?thesis
  proof cases
    case quiet
    then show ?thesis using u(1) by blast
  next
    case (park c v f)
    then show ?thesis using others_keptD(1) [OF park(10) u(1)] u(2) by auto
  next
    case (release c)
    then show ?thesis using others_keptD(1) [OF release(7) u(1)] u(2) by auto
  next
    case (body c x sh' ns b s1 c')
    then show ?thesis using section_moves(1) [OF holder_task(2) [OF inv, of t] body(4)] u(1) by (simp add: set_at_def)
  next
    case (first c x f sh' ns s1)
    then show ?thesis using section_moves(1) [OF holder_task(2) [OF inv, of t] first(5)] u(1) by (simp add: set_at_def)
  qed
qed

lemma release_call_over: "lock_release s = Inr s' \<Longrightarrow> at s' t = at s t \<or> call_over (at s' t) = None"
  by (auto simp: lock_release_def acquire_f_def wait_f_def upd_defs Let_def split: list.splits wkind.splits option.splits if_splits)

text \<open>How a task's own step completes a call.\<close>

lemma own_call_over:
  assumes r: "mon_reach P first sh s" and step: "mon_step P t s = Inr s'"
  shows "call_over (at s' t) = None \<and> call_over (at s t) = None \<and> (\<forall>e \<in> set (event_of P t s). event_result e = None) \<or> call_over (at s' t) = call_over (at s t) \<and> event_of P t s = [] \<or>
    (\<exists>c. at s t = AtThen c \<and> call_arg c = None \<and> call_over (at s' t) = Some c \<and> event_of P t s = []) \<or>
    (\<exists>x v. event_of P t s = [ThenE t x v] \<and> (call_over (at s' t) = Some (Start v) \<or> call_over (at s' t) = Some (Body v)) \<and> (\<exists>c. at s' t = AtRelease c))"
proof (cases "at s t")
  case (AtAcquire c)
  then show ?thesis using step
    by (auto simp: event_of_def mon_step_def acquire_call_def acquire_stream_call_def acquire_value_call_def acquire_fast_def enter_section_def after_acquire_def after_first_def upd_defs Let_def
        split: call.splits option.splits if_splits)
next
  case AtAcquireSlow
  then show ?thesis using step by (auto simp: event_of_def mon_step_def acquire_slow_call_def acquire_slow_def acquire_f_def upd_defs split: option.splits if_splits)
next
  case Off
  then show ?thesis using step by (auto simp: mon_step_def event_of_def)
next
  case (RunAcquired c)
  then show ?thesis using step
    by (auto simp: event_of_def mon_step_def acquire_unblocked_def enter_section_def after_acquire_def after_first_def upd_defs split: option.splits)
next
  case (AtFirst c)
  then show ?thesis using step
    by (auto simp: event_of_def mon_step_def first_call_def after_first_def set_at_def split: option.splits sum.splits)
next
  case (AtWait c)
  then have "wait_call (P t) t c s = Inr s'" using step by (simp add: mon_step_def)
  then have "call_over (at s' t) = None"
    by (auto simp: wait_call_def wait_enter_def wait_Ended_def cv_condition_def check_def upd_defs Let_def dest!: release_call_over [where t = t]
        split: option.splits call.splits if_splits prod.splits)
  then show ?thesis using AtWait by (simp add: event_of_def)
next
  case (RunNotified c)
  then show ?thesis using step by (auto simp: mon_step_def wait_unblocked_def upd_defs event_of_def)
next
  case (AtThen c)
  show ?thesis
  proof (cases "call_arg c")
    case None
    then show ?thesis using AtThen step by (auto simp: mon_step_def then_call_def set_at_def event_of_def)
  next
    case (Some x)
    then obtain sh' ns v s1 where b: "p_body (P t) (shared s) x = Inr (sh', ns, v)" "s' = set_at t (AtRelease (case c of Start _ \<Rightarrow> Start v | _ \<Rightarrow> Body v)) s1"
      using AtThen step by (auto simp: mon_step_def then_call_def)
    then have "event_of P t s = [ThenE t x v]" "at s' t = AtRelease (case c of Start _ \<Rightarrow> Start v | _ \<Rightarrow> Body v)"
      using AtThen Some by (simp_all add: event_of_def set_at_def)
    then show ?thesis by (cases c) auto
  qed
next
  case (AtRelease c)
  have "lock_release (set_at t (AtDone c) s) = Inr s'" using step AtRelease by (simp add: mon_step_def release_k_call_def)
  moreover have "t \<notin> queued (set_at t (AtDone c) s)" using hold_not_off [OF mon_reach_inv [OF r], of t] AtRelease by (simp add: queued_def set_at_def)
  ultimately have "at s' t = AtDone c" using release_self(1) [of "set_at t (AtDone c) s" s' t] by (simp add: set_at_def)
  then show ?thesis using AtRelease by (auto simp: event_of_def)
next
  case (AtDone c)
  then show ?thesis using step by (auto simp: mon_step_def event_of_def)
qed

section \<open>The invariant\<close>

definition read_value :: "val \<Rightarrow> val list" where
  "read_value r = (case r of VOpt (Some v) \<Rightarrow> [v] | _ \<Rightarrow> [])"

definition call_read :: "call option \<Rightarrow> val list" where
  "call_read co = (case co of None \<Rightarrow> [] | Some c \<Rightarrow> (case call_arg c of None \<Rightarrow> [] | Some r \<Rightarrow> read_value r))"

definition in_flight :: "executor \<Rightarrow> val list" where
  "in_flight s = (if x_reading s = RHanded then [] else call_read (call_over (at (x_pipe s) 0)))"

definition read_none :: "event list \<Rightarrow> bool" where
  "read_none tr \<longleftrightarrow> (\<exists>x. ThenE 0 x (VOpt None) \<in> set tr)"

definition executor_inv :: "(val \<Rightarrow> signal) \<Rightarrow> (tid \<Rightarrow> executor_op) \<Rightarrow> executor \<Rightarrow> bool" where
  "executor_inv run users s \<longleftrightarrow>
     mon_trace (\<lambda>t. pipe_proc (executor_ops users t)) executor_first Pipe (x_trace s) (x_pipe s) \<and>
     conc_reach (executor_f run) (x_conc s) \<and> conc_order (x_conc s) \<and>
     Channel_Theorems.delivered (executor_ops users) (x_trace s) = received (x_conc s) @ in_flight s \<and>
     (\<forall>c r. call_over (at (x_pipe s) 0) = Some c \<longrightarrow> call_arg c = Some r \<longrightarrow> (\<exists>x. ThenE 0 x r \<in> set (x_trace s))) \<and>
     (x_reading s = RHanded \<longrightarrow> (\<exists>c. at (x_pipe s) 0 = AtDone c)) \<and>
     (x_reading s = REnded \<longrightarrow> at (x_pipe s) 0 = AtDone Ended) \<and>
     ((\<exists>sg. ingress (x_conc s) = IEpilogue sg) \<or> ingress (x_conc s) = IEnd \<longrightarrow> x_reading s = REnded) \<and>
     (x_reading s = REnding \<or> x_reading s = REnded \<longrightarrow> conc.dropped (x_conc s) \<or> read_none (x_trace s))"

lemma executor_invD:
  assumes "executor_inv run users s"
  shows "mon_trace (\<lambda>t. pipe_proc (executor_ops users t)) executor_first Pipe (x_trace s) (x_pipe s)"
    "conc_reach (executor_f run) (x_conc s)" "conc_order (x_conc s)"
    "Channel_Theorems.delivered (executor_ops users) (x_trace s) = received (x_conc s) @ in_flight s"
    "call_over (at (x_pipe s) 0) = Some c \<Longrightarrow> call_arg c = Some r \<Longrightarrow> \<exists>x. ThenE 0 x r \<in> set (x_trace s)"
    "x_reading s = RHanded \<Longrightarrow> \<exists>c. at (x_pipe s) 0 = AtDone c"
    "x_reading s = REnded \<Longrightarrow> at (x_pipe s) 0 = AtDone Ended"
    "ingress (x_conc s) = IEpilogue sg \<Longrightarrow> x_reading s = REnded" "ingress (x_conc s) = IEnd \<Longrightarrow> x_reading s = REnded"
    "x_reading s = REnding \<or> x_reading s = REnded \<Longrightarrow> conc.dropped (x_conc s) \<or> read_none (x_trace s)"
  using assms unfolding executor_inv_def by blast+

lemma executor_invI:
  assumes "mon_trace (\<lambda>t. pipe_proc (executor_ops users t)) executor_first Pipe (x_trace s) (x_pipe s)"
    "conc_reach (executor_f run) (x_conc s)" "conc_order (x_conc s)"
    "Channel_Theorems.delivered (executor_ops users) (x_trace s) = received (x_conc s) @ in_flight s"
    "\<And>c r. call_over (at (x_pipe s) 0) = Some c \<Longrightarrow> call_arg c = Some r \<Longrightarrow> \<exists>x. ThenE 0 x r \<in> set (x_trace s)"
    "x_reading s = RHanded \<Longrightarrow> \<exists>c. at (x_pipe s) 0 = AtDone c"
    "x_reading s = REnded \<Longrightarrow> at (x_pipe s) 0 = AtDone Ended"
    "\<And>sg. ingress (x_conc s) = IEpilogue sg \<Longrightarrow> x_reading s = REnded" "ingress (x_conc s) = IEnd \<Longrightarrow> x_reading s = REnded"
    "x_reading s = REnding \<or> x_reading s = REnded \<Longrightarrow> conc.dropped (x_conc s) \<or> read_none (x_trace s)"
  shows "executor_inv run users s"
  using assms unfolding executor_inv_def by blast

lemma executor_inv_init: "executor_inv run users Executor"
proof -
  have "in_flight Executor = []" by (simp add: in_flight_def Executor_def mon_init_def call_read_def)
  then show ?thesis unfolding executor_inv_def
    using trace_start [of "\<lambda>t. pipe_proc (executor_ops users t)" executor_first Pipe] conc_start [of "executor_f run"] conc_order_init
    by (simp add: Executor_def) (simp add: conc_init_def mon_init_def Channel_Theorems.delivered_def)
qed

text \<open>A step of a task over the pipe.\<close>

lemma delivered_other:
  assumes "event_of P t s = [] \<or> (\<exists>e. event_of P t s = [e] \<and> event_task e = t)" "t \<noteq> 0" and ops: "executor_ops users t \<noteq> PRead"
  shows "Channel_Theorems.delivered (executor_ops users) (tr @ event_of P t s) = Channel_Theorems.delivered (executor_ops users) tr"
  using assms by (auto simp: delivered_snoc) (auto simp: Channel_Theorems.delivered_def split: option.splits val.splits)

lemma delivered_quiet:
  "\<forall>e \<in> set es. event_result e = None \<Longrightarrow> Channel_Theorems.delivered ops (tr @ es) = Channel_Theorems.delivered ops tr"
  by (simp add: Channel_Theorems.delivered_def)

lemma event_of_task: "event_of P t s = [] \<or> (\<exists>e. event_of P t s = [e] \<and> event_task e = t)"
  by (auto simp: event_of_def split: pos.splits option.splits sum.splits)

lemma executor_ops_zero [simp]: "executor_ops users 0 = PRead"
  by (simp add: executor_ops_def)

lemma executor_ops_other: "t \<noteq> 0 \<Longrightarrow> executor_ops users t \<noteq> PRead"
  by (simp add: executor_ops_def split: executor_op.split)

lemma delivered_read: "Channel_Theorems.delivered (executor_ops users) (tr @ [ThenE 0 x r]) = Channel_Theorems.delivered (executor_ops users) tr @ read_value r"
  by (auto simp: delivered_snoc) (auto simp: Channel_Theorems.delivered_def read_value_def split: option.splits val.splits)

lemma call_read_none: "call_arg c = None \<Longrightarrow> call_read (Some c) = []"
  by (simp add: call_read_def)

lemma in_flight_frame:
  "x_reading s = RHanded \<longleftrightarrow> x_reading s' = RHanded \<Longrightarrow> call_over (at (x_pipe s') 0) = call_over (at (x_pipe s) 0) \<Longrightarrow> in_flight s' = in_flight s"
  by (simp add: in_flight_def)

lemma read_none_mono: "read_none tr \<Longrightarrow> read_none (tr @ es)"
  by (auto simp: read_none_def)

lemma executor_inv_pipe:
  assumes i: "executor_inv run users s" and step: "executor_step run users (Pipe_step t) s = Inr s'"
  shows "executor_inv run users s'"
proof -
  let ?P = "\<lambda>t. pipe_proc (executor_ops users t)"
  note d = executor_invD [OF i]
  obtain m where m: "mon_step ?P t (x_pipe s) = Inr m" "s' = s\<lparr>x_pipe := m, x_trace := x_trace s @ event_of ?P t (x_pipe s)\<rparr>"
    using step by auto
  note r = trace_reach [OF d(1)]
  have tr: "mon_trace ?P executor_first Pipe (x_trace s') (x_pipe s')" using trace_move [OF d(1) m(1)] m(2) by simp
  have done_stays: "at m 0 = AtDone c" if "at (x_pipe s) 0 = AtDone c" for c
  proof (cases "t = 0")
    case True
    then show ?thesis using m(1) that by (auto simp: mon_step_def)
  next
    case False
    then show ?thesis using call_over_kept [OF r m(1), of 0] that by simp
  qed
  have flight: "Channel_Theorems.delivered (executor_ops users) (x_trace s') = received (x_conc s) @ in_flight s' \<and>
      (\<forall>c v. call_over (at m 0) = Some c \<longrightarrow> call_arg c = Some v \<longrightarrow> (\<exists>x. ThenE 0 x v \<in> set (x_trace s')))"
  proof (cases "t = 0")
    case False
    have dl: "Channel_Theorems.delivered (executor_ops users) (x_trace s') = Channel_Theorems.delivered (executor_ops users) (x_trace s)"
      using delivered_other [OF event_of_task False executor_ops_other [OF False]] m(2) by simp
    have co: "call_over (at m 0) = call_over (at (x_pipe s) 0)"
    proof (cases "call_over (at (x_pipe s) 0)")
      case None
      show ?thesis
      proof (rule ccontr)
        assume "call_over (at m 0) \<noteq> call_over (at (x_pipe s) 0)"
        then have "at m 0 = at (x_pipe s) 0" using call_over_before [OF r m(1), of 0] False None by simp
        then show False using None \<open>call_over (at m 0) \<noteq> call_over (at (x_pipe s) 0)\<close> by simp
      qed
    next
      case (Some c)
      then show ?thesis using call_over_kept [OF r m(1), of 0] False by simp
    qed
    have "in_flight s' = in_flight s" by (rule in_flight_frame) (use m(2) co in simp_all)
    moreover have "\<exists>x. ThenE 0 x v \<in> set (x_trace s')" if "call_over (at m 0) = Some c" "call_arg c = Some v" for c v
      using d(5) [of c v] that co m(2) by auto
    ultimately show ?thesis using d(4) dl by simp
  next
    case True
    show ?thesis
    proof (cases "x_reading s = RHanded")
      case handed: True
      then obtain c where "at (x_pipe s) 0 = AtDone c" using d(6) by blast
      then have "m = x_pipe s" "event_of ?P 0 (x_pipe s) = []" using m(1) True by (auto simp: mon_step_def event_of_def)
      then show ?thesis using d(4,5) m(2) True by (simp add: in_flight_def)
    next
      case False
      have fl: "in_flight s' = call_read (call_over (at m 0))" "in_flight s = call_read (call_over (at (x_pipe s) 0))" using False m(2) by (simp_all add: in_flight_def)
      consider (none) "call_over (at m 0) = None" "call_over (at (x_pipe s) 0) = None" "\<forall>e \<in> set (event_of ?P 0 (x_pipe s)). event_result e = None" | (same) "call_over (at m 0) = call_over (at (x_pipe s) 0)" "event_of ?P 0 (x_pipe s) = []"
        | (pass) c where "at (x_pipe s) 0 = AtThen c" "call_arg c = None" "call_over (at m 0) = Some c" "event_of ?P 0 (x_pipe s) = []"
        | (body) x v where "event_of ?P 0 (x_pipe s) = [ThenE 0 x v]" "call_over (at m 0) = Some (Start v) \<or> call_over (at m 0) = Some (Body v)" "\<exists>c. at m 0 = AtRelease c"
        using own_call_over [OF r m(1) [unfolded True]] by (elim disjE conjE exE) blast+
      then show ?thesis
      proof cases
        case none
        then show ?thesis using d(4) m(2) True fl delivered_quiet [of "event_of ?P 0 (x_pipe s)" "executor_ops users" "x_trace s"] by (simp add: call_read_def)
      next
        case same
        then show ?thesis using d(4,5) m(2) True fl by simp
      next
        case pass
        then show ?thesis using d(4) m(2) True fl by (simp add: call_read_def)
      next
        case body
        then have "\<exists>c. at (x_pipe s) 0 = AtThen c" by (auto simp: event_of_def split: pos.splits option.splits sum.splits)
        then have "in_flight s = []" using fl by (auto simp: call_read_def)
        moreover have "in_flight s' = read_value v" using body(2) fl(1) by (auto simp: call_read_def)
        ultimately show ?thesis using d(4) m(2) True body delivered_read [of users "x_trace s" x v] by auto
      qed
    qed
  qed
  have "x_reading s' = x_reading s" "x_conc s' = x_conc s" "x_pipe s' = m" using m(2) by simp_all
  note e = this
  have n: "conc.dropped (x_conc s) \<or> read_none (x_trace s')" if "x_reading s = REnding \<or> x_reading s = REnded"
    using d(10) [OF that] m(2) read_none_mono by auto
  show ?thesis
    by (rule executor_invI) (use tr d(2,3,6-9) flight done_stays n in \<open>unfold e, blast+\<close>)
qed

text \<open>The stream between the two machines, and the steps of \<^verbatim>\<open>Concurrent\<close>.\<close>

lemma executor_inv_ask:
  assumes i: "executor_inv run users s" and step: "executor_step run users Ask s = Inr s'"
  shows "executor_inv run users s'"
proof (cases "ingress (x_conc s) = IWant \<and> (x_reading s = RBegin \<and> has_begun (at (x_pipe s) 0) \<or> x_reading s = RHanded)")
  case False
  then have "s' = s" using step by (simp only: executor_step.simps if_False sum.inject)
  then show ?thesis using i by simp
next
  case True
  note d = executor_invD [OF i]
  have s': "s' = s\<lparr>x_pipe := set_at 0 (AtAcquire (Body VVoid)) (x_pipe s), x_reading := RAsked\<rparr>" using step True by simp
  obtain c where c: "at (x_pipe s) 0 = AtDone c" using True d(6) by (cases "at (x_pipe s) 0") auto
  have "in_flight s = []" using True c
  proof (elim conjE disjE)
    assume "x_reading s = RBegin" "has_begun (at (x_pipe s) 0)"
    then show ?thesis using c by (cases c) (auto simp: in_flight_def call_read_def)
  qed (simp add: in_flight_def)
  moreover have "in_flight s' = []" by (simp add: s' in_flight_def set_at_def call_read_def)
  ultimately have fl: "in_flight s' = in_flight s" by simp
  show ?thesis
    by (rule executor_invI) (use trace_next [OF d(1) c, of "Body VVoid"] d(2-4) fl d(8,9) True in \<open>auto simp: s' set_at_def\<close>)
qed

lemma executor_inv_hand:
  assumes i: "executor_inv run users s" and step: "executor_step run users Hand s = Inr s'"
  shows "executor_inv run users s'"
proof (cases "\<exists>e. at (x_pipe s) 0 = AtDone (Body (VOpt (Some e))) \<and> x_reading s = RAsked \<and> ingress (x_conc s) = IWant")
  case True
  note d = executor_invD [OF i]
  obtain e where e: "at (x_pipe s) 0 = AtDone (Body (VOpt (Some e)))" "x_reading s = RAsked" "ingress (x_conc s) = IWant" using True by blast
  obtain c where c: "conc_step (executor_f run) (UpBody e) (x_conc s) = Inr c" "s' = s\<lparr>x_conc := c, x_reading := RHanded\<rparr>" using step e by auto
  have r: "received c = received (x_conc s) @ [e]" "ingress c = IBody e"
    using c(1) e(3) by (auto simp: conc_Body_def InstallOrExecuteIfTriggered_def check_def split: if_splits)
  have "in_flight s = [e]" using e by (simp add: in_flight_def call_read_def read_value_def)
  then have dl: "Channel_Theorems.delivered (executor_ops users) (x_trace s) = received c @ in_flight s'" using d(4) r c(2) by (simp add: in_flight_def)
  have o: "conc_order c" using conc_order_step [OF conc_reach_inv [OF d(2)] d(3) c(1)] by blast
  show ?thesis
    by (rule executor_invI) (use d(1) conc_next [OF d(2) c(1)] o dl d(5) e r c(2) in \<open>auto\<close>)
next
  case False
  then have "s' = s" using step by (auto split: pos.splits call.splits val.splits option.splits if_splits)
  then show ?thesis using i by simp
qed

lemma executor_inv_finish:
  assumes i: "executor_inv run users s" and step: "executor_step run users Finish_reading s = Inr s'"
  shows "executor_inv run users s'"
proof (cases "x_reading s = RAsked \<and> at (x_pipe s) 0 = AtDone (Body (VOpt None)) \<or> x_reading s = RHanded \<and> ingress (x_conc s) = IUpDone")
  case False
  then have "s' = s" using step by (simp only: executor_step.simps if_False sum.inject)
  then show ?thesis using i by simp
next
  case True
  note d = executor_invD [OF i]
  have s': "s' = s\<lparr>x_pipe := set_at 0 (AtAcquire Ended) (x_pipe s), x_reading := REnding\<rparr>" using step True by simp
  obtain c where c: "at (x_pipe s) 0 = AtDone c" using True d(6) by blast
  have "in_flight s = []" using True by (auto simp: in_flight_def call_read_def read_value_def)
  then have fl: "in_flight s' = in_flight s" by (simp add: s' in_flight_def set_at_def call_read_def)
  have n: "conc.dropped (x_conc s) \<or> read_none (x_trace s)" using True
  proof (elim disjE conjE)
    assume "at (x_pipe s) 0 = AtDone (Body (VOpt None))"
    then show ?thesis using d(5) [of "Body (VOpt None)" "VOpt None"] by (auto simp: read_none_def)
  next
    assume "ingress (x_conc s) = IUpDone"
    then show ?thesis using conc_orderD [OF d(3)] by metis
  qed
  show ?thesis
    by (rule executor_invI) (use trace_next [OF d(1) c, of Ended] d(2-4) fl n d(8,9) True in \<open>auto simp: s' set_at_def\<close>)
qed

lemma executor_inv_ended:
  assumes i: "executor_inv run users s" and step: "executor_step run users Upstream_ended s = Inr s'"
  shows "executor_inv run users s'"
proof (cases "x_reading s = REnding \<and> at (x_pipe s) 0 = AtDone Ended")
  case False
  then have "s' = s" using step by (simp only: executor_step.simps if_False sum.inject)
  then show ?thesis using i by simp
next
  case True
  note d = executor_invD [OF i]
  obtain c where c: "conc_step (executor_f run) (UpEnd (Started VVoid)) (x_conc s) = Inr c" "s' = s\<lparr>x_conc := c, x_reading := REnded\<rparr>" using step True by auto
  have r: "received c = received (x_conc s)" "conc.dropped c = conc.dropped (x_conc s)" using c(1) by (auto simp: up_end_def split: if_splits)
  have fl: "in_flight s' = in_flight s" by (rule in_flight_frame) (use c(2) True in auto)
  have o: "conc_order c" using conc_order_step [OF conc_reach_inv [OF d(2)] d(3) c(1)] by blast
  show ?thesis
    by (rule executor_invI) (use d(1) conc_next [OF d(2) c(1)] o d(4,5,10) fl True r c(2) in \<open>auto\<close>)
qed

lemma executor_inv_conc:
  assumes i: "executor_inv run users s" and step: "executor_step run users (Conc_step a) s = Inr s'"
  shows "executor_inv run users s'"
proof (cases "own_act a (x_conc s)")
  case True
  note d = executor_invD [OF i]
  obtain c where c: "conc_step (executor_f run) a (x_conc s) = Inr c" "s' = s\<lparr>x_conc := c\<rparr>" using step True by auto
  note f = own_act_frame [OF c(1) True]
  have fl: "in_flight s' = in_flight s" by (rule in_flight_frame) (use c(2) in auto)
  have o: "conc_order c" using conc_order_step [OF conc_reach_inv [OF d(2)] d(3) c(1)] True by blast
  have e: "x_reading s = REnded" if "(\<exists>sg. ingress c = IEpilogue sg) \<or> ingress c = IEnd" using f that d(8,9) by blast
  have n: "conc.dropped c \<or> read_none (x_trace s)" if "x_reading s = REnding \<or> x_reading s = REnded" using d(10) [OF that] f by blast
  have dl: "Channel_Theorems.delivered (executor_ops users) (x_trace s') = received (x_conc s') @ in_flight s'" using d(4) f fl c(2) by simp
  have eq: "x_pipe s' = x_pipe s" "x_trace s' = x_trace s" "x_reading s' = x_reading s" "x_conc s' = c" using c(2) by simp_all
  show ?thesis
    by (rule executor_invI) (use d(1) conc_next [OF d(2) c(1)] o d(5-7) dl e n in \<open>unfold eq, blast+\<close>)
qed (use assms in simp)

lemma executor_reach_inv: "executor_reach run users s \<Longrightarrow> executor_inv run users s"
proof (induction rule: executor_reach.induct)
  case executor_start
  show ?case by (rule executor_inv_init)
next
  case (executor_move s a s')
  note i = executor_move(3) and step = executor_move(2)
  show ?case
  proof (cases a)
    case (Pipe_step t)
    then show ?thesis using executor_inv_pipe [OF i] step by simp
  next
    case Ask
    then show ?thesis using executor_inv_ask [OF i] step by simp
  next
    case Hand
    then show ?thesis using executor_inv_hand [OF i] step by blast
  next
    case Finish_reading
    then show ?thesis using executor_inv_finish [OF i] step by blast
  next
    case Upstream_ended
    then show ?thesis using executor_inv_ended [OF i] step by blast
  next
    case (Conc_step b)
    then show ?thesis using executor_inv_conc [OF i] step by blast
  qed
qed

section \<open>Properties\<close>

lemma none_read_is_final:
  assumes "seq_run (\<lambda>t. pipe_proc (ops t)) Pipe tr p" "ThenE t x (VOpt None) \<in> set tr" "ops t = PRead"
  shows "pipe_values p = [] \<and> is_closed p"
  using assms
proof (induction rule: seq_run.induct)
  case (seq_snoc tr p e p')
  show ?case
  proof (cases "ThenE t x (VOpt None) \<in> set tr")
    case True
    then have e: "pipe_values p = []" "is_closed p" using seq_snoc.IH seq_snoc.prems(2) by blast+
    from seq_snoc(2) show ?thesis
    proof cases
      case (seq_then u y ns r)
      then show ?thesis using e by (cases "ops u") (auto simp: pipe_proc_def channel_defs)
    next
      case (seq_first u f y ns)
      then show ?thesis by (simp add: pipe_proc_def split: pipe_op.splits)
    qed
  next
    case False
    then have "e = ThenE t x (VOpt None)" using seq_snoc.prems(1) by auto
    with seq_snoc(2) obtain ns where "p_body (pipe_proc (ops t)) p x = Inr (p', ns, VOpt None)" by (auto simp: seq_event_simps)
    then show ?thesis using seq_snoc.prems(2) by (auto simp: pipe_proc_def pipe_read_def split: list.splits)
  qed
qed simp

text \<open>
  C8. The executor runs each eventual once, in the order of submission: in every interleaving of submitters, the control loop and the fibers, the eventuals that were started are the first of those
  that were submitted before the shutdown; and when its loop has ended, without an interrupt and without an eventual that stopped, it was shut down and has run all of them.
\<close>

theorem executor_runs_each_once:
  assumes "executor_reach run users s"
  shows "(\<exists>rest. accepted (executor_ops users) False (x_trace s) = handled (x_conc s) @ rest) \<and>
    (conc.finished (x_conc s) = Some DownEnded \<and> \<not> interrupted (x_conc s) \<longrightarrow>
       closes (executor_ops users) (x_trace s) \<and> handled (x_conc s) = accepted (executor_ops users) False (x_trace s) \<and> (\<forall>fb \<in> set (cfibers (x_conc s)). fdone fb))"
proof -
  note d = executor_invD [OF executor_reach_inv [OF assms]]
  note sr = trace_seq_run [OF d(1)]
  note pipe = pipe_run_fifo [OF sr]
  obtain ys where ys: "received (x_conc s) = handled (x_conc s) @ ys" "conc.downstream_done (x_conc s) \<Longrightarrow> drained (x_conc s)"
    using conc_orderD [OF d(3)] by metis
  have "closes (executor_ops users) (x_trace s) \<and> handled (x_conc s) = accepted (executor_ops users) False (x_trace s) \<and> (\<forall>fb \<in> set (cfibers (x_conc s)). fdone fb)"
    if fin: "conc.finished (x_conc s) = Some DownEnded" and ni: "\<not> interrupted (x_conc s)"
  proof -
    note i = conc_reach_inv [OF d(2)]
    have f: "conc.downstream_done (x_conc s)" "conc.upstream_done (x_conc s)" "conc.fibers_done (x_conc s)" using conc_invD(4) [OF i] fin by (simp_all add: ends_inv_def)
    have dr: "drained (x_conc s)" using ys(2) f(1) .
    note r = drained_result [OF i dr]
    have nd: "\<not> conc.dropped (x_conc s)" using conc_invD(4) [OF i] r(1) dr ni by (auto simp: ends_inv_def)
    have "ingress (x_conc s) = IEnd" "\<forall>fb \<in> set (cfibers (x_conc s)). fdone fb" using conc_invD(1) [OF i] f by (auto simp: flags_inv_def FibersDone_iff)
    note e = this
    have "read_none (x_trace s)" using d(10) d(9) [OF e(1)] nd by blast
    then have "pipe_values (shared (x_pipe s)) = []" "is_closed (shared (x_pipe s))" using none_read_is_final [OF sr] by (auto simp: read_none_def)
    moreover have "in_flight s = []" using d(7) [OF d(9) [OF e(1)]] by (simp add: in_flight_def call_read_def)
    ultimately show ?thesis using pipe d(4) r(3) [OF ni] e(2) by simp
  qed
  then show ?thesis using pipe d(4) ys(1) by auto
qed

definition one_submit :: "tid \<Rightarrow> executor_op" where
  "one_submit t = (if t = 1 then Submit (VObj 1) else Shutdown)"

definition submit_and_shutdown :: "executor_act list" where
  "submit_and_shutdown =
     [Pipe_step 0, Pipe_step 0, Pipe_step 0, Pipe_step 0, Conc_step DownNext, Pipe_step 1, Pipe_step 1, Pipe_step 1, Pipe_step 2, Pipe_step 2, Pipe_step 2,
      Ask, Pipe_step 0, Pipe_step 0, Pipe_step 0, Pipe_step 0, Hand, Conc_step IngressStep, Conc_step IngressStep,
      Conc_step (FiberPush 0), Conc_step EgressStep, Conc_step DownNext, Conc_step (FiberEnd 0), Conc_step (FiberStep 0),
      Ask, Pipe_step 0, Pipe_step 0, Pipe_step 0, Pipe_step 0, Finish_reading, Pipe_step 0, Pipe_step 0, Pipe_step 0, Pipe_step 0,
      Upstream_ended, Conc_step IngressStep, Conc_step EgressStep, Conc_step DownDone, Conc_step WaitStep]"

lemmas executor_eval = pipe_run_defs acquire_stream_call_def wait_Ended_def executor_ops_def executor_first_def executor_f_def Executor_def own_act_def event_of_def conc_eval

text \<open>Evaluating a run step by step: what follows a step waits for its result.\<close>

lemma rbind_weak_cong: "r = r' \<Longrightarrow> rbind r f = rbind r' f"
  by simp

lemma submit_and_shutdown_run:
  "\<exists>s. executor_run Started one_submit submit_and_shutdown Executor = Inr s \<and> conc.finished (x_conc s) = Some DownEnded \<and> \<not> interrupted (x_conc s) \<and>
     accepted (executor_ops one_submit) False (x_trace s) = [VObj 1]"
  by (simp add: submit_and_shutdown_def one_submit_def executor_eval cong: rbind_weak_cong)

theorem executor_runs_each_once_witness:
  "\<exists>s. executor_run Started one_submit submit_and_shutdown Executor = Inr s \<and> handled (x_conc s) = [VObj 1]"
proof -
  obtain s where s: "executor_run Started one_submit submit_and_shutdown Executor = Inr s" "conc.finished (x_conc s) = Some DownEnded" "\<not> interrupted (x_conc s)"
      "accepted (executor_ops one_submit) False (x_trace s) = [VObj 1]"
    using submit_and_shutdown_run by (elim exE conjE)
  from executor_runs_each_once [OF executor_run_reach [OF executor_start s(1)]] s show ?thesis by auto
qed

text \<open>
  An eventual that stops ends the executor: \<^verbatim>\<open>Catch\<close> lets a stop pass, \<^verbatim>\<open>Concurrent\<close> takes it for the end of everything, and an eventual that was submitted before the shutdown is never run.
\<close>

definition two_submits :: "tid \<Rightarrow> executor_op" where
  "two_submits t = (if t = 1 then Submit (VObj 1) else if t = 2 then Submit (VObj 2) else Shutdown)"

definition first_stops :: "val \<Rightarrow> signal" where
  "first_stops e = (if e = VObj 1 then Stopped else Started VVoid)"

definition stopped_run :: "executor_act list" where
  "stopped_run =
     [Pipe_step 0, Pipe_step 0, Pipe_step 0, Pipe_step 0, Conc_step DownNext, Pipe_step 1, Pipe_step 1, Pipe_step 1, Pipe_step 2, Pipe_step 2, Pipe_step 2,
      Ask, Pipe_step 0, Pipe_step 0, Pipe_step 0, Pipe_step 0, Hand, Conc_step IngressStep, Conc_step IngressStep, Conc_step (FiberEnd 0), Conc_step (FiberStep 0),
      Ask, Pipe_step 0, Pipe_step 0, Pipe_step 0, Pipe_step 0, Hand, Conc_step IngressStep, Finish_reading, Pipe_step 0, Pipe_step 0, Pipe_step 0, Pipe_step 0,
      Upstream_ended, Conc_step IngressStep, Conc_step EgressStep]"

lemma stop_ends_the_executor:
  "\<exists>s. executor_run first_stops two_submits stopped_run Executor = Inr s \<and> conc.finished (x_conc s) = Some DownStop \<and>
     accepted (executor_ops two_submits) False (x_trace s) = [VObj 1, VObj 2] \<and> handled (x_conc s) = [VObj 1]"
  by (simp add: stopped_run_def first_stops_def two_submits_def executor_eval cong: rbind_weak_cong)

text \<open>
  A submission that comes between the interrupt and the close of \<^verbatim>\<open>InterruptAndShutdown\<close>, or that the loop has not read by then, aborts the process, because \<^verbatim>\<open>Concurrent\<close> does not accept a value after its interrupt.
\<close>

definition interrupted_run :: "executor_act list" where
  "interrupted_run =
     [Pipe_step 0, Pipe_step 0, Pipe_step 0, Pipe_step 0, Conc_step RegisterStep, Conc_step DownNext, Pipe_step 1, Pipe_step 1, Pipe_step 1,
      Ask, Pipe_step 0, Pipe_step 0, Pipe_step 0, Pipe_step 0, Hand, Conc_step IngressStep, Conc_step IngressStep, Pipe_step 2, Pipe_step 2, Pipe_step 2,
      Conc_step TriggerStep, Conc_step InterruptStep, Pipe_step 3, Pipe_step 3, Pipe_step 3, Ask, Pipe_step 0, Pipe_step 0, Pipe_step 0, Pipe_step 0, Hand]"

lemma interrupt_and_shutdown_aborts: "executor_run Started two_submits interrupted_run Executor = Inl (CheckFailed ''callback_'')"
  by (simp add: interrupted_run_def two_submits_def executor_eval cong: rbind_weak_cong)

end
