(* ===== verification/Http_Messages.thy ===== *)
theory Http_Messages
  imports Eventuals_Prelude "HOL-Library.List_Lexorder" "HOL-Library.Char_ord"
begin

text \<open>
  The data of \<^verbatim>\<open>http.h\<close>: requests and their builder, the defaults that a \<^verbatim>\<open>Client\<close> gives to requests, and how the headers of a response are parsed. A \<^verbatim>\<open>std::map\<close> of headers is a map; \<open>entries\<close> are its
  elements in the order of iteration, that of the keys. A certificate is a value of the type \<open>'cert\<close>. A \<^verbatim>\<open>static_assert\<close> of a builder that fails is \<open>NoSuchMethod\<close>, as C++ rejects the call.
\<close>

section \<open>Headers\<close>

type_synonym headers = "string \<rightharpoonup> string"

text \<open>The code of the builder and of the parser for a header that may exist already.\<close>

definition add_header :: "string \<Rightarrow> string \<Rightarrow> headers \<Rightarrow> headers" where
  "add_header key v m = (case m key of None \<Rightarrow> m(key \<mapsto> v) | Some old \<Rightarrow> m(key \<mapsto> old @ '', '' @ v))"

definition entries :: "headers \<Rightarrow> (string \<times> string) list" where
  "entries m = map (\<lambda>key. (key, the (m key))) (sorted_list_of_set (dom m))"

section \<open>Request\<close>

datatype http_method = GET | POST

record 'cert request =
  rq_uri :: string
  rq_method :: http_method
  rq_headers :: headers
  rq_body :: string
  rq_timeout :: int
  rq_fields :: "(string \<times> string) list"
  rq_verify_peer :: "bool option"
  rq_certificate :: "'cert option"

record 'cert request_builder =
  rb_uri :: "string option"
  rb_method :: "http_method option"
  rb_timeout :: "int option"
  rb_fields :: "(string \<times> string) list option"
  rb_verify_peer :: "bool option"
  rb_certificate :: "'cert option"
  rb_headers :: headers

definition Request_Builder :: "'cert request_builder" where
  "Request_Builder =
     \<lparr>rb_uri = None, rb_method = None, rb_timeout = None, rb_fields = None, rb_verify_peer = None, rb_certificate = None, rb_headers = Map.empty\<rparr>"

definition set_once :: "'a option \<Rightarrow> 'b \<Rightarrow> 'b res" where
  "set_once field b = (if field \<noteq> None then Inl NoSuchMethod else Inr b)"

definition builder_uri :: "string \<Rightarrow> 'cert request_builder \<Rightarrow> 'cert request_builder res" where
  "builder_uri uri b = set_once (rb_uri b) (b\<lparr>rb_uri := Some uri\<rparr>)"

definition builder_method :: "http_method \<Rightarrow> 'cert request_builder \<Rightarrow> 'cert request_builder res" where
  "builder_method meth b = set_once (rb_method b) (b\<lparr>rb_method := Some meth\<rparr>)"

definition builder_timeout :: "int \<Rightarrow> 'cert request_builder \<Rightarrow> 'cert request_builder res" where
  "builder_timeout timeout b = set_once (rb_timeout b) (b\<lparr>rb_timeout := Some timeout\<rparr>)"

definition builder_fields :: "(string \<times> string) list \<Rightarrow> 'cert request_builder \<Rightarrow> 'cert request_builder res" where
  "builder_fields fs b = set_once (rb_fields b) (b\<lparr>rb_fields := Some fs\<rparr>)"

definition builder_verify_peer :: "bool \<Rightarrow> 'cert request_builder \<Rightarrow> 'cert request_builder res" where
  "builder_verify_peer verify b = set_once (rb_verify_peer b) (b\<lparr>rb_verify_peer := Some verify\<rparr>)"

definition builder_certificate :: "'cert \<Rightarrow> 'cert request_builder \<Rightarrow> 'cert request_builder res" where
  "builder_certificate cert b = set_once (rb_certificate b) (b\<lparr>rb_certificate := Some cert\<rparr>)"

definition builder_header :: "string \<Rightarrow> string \<Rightarrow> 'cert request_builder \<Rightarrow> 'cert request_builder res" where
  "builder_header key v b = Inr (b\<lparr>rb_headers := add_header key v (rb_headers b)\<rparr>)"

definition Request_Build :: "'cert request_builder \<Rightarrow> 'cert request res" where
  "Request_Build b =
     (case (rb_uri b, rb_method b) of
        (Some uri, Some meth) \<Rightarrow>
          Inr \<lparr>rq_uri = uri, rq_method = meth, rq_headers = rb_headers b, rq_body = [],
               rq_timeout = (case rb_timeout b of None \<Rightarrow> 0 | Some t \<Rightarrow> t), rq_fields = (case rb_fields b of None \<Rightarrow> [] | Some fs \<Rightarrow> fs),
               rq_verify_peer = rb_verify_peer b, rq_certificate = rb_certificate b\<rparr>
      | _ \<Rightarrow> Inl NoSuchMethod)"

section \<open>Client\<close>

record 'cert client =
  cl_verify_peer :: "bool option"
  cl_certificate :: "'cert option"

record 'cert client_builder =
  cb_verify_peer :: "bool option"
  cb_certificate :: "'cert option"

definition Client :: "'cert client" where
  "Client = \<lparr>cl_verify_peer = None, cl_certificate = None\<rparr>"

definition Client_Builder :: "'cert client_builder" where
  "Client_Builder = \<lparr>cb_verify_peer = None, cb_certificate = None\<rparr>"

definition client_verify_peer :: "bool \<Rightarrow> 'cert client_builder \<Rightarrow> 'cert client_builder res" where
  "client_verify_peer verify b = set_once (cb_verify_peer b) (b\<lparr>cb_verify_peer := Some verify\<rparr>)"

definition client_certificate :: "'cert \<Rightarrow> 'cert client_builder \<Rightarrow> 'cert client_builder res" where
  "client_certificate cert b = set_once (cb_certificate b) (b\<lparr>cb_certificate := Some cert\<rparr>)"

definition Client_Build :: "'cert client_builder \<Rightarrow> 'cert client" where
  "Client_Build b = Client\<lparr>cl_verify_peer := cb_verify_peer b, cl_certificate := cb_certificate b\<rparr>"

text \<open>The request that \<^verbatim>\<open>Do\<close> makes the eventual of.\<close>

definition Client_Do :: "'cert client \<Rightarrow> 'cert request \<Rightarrow> 'cert request" where
  "Client_Do c r =
     (let r1 = if cl_verify_peer c \<noteq> None \<and> rq_verify_peer r = None then r\<lparr>rq_verify_peer := cl_verify_peer c\<rparr> else r
      in if cl_certificate c \<noteq> None \<and> rq_certificate r1 = None then r1\<lparr>rq_certificate := cl_certificate c\<rparr> else r1)"

definition Client_Get :: "'cert client \<Rightarrow> string \<Rightarrow> int \<Rightarrow> 'cert request res" where
  "Client_Get c uri timeout =
     rbind (builder_uri uri Request_Builder) (\<lambda>b. rbind (builder_method GET b) (\<lambda>b. rbind (builder_timeout timeout b) (\<lambda>b.
       rbind (Request_Build b) (\<lambda>r. Inr (Client_Do c r)))))"

definition Client_Post :: "'cert client \<Rightarrow> string \<Rightarrow> (string \<times> string) list \<Rightarrow> int \<Rightarrow> 'cert request res" where
  "Client_Post c uri fs timeout =
     rbind (builder_uri uri Request_Builder) (\<lambda>b. rbind (builder_method POST b) (\<lambda>b. rbind (builder_timeout timeout b) (\<lambda>b.
       rbind (builder_fields fs b) (\<lambda>b. rbind (Request_Build b) (\<lambda>r. Inr (Client_Do c r))))))"

definition http_Get :: "string \<Rightarrow> int \<Rightarrow> 'cert request res" where
  "http_Get uri timeout = Client_Get Client uri timeout"

definition http_Post :: "string \<Rightarrow> (string \<times> string) list \<Rightarrow> int \<Rightarrow> 'cert request res" where
  "http_Post uri fs timeout = Client_Post Client uri fs timeout"

section \<open>What is handed to libcurl\<close>

text \<open>The list of header lines. Each turn of the loop starts a list of its own, after checking that none exists; \<open>alloc\<close> says that \<^verbatim>\<open>curl_slist_append\<close> gives one.\<close>

fun curl_header_list :: "(string \<Rightarrow> bool) \<Rightarrow> string list \<Rightarrow> (string \<times> string) list \<Rightarrow> string list res" where
  "curl_header_list alloc curl_headers [] = Inr curl_headers"
| "curl_header_list alloc curl_headers ((key, v) # rest) =
     (let header = key @ '': '' @ v
      in check (curl_headers = []) ''not expecting to have already allocated headers''
           (check (alloc header) ''list != nullptr'' (curl_header_list alloc [header] rest)))"

text \<open>The parts that are appended to the query of the URL, whose query is then the body of the \<^verbatim>\<open>POST\<close>.\<close>

definition post_fields :: "(string \<times> string) list \<Rightarrow> string list" where
  "post_fields fs = map (\<lambda>(key, v). key @ ''='' @ v) fs"

text \<open>\<^verbatim>\<open>duration_cast\<close> to milliseconds truncates; 0 means no timeout.\<close>

definition timeout_ms :: "int \<Rightarrow> int" where
  "timeout_ms ns = (if 0 \<le> ns then ns div 1000000 else - (- ns div 1000000))"

section \<open>Response\<close>

record response =
  rs_code :: int
  rs_headers :: headers
  rs_body :: string

abbreviation newline :: char where
  "newline \<equiv> CHR 0x0A"

abbreviation return :: char where
  "return \<equiv> CHR 0x0D"

text \<open>\<^verbatim>\<open>std::getline\<close> until the end of the stream is reached.\<close>

fun getlines :: "string \<Rightarrow> string list" where
  "getlines [] = [[]]"
| "getlines (c # cs) = (if c = newline then [] # getlines cs else case getlines cs of l # ls \<Rightarrow> (c # l) # ls | [] \<Rightarrow> [[c]])"

fun split_colon :: "string \<Rightarrow> (string \<times> string) option" where
  "split_colon [] = None"
| "split_colon (c # cs) = (if c = CHR '':'' then Some ([], cs) else case split_colon cs of None \<Rightarrow> None | Some (key, v) \<Rightarrow> Some (c # key, v))"

definition is_space :: "char \<Rightarrow> bool" where
  "is_space c \<longleftrightarrow> c \<in> {CHR 0x09, CHR 0x0A, CHR 0x0B, CHR 0x0C, CHR 0x0D, CHR '' ''}"

definition strip :: "string \<Rightarrow> string" where
  "strip xs = rev (dropWhile is_space (rev (dropWhile is_space xs)))"

definition parse_line :: "headers \<Rightarrow> string \<Rightarrow> headers" where
  "parse_line m line = (case split_colon line of None \<Rightarrow> m | Some (key, v) \<Rightarrow> add_header (strip key) (strip v) m)"

definition parse_headers :: "string \<Rightarrow> headers" where
  "parse_headers buf = foldl parse_line Map.empty (getlines buf)"

section \<open>Lemmas\<close>

lemma getlines_nonempty [simp]: "getlines cs \<noteq> []"
  by (induction cs) (auto split: list.split)

lemma getlines_line: "newline \<notin> set l \<Longrightarrow> getlines (l @ newline # rest) = l # getlines rest"
  by (induction l) auto

lemma getlines_last: "newline \<notin> set l \<Longrightarrow> getlines l = [l]"
  by (induction l) auto

lemma getlines_append: "getlines (xs @ newline # ys) = getlines xs @ getlines ys"
proof (induction xs)
  case (Cons c xs)
  then show ?case by (cases "getlines xs") auto
qed simp

lemma split_colon_first: "CHR '':'' \<notin> set key \<Longrightarrow> split_colon (key @ CHR '':'' # v) = Some (key, v)"
  by (induction key) auto

lemma split_colon_none: "CHR '':'' \<notin> set l \<Longrightarrow> split_colon l = None"
  by (induction l) auto

definition stripped :: "string \<Rightarrow> bool" where
  "stripped xs \<longleftrightarrow> (xs = [] \<or> \<not> is_space (hd xs) \<and> \<not> is_space (last xs))"

lemma dropWhile_stripped: "stripped xs \<Longrightarrow> dropWhile is_space xs = xs"
  by (cases xs) (auto simp: stripped_def)

lemma strip_padded:
  assumes "stripped xs" "\<forall>c \<in> set ys. is_space c" "\<forall>c \<in> set zs. is_space c"
  shows "strip (ys @ xs @ zs) = xs"
proof (cases "xs = []")
  case True
  then have "dropWhile is_space (ys @ xs @ zs) = []" using assms(2,3) by (auto simp: dropWhile_eq_Nil_conv)
  then show ?thesis using True unfolding strip_def by (metis dropWhile.simps(1) rev.simps(1))
next
  case False
  have "dropWhile is_space (ys @ xs @ zs) = xs @ zs"
    using assms(1,2) False by (cases xs) (auto simp: dropWhile_append2 stripped_def)
  moreover have "dropWhile is_space (rev (xs @ zs)) = rev xs"
  proof -
    have "dropWhile is_space (rev zs @ rev xs) = dropWhile is_space (rev xs)" using assms(3) by (intro dropWhile_append2) auto
    moreover have "stripped (rev xs)" using assms(1) False by (auto simp: stripped_def hd_rev last_rev)
    ultimately show ?thesis using dropWhile_stripped by simp
  qed
  ultimately show ?thesis by (simp add: strip_def)
qed

section \<open>Properties\<close>

text \<open>The lines in which a server sends headers.\<close>

definition header_line :: "string \<times> string \<Rightarrow> string" where
  "header_line h = fst h @ '': '' @ snd h @ [return, newline]"

definition clean :: "string \<times> string \<Rightarrow> bool" where
  "clean h \<longleftrightarrow> stripped (fst h) \<and> stripped (snd h) \<and> CHR '':'' \<notin> set (fst h) \<and> newline \<notin> set (fst h) \<and> newline \<notin> set (snd h)"

lemma parse_header_line:
  assumes "clean h"
  shows "parse_line m (fst h @ '': '' @ snd h @ [return]) = add_header (fst h) (snd h) m"
proof -
  have "split_colon (fst h @ '': '' @ snd h @ [return]) = Some (fst h, '' '' @ snd h @ [return])"
    using split_colon_first [of "fst h" "'' '' @ snd h @ [return]"] assms by (simp add: clean_def)
  moreover have "strip (fst h) = fst h" using strip_padded [of "fst h" "[]" "[]"] assms by (simp add: clean_def)
  moreover have "strip ('' '' @ snd h @ [return]) = snd h" using strip_padded [of "snd h" "'' ''" "[return]"] assms by (simp add: clean_def is_space_def)
  ultimately show ?thesis by (simp add: parse_line_def)
qed

lemma parse_lines:
  assumes "\<forall>h \<in> set hs. clean h"
  shows "foldl parse_line m (getlines (concat (map header_line hs) @ rest)) = foldl parse_line (foldl (\<lambda>m (key, v). add_header key v m) m hs) (getlines rest)"
  using assms
proof (induction hs arbitrary: m)
  case (Cons h hs)
  have l: "newline \<notin> set (fst h @ '': '' @ snd h @ [return])" using Cons.prems by (auto simp: clean_def)
  have "concat (map header_line (h # hs)) @ rest = (fst h @ '': '' @ snd h @ [return]) @ newline # (concat (map header_line hs) @ rest)"
    by (simp add: header_line_def)
  then have "getlines (concat (map header_line (h # hs)) @ rest) = (fst h @ '': '' @ snd h @ [return]) # getlines (concat (map header_line hs) @ rest)"
    using getlines_line [OF l] by simp
  then show ?case using Cons parse_header_line [of h m] by (simp add: split_beta)
qed simp

definition add_all :: "(string \<times> string) list \<Rightarrow> headers" where
  "add_all hs = foldl (\<lambda>m (key, v). add_header key v m) Map.empty hs"

fun joined :: "string list \<Rightarrow> string option" where
  "joined [] = None"
| "joined (v # vs) = Some (concat (v # map (\<lambda>w. '', '' @ w) vs))"

lemma joined_snoc: "joined (vs @ [v]) = (case joined vs of None \<Rightarrow> Some v | Some old \<Rightarrow> Some (old @ '', '' @ v))"
  by (cases vs) auto

lemma add_all_joined: "add_all hs key = joined (map snd (filter (\<lambda>h. fst h = key) hs))"
proof (induction hs rule: rev_induct)
  case (snoc h hs)
  have "add_all (hs @ [h]) = add_header (fst h) (snd h) (add_all hs)" by (simp add: add_all_def split_beta)
  then show ?case using snoc by (auto simp: add_header_def joined_snoc split: option.split)
qed (simp add: add_all_def)

text \<open>
  C40. Headers survive the wire: a response with a status line and the header lines \<open>hs\<close>, whose keys and contents are free of surrounding white space and line breaks and whose keys contain no colon, is parsed into the headers
  that a request has whose builder was given \<open>hs\<close>: all contents of a key, in their order, separated by commas.
\<close>

theorem headers_roundtrip:
  assumes "\<forall>h \<in> set hs. clean h" "CHR '':'' \<notin> set status" "newline \<notin> set status"
  shows "parse_headers (status @ newline # concat (map header_line hs) @ [return, newline]) = add_all hs \<and>
    add_all hs key = joined (map snd (filter (\<lambda>h. fst h = key) hs))"
proof -
  have "parse_headers (status @ newline # concat (map header_line hs) @ [return, newline]) = foldl parse_line (parse_line Map.empty status) (getlines (concat (map header_line hs) @ [return, newline]))"
    using getlines_line [OF assms(3)] by (simp add: parse_headers_def)
  also have "parse_line Map.empty status = Map.empty" using split_colon_none [OF assms(2)] by (simp add: parse_line_def)
  also have "foldl parse_line Map.empty (getlines (concat (map header_line hs) @ [return, newline])) = add_all hs"
    using parse_lines [OF assms(1), of Map.empty "[return, newline]"] by (simp add: add_all_def parse_line_def)
  finally show ?thesis using add_all_joined by blast
qed

theorem headers_roundtrip_witness:
  "parse_headers (''HTTP/1.1 200'' @ newline # concat (map header_line [(''Cookie'', ''a=1''), (''Host'', ''h:80''), (''Cookie'', ''b=2'')]) @ [return, newline]) ''Cookie'' = Some ''a=1, b=2''"
proof -
  let ?hs = "[(''Cookie'', ''a=1''), (''Host'', ''h:80''), (''Cookie'', ''b=2'')]"
  have "\<forall>h \<in> set ?hs. clean h" by (simp add: clean_def stripped_def is_space_def)
  from headers_roundtrip [OF this, of "''HTTP/1.1 200''" "''Cookie''"] show ?thesis by simp
qed

lemma builder_headers:
  "foldl (\<lambda>r (key, v). rbind r (builder_header key v)) (Inr Request_Builder) hs = Inr (Request_Builder\<lparr>rb_headers := add_all hs\<rparr>)"
proof (induction hs rule: rev_induct)
  case Nil
  then show ?case by (simp add: Request_Builder_def add_all_def)
next
  case (snoc h hs)
  then show ?case by (simp add: builder_header_def add_all_def split_beta)
qed

text \<open>What a request sets wins over what its client sets.\<close>

lemma client_gives_defaults:
  "rq_verify_peer (Client_Do c r) = (case rq_verify_peer r of None \<Rightarrow> cl_verify_peer c | Some b \<Rightarrow> Some b)"
  "rq_certificate (Client_Do c r) = (case rq_certificate r of None \<Rightarrow> cl_certificate c | Some b \<Rightarrow> Some b)"
  by (auto simp: Client_Do_def Let_def split: option.split)

lemma client_get:
  "Client_Get c uri timeout = Inr \<lparr>rq_uri = uri, rq_method = GET, rq_headers = Map.empty, rq_body = [], rq_timeout = timeout, rq_fields = [],
     rq_verify_peer = cl_verify_peer c, rq_certificate = cl_certificate c\<rparr>"
  by (simp add: Client_Get_def builder_uri_def builder_method_def builder_timeout_def set_once_def Request_Builder_def Request_Build_def Client_Do_def Let_def)

text \<open>A request with two headers or more aborts the process, because the list of headers is built anew for each of them.\<close>

lemma two_headers_abort:
  assumes "2 \<le> card (dom m)" "\<And>h. alloc h"
  shows "curl_header_list alloc [] (entries m) = Inl (CheckFailed ''not expecting to have already allocated headers'')"
proof -
  have "finite (dom m)" using assms(1) by (metis card.infinite not_numeral_le_zero)
  then have "2 \<le> length (entries m)" using assms(1) by (simp add: entries_def)
  then obtain x y zs where "entries m = x # y # zs" by (cases "entries m"; cases "tl (entries m)") auto
  then show ?thesis using assms(2) by (cases x; cases y) (simp add: Let_def)
qed

lemma one_header_passes:
  assumes "finite (dom m)" "card (dom m) \<le> 1" "\<And>h. alloc h"
  shows "curl_header_list alloc [] (entries m) = Inr (map (\<lambda>(key, v). key @ '': '' @ v) (entries m))"
proof -
  have "length (entries m) \<le> 1" using assms by (simp add: entries_def)
  then show ?thesis using assms(3) by (cases "entries m") (auto simp: Let_def)
qed

text \<open>A timeout below a millisecond is none at all.\<close>

lemma short_timeout_is_none: "0 \<le> ns \<Longrightarrow> ns < 1000000 \<Longrightarrow> timeout_ms ns = 0"
  by (simp add: timeout_ms_def)

text \<open>When redirects are followed, the headers of all the responses are in the buffer, and those of the last one are mixed with the others.\<close>

lemma redirect_headers_are_mixed:
  "parse_headers (concat (map header_line [(''Content-Length'', ''0''), (''Location'', ''/b'')]) @ concat (map header_line [(''Content-Length'', ''12'')])) =
     [''Content-Length'' \<mapsto> ''0, 12'', ''Location'' \<mapsto> ''/b'']"
proof -
  have "\<forall>h \<in> set [(''Content-Length'', ''0''), (''Location'', ''/b''), (''Content-Length'', ''12'')]. clean h" by (simp add: clean_def stripped_def is_space_def)
  from parse_lines [OF this, of Map.empty "[]"] show ?thesis by (simp add: parse_headers_def parse_line_def add_header_def fun_upd_twist)
qed

end
