(* ===== verification/Http.thy ===== *)
theory Http
  imports Http_Messages Loop_Handles Filesystem
begin

text \<open>
  The eventual \<^verbatim>\<open>_HTTP\<close> (\<^verbatim>\<open>http.h\<close>), which drives a transfer of libcurl with the event loop: a libuv timer and a libuv poll handle for each socket.

  The state extends \<open>handle\<close>, whose libuv handle is the timer. The actions of the machine are upstream, the interrupt, the event loop running a callback, and libuv calling back for the timer, a poll handle or a closed
  handle. While a function of libcurl runs it calls the callbacks that it was given; what it calls, in which order and what libuv and libcurl return is part of the action, as is the message that
  libcurl has at the end, and the behaviour of options, URLs and lists is the argument \<open>lc\<close>. Encoding a certificate is the argument \<open>encode\<close>. The memory of a poll handle is freed by the callback of its \<^verbatim>\<open>uv_close\<close>; a handle that is not
  in \<open>hc_handles\<close> is freed or was never allocated.
\<close>

section \<open>State\<close>

datatype curl_opt =
    CAINFO_BLOB string
  | SOCKETDATA
  | SOCKETFUNCTION
  | TIMERDATA
  | TIMERFUNCTION
  | SSL_VERIFYPEER bool
  | HTTPGET
  | HTTPPOST
  | POSTFIELDS string
  | HTTPHEADER "string list"
  | URL string
  | WRITEDATA
  | WRITEFUNCTION
  | HEADERDATA
  | HEADERFUNCTION
  | FOLLOWLOCATION
  | TIMEOUT_MS int
  | NOSIGNAL

record libcurl =
  lc_setopt :: "curl_opt \<Rightarrow> int"
  lc_url_set :: "string \<Rightarrow> string option"
  lc_url_append :: "string \<Rightarrow> string \<Rightarrow> string option"
  lc_url_query :: "string \<Rightarrow> string option"
  lc_slist_append :: "string \<Rightarrow> bool"
  lc_strerror :: "int \<Rightarrow> string"

datatype curl_pointer = Null | Allocated | Freed

text \<open>A poll handle for a socket that is not started, one that is active, and one on which \<^verbatim>\<open>uv_close\<close> was called.\<close>

datatype poll_handle = PollIdle nat | PollActive nat int32 | PollClosing nat

record 'cert http = handle +
  hc_request :: "'cert request"
  hc_fields :: "string option"
  hc_easy :: curl_pointer
  hc_multi :: curl_pointer
  hc_headers :: "string list"
  hc_timeout :: "64 word"
  hc_polls :: "nat list"
  hc_code :: int
  hc_headers_buffer :: buffer
  hc_body_buffer :: buffer
  hc_options :: "curl_opt list"
  hc_transfer :: bool
  hc_allocated :: nat
  hc_handles :: "nat \<rightharpoonup> poll_handle"
  hc_assigned :: "nat \<rightharpoonup> nat"
  hc_actions :: "(nat option \<times> int32) list"

text \<open>
  The members of the continuation, and what libcurl and libuv hold for it: the options that were set, whether the easy handle was added, the poll handles, which of them is assigned to which socket, and the calls of
  \<^verbatim>\<open>curl_multi_socket_action\<close>, where \<open>None\<close> is \<^verbatim>\<open>CURL_SOCKET_TIMEOUT\<close>.
\<close>

definition HTTP :: "'cert request \<Rightarrow> curl_pointer \<Rightarrow> curl_pointer \<Rightarrow> 'cert http" where
  "HTTP request easy multi =
     \<lparr>h_started = False, h_completed = False, h_closed = False, h_error = 0, h_context = None, h_interrupt_context = False,
      h_handler = NoHandler, h_active = False, h_closing = None, h_invoked = False, h_calls = [],
      hc_request = request, hc_fields = None, hc_easy = easy, hc_multi = multi, hc_headers = [], hc_timeout = 0, hc_polls = [], hc_code = 0,
      hc_headers_buffer = Buffer_default, hc_body_buffer = Buffer_default, hc_options = [], hc_transfer = False, hc_allocated = 0,
      hc_handles = Map.empty, hc_assigned = Map.empty, hc_actions = []\<rparr>"

definition HTTP_move :: "'cert http \<Rightarrow> 'cert http res" where
  "HTTP_move that =
     check (\<not> h_started that \<or> \<not> h_completed that) ''moving after starting''
       (Inr ((HTTP (hc_request that) (hc_easy that) (hc_multi that))\<lparr>hc_fields := hc_fields that, hc_headers := hc_headers that\<rparr>))"

text \<open>The destructor, after the members that are destructed before the pointers to libcurl.\<close>

definition curl_cleanup :: "curl_pointer \<Rightarrow> 'a res \<Rightarrow> 'a res" where
  "curl_cleanup p r = (if p = Freed then Inl (UndefinedBehaviour ''double free'') else r)"

definition HTTP_destruct :: "'cert http \<Rightarrow> unit res" where
  "HTTP_destruct s = check (\<not> h_started s \<or> h_closed s) ''!started_ || closed_'' (curl_cleanup (hc_multi s) (curl_cleanup (hc_easy s) (Inr ())))"

section \<open>Poll handles\<close>

definition poll_handle_at :: "nat \<Rightarrow> 'cert http \<Rightarrow> (poll_handle \<Rightarrow> 'b res) \<Rightarrow> 'b res" where
  "poll_handle_at p s f = (case hc_handles s p of None \<Rightarrow> Inl (UndefinedBehaviour ''use after free'') | Some h \<Rightarrow> f h)"

fun poll_active :: "poll_handle \<Rightarrow> bool" where
  "poll_active (PollActive k ev) = True"
| "poll_active _ = False"

fun poll_socket :: "poll_handle \<Rightarrow> nat" where
  "poll_socket (PollIdle k) = k"
| "poll_socket (PollActive k ev) = k"
| "poll_socket (PollClosing k) = k"

fun poll_closing :: "poll_handle \<Rightarrow> bool" where
  "poll_closing (PollClosing k) = True"
| "poll_closing _ = False"

definition poll_set :: "nat \<Rightarrow> (nat \<Rightarrow> poll_handle) \<Rightarrow> 'cert http \<Rightarrow> 'cert http res" where
  "poll_set p f s = poll_handle_at p s (\<lambda>h. check (\<not> poll_closing h) ''!uv__is_closing(handle)'' (Inr (s\<lparr>hc_handles := (hc_handles s)(p \<mapsto> f (poll_socket h))\<rparr>)))"

abbreviation uv_poll_stop :: "nat \<Rightarrow> 'cert http \<Rightarrow> 'cert http res" where
  "uv_poll_stop p \<equiv> poll_set p PollIdle"

abbreviation uv_poll_start :: "nat \<Rightarrow> int32 \<Rightarrow> 'cert http \<Rightarrow> 'cert http res" where
  "uv_poll_start p events \<equiv> poll_set p (\<lambda>k. PollActive k events)"

abbreviation uv_poll_close :: "nat \<Rightarrow> 'cert http \<Rightarrow> 'cert http res" where
  "uv_poll_close p \<equiv> poll_set p PollClosing"

definition stop_if_active :: "nat \<Rightarrow> 'cert http \<Rightarrow> 'cert http res" where
  "stop_if_active p s = poll_handle_at p s (\<lambda>h. if poll_active h then uv_poll_stop p s else Inr s)"

text \<open>The loop over \<^verbatim>\<open>polls_\<close> of \<^verbatim>\<open>check_multi_info\<close> and of the interrupt.\<close>

fun close_each :: "nat list \<Rightarrow> 'cert http \<Rightarrow> 'cert http res" where
  "close_each [] s = Inr s"
| "close_each (p # ps) s = rbind (stop_if_active p s) (\<lambda>s. rbind (uv_poll_close p s) (close_each ps))"

definition close_polls :: "'cert http \<Rightarrow> 'cert http res" where
  "close_polls s = rbind (close_each (hc_polls s) s) (\<lambda>s. Inr (s\<lparr>hc_polls := []\<rparr>))"

definition close_timer :: "close_cb \<Rightarrow> 'cert http \<Rightarrow> 'cert http res" where
  "close_timer cb s = uv_close cb (s\<lparr>h_active := False\<rparr>)"

section \<open>The callbacks of libcurl\<close>

datatype curl_what = POLL_NONE | POLL_IN | POLL_OUT | POLL_INOUT | POLL_REMOVE

fun what_events :: "curl_what \<Rightarrow> int32" where
  "what_events POLL_IN = 1"
| "what_events POLL_OUT = 2"
| "what_events POLL_INOUT = 3"
| "what_events _ = 0"

text \<open>\<open>init\<close>, \<open>assign\<close>, \<open>stop\<close> and \<open>start\<close> are the results of \<^verbatim>\<open>uv_poll_init_socket\<close>, \<^verbatim>\<open>curl_multi_assign\<close>, \<^verbatim>\<open>uv_poll_stop\<close> and \<^verbatim>\<open>uv_poll_start\<close>.\<close>

definition new_poll :: "nat \<Rightarrow> int \<Rightarrow> int \<Rightarrow> 'cert http \<Rightarrow> (nat \<times> 'cert http) res" where
  "new_poll sockfd init assign s =
     (let p = hc_allocated s;
          s1 = s\<lparr>hc_allocated := p + 1, hc_polls := hc_polls s @ [p], hc_handles := (hc_handles s)(p \<mapsto> PollIdle sockfd)\<rparr>
      in check (init = 0) ''uv_poll_init_socket(...) == 0'' (check (assign = 0) ''curl_multi_assign(...) == CURLM_OK'' (Inr (p, s1\<lparr>hc_assigned := (hc_assigned s1)(sockfd \<mapsto> p)\<rparr>))))"

definition watch_socket :: "curl_what \<Rightarrow> nat \<Rightarrow> int \<Rightarrow> int \<Rightarrow> int \<Rightarrow> int \<Rightarrow> 'cert http \<Rightarrow> 'cert http res" where
  "watch_socket what sockfd init assign stop start s =
     rbind (case hc_assigned s sockfd of None \<Rightarrow> new_poll sockfd init assign s | Some p \<Rightarrow> Inr (p, s))
       (\<lambda>(p, s). poll_handle_at p s (\<lambda>h.
          rbind (if poll_active h then check (stop = 0) ''uv_poll_stop(...) == 0'' (uv_poll_stop p s) else Inr s)
            (\<lambda>s. check (start = 0) ''uv_poll_start(...) == 0'' (uv_poll_start p (what_events what) s))))"

definition unwatch_socket :: "nat \<Rightarrow> int \<Rightarrow> 'cert http \<Rightarrow> 'cert http res" where
  "unwatch_socket sockfd assign s =
     deref (hc_assigned s sockfd) ''socket_poller''
       (\<lambda>p. rbind (uv_poll_stop p s) (\<lambda>s. rbind (uv_poll_close p s) (\<lambda>s.
          check (assign = 0) ''curl_multi_assign(...) == CURLM_OK'' (Inr (s\<lparr>hc_polls := remove1 p (hc_polls s), hc_assigned := (hc_assigned s)(sockfd := None)\<rparr>)))))"

definition socket_function :: "curl_what \<Rightarrow> nat \<Rightarrow> int \<Rightarrow> int \<Rightarrow> int \<Rightarrow> int \<Rightarrow> 'cert http \<Rightarrow> 'cert http res" where
  "socket_function what sockfd init assign stop start s =
     (case what of POLL_NONE \<Rightarrow> Inr s | POLL_REMOVE \<Rightarrow> unwatch_socket sockfd assign s | _ \<Rightarrow> watch_socket what sockfd init assign stop start s)"

text \<open>\<^verbatim>\<open>uv_timer_start\<close> returns an error, which is ignored, when the timer is closing.\<close>

definition timer_function :: "int \<Rightarrow> 'cert http \<Rightarrow> 'cert http" where
  "timer_function ms s =
     (let timeout = if ms < 0 then 0 else ms
      in if h_closing s \<noteq> None \<or> h_closed s then s else s\<lparr>h_active := True, hc_timeout := of_int timeout\<rparr>)"

definition write_function :: "string \<Rightarrow> 'cert http \<Rightarrow> 'cert http" where
  "write_function data s = s\<lparr>hc_body_buffer := Buffer_append_string data (hc_body_buffer s)\<rparr>"

definition header_function :: "string \<Rightarrow> 'cert http \<Rightarrow> 'cert http" where
  "header_function data s = s\<lparr>hc_headers_buffer := Buffer_append_string data (hc_headers_buffer s)\<rparr>"

datatype curl_call = CurlSocket curl_what nat int int int int | CurlTimer int | CurlWrite string | CurlHeader string

fun run_call :: "curl_call \<Rightarrow> 'cert http \<Rightarrow> 'cert http res" where
  "run_call (CurlSocket what sockfd init assign stop start) s = socket_function what sockfd init assign stop start s"
| "run_call (CurlTimer ms) s = Inr (timer_function ms s)"
| "run_call (CurlWrite data) s = Inr (write_function data s)"
| "run_call (CurlHeader data) s = Inr (header_function data s)"

text \<open>What a function of libcurl does to the continuation: its callbacks, one after the other.\<close>

abbreviation curl_calls :: "curl_call list \<Rightarrow> 'cert http \<Rightarrow> 'cert http res" where
  "curl_calls \<equiv> run_acts run_call"

section \<open>The end of a transfer\<close>

datatype curl_msg = MsgDone int int | MsgOther

text \<open>
  \<open>Turn calls running msg removing removed\<close>: one call of \<^verbatim>\<open>curl_multi_socket_action\<close> makes \<open>calls\<close> and leaves \<open>running\<close> transfers; libcurl then has the message \<open>msg\<close>, with the result and the code of the response, and
  \<^verbatim>\<open>curl_multi_remove_handle\<close> makes the calls \<open>removing\<close> and returns \<open>removed\<close>.
\<close>

datatype curl_turn = Turn "curl_call list" int "curl_msg option" "curl_call list" int

abbreviation CURLE_ABORTED_BY_CALLBACK :: int where
  "CURLE_ABORTED_BY_CALLBACK \<equiv> 42"

definition remove_handle :: "curl_call list \<Rightarrow> int \<Rightarrow> 'cert http \<Rightarrow> 'cert http res" where
  "remove_handle removing removed s = rbind (curl_calls removing s) (\<lambda>s. check (removed = 0) ''curl_multi_remove_handle(...) == CURLM_OK'' (Inr (s\<lparr>hc_transfer := False\<rparr>)))"

definition check_multi_info :: "curl_msg option \<Rightarrow> curl_call list \<Rightarrow> int \<Rightarrow> 'cert http \<Rightarrow> 'cert http res" where
  "check_multi_info msg removing removed s =
     (let s1 = s\<lparr>h_completed := True\<rparr>
      in deref msg ''message''
           (\<lambda>m. let s2 = (case m of MsgDone result code \<Rightarrow> if result = 0 then s1\<lparr>hc_code := code\<rparr> else s1\<lparr>h_error := result\<rparr>
                                  | MsgOther \<Rightarrow> s1\<lparr>h_error := CURLE_ABORTED_BY_CALLBACK\<rparr>)
                in rbind (remove_handle removing removed s2) (\<lambda>s. rbind (close_polls s) (close_timer close_cb.CloseStart))))"

definition socket_action :: "nat option \<Rightarrow> int32 \<Rightarrow> curl_turn \<Rightarrow> 'cert http \<Rightarrow> 'cert http res" where
  "socket_action sock flags t s =
     (case t of Turn calls running msg removing removed \<Rightarrow>
        rbind (curl_calls calls (s\<lparr>hc_actions := hc_actions s @ [(sock, flags)]\<rparr>))
          (\<lambda>s. if running = 0 then check_multi_info msg removing removed s else Inr s))"

definition cselect_flags :: "int \<Rightarrow> int32 \<Rightarrow> int32" where
  "cselect_flags status events =
     (let flags = (if status < 0 then 4 else 0);
          flags = (if status = 0 \<and> and events 1 \<noteq> 0 then or flags 1 else flags)
      in if status = 0 \<and> and events 2 \<noteq> 0 then or flags 2 else flags)"

definition poll_callback :: "nat \<Rightarrow> int \<Rightarrow> int32 \<Rightarrow> curl_turn \<Rightarrow> 'cert http \<Rightarrow> 'cert http res" where
  "poll_callback p status events t s = poll_handle_at p s (\<lambda>h. socket_action (Some (poll_socket h)) (cselect_flags status events) t s)"

definition timer_callback :: "curl_turn \<Rightarrow> 'cert http \<Rightarrow> 'cert http res" where
  "timer_callback t s = socket_action None 0 t s"

definition response_val :: "response \<Rightarrow> val" where
  "response_val r = VVec [VSize (of_int (rs_code r)), VVec (map (\<lambda>(key, v). VVec [VStr key, VStr v]) (entries (rs_headers r))), VStr (rs_body r)]"

definition finish_callback :: "libcurl \<Rightarrow> 'cert http \<Rightarrow> 'cert http" where
  "finish_callback lc s =
     (let s1 = s\<lparr>h_closing := None, h_closed := True\<rparr>
      in if h_error s1 = 0 then
           (case Extract [] (hc_headers_buffer s1) of (raw, headers_buffer) \<Rightarrow>
              case Extract [] (hc_body_buffer s1) of (body, body_buffer) \<Rightarrow>
                k_call (Start (response_val \<lparr>rs_code = hc_code s1, rs_headers = parse_headers raw, rs_body = body\<rparr>))
                  (s1\<lparr>hc_headers_buffer := headers_buffer, hc_body_buffer := body_buffer\<rparr>))
         else k_call (Fail (RuntimeError (lc_strerror lc (h_error s1)))) s1)"

definition stopped_callback :: "'cert http \<Rightarrow> 'cert http" where
  "stopped_callback s = k_call Stop (s\<lparr>h_closing := None, h_closed := True\<rparr>)"

section \<open>The start of a transfer\<close>

definition set_option :: "libcurl \<Rightarrow> curl_opt \<Rightarrow> 'cert http \<Rightarrow> 'cert http res" where
  "set_option lc opt s = check (lc_setopt lc opt = 0) ''setopt(...) == OK'' (Inr (s\<lparr>hc_options := hc_options s @ [opt]\<rparr>))"

abbreviation set_options :: "libcurl \<Rightarrow> curl_opt list \<Rightarrow> 'cert http \<Rightarrow> 'cert http res" where
  "set_options lc \<equiv> run_acts (set_option lc)"

fun append_query :: "libcurl \<Rightarrow> string list \<Rightarrow> string \<Rightarrow> string res" where
  "append_query lc [] url = Inr url"
| "append_query lc (part # parts) url =
     (case lc_url_append lc url part of None \<Rightarrow> Inl (CheckFailed ''curl_url_set(...) == CURLUE_OK'') | Some url' \<Rightarrow> append_query lc parts url')"

definition post_query :: "libcurl \<Rightarrow> 'cert request \<Rightarrow> string res" where
  "post_query lc r =
     (case lc_url_set lc (rq_uri r) of
        None \<Rightarrow> Inl (CheckFailed ''curl_url_set(...) == CURLUE_OK'')
      | Some url \<Rightarrow> rbind (append_query lc (post_fields (rq_fields r)) url)
          (\<lambda>url. case lc_url_query lc url of None \<Rightarrow> Inl (CheckFailed ''curl_url_get(...) == CURLUE_OK'') | Some query \<Rightarrow> Inr query))"

definition set_method :: "libcurl \<Rightarrow> 'cert http \<Rightarrow> 'cert http res" where
  "set_method lc s =
     (case rq_method (hc_request s) of
        GET \<Rightarrow> set_option lc HTTPGET s
      | POST \<Rightarrow> rbind (post_query lc (hc_request s)) (\<lambda>query. set_options lc [HTTPPOST, POSTFIELDS query] (s\<lparr>hc_fields := Some query\<rparr>)))"

definition set_headers :: "libcurl \<Rightarrow> 'cert http \<Rightarrow> 'cert http res" where
  "set_headers lc s =
     rbind (curl_header_list (lc_slist_append lc) (hc_headers s) (entries (rq_headers (hc_request s))))
       (\<lambda>hs. set_option lc (HTTPHEADER hs) (s\<lparr>hc_headers := hs\<rparr>))"

text \<open>\<open>init\<close> and \<open>added\<close> are the results of \<^verbatim>\<open>uv_timer_init\<close> and \<^verbatim>\<open>curl_multi_add_handle\<close>, which makes the calls \<open>adding\<close>.\<close>

definition start_transfer :: "libcurl \<Rightarrow> int \<Rightarrow> curl_call list \<Rightarrow> int \<Rightarrow> 'cert http \<Rightarrow> 'cert http res" where
  "start_transfer lc init adding added s =
     (let r = hc_request s
      in check (init = 0) ''0 == uv_timer_init(loop_, &timer_)''
           (rbind (set_options lc ([SOCKETDATA, SOCKETFUNCTION, TIMERDATA, TIMERFUNCTION] @ (case rq_verify_peer r of None \<Rightarrow> [] | Some verify \<Rightarrow> [SSL_VERIFYPEER verify])) s) (\<lambda>s.
            rbind (set_method lc s) (\<lambda>s.
            rbind (set_headers lc s) (\<lambda>s.
            rbind (set_options lc [URL (rq_uri r), WRITEDATA, WRITEFUNCTION, HEADERDATA, HEADERFUNCTION, FOLLOWLOCATION, TIMEOUT_MS (timeout_ms (rq_timeout r)), NOSIGNAL] s) (\<lambda>s.
            rbind (curl_calls adding (s\<lparr>hc_transfer := True\<rparr>)) (\<lambda>s.
            check (added = 0) ''curl_multi_add_handle(...) == CURLM_OK'' (Inr s))))))))"

definition http_start_callback :: "libcurl \<Rightarrow> ('cert \<Rightarrow> string option) \<Rightarrow> int \<Rightarrow> curl_call list \<Rightarrow> int \<Rightarrow> 'cert http \<Rightarrow> 'cert http res" where
  "http_start_callback lc encode init adding added s =
     (if \<not> h_completed s then
        let s1 = s\<lparr>h_started := True\<rparr>
        in check (h_error s1 = 0) ''!error_''
             (check (hc_easy s1 \<noteq> Null) ''easy_ != nullptr''
               (check (hc_multi s1 \<noteq> Null) ''multi_ != nullptr''
                 (case rq_certificate (hc_request s1) of
                    None \<Rightarrow> start_transfer lc init adding added s1
                  | Some cert \<Rightarrow>
                      (case encode cert of
                         None \<Rightarrow> Inr ((k_call (Fail (RuntimeError ''Failed to PEM encode certificate'')) (s1\<lparr>h_completed := True\<rparr>))\<lparr>hc_easy := Freed, hc_multi := Freed\<rparr>)
                       | Some pem \<Rightarrow> rbind (set_option lc (CAINFO_BLOB pem) s1) (start_transfer lc init adding added)))))
      else Inr s)"

definition http_Start :: "bool \<Rightarrow> 'cert http \<Rightarrow> 'cert http res" where
  "http_Start triggered s = check (\<not> h_started s \<and> \<not> h_completed s) ''!started_ && !completed_'' (start_handle triggered (loop_Submit CbStart) s)"

definition http_run :: "libcurl \<Rightarrow> ('cert \<Rightarrow> string option) \<Rightarrow> int \<Rightarrow> curl_call list \<Rightarrow> int \<Rightarrow> 'cert http \<Rightarrow> 'cert http res" where
  "http_run lc encode init adding added s =
     (case h_context s of
        None \<Rightarrow> Inr s
      | Some cb \<Rightarrow>
          let s1 = s\<lparr>h_context := None\<rparr>
          in case cb of
               CbTriggered \<Rightarrow> triggered_callback s1
             | CbFail e \<Rightarrow> Inr (k_call (Fail e) s1)
             | CbStop \<Rightarrow> Inr (k_call Stop s1)
             | CbStart \<Rightarrow> http_start_callback lc encode init adding added s1
             | _ \<Rightarrow> Inl NoSuchMethod)"

text \<open>\<open>removing\<close> and \<open>removed\<close> are as in a turn.\<close>

definition http_interrupt_callback :: "curl_call list \<Rightarrow> int \<Rightarrow> 'cert http \<Rightarrow> 'cert http res" where
  "http_interrupt_callback removing removed s =
     (if \<not> h_started s then check (\<not> h_completed s \<and> h_error s = 0) ''!completed_ && !error_'' (Inr (k_call Stop (s\<lparr>h_completed := True\<rparr>)))
      else if \<not> h_completed s then
        check (h_started s \<and> h_error s = 0) ''started_ && !error_''
          (rbind (close_polls (s\<lparr>h_completed := True\<rparr>)) (\<lambda>s. rbind (close_timer CloseStop s) (remove_handle removing removed)))
      else Inr s)"

section \<open>The machine\<close>

datatype http_act =
    HttpRegister
  | HttpStart bool
  | HttpFail err
  | HttpStop
  | HttpInterrupt
  | HttpRun int "curl_call list" int
  | HttpRunInterrupt "curl_call list" int
  | HttpTimer curl_turn
  | HttpPoll nat int int32 curl_turn
  | HttpTimerClosed
  | HttpPollClosed nat

fun http_step :: "libcurl \<Rightarrow> ('cert \<Rightarrow> string option) \<Rightarrow> http_act \<Rightarrow> 'cert http \<Rightarrow> 'cert http res" where
  "http_step lc encode HttpRegister s = handle_step (lc_strerror lc) HRegister s"
| "http_step lc encode (HttpStart triggered) s = (if h_invoked s then Inr s else http_Start triggered (s\<lparr>h_invoked := True\<rparr>))"
| "http_step lc encode (HttpFail e) s = handle_step (lc_strerror lc) (HFail e) s"
| "http_step lc encode HttpStop s = handle_step (lc_strerror lc) HStop s"
| "http_step lc encode HttpInterrupt s = handle_step (lc_strerror lc) HInterrupt s"
| "http_step lc encode (HttpRun init adding added) s = http_run lc encode init adding added s"
| "http_step lc encode (HttpRunInterrupt removing removed) s =
     (if h_interrupt_context s then http_interrupt_callback removing removed (s\<lparr>h_interrupt_context := False\<rparr>) else Inr s)"
| "http_step lc encode (HttpTimer t) s = (if h_active s then timer_callback t (s\<lparr>h_active := False\<rparr>) else Inr s)"
| "http_step lc encode (HttpPoll p status events t) s =
     (case hc_handles s p of Some (PollActive k ev) \<Rightarrow> poll_callback p status events t s | _ \<Rightarrow> Inr s)"
| "http_step lc encode HttpTimerClosed s =
     (case h_closing s of None \<Rightarrow> Inr s | Some cb \<Rightarrow> Inr (if cb = CloseStop then stopped_callback s else finish_callback lc s))"
| "http_step lc encode (HttpPollClosed p) s =
     (case hc_handles s p of Some (PollClosing k) \<Rightarrow> Inr (s\<lparr>hc_handles := (hc_handles s)(p := None)\<rparr>) | _ \<Rightarrow> Inr s)"

end
