(* ===== verification/Http_Theorems.thy ===== *)
theory Http_Theorems
  imports Http Loop_Handle_Theorems
begin

text \<open>
  The invariant of the eventual of \<^verbatim>\<open>http.h\<close>: its continuation is completed at most once, whatever libcurl does and whatever the order of its callbacks, the interrupt and the event loop.
\<close>

section \<open>What the callbacks of libcurl leave alone\<close>

definition core :: "'cert http \<Rightarrow> _" where
  "core s = ((h_started s, h_completed s, h_closed s, h_error s, h_context s, h_interrupt_context s), (h_handler s, h_closing s, h_invoked s, h_calls s), (hc_easy s, hc_multi s, hc_request s, hc_code s))"

lemma core_simps [simp]:
  "core (s\<lparr>h_active := a\<rparr>) = core s" "core (s\<lparr>hc_timeout := t\<rparr>) = core s" "core (s\<lparr>hc_polls := ps\<rparr>) = core s" "core (s\<lparr>hc_headers_buffer := hb\<rparr>) = core s"
  "core (s\<lparr>hc_body_buffer := bb\<rparr>) = core s" "core (s\<lparr>hc_allocated := n\<rparr>) = core s" "core (s\<lparr>hc_handles := m\<rparr>) = core s" "core (s\<lparr>hc_assigned := m'\<rparr>) = core s"
  "core (s\<lparr>hc_actions := as\<rparr>) = core s" "core (s\<lparr>hc_transfer := b\<rparr>) = core s" "core (s\<lparr>hc_options := os\<rparr>) = core s" "core (s\<lparr>hc_fields := fs\<rparr>) = core s"
  "core (s\<lparr>hc_headers := hs\<rparr>) = core s"
  by (simp_all add: core_def)

lemma coreD:
  assumes "core s' = core s"
  shows "h_started s' = h_started s" "h_completed s' = h_completed s" "h_closed s' = h_closed s" "h_error s' = h_error s" "h_context s' = h_context s"
    "h_interrupt_context s' = h_interrupt_context s" "h_handler s' = h_handler s" "h_closing s' = h_closing s" "h_invoked s' = h_invoked s" "h_calls s' = h_calls s"
    "hc_easy s' = hc_easy s" "hc_multi s' = hc_multi s" "hc_request s' = hc_request s" "hc_code s' = hc_code s"
  using assms by (simp_all add: core_def)

text \<open>
  \<open>quiet s s'\<close>: between the two states only the poll handles have changed. \<open>calm s s'\<close>: only the poll handles, the buffers and the timer have changed, the timer only if it was not closed.
\<close>

definition quiet :: "'cert http \<Rightarrow> 'cert http \<Rightarrow> bool" where
  "quiet s s' \<longleftrightarrow> core s' = core s \<and> h_active s' = h_active s \<and> hc_headers_buffer s' = hc_headers_buffer s \<and> hc_body_buffer s' = hc_body_buffer s"

definition calm :: "'cert http \<Rightarrow> 'cert http \<Rightarrow> bool" where
  "calm s s' \<longleftrightarrow> core s' = core s \<and> (h_closing s \<noteq> None \<or> h_closed s \<longrightarrow> h_active s' = h_active s)"

lemma quiet_refl [simp]: "quiet s s"
  by (simp add: quiet_def)

lemma quiet_trans: "quiet s s' \<Longrightarrow> quiet s' s'' \<Longrightarrow> quiet s s''"
  by (simp add: quiet_def)

lemma quiet_calm: "quiet s s' \<Longrightarrow> calm s s'"
  by (simp add: calm_def quiet_def)

lemma calm_refl [simp]: "calm s s"
  by (simp add: calm_def)

lemma calm_trans: "calm s s' \<Longrightarrow> calm s' s'' \<Longrightarrow> calm s s''"
  by (auto simp: calm_def core_def)

lemma poll_set_quiet: "poll_set p f s = Inr s' \<Longrightarrow> quiet s s'"
  by (auto simp: poll_set_def poll_handle_at_def quiet_def split: option.splits)

lemma stop_if_active_quiet: "stop_if_active p s = Inr s' \<Longrightarrow> quiet s s'"
  by (auto simp: stop_if_active_def poll_handle_at_def intro: poll_set_quiet split: option.splits if_splits)

lemma close_each_quiet: "close_each ps s = Inr s' \<Longrightarrow> quiet s s'"
proof (induction ps arbitrary: s)
  case (Cons p ps)
  then obtain s1 s2 where "stop_if_active p s = Inr s1" "uv_poll_close p s1 = Inr s2" "close_each ps s2 = Inr s'" by auto
  then show ?case using Cons.IH quiet_trans stop_if_active_quiet poll_set_quiet by metis
qed simp

lemma close_polls_quiet: "close_polls s = Inr s' \<Longrightarrow> quiet s s'"
  by (auto simp: close_polls_def quiet_def dest!: close_each_quiet)

lemmas close_polls_calm = close_polls_quiet [THEN quiet_calm]

lemma unwatch_quiet: "unwatch_socket k r s = Inr s' \<Longrightarrow> quiet s s'"
  by (auto simp: unwatch_socket_def deref_def quiet_def split: option.splits dest!: poll_set_quiet)

lemma watch_quiet:
  assumes "watch_socket what k i a st r s = Inr s'"
  shows "quiet s s'"
proof -
  obtain p s1 where 1: "(case hc_assigned s k of None \<Rightarrow> new_poll k i a s | Some p \<Rightarrow> Inr (p, s)) = Inr (p, s1)"
    and 2: "poll_handle_at p s1 (\<lambda>h. rbind (if poll_active h then check (st = 0) ''uv_poll_stop(...) == 0'' (uv_poll_stop p s1) else Inr s1)
            (\<lambda>s. check (r = 0) ''uv_poll_start(...) == 0'' (uv_poll_start p (what_events what) s))) = Inr s'"
    using assms by (auto simp: watch_socket_def)
  have "quiet s s1" using 1 by (auto simp: new_poll_def quiet_def Let_def split: option.splits)
  moreover have "quiet s1 s'"
    using 2 by (auto simp: poll_handle_at_def split: option.splits if_splits dest!: poll_set_quiet intro: quiet_trans)
  ultimately show ?thesis by (rule quiet_trans)
qed

lemma socket_function_quiet: "socket_function what k i a st r s = Inr s' \<Longrightarrow> quiet s s'"
  by (cases what) (auto simp: socket_function_def intro: watch_quiet unwatch_quiet)

lemma run_call_calm: "run_call c s = Inr s' \<Longrightarrow> calm s s'"
  by (cases c) (auto simp: timer_function_def write_function_def header_function_def calm_def Let_def
      split: if_splits dest!: socket_function_quiet [THEN quiet_calm])

lemma curl_calls_calm: "curl_calls cs s = Inr s' \<Longrightarrow> calm s s'"
proof (induction cs arbitrary: s)
  case (Cons c cs)
  then obtain s1 where "run_call c s = Inr s1" "curl_calls cs s1 = Inr s'" by auto
  then show ?case using Cons.IH calm_trans run_call_calm by blast
qed simp

lemma remove_handle_calm: "remove_handle cs r s = Inr s' \<Longrightarrow> calm s s'"
  by (auto simp: remove_handle_def calm_def dest!: curl_calls_calm)

text \<open>The end of a transfer.\<close>

definition msg_error :: "curl_msg \<Rightarrow> int" where
  "msg_error m = (case m of MsgDone result code \<Rightarrow> result | MsgOther \<Rightarrow> CURLE_ABORTED_BY_CALLBACK)"

definition ended :: "int \<Rightarrow> close_cb \<Rightarrow> 'cert http \<Rightarrow> 'cert http \<Rightarrow> bool" where
  "ended e cb s s' \<longleftrightarrow> h_closing s = None \<and> \<not> h_closed s \<and> \<not> h_active s' \<and>
     (\<exists>c. core s' = core (s\<lparr>h_completed := True, h_error := e, h_closing := Some cb, hc_code := c\<rparr>))"

lemma close_timer_ended:
  assumes "close_timer cb s = Inr s'"
  shows "h_closing s = None" "\<not> h_closed s" "\<not> h_active s'" "core s' = core (s\<lparr>h_closing := Some cb\<rparr>)"
  using assms by (auto simp: close_timer_def uv_close_def core_def)

definition take_message :: "curl_msg \<Rightarrow> 'cert http \<Rightarrow> 'cert http" where
  "take_message m s =
     (case m of MsgDone result code \<Rightarrow> if result = 0 then s\<lparr>h_completed := True, hc_code := code\<rparr> else s\<lparr>h_completed := True, h_error := result\<rparr>
      | MsgOther \<Rightarrow> s\<lparr>h_completed := True, h_error := CURLE_ABORTED_BY_CALLBACK\<rparr>)"

lemma check_multi_info_parts:
  assumes "check_multi_info msg cs r s = Inr s'"
  obtains m s3 s4 where "msg = Some m" "remove_handle cs r (take_message m s) = Inr s3" "close_polls s3 = Inr s4" "close_timer close_cb.CloseStart s4 = Inr s'"
    "core s4 = core (take_message m s)"
proof -
  obtain m where m: "msg = Some m" using assms by (cases msg) (auto simp: check_multi_info_def Let_def)
  then obtain s3 s4 where p: "remove_handle cs r (take_message m s) = Inr s3" "close_polls s3 = Inr s4" "close_timer close_cb.CloseStart s4 = Inr s'"
    using assms by (auto simp: check_multi_info_def take_message_def Let_def split: curl_msg.splits)
  have "core s4 = core (take_message m s)" using remove_handle_calm [OF p(1)] close_polls_calm [OF p(2)] by (simp add: calm_def)
  with m p show thesis by (rule that)
qed

lemma take_message_simps [simp]:
  "h_closing (take_message m s) = h_closing s" "h_closed (take_message m s) = h_closed s" "h_calls (take_message m s) = h_calls s"
  "h_error s = 0 \<Longrightarrow> h_error (take_message m s) = msg_error m"
  by (auto simp: take_message_def msg_error_def split: curl_msg.split)

lemma check_multi_info_ended:
  assumes "check_multi_info msg cs r s = Inr s'"
  shows "h_closing s = None" "\<not> h_closed s" "h_error s = 0 \<Longrightarrow> \<exists>m. msg = Some m \<and> ended (msg_error m) close_cb.CloseStart s s'"
proof -
  obtain m s3 s4 where p: "msg = Some m" "close_timer close_cb.CloseStart s4 = Inr s'" "core s4 = core (take_message m s)"
    using check_multi_info_parts [OF assms] by metis
  note c = coreD [OF p(3)] close_timer_ended [OF p(2)]
  then show n: "h_closing s = None" "\<not> h_closed s" by simp_all
  assume "h_error s = 0"
  then have "\<exists>c. core (take_message m s) = core (s\<lparr>h_completed := True, h_error := msg_error m, hc_code := c\<rparr>)"
    by (cases m) (auto simp: core_def msg_error_def take_message_def)
  with p n c show "\<exists>m. msg = Some m \<and> ended (msg_error m) close_cb.CloseStart s s'" by (auto simp: ended_def core_def)
qed

section \<open>The invariant of the continuation\<close>

definition progress :: "'cert http \<Rightarrow> bool" where
  "progress s \<longleftrightarrow>
     (if \<not> h_completed s then h_closing s = None \<and> \<not> h_closed s \<and> h_error s = 0 \<and> hc_easy s \<noteq> Freed \<and>
        (h_calls s = [] \<or> length (h_calls s) = 1 \<and> \<not> h_started s \<and> h_context s = None \<and> h_handler s \<notin> {Installed, Ran} \<and> h_invoked s)
      else if h_closing s = None then length (h_calls s) = 1 \<and> (h_started s \<longrightarrow> h_closed s \<or> hc_easy s = Freed) \<and> (hc_easy s = Freed \<longrightarrow> \<not> h_closed s)
      else h_calls s = [] \<and> h_started s \<and> \<not> h_closed s \<and> hc_easy s \<noteq> Freed)"

definition http_submitted :: "'cert http \<Rightarrow> bool" where
  "http_submitted s \<longleftrightarrow>
     handler_inv (h_started s) (h_completed s) (h_context s) (h_interrupt_context s) (h_handler s) (h_invoked s) \<and>
     (h_context s \<noteq> None \<longrightarrow> \<not> h_started s \<and> h_invoked s) \<and> h_context s \<notin> {Some CbNext, Some CbDone} \<and>
     (ends_unstarted (h_context s) \<longrightarrow> \<not> h_completed s \<and> h_calls s = []) \<and>
     (\<not> h_invoked s \<longrightarrow> \<not> h_started s \<and> \<not> h_completed s \<and> h_calls s = []) \<and>
     (h_invoked s \<and> h_calls s = [] \<longrightarrow> h_context s \<noteq> None \<or> h_started s)"

definition http_inv :: "'cert http \<Rightarrow> bool" where
  "http_inv s \<longleftrightarrow> progress s \<and> http_submitted s \<and> (h_active s \<longrightarrow> h_started s \<and> \<not> h_completed s) \<and> (hc_handles s \<noteq> Map.empty \<longrightarrow> h_started s \<and> hc_easy s \<noteq> Freed) \<and>
     (hc_multi s = Freed \<longleftrightarrow> hc_easy s = Freed)"

lemma progress_core: "core s' = core s \<Longrightarrow> progress s' = progress s"
  by (simp add: progress_def core_def)

lemma submitted_core: "core s' = core s \<Longrightarrow> http_submitted s' = http_submitted s"
  by (simp add: http_submitted_def core_def)

lemma http_inv_core:
  assumes "http_inv s" "core s' = core s" "h_active s' \<longrightarrow> h_started s \<and> \<not> h_completed s" "hc_handles s' \<noteq> Map.empty \<longrightarrow> h_started s \<and> hc_easy s \<noteq> Freed"
  shows "http_inv s'"
  using assms progress_core [OF assms(2)] submitted_core [OF assms(2)] coreD [OF assms(2)] by (simp add: http_inv_def)

lemma ended_inv:
  assumes "http_inv s" "h_started s" "hc_easy s \<noteq> Freed" "\<not> h_completed s" "ended e cb s s'"
  shows "http_inv s'"
  using assms by (cases "h_handler s") (auto simp: http_inv_def progress_def http_submitted_def ended_def core_def)

text \<open>While the transfer runs, and when it is over, the invariant says when the timer may be active.\<close>

lemma completed_closes:
  assumes "http_inv s" "h_started s" "hc_easy s \<noteq> Freed" "h_completed s"
  shows "h_closing s \<noteq> None \<or> h_closed s" "\<not> h_active s"
  using assms by (auto simp: http_inv_def progress_def split: if_splits)

lemma calm_inv:
  assumes "http_inv s" "h_started s" "hc_easy s \<noteq> Freed" "calm s s'"
  shows "http_inv s'"
  using assms completed_closes [OF assms(1-3)] by (intro http_inv_core [OF assms(1)]) (auto simp: calm_def)

lemma socket_action_inv:
  assumes "http_inv s" "h_started s" "hc_easy s \<noteq> Freed" "socket_action k fl t s = Inr s'"
  shows "http_inv s'"
proof -
  obtain cs n msg rcs r where t: "t = Turn cs n msg rcs r" by (cases t)
  obtain s1 where 1: "curl_calls cs (s\<lparr>hc_actions := hc_actions s @ [(k, fl)]\<rparr>) = Inr s1" and 2: "(if n = 0 then check_multi_info msg rcs r s1 else Inr s1) = Inr s'"
    using assms(4) t by (auto simp: socket_action_def)
  have c: "calm s s1" using curl_calls_calm [OF 1] by (simp add: calm_def)
  have 3: "http_inv s1" using calm_inv [OF assms(1-3) c] .
  have 4: "h_started s1" "hc_easy s1 \<noteq> Freed" using c assms(2,3) by (auto simp: calm_def core_def)
  show ?thesis
  proof (cases "n = 0")
    case True
    show ?thesis
    proof (cases "h_completed s1")
      case False
      then have "h_error s1 = 0" using 3 by (auto simp: http_inv_def progress_def)
      then obtain m where "ended (msg_error m) close_cb.CloseStart s1 s'" using check_multi_info_ended(3) [of msg rcs r s1 s'] 2 True by auto
      then show ?thesis by (rule ended_inv [OF 3 4 False])
    next
      case c1: True
      note d = completed_closes(1) [OF 3 4 c1]
      from d show ?thesis using check_multi_info_ended(1,2) 2 True by fastforce
    qed
  qed (use 2 3 in simp)
qed


lemma set_option_core: "set_option lc opt s = Inr s' \<Longrightarrow> core s' = core s \<and> h_active s' = h_active s"
  by (auto simp: set_option_def)

lemma set_options_core: "set_options lc opts s = Inr s' \<Longrightarrow> core s' = core s \<and> h_active s' = h_active s"
  by (induction opts arbitrary: s) (auto dest!: set_option_core)

lemma set_method_core: "set_method lc s = Inr s' \<Longrightarrow> core s' = core s \<and> h_active s' = h_active s"
  by (auto simp: set_method_def simp del: run_acts.simps split: http_method.splits dest!: set_option_core set_options_core)

lemma set_headers_core: "set_headers lc s = Inr s' \<Longrightarrow> core s' = core s \<and> h_active s' = h_active s"
  by (auto simp: set_headers_def dest!: set_option_core)

lemma start_transfer_core:
  assumes "start_transfer lc init cs added s = Inr s'"
  shows "core s' = core s"
proof -
  obtain s1 s2 s3 s4 where "core s1 = core s" "set_method lc s1 = Inr s2" "set_headers lc s2 = Inr s3"
    "core s4 = core s3" "curl_calls cs (s4\<lparr>hc_transfer := True\<rparr>) = Inr s'"
    using assms unfolding start_transfer_def Let_def rbind_Inr_iff check_Inr_iff sum.inject by (metis set_options_core)
  then show ?thesis using set_method_core set_headers_core curl_calls_calm by (metis calm_def core_simps(10))
qed

lemma start_callback_inv:
  assumes "http_inv s" "h_context s = Some CbStart" "http_start_callback lc encode init cs added (s\<lparr>h_context := None\<rparr>) = Inr s'"
  shows "http_inv s'"
proof (cases "h_completed s")
  case True
  then have "s' = s\<lparr>h_context := None\<rparr>" using assms(3) by (simp add: http_start_callback_def)
  with True show ?thesis using assms(1,2) by (cases "h_handler s") (auto simp: http_inv_def progress_def http_submitted_def split: if_splits)
next
  case False
  have i: "\<not> h_started s" "h_calls s = []" "hc_easy s \<noteq> Freed" "h_invoked s" "hc_handles s = Map.empty" "h_active s = False" "h_closing s = None" "\<not> h_closed s"
    using assms(1,2) False by (auto simp: http_inv_def progress_def http_submitted_def)
  let ?s1 = "s\<lparr>h_context := None, h_started := True\<rparr>"
  consider (run) "core s' = core ?s1" | (failed) e where "s' = (k_call e (?s1\<lparr>h_completed := True\<rparr>))\<lparr>hc_easy := Freed, hc_multi := Freed\<rparr>"
    using assms(3) False
    by (auto simp: http_start_callback_def Let_def split: option.splits dest!: start_transfer_core set_option_core)
  then show ?thesis
  proof cases
    case run
    have "progress (?s1\<lparr>h_active := h_active s', hc_handles := hc_handles s'\<rparr>)" using assms(1) False i by (simp add: http_inv_def progress_def)
    moreover have "http_submitted (?s1\<lparr>h_active := h_active s', hc_handles := hc_handles s'\<rparr>)"
      using assms(1,2) False i by (cases "h_handler s") (simp_all add: http_inv_def http_submitted_def)
    ultimately have "http_inv (?s1\<lparr>h_active := h_active s', hc_handles := hc_handles s'\<rparr>)" using assms(1) False i(3) by (simp add: http_inv_def)
    then show ?thesis
    proof (rule http_inv_core)
      show "core s' = core (?s1\<lparr>h_active := h_active s', hc_handles := hc_handles s'\<rparr>)" using run by simp
    qed (simp_all add: i(3) False)
  next
    case failed
    have "progress s'" using failed i by (simp add: progress_def k_call_def)
    moreover have "http_submitted s'" using assms(1,2) False i failed by (cases "h_handler s") (simp_all add: http_inv_def http_submitted_def k_call_def)
    ultimately show ?thesis using failed i(5,6) by (simp add: http_inv_def k_call_def)
  qed
qed

lemma interrupt_inv:
  assumes "http_inv s" "h_interrupt_context s" "http_interrupt_callback cs r (s\<lparr>h_interrupt_context := False\<rparr>) = Inr s'"
  shows "http_inv s'"
proof (cases "h_started s \<and> \<not> h_completed s")
  case False
  have h: "h_handler s = Ran" "http_submitted s" "progress s" using assms(1,2) by (cases "h_handler s"; simp add: http_inv_def http_submitted_def)+
  have "progress s' \<and> http_submitted s' \<and> h_active s' = h_active s \<and> hc_handles s' = hc_handles s \<and> h_started s' = h_started s \<and> hc_easy s' = hc_easy s \<and> hc_multi s' = hc_multi s \<and> (h_completed s \<or> \<not> h_started s)"
    using assms(2,3) False h
    by (cases "h_started s"; cases "h_completed s") (auto simp: http_interrupt_callback_def progress_def http_submitted_def k_call_def)
  then show ?thesis using assms(1) False by (auto simp: http_inv_def)
next
  case True
  have i: "h_error s = 0" "hc_easy s \<noteq> Freed" using assms(1) True by (auto simp: http_inv_def progress_def)
  obtain s1 s2 where p: "close_polls (s\<lparr>h_interrupt_context := False, h_completed := True\<rparr>) = Inr s1" "close_timer CloseStop s1 = Inr s2" "remove_handle cs r s2 = Inr s'"
    using assms(3) True by (auto simp: http_interrupt_callback_def)
  note t = close_timer_ended [OF p(2)]
  have j: "http_inv (s\<lparr>h_interrupt_context := False\<rparr>)"
    using assms(1,2) True by (cases "h_handler s") (auto simp: http_inv_def progress_def http_submitted_def split: if_splits)
  have "core s1 = core (s\<lparr>h_interrupt_context := False, h_completed := True\<rparr>)" using close_polls_calm [OF p(1)] by (simp add: calm_def)
  then have e: "ended 0 CloseStop (s\<lparr>h_interrupt_context := False\<rparr>) s2" using t i by (auto simp: ended_def core_def)
  have "http_inv s2" using ended_inv [OF j _ _ _ e] True i by simp
  moreover have "h_started s2" "hc_easy s2 \<noteq> Freed" using e True i by (auto simp: ended_def core_def)
  ultimately show ?thesis using calm_inv remove_handle_calm [OF p(3)] by blast
qed

lemma closed_inv:
  assumes "http_inv s" "h_closing s = Some cb"
  shows "http_inv (stopped_callback s)" "http_inv (finish_callback lc s)"
  using assms
  by (cases "h_completed s"; cases "h_handler s";
      auto simp: http_inv_def progress_def http_submitted_def stopped_callback_def finish_callback_def k_call_def Let_def Extract_def)+


text \<open>What is submitted by upstream and what it does.\<close>

lemma upstream_cases:
  assumes "http_step lc encode a s = Inr s'" "a = HttpRegister \<or> a = HttpStart b \<or> a = HttpFail e \<or> a = HttpStop \<or> a = HttpInterrupt"
  shows "s' = s \<or> \<not> h_invoked s \<and> h_handler s = NoHandler \<and> s' = s\<lparr>h_handler := Registered\<rparr> \<or>
    h_handler s = Installed \<and> s' = s\<lparr>h_handler := Ran, h_interrupt_context := True\<rparr> \<or>
    (\<exists>cb. \<not> h_invoked s \<and> (ends_unstarted (Some cb) \<or> cb = CbStart) \<and> s' = s\<lparr>h_invoked := True, h_context := Some cb\<rparr>) \<or>
    \<not> h_invoked s \<and> s' = s\<lparr>h_invoked := True, h_handler := Installed, h_context := Some CbStart\<rparr>"
  using assms(2)
proof (elim disjE)
  assume "a = HttpStart b"
  then have "s' = s \<or> \<not> h_invoked s \<and> (s' = s\<lparr>h_invoked := True, h_context := Some CbTriggered\<rparr> \<or> s' = s\<lparr>h_invoked := True, h_context := Some CbStart\<rparr> \<or>
      s' = s\<lparr>h_invoked := True, h_handler := Installed, h_context := Some CbStart\<rparr>)"
    using assms(1) by (simp add: http_Start_def start_handle_def loop_Submit_def split: if_splits)
  moreover have "ends_unstarted (Some CbTriggered)" by simp
  ultimately show ?thesis by blast
next
  assume "a = HttpFail e"
  then have "s' = s \<or> \<not> h_invoked s \<and> s' = s\<lparr>h_invoked := True, h_context := Some (CbFail e)\<rparr>"
    using assms(1) by (simp add: loop_Submit_def split: if_splits)
  moreover have "ends_unstarted (Some (CbFail e))" by simp
  ultimately show ?thesis by blast
next
  assume "a = HttpStop"
  then have "s' = s \<or> \<not> h_invoked s \<and> s' = s\<lparr>h_invoked := True, h_context := Some CbStop\<rparr>"
    using assms(1) by (simp add: loop_Submit_def split: if_splits)
  moreover have "ends_unstarted (Some CbStop)" by simp
  ultimately show ?thesis by blast
qed (use assms(1) in \<open>simp add: interrupt_handler_def split: if_splits\<close>)+

lemma upstream_inv:
  assumes "http_inv s" "http_step lc encode a s = Inr s'" "a = HttpRegister \<or> a = HttpStart b \<or> a = HttpFail e \<or> a = HttpStop \<or> a = HttpInterrupt"
  shows "http_inv s'"
proof -
  consider "s' = s" | "\<not> h_invoked s" "h_handler s = NoHandler" "s' = s\<lparr>h_handler := Registered\<rparr>"
    | "h_handler s = Installed" "s' = s\<lparr>h_handler := Ran, h_interrupt_context := True\<rparr>"
    | cb where "\<not> h_invoked s" "ends_unstarted (Some cb) \<or> cb = CbStart" "s' = s\<lparr>h_invoked := True, h_context := Some cb\<rparr>"
    | "\<not> h_invoked s" "s' = s\<lparr>h_invoked := True, h_handler := Installed, h_context := Some CbStart\<rparr>"
    using upstream_cases [OF assms(2,3)] by blast
  then have "progress s' \<and> http_submitted s' \<and> h_active s' = h_active s \<and> hc_handles s' = hc_handles s \<and> h_started s' = h_started s \<and> h_completed s' = h_completed s \<and>
    hc_easy s' = hc_easy s \<and> hc_multi s' = hc_multi s"
  proof cases
    case 3
    then show ?thesis using assms(1) by (simp add: http_inv_def progress_def http_submitted_def split: if_splits)
  next
    case 4
    then show ?thesis using assms(1) by (cases "h_handler s") (auto simp: http_inv_def progress_def http_submitted_def)
  next
    case 5
    then show ?thesis using assms(1) by (cases "h_handler s") (auto simp: http_inv_def progress_def http_submitted_def)
  qed (use assms(1) in \<open>auto simp: http_inv_def progress_def http_submitted_def\<close>)
  with assms(1) show ?thesis by (simp add: http_inv_def)
qed

lemma unstarted_inv:
  assumes "http_inv s" "h_context s = Some cb" "ends_unstarted (Some cb)"
  shows "http_inv (k_call Stop (s\<lparr>h_context := None, h_completed := True\<rparr>))" "cb \<noteq> CbTriggered \<Longrightarrow> http_inv (k_call c (s\<lparr>h_context := None\<rparr>))" "\<not> h_completed s"
proof -
  have i: "progress s" "http_submitted s" "\<not> h_started s" "\<not> h_completed s" "h_calls s = []" "h_handler s \<notin> {Installed, Ran}"
    using assms by (cases "h_handler s"; simp add: http_inv_def http_submitted_def)+
  show "\<not> h_completed s" by fact
  have "progress (k_call Stop (s\<lparr>h_context := None, h_completed := True\<rparr>))" using i by (simp add: progress_def k_call_def)
  moreover have "http_submitted (k_call Stop (s\<lparr>h_context := None, h_completed := True\<rparr>))"
    using i assms(2) by (cases "h_handler s") (simp_all add: http_submitted_def k_call_def)
  ultimately show "http_inv (k_call Stop (s\<lparr>h_context := None, h_completed := True\<rparr>))" using assms(1) i by (simp add: http_inv_def k_call_def)
  have "progress (k_call c (s\<lparr>h_context := None\<rparr>))" using i assms(2) by (simp add: progress_def http_submitted_def k_call_def)
  moreover have "http_submitted (k_call c (s\<lparr>h_context := None\<rparr>))"
    using i assms(2) by (cases "h_handler s") (simp_all add: http_submitted_def k_call_def)
  ultimately show "http_inv (k_call c (s\<lparr>h_context := None\<rparr>))" using assms(1) i by (simp add: http_inv_def k_call_def)
qed

lemma http_run_inv:
  assumes "http_inv s" "http_run lc encode init adding added s = Inr s'"
  shows "http_inv s'"
proof (cases "h_context s")
  case (Some cb)
  show ?thesis
  proof (cases "ends_unstarted (Some cb)")
    case True
    note u = unstarted_inv [OF assms(1) Some True]
    show ?thesis using True assms(2) Some u by (cases cb) (auto simp: http_run_def triggered_callback_def)
  next
    case False
    have "cb \<notin> {CbNext, CbDone}" using assms(1) Some by (auto simp: http_inv_def http_submitted_def)
    then have "cb = CbStart" using False by (cases cb) auto
    then show ?thesis using assms Some start_callback_inv [OF assms(1)] by (simp add: http_run_def)
  qed
qed (use assms in \<open>simp add: http_run_def\<close>)

lemma http_step_inv:
  assumes "http_inv s" "http_step lc encode a s = Inr s'"
  shows "http_inv s'"
proof (cases a)
  case (HttpRun init adding added)
  then show ?thesis using assms http_run_inv by auto
next
  case (HttpRunInterrupt removing removed)
  then show ?thesis using assms interrupt_inv by (auto split: if_splits)
next
  case (HttpTimer t)
  show ?thesis
  proof (cases "h_active s")
    case True
    have i: "h_started s" "hc_easy s \<noteq> Freed" using assms(1) True by (auto simp: http_inv_def progress_def)
    have "http_inv (s\<lparr>h_active := False\<rparr>)" using assms(1) by (rule http_inv_core) (use assms(1) in \<open>simp_all add: http_inv_def\<close>)
    then show ?thesis using HttpTimer True assms(2) i socket_action_inv [of "s\<lparr>h_active := False\<rparr>"] by (simp add: timer_callback_def)
  qed (use HttpTimer assms in simp)
next
  case (HttpPoll p status events t)
  show ?thesis
  proof (cases "hc_handles s p")
    case (Some h)
    then have "h_started s" "hc_easy s \<noteq> Freed" using assms(1) by (auto simp: http_inv_def)
    then show ?thesis using HttpPoll Some assms socket_action_inv [OF assms(1)]
      by (cases h) (auto simp: poll_callback_def poll_handle_at_def)
  qed (use HttpPoll assms in simp)
next
  case HttpTimerClosed
  then show ?thesis using assms closed_inv [OF assms(1)] by (auto split: option.splits)
next
  case (HttpPollClosed p)
  show ?thesis
  proof (cases "s' = s")
    case False
    then have "hc_handles s p \<noteq> None" "s' = s\<lparr>hc_handles := (hc_handles s)(p := None)\<rparr>"
      using HttpPollClosed assms(2) by (auto split: option.splits poll_handle.splits)
    then show ?thesis using assms(1) by (intro http_inv_core [OF assms(1)]) (auto simp: http_inv_def)
  qed (use assms in simp)
qed (use assms upstream_inv in blast)+

text \<open>
  C24. The continuation is completed at most once. It waits for a callback that was submitted, for the end of its transfer or for its timer to be closed, until it is. When it is completed it may be destructed, unless the
  certificate could not be encoded.
\<close>

theorem http_completes_once:
  assumes "star (\<lambda>s s'. \<exists>a. http_step lc encode a s = Inr s') (HTTP request Allocated Allocated) s"
  shows "length (h_calls s) \<le> 1 \<and> (h_invoked s \<and> h_calls s = [] \<longrightarrow> h_context s \<noteq> None \<or> h_started s \<and> \<not> h_completed s \<or> h_closing s \<noteq> None) \<and>
    (h_calls s \<noteq> [] \<and> hc_easy s \<noteq> Freed \<longrightarrow> HTTP_destruct s = Inr ())"
proof -
  have "http_inv (HTTP request Allocated Allocated)" by (simp add: http_inv_def progress_def http_submitted_def HTTP_def)
  then have i: "http_inv s" using star_invariant [OF assms, where P = http_inv] http_step_inv by blast
  then show ?thesis by (auto simp: http_inv_def progress_def http_submitted_def HTTP_destruct_def curl_cleanup_def split: if_splits)
qed

end
