(* ===== verification/Http_Sockets.thy ===== *)
theory Http_Sockets
  imports Http_Theorems
begin

text \<open>
  What the eventual of \<^verbatim>\<open>http.h\<close> delivers when a transfer ends, and the invariant of its poll handles: as long as libcurl stops watching only sockets that it watches, its calls run and keep the handles, \<^verbatim>\<open>polls_\<close> and the assignments in step.
\<close>

section \<open>The response\<close>

fun header_data :: "curl_call \<Rightarrow> string" where
  "header_data (CurlHeader data) = data"
| "header_data _ = []"

fun body_data :: "curl_call \<Rightarrow> string" where
  "body_data (CurlWrite data) = data"
| "body_data _ = []"

lemma curl_calls_data:
  assumes "curl_calls cs s = Inr s'"
  shows "b_data (hc_headers_buffer s') = b_data (hc_headers_buffer s) @ concat (map header_data cs)"
    "b_data (hc_body_buffer s') = b_data (hc_body_buffer s) @ concat (map body_data cs)"
proof -
  have "b_data (hc_headers_buffer s') = b_data (hc_headers_buffer s) @ concat (map header_data cs) \<and>
    b_data (hc_body_buffer s') = b_data (hc_body_buffer s) @ concat (map body_data cs)"
    using assms
  proof (induction cs arbitrary: s)
    case (Cons c cs)
    then obtain s1 where 1: "run_call c s = Inr s1" "curl_calls cs s1 = Inr s'" by auto
    have "b_data (hc_headers_buffer s1) = b_data (hc_headers_buffer s) @ header_data c \<and> b_data (hc_body_buffer s1) = b_data (hc_body_buffer s) @ body_data c"
      using 1(1) by (cases c) (auto simp: timer_function_def write_function_def header_function_def Buffer_append_string_def describe_def Let_def quiet_def dest!: socket_function_quiet)
    then show ?case using Cons.IH [OF 1(2)] by simp
  qed simp
  then show "b_data (hc_headers_buffer s') = b_data (hc_headers_buffer s) @ concat (map header_data cs)"
    "b_data (hc_body_buffer s') = b_data (hc_body_buffer s) @ concat (map body_data cs)" by simp_all
qed

lemma take_message_more [simp]:
  "hc_headers_buffer (take_message m s) = hc_headers_buffer s" "hc_body_buffer (take_message m s) = hc_body_buffer s"
  "hc_code (take_message (MsgDone 0 code) s) = code"
  by (auto simp: take_message_def split: curl_msg.split)

text \<open>What the continuation is completed with.\<close>

definition http_outcome :: "libcurl \<Rightarrow> curl_msg \<Rightarrow> string \<Rightarrow> string \<Rightarrow> call" where
  "http_outcome lc m raw body =
     (case m of MsgDone result code \<Rightarrow>
        if result = 0 then Start (response_val \<lparr>rs_code = code, rs_headers = parse_headers raw, rs_body = body\<rparr>)
        else Fail (RuntimeError (lc_strerror lc result))
      | MsgOther \<Rightarrow> Fail (RuntimeError (lc_strerror lc CURLE_ABORTED_BY_CALLBACK)))"

lemma check_multi_info_outcome:
  assumes "check_multi_info msg rcs r s = Inr s1" "h_error s = 0" "h_calls s = []"
  shows "\<exists>m. msg = Some m \<and> h_closing s1 = Some close_cb.CloseStart \<and> h_calls (finish_callback lc s1) =
      [http_outcome lc m (b_data (hc_headers_buffer s) @ concat (map header_data rcs)) (b_data (hc_body_buffer s) @ concat (map body_data rcs))]"
proof -
  obtain m s3 s4 where p: "msg = Some m" "remove_handle rcs r (take_message m s) = Inr s3" "close_polls s3 = Inr s4" "close_timer close_cb.CloseStart s4 = Inr s1"
    "core s4 = core (take_message m s)"
    using check_multi_info_parts [OF assms(1)] by metis
  obtain s2 where c: "curl_calls rcs (take_message m s) = Inr s2" "s3 = s2\<lparr>hc_transfer := False\<rparr>"
    using p(2) by (auto simp: remove_handle_def)
  note d = curl_calls_data [OF c(1)]
  have q: "quiet s3 s4" by (rule close_polls_quiet [OF p(3)])
  have s1: "s1 = s4\<lparr>h_active := False, h_closing := Some close_cb.CloseStart\<rparr>" using p(4) by (auto simp: close_timer_def uv_close_def)
  have b: "b_data (hc_headers_buffer s1) = b_data (hc_headers_buffer s) @ concat (map header_data rcs)" "b_data (hc_body_buffer s1) = b_data (hc_body_buffer s) @ concat (map body_data rcs)"
    using d q c(2) s1 by (simp_all add: quiet_def)
  have e: "h_error s1 = msg_error m" "h_calls s1 = []" "hc_code s1 = hc_code (take_message m s)"
    using coreD [OF p(5)] s1 assms(2,3) by simp_all
  show ?thesis
    using p(1) s1 b e by (cases m) (auto simp: http_outcome_def finish_callback_def Extract_def k_call_def msg_error_def Let_def)
qed

text \<open>
  C25. When libcurl reports that no transfer is left, in a call from the timer or from a poll handle, the timer is closed and then the continuation is completed: with the response, whose headers are parsed from all that libcurl
  has passed to the header function and whose body is all that it has passed to the write function, or with the error of the transfer.
\<close>

theorem http_response:
  assumes "star (\<lambda>s s'. \<exists>a. http_step lc encode a s = Inr s') (HTTP request Allocated Allocated) s"
    and "a \<in> {HttpTimer (Turn cs n msg rcs r), HttpPoll p status events (Turn cs n msg rcs r)}"
    and "http_step lc encode a s = Inr s1" "\<not> h_completed s" "h_completed s1"
  shows "\<exists>m s2. msg = Some m \<and> http_step lc encode HttpTimerClosed s1 = Inr s2 \<and> h_calls s2 =
     [http_outcome lc m (b_data (hc_headers_buffer s) @ concat (map header_data (cs @ rcs))) (b_data (hc_body_buffer s) @ concat (map body_data (cs @ rcs)))]"
proof -
  have "http_inv (HTTP request Allocated Allocated)" by (simp add: http_inv_def progress_def http_submitted_def HTTP_def)
  then have i: "http_inv s" using star_invariant [OF assms(1), where P = http_inv] http_step_inv by blast
  have "\<exists>b k fl. h_started s \<and> socket_action k fl (Turn cs n msg rcs r) (s\<lparr>h_active := b\<rparr>) = Inr s1"
  proof (cases "a = HttpTimer (Turn cs n msg rcs r)")
    case True
    then have "h_active s" using assms(3-5) by (auto split: if_splits)
    then show ?thesis using True assms(3) i by (auto simp: http_inv_def timer_callback_def)
  next
    case False
    then have a: "a = HttpPoll p status events (Turn cs n msg rcs r)" using assms(2) by simp
    then obtain k ev where h: "hc_handles s p = Some (PollActive k ev)" using assms(3-5) by (auto split: option.splits poll_handle.splits)
    then have "h_started s" using i by (auto simp: http_inv_def)
    moreover have "s\<lparr>h_active := h_active s\<rparr> = s" by simp
    ultimately show ?thesis using a h assms(3) by (fastforce simp: poll_callback_def poll_handle_at_def intro!: exI [of _ "h_active s"])
  qed
  then obtain b k fl s' where s': "h_started s" "curl_calls cs (s\<lparr>h_active := b, hc_actions := hc_actions s @ [(k, fl)]\<rparr>) = Inr s'"
    "(if n = 0 then check_multi_info msg rcs r s' else Inr s') = Inr s1"
    by (auto simp: socket_action_def)
  have c: "core s' = core s" using curl_calls_calm [OF s'(2)] by (simp add: calm_def)
  then have n: "n = 0" using s'(3) assms(4,5) coreD(2) [OF c] by (auto split: if_splits)
  have j: "h_error s' = 0" "h_calls s' = []" using i s'(1) assms(4) coreD [OF c] by (auto simp: http_inv_def progress_def)
  obtain m where m: "msg = Some m" "h_closing s1 = Some close_cb.CloseStart" "h_calls (finish_callback lc s1) =
      [http_outcome lc m (b_data (hc_headers_buffer s') @ concat (map header_data rcs)) (b_data (hc_body_buffer s') @ concat (map body_data rcs))]"
    using check_multi_info_outcome [of msg rcs r s' s1 lc] s'(3) n j by auto
  then show ?thesis using curl_calls_data [OF s'(2)] by simp
qed

section \<open>Sockets\<close>

text \<open>
  What libcurl promises: it asks to stop watching a socket only if it has asked to watch it before. \<open>K\<close> are the sockets that are watched.
\<close>

fun watched :: "curl_what \<Rightarrow> nat \<Rightarrow> nat set \<Rightarrow> nat set" where
  "watched POLL_NONE k K = K"
| "watched POLL_REMOVE k K = K - {k}"
| "watched _ k K = insert k K"

fun calls_ok :: "curl_call list \<Rightarrow> nat set \<Rightarrow> bool" where
  "calls_ok [] K = True"
| "calls_ok (CurlSocket what k i a st r # cs) K \<longleftrightarrow> i = 0 \<and> a = 0 \<and> st = 0 \<and> r = 0 \<and> (what = POLL_REMOVE \<longrightarrow> k \<in> K) \<and> calls_ok cs (watched what k K)"
| "calls_ok (c # cs) K = calls_ok cs K"

text \<open>Every handle that is not closed is in \<^verbatim>\<open>polls_\<close>, once, and assigned to its socket, and nothing else is.\<close>

definition polls_inv :: "'cert http \<Rightarrow> bool" where
  "polls_inv s \<longleftrightarrow> distinct (hc_polls s) \<and>
     (\<forall>p. p \<in> set (hc_polls s) \<longleftrightarrow> (\<exists>h. hc_handles s p = Some h \<and> \<not> poll_closing h)) \<and>
     (\<forall>k p. hc_assigned s k = Some p \<longleftrightarrow> (\<exists>h. hc_handles s p = Some h \<and> \<not> poll_closing h \<and> poll_socket h = k)) \<and>
     (\<forall>p. hc_allocated s \<le> p \<longrightarrow> hc_handles s p = None)"

lemma polls_inv_cong:
  assumes "hc_polls s' = hc_polls s" "hc_handles s' = hc_handles s" "hc_assigned s' = hc_assigned s" "hc_allocated s' = hc_allocated s"
  shows "polls_inv s' = polls_inv s"
  using assms by (simp add: polls_inv_def)

lemma poll_set_runs:
  assumes "hc_handles s p = Some h" "\<not> poll_closing h"
  shows "poll_set p f s = Inr (s\<lparr>hc_handles := (hc_handles s)(p \<mapsto> f (poll_socket h))\<rparr>)"
  using assms by (simp add: poll_set_def poll_handle_at_def)

lemma poll_set_inv:
  assumes "polls_inv s" "hc_handles s p = Some h" "\<not> poll_closing h" "\<not> poll_closing h'" "poll_socket h' = poll_socket h"
  shows "polls_inv (s\<lparr>hc_handles := (hc_handles s)(p \<mapsto> h')\<rparr>)"
  using assms unfolding polls_inv_def by (auto split: if_splits)

lemma new_poll_runs:
  assumes "polls_inv s" "hc_assigned s k = None"
  shows "\<exists>p s'. new_poll k 0 0 s = Inr (p, s') \<and> polls_inv s' \<and> hc_handles s' p = Some (PollIdle k) \<and> hc_assigned s' = (hc_assigned s)(k \<mapsto> p)"
proof -
  let ?p = "hc_allocated s"
  let ?s = "s\<lparr>hc_allocated := ?p + 1, hc_polls := hc_polls s @ [?p], hc_handles := (hc_handles s)(?p \<mapsto> PollIdle k), hc_assigned := (hc_assigned s)(k \<mapsto> ?p)\<rparr>"
  have n: "hc_handles s ?p = None" using assms(1) by (simp add: polls_inv_def)
  then have "?p \<notin> set (hc_polls s)" "\<And>k. hc_assigned s k \<noteq> Some ?p" using assms(1) unfolding polls_inv_def by auto
  moreover have "\<And>p h. hc_handles s p = Some h \<Longrightarrow> poll_socket h = k \<Longrightarrow> poll_closing h" using assms unfolding polls_inv_def by (metis option.distinct(1))
  ultimately have "polls_inv ?s" using assms(1) n unfolding polls_inv_def by auto
  then show ?thesis by (auto simp: new_poll_def Let_def)
qed

lemma watch_runs:
  assumes "polls_inv s"
  shows "\<exists>s'. watch_socket what k 0 0 0 0 s = Inr s' \<and> polls_inv s' \<and> dom (hc_assigned s') = insert k (dom (hc_assigned s))"
proof -
  have "\<exists>p s1 h. (case hc_assigned s k of None \<Rightarrow> new_poll k 0 0 s | Some p \<Rightarrow> Inr (p, s)) = Inr (p, s1) \<and> polls_inv s1 \<and> hc_handles s1 p = Some h \<and>
      \<not> poll_closing h \<and> dom (hc_assigned s1) = insert k (dom (hc_assigned s))"
  proof (cases "hc_assigned s k")
    case None
    then show ?thesis using new_poll_runs [OF assms None] by fastforce
  next
    case (Some p)
    then obtain h where "hc_handles s p = Some h" "\<not> poll_closing h" using assms unfolding polls_inv_def by blast
    then show ?thesis using Some assms by auto
  qed
  then obtain p s1 h where 1: "(case hc_assigned s k of None \<Rightarrow> new_poll k 0 0 s | Some p \<Rightarrow> Inr (p, s)) = Inr (p, s1)" "polls_inv s1" "hc_handles s1 p = Some h"
      "\<not> poll_closing h" "dom (hc_assigned s1) = insert k (dom (hc_assigned s))" by blast
  let ?g = "PollActive (poll_socket h) (what_events what)"
  have i: "polls_inv (s1\<lparr>hc_handles := (hc_handles s1)(p \<mapsto> ?g)\<rparr>)" by (rule poll_set_inv [OF 1(2-4)]) simp_all
  have "watch_socket what k 0 0 0 0 s = Inr (s1\<lparr>hc_handles := (hc_handles s1)(p \<mapsto> ?g)\<rparr>)"
    using 1 by (cases h) (simp_all add: watch_socket_def poll_set_runs poll_handle_at_def)
  with i 1(5) show ?thesis by simp
qed

lemma unwatch_runs:
  assumes "polls_inv s" "hc_assigned s k = Some p"
  shows "\<exists>s'. unwatch_socket k 0 s = Inr s' \<and> polls_inv s' \<and> dom (hc_assigned s') = dom (hc_assigned s) - {k}"
proof -
  obtain h where h: "hc_handles s p = Some h" "\<not> poll_closing h" "poll_socket h = k" using assms unfolding polls_inv_def by blast
  have a: "\<And>j q. hc_assigned s j = Some q \<longleftrightarrow> (\<exists>h. hc_handles s q = Some h \<and> \<not> poll_closing h \<and> poll_socket h = j)" using assms(1) unfolding polls_inv_def by blast
  let ?s = "s\<lparr>hc_handles := (hc_handles s)(p \<mapsto> PollClosing k), hc_polls := remove1 p (hc_polls s), hc_assigned := (hc_assigned s)(k := None)\<rparr>"
  have "unwatch_socket k 0 s = Inr ?s" using assms(2) h by (simp add: unwatch_socket_def poll_set_runs)
  moreover have u: "\<And>q h. hc_handles s q = Some h \<Longrightarrow> \<not> poll_closing h \<Longrightarrow> poll_socket h = k \<Longrightarrow> q = p"
    using assms unfolding polls_inv_def by (metis option.inject)
  have "polls_inv ?s"
    unfolding polls_inv_def
  proof (intro conjI allI impI)
    show "distinct (hc_polls ?s)" using assms(1) by (simp add: polls_inv_def)
    show "q \<in> set (hc_polls ?s) \<longleftrightarrow> (\<exists>h. hc_handles ?s q = Some h \<and> \<not> poll_closing h)" for q
      using assms(1) by (cases "q = p") (auto simp: polls_inv_def)
    show "hc_assigned ?s j = Some q \<longleftrightarrow> (\<exists>h. hc_handles ?s q = Some h \<and> \<not> poll_closing h \<and> poll_socket h = j)" for j q
    proof (cases "q = p")
      case True
      have "hc_assigned s j = Some p \<longrightarrow> j = k" using h a by auto
      with True show ?thesis by auto
    next
      case False
      with u a show ?thesis by (cases "j = k") auto
    qed
    show "hc_handles ?s q = None" if "hc_allocated ?s \<le> q" for q
      using assms(1) h(1) that by (cases "q = p") (auto simp: polls_inv_def)
  qed
  ultimately show ?thesis by auto
qed

lemma curl_calls_run:
  assumes "polls_inv s" "calls_ok (cs @ ds) (dom (hc_assigned s))"
  shows "\<exists>s'. curl_calls cs s = Inr s' \<and> polls_inv s' \<and> calls_ok ds (dom (hc_assigned s'))"
  using assms
proof (induction cs arbitrary: s)
  case (Cons c cs)
  have "\<exists>s1. run_call c s = Inr s1 \<and> polls_inv s1 \<and> calls_ok (cs @ ds) (dom (hc_assigned s1))"
  proof (cases c)
    case (CurlSocket what k i a st r)
    then have z: "i = 0" "a = 0" "st = 0" "r = 0" and r: "what = POLL_REMOVE \<Longrightarrow> k \<in> dom (hc_assigned s)" and w: "calls_ok (cs @ ds) (watched what k (dom (hc_assigned s)))"
      using Cons.prems(2) by auto
    show ?thesis
    proof (cases what)
      case POLL_REMOVE
      then obtain p where "hc_assigned s k = Some p" using r by blast
      from unwatch_runs [OF Cons.prems(1) this] show ?thesis using CurlSocket z w POLL_REMOVE by (auto simp: socket_function_def)
    qed (use CurlSocket z w Cons.prems(1) watch_runs [OF Cons.prems(1), of what k] in \<open>auto simp: socket_function_def\<close>)
  qed (use Cons.prems in \<open>auto simp: timer_function_def write_function_def header_function_def Let_def polls_inv_def\<close>)
  then show ?case using Cons.IH by fastforce
qed simp

definition all_closing :: "'cert http \<Rightarrow> bool" where
  "all_closing s \<longleftrightarrow> hc_polls s = [] \<and> (\<forall>p h. hc_handles s p = Some h \<longrightarrow> poll_closing h)"

lemma close_each_runs:
  assumes "distinct ps" "\<forall>p \<in> set ps. \<exists>h. hc_handles s p = Some h \<and> \<not> poll_closing h"
  shows "\<exists>s'. close_each ps s = Inr s' \<and> (\<forall>p h. hc_handles s' p = Some h \<longrightarrow> poll_closing h \<or> p \<notin> set ps \<and> hc_handles s p = Some h)"
  using assms
proof (induction ps arbitrary: s)
  case (Cons p ps)
  then obtain h where h: "hc_handles s p = Some h" "\<not> poll_closing h" by auto
  let ?s = "s\<lparr>hc_handles := (hc_handles s)(p \<mapsto> PollClosing (poll_socket h))\<rparr>"
  have "rbind (stop_if_active p s) (uv_poll_close p) = Inr ?s"
    using h by (cases h) (simp_all add: stop_if_active_def poll_handle_at_def poll_set_def)
  then have c: "close_each (p # ps) s = close_each ps ?s" by (cases "stop_if_active p s") simp_all
  have "\<forall>q \<in> set ps. \<exists>h. hc_handles ?s q = Some h \<and> \<not> poll_closing h" using Cons.prems by auto
  then obtain s' where s': "close_each ps ?s = Inr s'" "\<forall>q h. hc_handles s' q = Some h \<longrightarrow> poll_closing h \<or> q \<notin> set ps \<and> hc_handles ?s q = Some h"
    using Cons.IH [of ?s] Cons.prems(1) by auto
  have "poll_closing g \<or> q \<notin> set (p # ps) \<and> hc_handles s q = Some g" if "hc_handles s' q = Some g" for q g
    using s'(2) that by (cases "q = p") fastforce+
  then show ?case using c s'(1) by metis
qed simp

lemma close_polls_runs:
  assumes "polls_inv s"
  shows "\<exists>s'. close_polls s = Inr s' \<and> all_closing s'"
proof -
  have "distinct (hc_polls s)" "\<forall>p \<in> set (hc_polls s). \<exists>h. hc_handles s p = Some h \<and> \<not> poll_closing h" using assms unfolding polls_inv_def by auto
  from close_each_runs [OF this] obtain s' where s': "close_each (hc_polls s) s = Inr s'"
    "\<forall>p h. hc_handles s' p = Some h \<longrightarrow> poll_closing h \<or> p \<notin> set (hc_polls s) \<and> hc_handles s p = Some h" by blast
  then have "all_closing (s'\<lparr>hc_polls := []\<rparr>)" using assms unfolding all_closing_def polls_inv_def by auto
  with s'(1) show ?thesis by (simp add: close_polls_def)
qed

end
