(* ===== verification/Http_Safety.thy ===== *)
theory Http_Safety
  imports Http_Sockets
begin

text \<open>
  No check of the eventual of \<^verbatim>\<open>http.h\<close> fails when libcurl keeps its word; a transfer as a run of the machine, which the witnesses use; and three defects.
\<close>

section \<open>No check fails\<close>

fun is_socket :: "curl_call \<Rightarrow> bool" where
  "is_socket (CurlSocket what k i a st r) = True"
| "is_socket _ = False"

fun turn_ok :: "curl_turn \<Rightarrow> nat set \<Rightarrow> bool" where
  "turn_ok (Turn cs n msg rcs r) K \<longleftrightarrow> calls_ok (cs @ (if n = 0 then rcs else [])) K \<and> (n = 0 \<longrightarrow> msg \<noteq> None \<and> r = 0)"

text \<open>
  libuv and libcurl succeed, libcurl has a message when no transfer is left, and it makes its calls as it promises. When the transfer is interrupted, it does not call the socket function.
\<close>

fun act_ok :: "http_act \<Rightarrow> 'cert http \<Rightarrow> bool" where
  "act_ok (HttpRun init adding added) s \<longleftrightarrow> init = 0 \<and> added = 0 \<and> calls_ok adding {}"
| "act_ok (HttpRunInterrupt removing removed) s \<longleftrightarrow> removed = 0 \<and> (\<forall>c \<in> set removing. \<not> is_socket c)"
| "act_ok (HttpTimer t) s \<longleftrightarrow> turn_ok t (dom (hc_assigned s))"
| "act_ok (HttpPoll p status events t) s \<longleftrightarrow> turn_ok t (dom (hc_assigned s))"
| "act_ok _ s \<longleftrightarrow> True"

definition libcurl_ok :: "libcurl \<Rightarrow> 'cert request \<Rightarrow> bool" where
  "libcurl_ok lc r \<longleftrightarrow> (\<forall>opt. lc_setopt lc opt = 0) \<and> (\<forall>h. lc_slist_append lc h) \<and> (rq_method r = POST \<longrightarrow> (\<exists>q. post_query lc r = Inr q)) \<and>
     finite (dom (rq_headers r)) \<and> card (dom (rq_headers r)) \<le> 1"

lemma set_options_run: "libcurl_ok lc r \<Longrightarrow> set_options lc opts s = Inr (s\<lparr>hc_options := hc_options s @ opts\<rparr>)"
  by (induction opts arbitrary: s) (simp_all add: set_option_def libcurl_ok_def)

lemma set_method_runs:
  assumes "libcurl_ok lc (hc_request s)"
  shows "\<exists>os fs. set_method lc s = Inr (s\<lparr>hc_options := os, hc_fields := fs\<rparr>)"
proof (cases "rq_method (hc_request s)")
  case GET
  then have "set_method lc s = Inr (s\<lparr>hc_options := hc_options s @ [HTTPGET], hc_fields := hc_fields s\<rparr>)" using assms by (simp add: set_method_def set_option_def libcurl_ok_def)
  then show ?thesis by blast
next
  case POST
  then obtain q where "post_query lc (hc_request s) = Inr q" using assms by (auto simp: libcurl_ok_def)
  then have "set_method lc s = Inr (s\<lparr>hc_options := hc_options s @ [HTTPPOST, POSTFIELDS q], hc_fields := Some q\<rparr>)"
    using POST assms by (simp add: set_method_def set_option_def libcurl_ok_def)
  then show ?thesis by blast
qed

lemma set_headers_runs:
  assumes "libcurl_ok lc (hc_request s)" "hc_headers s = []"
  shows "\<exists>os hs. set_headers lc s = Inr (s\<lparr>hc_options := os, hc_headers := hs\<rparr>)"
proof -
  have "curl_header_list (lc_slist_append lc) [] (entries (rq_headers (hc_request s))) = Inr (map (\<lambda>(key, v). key @ '': '' @ v) (entries (rq_headers (hc_request s))))"
    using assms(1) by (intro one_header_passes) (simp_all add: libcurl_ok_def)
  then have "set_headers lc s = Inr (s\<lparr>hc_options := hc_options s @ [HTTPHEADER (map (\<lambda>(key, v). key @ '': '' @ v) (entries (rq_headers (hc_request s))))],
      hc_headers := map (\<lambda>(key, v). key @ '': '' @ v) (entries (rq_headers (hc_request s)))\<rparr>)"
    using assms by (simp add: set_headers_def set_option_def libcurl_ok_def)
  then show ?thesis by blast
qed

lemma no_sockets:
  assumes "polls_inv s" "all_closing s"
  shows "dom (hc_assigned s) = {}"
  using assms unfolding polls_inv_def all_closing_def by (metis dom_empty option.exhaust subset_empty subsetI domD)

lemma start_transfer_runs:
  assumes "libcurl_ok lc (hc_request s)" "hc_headers s = []" "polls_inv s" "all_closing s" "calls_ok adding {}"
  shows "\<exists>s'. start_transfer lc 0 adding 0 s = Inr s' \<and> polls_inv s'"
proof -
  define r where "r = hc_request s"
  note lc = assms(1) [folded r_def]
  let ?s1 = "s\<lparr>hc_options := hc_options s @ [SOCKETDATA, SOCKETFUNCTION, TIMERDATA, TIMERFUNCTION] @ (case rq_verify_peer r of None \<Rightarrow> [] | Some verify \<Rightarrow> [SSL_VERIFYPEER verify])\<rparr>"
  obtain os fs where 2: "set_method lc ?s1 = Inr (?s1\<lparr>hc_options := os, hc_fields := fs\<rparr>)" using set_method_runs [of lc ?s1] assms(1) by auto
  let ?s2 = "?s1\<lparr>hc_options := os, hc_fields := fs\<rparr>"
  obtain os' hs where 3: "set_headers lc ?s2 = Inr (?s2\<lparr>hc_options := os', hc_headers := hs\<rparr>)" using set_headers_runs [of lc ?s2] assms(1,2) by auto
  let ?s3 = "?s2\<lparr>hc_options := os', hc_headers := hs\<rparr>"
  let ?os = "os' @ [URL (rq_uri r), WRITEDATA, WRITEFUNCTION, HEADERDATA, HEADERFUNCTION, FOLLOWLOCATION, TIMEOUT_MS (timeout_ms (rq_timeout r)), NOSIGNAL]"
  let ?s4 = "?s3\<lparr>hc_options := ?os, hc_transfer := True\<rparr>"
  have "polls_inv ?s4" using assms(3) by (simp add: polls_inv_def)
  moreover have "calls_ok (adding @ []) (dom (hc_assigned ?s4))" using assms(5) no_sockets [OF assms(3,4)] by simp
  ultimately obtain s' where s': "curl_calls adding ?s4 = Inr s'" "polls_inv s'" using curl_calls_run [of ?s4 adding "[]"] by blast
  have "start_transfer lc 0 adding 0 s = curl_calls adding ?s4"
    using 2 3 unfolding start_transfer_def Let_def r_def [symmetric] set_options_run [OF lc] by (cases "curl_calls adding ?s4") simp_all
  with s' show ?thesis by simp
qed

lemma socket_action_runs:
  assumes "polls_inv s" "turn_ok t (dom (hc_assigned s))" "h_closing s = None" "\<not> h_closed s" "\<not> h_completed s"
  shows "\<exists>s'. socket_action k fl t s = Inr s' \<and> (if h_completed s' then all_closing s' else polls_inv s')"
proof -
  obtain cs n msg rcs r where t: "t = Turn cs n msg rcs r" by (cases t)
  have "polls_inv (s\<lparr>hc_actions := hc_actions s @ [(k, fl)]\<rparr>)" using assms(1) by (simp add: polls_inv_def)
  then obtain s1 where 1: "curl_calls cs (s\<lparr>hc_actions := hc_actions s @ [(k, fl)]\<rparr>) = Inr s1" "polls_inv s1" "calls_ok (if n = 0 then rcs else []) (dom (hc_assigned s1))"
    using curl_calls_run [of "s\<lparr>hc_actions := hc_actions s @ [(k, fl)]\<rparr>" cs "if n = 0 then rcs else []"] assms(2) t by auto
  have c: "core s1 = core s" using curl_calls_calm [OF 1(1)] by (simp add: calm_def)
  show ?thesis
  proof (cases "n = 0")
    case False
    then show ?thesis using t 1 coreD(2) [OF c] assms(5) by (simp add: socket_action_def)
  next
    case True
    obtain m where m: "msg = Some m" and r: "r = 0" using assms(2) t True by auto
    have p: "hc_polls (take_message m s1) = hc_polls s1" "hc_handles (take_message m s1) = hc_handles s1" "hc_assigned (take_message m s1) = hc_assigned s1"
      "hc_allocated (take_message m s1) = hc_allocated s1" by (auto simp: take_message_def split: curl_msg.split)
    have "polls_inv (take_message m s1)" using 1(2) polls_inv_cong [OF p] by simp
    then obtain s2 where 2: "curl_calls rcs (take_message m s1) = Inr s2" "polls_inv s2" using curl_calls_run [of "take_message m s1" rcs "[]"] 1(3) True p(3) by auto
    have "polls_inv (s2\<lparr>hc_transfer := False\<rparr>)" using 2(2) by (simp add: polls_inv_def)
    then obtain s3 where 3: "close_polls (s2\<lparr>hc_transfer := False\<rparr>) = Inr s3" "all_closing s3" using close_polls_runs by blast
    have d: "core s3 = core (take_message m s1)" using curl_calls_calm [OF 2(1)] close_polls_calm [OF 3(1)] by (simp add: calm_def)
    have e: "h_closing s3 = None" "\<not> h_closed s3" "h_completed s3"
      using coreD [OF d] coreD [OF c] assms(3,4) by (auto simp: take_message_def split: curl_msg.split)
    let ?s4 = "s3\<lparr>h_active := False, h_closing := Some close_cb.CloseStart\<rparr>"
    have "check_multi_info msg rcs r s1 = rbind (remove_handle rcs r (take_message m s1)) (\<lambda>s. rbind (close_polls s) (close_timer close_cb.CloseStart))"
      using m by (simp add: check_multi_info_def take_message_def Let_def)
    also have "\<dots> = Inr ?s4" using 2(1) 3(1) e r by (simp add: remove_handle_def close_timer_def uv_close_def)
    finally have "socket_action k fl t s = Inr ?s4" using t 1(1) True by (simp add: socket_action_def)
    moreover have "all_closing ?s4" using 3(2) by (simp add: all_closing_def)
    ultimately show ?thesis using e(3) by simp
  qed
qed

lemma plain_calls_run:
  assumes "\<forall>c \<in> set cs. \<not> is_socket c"
  shows "\<exists>s'. curl_calls cs s = Inr s' \<and> hc_polls s' = hc_polls s \<and> hc_handles s' = hc_handles s"
  using assms
proof (induction cs arbitrary: s)
  case (Cons c cs)
  then obtain s1 where "run_call c s = Inr s1" "hc_polls s1 = hc_polls s" "hc_handles s1 = hc_handles s"
    by (cases c) (auto simp: timer_function_def write_function_def header_function_def Let_def)
  then show ?case using Cons by fastforce
qed simp

lemma interrupt_runs:
  assumes "polls_inv s" "h_started s" "\<not> h_completed s" "h_error s = 0" "h_closing s = None" "\<not> h_closed s" "\<forall>c \<in> set removing. \<not> is_socket c"
  shows "\<exists>s'. http_interrupt_callback removing 0 s = Inr s' \<and> h_completed s' \<and> all_closing s'"
proof -
  have "polls_inv (s\<lparr>h_completed := True\<rparr>)" using assms(1) by (simp add: polls_inv_def)
  then obtain s1 where 1: "close_polls (s\<lparr>h_completed := True\<rparr>) = Inr s1" "all_closing s1" using close_polls_runs by blast
  have c: "core s1 = core (s\<lparr>h_completed := True\<rparr>)" using close_polls_calm [OF 1(1)] by (simp add: calm_def)
  let ?s2 = "s1\<lparr>h_active := False, h_closing := Some CloseStop\<rparr>"
  obtain s3 where 3: "curl_calls removing ?s2 = Inr s3" "hc_polls s3 = hc_polls ?s2" "hc_handles s3 = hc_handles ?s2" using plain_calls_run [OF assms(7)] by blast
  have "core s3 = core ?s2" using curl_calls_calm [OF 3(1)] by (simp add: calm_def)
  then have "h_completed s3" using coreD(2) [OF c] by (auto dest: coreD(2))
  moreover have "close_timer CloseStop s1 = Inr ?s2" using coreD [OF c] assms(5,6) by (simp add: close_timer_def uv_close_def)
  ultimately show ?thesis using assms(2-4) 1 3 by (auto simp: http_interrupt_callback_def remove_handle_def all_closing_def)
qed


definition safe :: "'cert request \<Rightarrow> 'cert http \<Rightarrow> bool" where
  "safe r s \<longleftrightarrow> http_inv s \<and> (if h_completed s then all_closing s else polls_inv s) \<and> (\<not> h_started s \<longrightarrow> hc_headers s = [] \<and> all_closing s) \<and>
     hc_easy s \<noteq> Null \<and> hc_multi s \<noteq> Null \<and> hc_request s = r"

definition goes_on :: "'cert http \<Rightarrow> 'cert http res \<Rightarrow> bool" where
  "goes_on s x \<longleftrightarrow> (\<exists>s'. x = Inr s' \<and> (if h_completed s' then all_closing s' else polls_inv s') \<and> (\<not> h_started s' \<longrightarrow> hc_headers s' = [] \<and> all_closing s') \<and>
     hc_easy s' \<noteq> Null \<and> hc_multi s' \<noteq> Null \<and> hc_request s' = hc_request s)"

lemma goes_on_same:
  assumes "safe r s" "hc_polls s' = hc_polls s" "hc_handles s' = hc_handles s" "hc_assigned s' = hc_assigned s" "hc_allocated s' = hc_allocated s" "hc_headers s' = hc_headers s"
    "h_completed s' = h_completed s \<or> h_completed s' \<and> \<not> h_started s" "h_started s' = h_started s" "hc_easy s' = hc_easy s" "hc_multi s' = hc_multi s" "hc_request s' = hc_request s"
  shows "goes_on s (Inr s')"
  using assms polls_inv_cong [OF assms(2-5)] by (auto simp: goes_on_def safe_def all_closing_def)

lemma upstream_safe:
  assumes "safe r s" "a = HttpRegister \<or> a = HttpStart b \<or> a = HttpFail e \<or> a = HttpStop \<or> a = HttpInterrupt"
  shows "goes_on s (http_step lc encode a s)"
proof -
  have i: "http_submitted s" using assms(1) by (simp add: safe_def http_inv_def)
  have "\<exists>s'. http_step lc encode a s = Inr s'"
    using assms(2)
  proof (elim disjE)
    assume "a = HttpInterrupt"
    then show ?thesis using i by (cases "h_handler s") (auto simp: http_submitted_def interrupt_handler_def)
  qed (use i in \<open>auto simp: http_submitted_def http_Start_def start_handle_def loop_Submit_def\<close>)
  then obtain s' where s': "http_step lc encode a s = Inr s'" by blast
  have "goes_on s (Inr s')" using upstream_cases [OF s' assms(2)] by (intro goes_on_same [OF assms(1)]) auto
  with s' show ?thesis by simp
qed

lemma start_safe:
  assumes "safe r s" "libcurl_ok lc r" "h_context s = Some CbStart" "calls_ok adding {}"
  shows "goes_on s (http_start_callback lc encode 0 adding 0 (s\<lparr>h_context := None\<rparr>))"
proof (cases "h_completed s")
  case True
  then show ?thesis using goes_on_same [OF assms(1), of "s\<lparr>h_context := None\<rparr>"] by (simp add: http_start_callback_def)
next
  case False
  let ?s = "s\<lparr>h_context := None, h_started := True\<rparr>"
  have i: "\<not> h_started s" "h_error s = 0" "hc_easy s \<noteq> Null" "hc_multi s \<noteq> Null" "hc_request s = r" "hc_headers s = []" "all_closing s" "polls_inv s"
    using assms(1,3) False by (auto simp: safe_def http_inv_def http_submitted_def progress_def)
  have t: "goes_on s (start_transfer lc 0 adding 0 (?s\<lparr>hc_options := os\<rparr>))" for os
  proof -
    have "polls_inv (?s\<lparr>hc_options := os\<rparr>)" "all_closing (?s\<lparr>hc_options := os\<rparr>)" using i by (simp_all add: polls_inv_def all_closing_def)
    then obtain s' where s': "start_transfer lc 0 adding 0 (?s\<lparr>hc_options := os\<rparr>) = Inr s'" "polls_inv s'"
      using start_transfer_runs [of lc "?s\<lparr>hc_options := os\<rparr>" adding] assms(2,4) i by auto
    then have "core s' = core ?s" using start_transfer_core by fastforce
    then show ?thesis using s' i False by (auto simp: goes_on_def dest: coreD)
  qed
  show ?thesis
  proof (cases "rq_certificate r")
    case None
    then show ?thesis using t [of "hc_options s"] False i by (simp add: http_start_callback_def Let_def)
  next
    case (Some cert)
    show ?thesis
    proof (cases "encode cert")
      case None
      then show ?thesis using Some False i by (simp add: http_start_callback_def Let_def goes_on_def k_call_def all_closing_def)
    next
      case (Some pem)
      have "set_option lc (CAINFO_BLOB pem) ?s = Inr (?s\<lparr>hc_options := hc_options s @ [CAINFO_BLOB pem]\<rparr>)" using assms(2) by (simp add: set_option_def libcurl_ok_def)
      then show ?thesis using Some \<open>rq_certificate r = Some cert\<close> t [of "hc_options s @ [CAINFO_BLOB pem]"] False i by (simp add: http_start_callback_def Let_def)
    qed
  qed
qed

lemma run_safe:
  assumes "safe r s" "libcurl_ok lc r" "calls_ok adding {}"
  shows "goes_on s (http_run lc encode 0 adding 0 s)"
proof (cases "h_context s")
  case None
  then show ?thesis using goes_on_same [OF assms(1), of s] by (simp add: http_run_def)
next
  case (Some cb)
  have i: "http_submitted s" using assms(1) by (simp add: safe_def http_inv_def)
  have n: "\<not> h_started s" using i Some by (simp add: http_submitted_def)
  show ?thesis
  proof (cases cb)
    case CbStart
    then show ?thesis using start_safe [OF assms(1,2) _ assms(3)] Some by (simp add: http_run_def)
  next
    case CbTriggered
    then show ?thesis using Some n goes_on_same [OF assms(1), of "s\<lparr>h_context := None\<rparr>"] goes_on_same [OF assms(1), of "k_call Stop (s\<lparr>h_context := None, h_completed := True\<rparr>)"]
      by (simp add: http_run_def triggered_callback_def k_call_def Let_def)
  next
    case (CbFail e)
    then show ?thesis using Some goes_on_same [OF assms(1), of "k_call (Fail e) (s\<lparr>h_context := None\<rparr>)"] by (simp add: http_run_def k_call_def)
  next
    case CbStop
    then show ?thesis using Some goes_on_same [OF assms(1), of "k_call Stop (s\<lparr>h_context := None\<rparr>)"] by (simp add: http_run_def k_call_def)
  qed (use i Some in \<open>simp_all add: http_submitted_def\<close>)
qed

lemma ended_same: "ended e cb s s' \<Longrightarrow> h_started s' = h_started s \<and> hc_easy s' = hc_easy s \<and> hc_multi s' = hc_multi s \<and> hc_request s' = hc_request s"
  by (auto simp: ended_def core_def)

lemma turn_safe:
  assumes "safe r s" "h_started s" "\<not> h_completed s" "turn_ok t (dom (hc_assigned s))"
  shows "goes_on s (socket_action k fl t (s\<lparr>h_active := b\<rparr>))"
proof -
  let ?s = "s\<lparr>h_active := b\<rparr>"
  have p: "polls_inv ?s" "h_closing ?s = None" "\<not> h_closed ?s" using assms(1,3) by (auto simp: safe_def http_inv_def progress_def polls_inv_def)
  obtain s' where s': "socket_action k fl t ?s = Inr s'" "if h_completed s' then all_closing s' else polls_inv s'"
    using socket_action_runs [OF p(1) _ p(2,3), of t k fl] assms(3,4) by auto
  have "h_started s' = h_started s \<and> hc_easy s' = hc_easy s \<and> hc_multi s' = hc_multi s \<and> hc_request s' = hc_request s"
  proof -
    obtain cs n msg rcs rr where t: "t = Turn cs n msg rcs rr" by (cases t)
    obtain s1 where 1: "curl_calls cs (?s\<lparr>hc_actions := hc_actions s @ [(k, fl)]\<rparr>) = Inr s1" "(if n = 0 then check_multi_info msg rcs rr s1 else Inr s1) = Inr s'"
      using s'(1) t by (auto simp: socket_action_def)
    have c: "core s1 = core s" using curl_calls_calm [OF 1(1)] by (simp add: calm_def)
    have "h_error s1 = 0" using assms(1,3) coreD(4) [OF c] by (auto simp: safe_def http_inv_def progress_def)
    then have "s' = s1 \<or> (\<exists>m. ended (msg_error m) close_cb.CloseStart s1 s')"
      using 1(2) check_multi_info_ended(3) [of msg rcs rr s1 s'] by (cases "n = 0") auto
    then show ?thesis using coreD [OF c] ended_same by metis
  qed
  with s' assms show ?thesis by (auto simp: goes_on_def safe_def)
qed

lemma interrupt_safe:
  assumes "safe r s" "\<forall>c \<in> set removing. \<not> is_socket c" "h_interrupt_context s"
  shows "goes_on s (http_interrupt_callback removing 0 (s\<lparr>h_interrupt_context := False\<rparr>))"
proof (cases "h_started s \<and> \<not> h_completed s")
  case True
  let ?s = "s\<lparr>h_interrupt_context := False\<rparr>"
  have p: "polls_inv ?s" "h_error ?s = 0" "h_closing ?s = None" "\<not> h_closed ?s" using assms(1) True by (auto simp: safe_def http_inv_def progress_def polls_inv_def)
  obtain s' where s': "http_interrupt_callback removing 0 ?s = Inr s'" "h_completed s'" "all_closing s'"
    using interrupt_runs [OF p(1) _ _ p(2-4) assms(2)] True by auto
  obtain s1 s2 where q: "close_polls (?s\<lparr>h_completed := True\<rparr>) = Inr s1" "close_timer CloseStop s1 = Inr s2" "remove_handle removing 0 s2 = Inr s'"
    using s'(1) True by (auto simp: http_interrupt_callback_def)
  have "core s' = core (?s\<lparr>h_completed := True, h_closing := Some CloseStop\<rparr>)"
    using close_polls_calm [OF q(1)] close_timer_ended(4) [OF q(2)] remove_handle_calm [OF q(3)] by (simp add: calm_def core_def)
  then show ?thesis using s' assms(1) True by (auto simp: goes_on_def safe_def dest: coreD)
next
  case False
  have i: "http_submitted s" "progress s" using assms(1) by (simp_all add: safe_def http_inv_def)
  have "\<not> h_started s \<longrightarrow> \<not> h_completed s \<and> h_error s = 0" using i assms(3) by (cases "h_handler s") (auto simp: http_submitted_def progress_def)
  then show ?thesis
    using False goes_on_same [OF assms(1), of "s\<lparr>h_interrupt_context := False\<rparr>"] goes_on_same [OF assms(1), of "k_call Stop (s\<lparr>h_interrupt_context := False, h_completed := True\<rparr>)"]
    by (auto simp: http_interrupt_callback_def k_call_def)
qed

lemma step_goes_on:
  assumes "safe r s" "libcurl_ok lc r" "act_ok a s"
  shows "goes_on s (http_step lc encode a s)"
proof (cases a)
  case (HttpRun init adding added)
  then show ?thesis using run_safe [OF assms(1,2)] assms(3) by simp
next
  case (HttpRunInterrupt removing removed)
  then show ?thesis using interrupt_safe [OF assms(1)] assms(3) goes_on_same [OF assms(1), of s] by simp
next
  case (HttpTimer t)
  then show ?thesis using turn_safe [OF assms(1), where b = False and k = None and fl = 0 and t = t] assms(1,3) goes_on_same [OF assms(1), of s]
    by (auto simp: timer_callback_def safe_def http_inv_def)
next
  case (HttpPoll p status events t)
  show ?thesis
  proof (cases "\<exists>k ev. hc_handles s p = Some (PollActive k ev)")
    case True
    then obtain k ev where h: "hc_handles s p = Some (PollActive k ev)" by blast
    then have "\<not> all_closing s" unfolding all_closing_def by (metis poll_closing.simps(3))
    then have "h_started s" "\<not> h_completed s" using assms(1) by (auto simp: safe_def split: if_splits)
    from turn_safe [OF assms(1) this, where b = "h_active s" and k = "Some k" and fl = "cselect_flags status events" and t = t]
    show ?thesis using HttpPoll h assms(3) by (simp add: poll_callback_def poll_handle_at_def)
  next
    case False
    then have "http_step lc encode a s = Inr s" using HttpPoll by (auto split: option.split poll_handle.split)
    then show ?thesis using goes_on_same [OF assms(1), of s] by simp
  qed
next
  case HttpTimerClosed
  then show ?thesis
    using goes_on_same [OF assms(1), of s] goes_on_same [OF assms(1), of "stopped_callback s"] goes_on_same [OF assms(1), of "finish_callback lc s"]
    by (auto simp: stopped_callback_def finish_callback_def k_call_def Extract_def Let_def split: option.split)
next
  case (HttpPollClosed p)
  show ?thesis
  proof (cases "\<exists>k. hc_handles s p = Some (PollClosing k)")
    case True
    then obtain k where h: "hc_handles s p = Some (PollClosing k)" by blast
    let ?s = "s\<lparr>hc_handles := (hc_handles s)(p := None)\<rparr>"
    have "polls_inv s \<Longrightarrow> polls_inv ?s" using h unfolding polls_inv_def by (auto split: if_splits)
    moreover have "all_closing s \<Longrightarrow> all_closing ?s" by (auto simp: all_closing_def)
    ultimately have "goes_on s (Inr ?s)" using assms(1) by (auto simp: goes_on_def safe_def)
    then show ?thesis using HttpPollClosed h by simp
  next
    case False
    then have "http_step lc encode a s = Inr s" using HttpPollClosed by (auto split: option.split poll_handle.split)
    then show ?thesis using goes_on_same [OF assms(1), of s] by simp
  qed
qed (use upstream_safe [OF assms(1)] in blast)+

lemma step_safe:
  assumes "libcurl_ok lc r" "safe r s" "act_ok a s" "http_step lc encode a s = Inr s'"
  shows "safe r s'"
proof -
  have "http_inv s'" using http_step_inv [OF _ assms(4)] assms(2) by (simp add: safe_def)
  moreover have "goes_on s (Inr s')" using step_goes_on [OF assms(2,1,3)] assms(4) by metis
  ultimately show ?thesis using assms(2) by (simp add: goes_on_def safe_def)
qed

lemma safe_reach:
  assumes "libcurl_ok lc request" "star (\<lambda>s s'. \<exists>a. act_ok a s \<and> http_step lc encode a s = Inr s') (HTTP request Allocated Allocated) s"
  shows "safe request s"
proof -
  have "safe request (HTTP request Allocated Allocated)"
    by (simp add: safe_def http_inv_def progress_def http_submitted_def HTTP_def polls_inv_def all_closing_def)
  then show ?thesis using star_invariant [OF assms(2), where P = "safe request"] step_safe [OF assms(1)] by blast
qed



section \<open>A transfer\<close>

definition sample_curl :: libcurl where
  "sample_curl = \<lparr>lc_setopt = (\<lambda>opt. 0), lc_url_set = Some, lc_url_append = (\<lambda>url part. Some (url @ part)), lc_url_query = Some, lc_slist_append = (\<lambda>h. True), lc_strerror = (\<lambda>e. ''error'')\<rparr>"

definition sample_request :: "unit request" where
  "sample_request = \<lparr>rq_uri = ''http://a/'', rq_method = GET, rq_headers = Map.empty, rq_body = [], rq_timeout = 0, rq_fields = [], rq_verify_peer = None, rq_certificate = None\<rparr>"

definition sample_start :: "http_act list" where
  "sample_start = [HttpRegister, HttpStart False, HttpRun 0 [CurlTimer 0] 0, HttpTimer (Turn [CurlSocket POLL_IN 5 0 0 0 0] 1 None [] 0)]"

definition sample_end :: http_act where
  "sample_end = HttpPoll 0 0 1 (Turn [CurlHeader ''A: 1'', CurlWrite ''hi''] 0 (Some (MsgDone 0 200)) [CurlSocket POLL_REMOVE 5 0 0 0 0] 0)"

definition checked_step :: "http_act \<Rightarrow> unit http \<Rightarrow> unit http res" where
  "checked_step a s = (if act_ok a s then http_step sample_curl (\<lambda>c. None) a s else Inl NoSuchMethod)"

lemma checked_star:
  assumes "run_acts checked_step as s = Inr s'"
  shows "star (\<lambda>s s'. \<exists>a. act_ok a s \<and> http_step sample_curl (\<lambda>c. None) a s = Inr s') s s'"
    "star (\<lambda>s s'. \<exists>a. http_step sample_curl (\<lambda>c. None) a s = Inr s') s s'"
proof -
  have s: "star (\<lambda>s s'. \<exists>a. checked_step a s = Inr s') s s'" by (rule run_acts_star [OF assms])
  have "star (\<lambda>s s'. \<exists>a. act_ok a s \<and> http_step sample_curl (\<lambda>c. None) a s = Inr s') (id s) (id s')"
    by (rule star_map [OF s]) (auto simp: checked_step_def split: if_splits)
  then show "star (\<lambda>s s'. \<exists>a. act_ok a s \<and> http_step sample_curl (\<lambda>c. None) a s = Inr s') s s'" by simp
  have "star (\<lambda>s s'. \<exists>a. http_step sample_curl (\<lambda>c. None) a s = Inr s') (id s) (id s')"
    by (rule star_map [OF s]) (auto simp: checked_step_def split: if_splits)
  then show "star (\<lambda>s s'. \<exists>a. http_step sample_curl (\<lambda>c. None) a s = Inr s') s s'" by simp
qed

lemmas sample_defs = sample_start_def sample_end_def checked_step_def http_Start_def start_handle_def loop_Submit_def http_run_def http_start_callback_def start_transfer_def
  set_method_def set_headers_def set_option_def sample_curl_def sample_request_def HTTP_def entries_def timer_function_def timer_callback_def socket_action_def
  socket_function_def watch_socket_def new_poll_def poll_handle_at_def poll_set_def

lemma sample_started:
  "\<exists>s. run_acts checked_step sample_start (HTTP sample_request Allocated Allocated) = Inr s \<and> h_started s \<and> \<not> h_completed s \<and> h_invoked s \<and> h_calls s = [] \<and>
    hc_handles s = [0 \<mapsto> PollActive 5 1] \<and> hc_assigned s = [5 \<mapsto> 0] \<and> hc_polls s = [0] \<and> b_data (hc_headers_buffer s) = [] \<and> b_data (hc_body_buffer s) = [] \<and>
    h_error s = 0 \<and> h_closing s = None \<and> \<not> h_closed s \<and> h_handler s = Installed \<and> \<not> h_interrupt_context s"
  by (simp add: sample_defs Let_def Buffer_default_def)


theorem http_completes_once_witness:
  "\<exists>s. run_acts checked_step sample_start (HTTP sample_request Allocated Allocated) = Inr s \<and> h_started s \<and> length (h_calls s) \<le> 1"
proof -
  obtain s where s: "run_acts checked_step sample_start (HTTP sample_request Allocated Allocated) = Inr s" "h_started s" using sample_started by blast
  with http_completes_once [OF checked_star(2) [OF s(1)]] show ?thesis by blast
qed

lemma sample_curl_ok: "libcurl_ok sample_curl sample_request"
  by (simp add: libcurl_ok_def sample_curl_def sample_request_def)


lemma sample_ended:
  assumes "http_step sample_curl (\<lambda>c. None) sample_end s = Inr s1" "hc_handles s = [0 \<mapsto> PollActive 5 1]"
  shows "h_completed s1"
proof -
  obtain s2 where s2: "check_multi_info (Some (MsgDone 0 200)) [CurlSocket POLL_REMOVE 5 0 0 0 0] 0 s2 = Inr s1"
    using assms by (auto simp: sample_end_def poll_callback_def poll_handle_at_def socket_action_def)
  then obtain s3 s4 where "close_timer close_cb.CloseStart s4 = Inr s1" "core s4 = core (take_message (MsgDone 0 200) s2)" using check_multi_info_parts by (metis option.inject)
  then show ?thesis using close_timer_ended(4) by (auto simp: take_message_def core_def)
qed

theorem http_response_witness:
  "\<exists>s s1 s2. run_acts checked_step sample_start (HTTP sample_request Allocated Allocated) = Inr s \<and> http_step sample_curl (\<lambda>c. None) sample_end s = Inr s1 \<and>
    http_step sample_curl (\<lambda>c. None) HttpTimerClosed s1 = Inr s2 \<and>
    h_calls s2 = [Start (response_val \<lparr>rs_code = 200, rs_headers = parse_headers ''A: 1'', rs_body = ''hi''\<rparr>)]"
proof -
  obtain s where s: "run_acts checked_step sample_start (HTTP sample_request Allocated Allocated) = Inr s" "hc_assigned s = [5 \<mapsto> 0]" "hc_handles s = [0 \<mapsto> PollActive 5 1]"
    "\<not> h_completed s" "b_data (hc_headers_buffer s) = []" "b_data (hc_body_buffer s) = []" using sample_started by blast
  have "act_ok sample_end s" using s(2) by (simp add: sample_end_def)
  then obtain s1 where s1: "http_step sample_curl (\<lambda>c. None) sample_end s = Inr s1"
    using step_goes_on [OF safe_reach [OF sample_curl_ok checked_star(1) [OF s(1)]] sample_curl_ok] by (auto simp: goes_on_def)
  have e: "sample_end \<in> {HttpTimer (Turn [CurlHeader ''A: 1'', CurlWrite ''hi''] 0 (Some (MsgDone 0 200)) [CurlSocket POLL_REMOVE 5 0 0 0 0] 0),
      HttpPoll 0 0 1 (Turn [CurlHeader ''A: 1'', CurlWrite ''hi''] 0 (Some (MsgDone 0 200)) [CurlSocket POLL_REMOVE 5 0 0 0 0] 0)}"
    by (simp add: sample_end_def)
  from http_response [OF checked_star(2) [OF s(1)] e s1 s(4) sample_ended [OF s1 s(3)]] s s1 show ?thesis
    by (auto simp: http_outcome_def)
qed

section \<open>Defects\<close>

text \<open>
  When a certificate cannot be encoded, the handles of libcurl are freed by hand while their owners still hold them, and the transfer counts as started but is never closed: the destructor fails its check, and after it
  the handles would be freed again.
\<close>

lemma failed_certificate_aborts:
  assumes "rq_certificate r = Some cert" "encode cert = None"
  shows "\<exists>s. run_acts (http_step lc encode) [HttpStart False, HttpRun 0 [] 0] (HTTP r Allocated Allocated) = Inr s \<and>
    h_calls s = [Fail (RuntimeError ''Failed to PEM encode certificate'')] \<and> HTTP_destruct s = Inl (CheckFailed ''!started_ || closed_'') \<and>
    hc_easy s = Freed \<and> hc_multi s = Freed"
  using assms by (simp add: http_Start_def start_handle_def loop_Submit_def http_run_def http_start_callback_def HTTP_def HTTP_destruct_def k_call_def Let_def)

text \<open>The interrupt closes the poll handles before the transfer is removed from libcurl, which has them still assigned: if it then stops watching a socket, the handle is closed twice.\<close>

lemma interrupt_closes_twice:
  "run_acts (http_step sample_curl (\<lambda>c. None)) (sample_start @ [HttpInterrupt, HttpRunInterrupt [CurlSocket POLL_REMOVE 5 0 0 0 0] 0]) (HTTP sample_request Allocated Allocated) =
     Inl (CheckFailed ''!uv__is_closing(handle)'')"
  by (simp add: sample_defs Let_def Buffer_default_def interrupt_handler_def http_interrupt_callback_def close_polls_def stop_if_active_def close_timer_def uv_close_def
      remove_handle_def unwatch_socket_def)

text \<open>A request with two headers aborts the process when it is started.\<close>

lemma two_headers_abort_transfer:
  assumes "libcurl_ok lc (sample_request\<lparr>rq_headers := Map.empty\<rparr>)" "2 \<le> card (dom m)"
  shows "run_acts (http_step lc encode) [HttpStart False, HttpRun 0 [] 0] (HTTP (sample_request\<lparr>rq_headers := m\<rparr>) Allocated Allocated) =
    Inl (CheckFailed ''not expecting to have already allocated headers'')"
proof -
  have "curl_header_list (lc_slist_append lc) [] (entries m) = Inl (CheckFailed ''not expecting to have already allocated headers'')"
    using assms by (intro two_headers_abort) (simp_all add: libcurl_ok_def)
  then show ?thesis using assms(1)
    by (simp add: http_Start_def start_handle_def loop_Submit_def http_run_def http_start_callback_def start_transfer_def set_method_def set_headers_def set_option_def
        HTTP_def sample_request_def libcurl_ok_def Let_def)
qed

text \<open>So does a \<^verbatim>\<open>POST\<close> without fields to a URL that has no query.\<close>

lemma post_without_query_aborts:
  assumes "rq_fields r = []" "lc_url_set lc (rq_uri r) = Some url" "lc_url_query lc url = None"
  shows "post_query lc r = Inl (CheckFailed ''curl_url_get(...) == CURLUE_OK'')"
  using assms by (simp add: post_query_def post_fields_def)

end
